(* ===== verification/Prelude.thy ===== *)
theory Prelude
  imports Main "HOL-Library.Word"
begin

text \<open>
  Shared vocabulary of the development: the C types the module uses, nginx's return
  codes, and the generic facts about lists and words that several components need.

  \<^item> \<open>u8\<close>, \<open>u16\<close>, \<open>u32\<close>, \<open>u64\<close> are the unsigned C types at their width; \<open>ngx_uint_t\<close>
    and \<open>ngx_atomic_t\<close> are 64-bit words (the module refuses to build on a narrower layout,
    see the packed breaker word in \<^verbatim>\<open>ngx_http_cache_turbo_module.h\<close>);
  \<^item> \<open>time_t\<close> is \<open>int\<close>: signed seconds. Where the source guards against overflow of its
    64-bit type, the guard is part of the definition and a lemma states what it buys;
  \<^item> a buffer of \<open>u_char\<close> is a list of \<open>u8\<close>; its \<open>size_t\<close> length is the list's length.
\<close>

unbundle bit_operations_syntax

type_synonym u8 = "8 word"
type_synonym u16 = "16 word"
type_synonym u32 = "32 word"
type_synonym u64 = "64 word"
type_synonym bytes = "u8 list"
type_synonym time_t = int

text \<open>nginx's return codes, as the module uses them.\<close>

datatype ngx_rc = NGX_OK | NGX_ERROR | NGX_AGAIN | NGX_DECLINED | NGX_DONE

named_theorems zone_simps \<open>how the zone's operations act on one field of the state\<close>
named_theorems zone_intros \<open>preservation of the zone invariant by one operation\<close>
named_theorems wire_simps \<open>reading back fields of a serialised buffer\<close>

subsection \<open>The ranges of the fixed-width integers\<close>

definition INT64_MAX :: int where "INT64_MAX = 9223372036854775807"
definition INT64_MIN :: int where "INT64_MIN = - 9223372036854775808"

definition fits_int64 :: "int \<Rightarrow> bool" where
  "fits_int64 i \<longleftrightarrow> INT64_MIN \<le> i \<and> i \<le> INT64_MAX"

lemma fits_int64I: "INT64_MIN \<le> i \<Longrightarrow> i \<le> INT64_MAX \<Longrightarrow> fits_int64 i"
  by (simp add: fits_int64_def)

lemmas int64_defs = fits_int64_def INT64_MAX_def INT64_MIN_def

subsection \<open>Options\<close>

lemma option_eqI: "(\<And>b. x = Some b \<longleftrightarrow> y = Some b) \<Longrightarrow> x = y"
  by (metis not_None_eq)

subsection \<open>Lists\<close>

lemma distinct_removeAll_notin: "a \<notin> set xs \<Longrightarrow> removeAll a xs = xs"
  by (rule removeAll_id)

lemma length_removeAll_distinct:
  "distinct xs \<Longrightarrow> a \<in> set xs \<Longrightarrow> length (removeAll a xs) = length xs - 1"
  by (simp add: distinct_remove1_removeAll [symmetric] length_remove1)

lemma butlast_removeAll_last:
  "distinct xs \<Longrightarrow> xs \<noteq> [] \<Longrightarrow> removeAll (last xs) xs = butlast xs"
  by (induction xs rule: rev_induct) auto

lemma map_filter_neq_fst:
  "map fst (filter (\<lambda>e. fst e \<noteq> a) es) = removeAll a (map fst es)"
  by (induction es) auto

lemma sum_list_removeAll_distinct:
  fixes f :: "'a \<Rightarrow> nat"
  assumes "distinct xs" and "a \<in> set xs"
  shows "sum_list (map f xs) = f a + sum_list (map f (removeAll a xs))"
  using assms by (simp add: sum_list_map_remove1 distinct_remove1_removeAll)

subsection \<open>Bitmaps\<close>

definition vbit :: "bytes \<Rightarrow> nat \<Rightarrow> bool" where
  "vbit bs j \<longleftrightarrow> bit (bs ! (j div 8)) (j mod 8)"

lemma vbit_set:
  assumes "i div 8 < length bs" and "j div 8 < length bs"
  shows "vbit (bs[i div 8 := bs ! (i div 8) OR push_bit (i mod 8) 1]) j \<longleftrightarrow> vbit bs j \<or> i = j"
proof -
  have "i mod 8 = j mod 8 \<Longrightarrow> i div 8 = j div 8 \<Longrightarrow> i = j"
    by (metis div_mod_decomp)
  then show ?thesis
    using assms by (auto simp: vbit_def nth_list_update bit_simps)
qed

subsection \<open>Words\<close>

lemma card_word_less: "card {x :: 'a::len word. x < t} = unat t"
proof -
  have "unat ` {x :: 'a word. x < t} = {..<unat t}"
  proof (intro equalityI subsetI)
    fix n assume n: "n \<in> {..<unat t}"
    then have "n < 2 ^ LENGTH('a)"
      using unsigned_less [of t] by (simp add: less_trans)
    then have "unat (word_of_nat n :: 'a word) = n"
      by (simp add: unat_of_nat)
    with n show "n \<in> unat ` {x :: 'a word. x < t}"
      by (metis (mono_tags) image_eqI lessThan_iff mem_Collect_eq word_less_nat_alt)
  qed (auto simp: word_less_nat_alt)
  moreover have "inj_on unat {x :: 'a word. x < t}"
    by (rule inj_onI) (simp add: word_unat_eq_iff)
  ultimately show ?thesis
    by (metis card_image card_lessThan)
qed

lemma unat_u8_less: "unat (b :: u8) < 256"
proof -
  have "unat b < 2 ^ LENGTH(8)" by (rule unsigned_less)
  then show ?thesis by simp
qed

lemma unat_ucast_u8:
  assumes "8 \<le> LENGTH('a::len)"
  shows "unat (ucast (b :: u8) :: 'a word) = unat b"
proof -
  have "unat b < 2 ^ 8" using unat_u8_less [of b] by simp
  also have "(2 :: nat) ^ 8 \<le> 2 ^ LENGTH('a)" using assms by (intro power_increasing) auto
  finally have "take_bit LENGTH('a) (unat b) = unat b"
    by (simp add: take_bit_nat_eq_self_iff)
  then show ?thesis by (simp add: unsigned_ucast_eq)
qed

lemma unat_mult_no_overflow:
  fixes a b :: "'a::len word"
  assumes "unat a * unat b < 2 ^ LENGTH('a)"
  shows "unat (a * b) = unat a * unat b"
  using assms by (simp add: unat_word_ariths)

lemma unat_plus_no_overflow:
  fixes a b :: "'a::len word"
  assumes "unat a + unat b < 2 ^ LENGTH('a)"
  shows "unat (a + b) = unat a + unat b"
  using assms by (simp add: unat_word_ariths)

subsection \<open>State machines that keep an invariant\<close>

text \<open>
  The contract every stateful component of the module offers its callers: a step function over
  events, an obligation the caller must meet at each event, and an invariant that every
  permitted step keeps. The facts about whole runs are proved here once.
\<close>

fun run_events :: "('s \<Rightarrow> 'e \<Rightarrow> 's) \<Rightarrow> 's \<Rightarrow> 'e list \<Rightarrow> 's" where
  "run_events step s [] = s"
| "run_events step s (e # es) = run_events step (step s e) es"

fun run_permitted :: "('s \<Rightarrow> 'e \<Rightarrow> 's) \<Rightarrow> ('s \<Rightarrow> 'e \<Rightarrow> bool) \<Rightarrow> 's \<Rightarrow> 'e list \<Rightarrow> bool" where
  "run_permitted step ok s [] = True"
| "run_permitted step ok s (e # es) = (ok s e \<and> run_permitted step ok (step s e) es)"

lemma run_events_append: "run_events step s (xs @ ys) = run_events step (run_events step s xs) ys"
  by (induction xs arbitrary: s) auto

lemma run_permitted_append:
  "run_permitted step ok s (xs @ ys) =
    (run_permitted step ok s xs \<and> run_permitted step ok (run_events step s xs) ys)"
  by (induction xs arbitrary: s) auto

locale stateful =
  fixes step :: "'s \<Rightarrow> 'e \<Rightarrow> 's"
    and ok :: "'s \<Rightarrow> 'e \<Rightarrow> bool"
    and inv :: "'s \<Rightarrow> bool"
  assumes step_inv: "inv s \<Longrightarrow> ok s e \<Longrightarrow> inv (step s e)"
begin

lemma run_inv: "inv s \<Longrightarrow> run_permitted step ok s es \<Longrightarrow> inv (run_events step s es)"
  by (induction es arbitrary: s) (auto intro: step_inv)

lemma run_prefix_inv:
  assumes "inv s" and "run_permitted step ok s (xs @ ys)"
  shows "inv (run_events step s xs)"
  using assms by (auto simp: run_permitted_append intro: run_inv)

end

locale monotone_stateful = stateful +
  fixes measure_of :: "'s \<Rightarrow> nat"
  assumes step_mono: "inv s \<Longrightarrow> ok s e \<Longrightarrow> measure_of s \<le> measure_of (step s e)"
begin

lemma run_mono:
  "inv s \<Longrightarrow> run_permitted step ok s es \<Longrightarrow> measure_of s \<le> measure_of (run_events step s es)"
proof (induction es arbitrary: s)
  case (Cons e es)
  then have "measure_of s \<le> measure_of (step s e)"
    and "measure_of (step s e) \<le> measure_of (run_events step (step s e) es)"
    by (auto intro: step_mono step_inv)
  then show ?case by simp
qed simp

end

end
