(* ===== verification/Autotune.thy ===== *)
theory Autotune
  imports Prelude
begin

text \<open>
  Live autotune: \<^verbatim>\<open>src/ngx_http_cache_turbo_autotune.c\<close>. The slice of the zone's shared
  state the autotuner reads and writes is the record \<open>at_state\<close>; counters are \<open>u64\<close> and all
  window arithmetic is on words, as in the source, so the claims below hold through
  wrap-around too. A verdict is the pair of the returned beta and \<open>*load_out\<close>.
\<close>

subsection \<open>Constants and state\<close>

definition BETA_MIN :: int where "BETA_MIN = 500"
definition BETA_MAX :: int where "BETA_MAX = 3000"
definition BETA_COST_DIVISOR :: u64 where "BETA_COST_DIVISOR = 20"
definition AT_COST_STRONG_MS :: u64 where "AT_COST_STRONG_MS = 30"
definition AT_COST_MOD_MS :: u64 where "AT_COST_MOD_MS = 10"
definition AT_MISSES_FLOOR :: u64 where "AT_MISSES_FLOOR = 100"
definition AT_HIT_RATE_CAP :: u64 where "AT_HIT_RATE_CAP = 95"
definition AT_CHURN_CAP :: u64 where "AT_CHURN_CAP = 2"
definition AT_LOAD_BASE :: int where "AT_LOAD_BASE = 1000"
definition AT_LOAD_MAX :: int where "AT_LOAD_MAX = 4000"
definition AT_LOAD_PER_MS :: u64 where "AT_LOAD_PER_MS = 100"
definition AT_INTERVAL :: time_t where "AT_INTERVAL = 30"

lemmas at_consts = BETA_MIN_def BETA_MAX_def BETA_COST_DIVISOR_def AT_COST_STRONG_MS_def
  AT_COST_MOD_MS_def AT_MISSES_FLOOR_def AT_HIT_RATE_CAP_def AT_CHURN_CAP_def
  AT_LOAD_BASE_def AT_LOAD_MAX_def AT_LOAD_PER_MS_def AT_INTERVAL_def

record at_state =
  hits :: u64
  misses :: u64
  refreshes :: u64
  cost_sum_ms :: u64
  cost_count :: u64
  autotuned_beta :: int
  autotuned_load :: int
  autotune_next :: time_t
  snap_hits :: u64
  snap_misses :: u64
  snap_refreshes :: u64
  snap_cost_sum :: u64
  snap_cost_count :: u64

subsection \<open>Operations\<close>

text \<open>\<open>ngx_http_cache_turbo_autotune_record_cost\<close>.\<close>

definition record_cost :: "int \<Rightarrow> at_state \<Rightarrow> at_state" where
  "record_cost ms s =
     (let m = (if ms < 0 then 0 else ms)
      in s\<lparr>cost_sum_ms := cost_sum_ms s + word_of_int m, cost_count := cost_count s + 1\<rparr>)"

text \<open>\<open>ngx_http_cache_turbo_autotune_verdict\<close>: the gates, then the two clamped outputs.\<close>

definition at_qualifies :: "u64 \<Rightarrow> u64 \<Rightarrow> u64 \<Rightarrow> u64 \<Rightarrow> bool" where
  "at_qualifies d_hits d_misses d_refreshes cost_ms =
     (let total = d_hits + d_misses;
          q = (if cost_ms \<ge> AT_COST_STRONG_MS \<and> d_misses \<ge> AT_MISSES_FLOOR then True
               else cost_ms \<ge> AT_COST_MOD_MS \<and> d_hits * 100 < total * AT_HIT_RATE_CAP)
      in if q \<and> d_refreshes > d_misses * AT_CHURN_CAP then False else q)"

definition clamp_int :: "int \<Rightarrow> int \<Rightarrow> int \<Rightarrow> int" where
  "clamp_int lo hi x = (if x < lo then lo else if x > hi then hi else x)"

definition autotune_verdict :: "u64 \<Rightarrow> u64 \<Rightarrow> u64 \<Rightarrow> u64 \<Rightarrow> u64 \<Rightarrow> int \<times> int" where
  "autotune_verdict d_hits d_misses d_refreshes d_cost_sum d_cost_count =
     (let total = d_hits + d_misses
      in if total < AT_MISSES_FLOOR \<or> d_cost_count = 0 then (- 1, - 1)
         else let cost_ms = d_cost_sum div d_cost_count
              in if \<not> at_qualifies d_hits d_misses d_refreshes cost_ms then (0, AT_LOAD_BASE)
                 else (clamp_int BETA_MIN BETA_MAX (sint (cost_ms * 1000 div BETA_COST_DIVISOR)),
                       clamp_int AT_LOAD_BASE AT_LOAD_MAX (sint (cost_ms * AT_LOAD_PER_MS))))"

text \<open>\<open>ngx_http_cache_turbo_autotune_recompute_locked\<close>, run under the zone mutex.\<close>

definition recompute_locked :: "at_state \<Rightarrow> at_state" where
  "recompute_locked s =
     (let (verdict, load) = autotune_verdict (hits s - snap_hits s) (misses s - snap_misses s)
            (refreshes s - snap_refreshes s) (cost_sum_ms s - snap_cost_sum s)
            (cost_count s - snap_cost_count s);
          s1 = s\<lparr>snap_hits := hits s, snap_misses := misses s, snap_refreshes := refreshes s,
                 snap_cost_sum := cost_sum_ms s, snap_cost_count := cost_count s\<rparr>
      in if verdict \<ge> 0 then s1\<lparr>autotuned_beta := verdict, autotuned_load := load\<rparr> else s1)"

text \<open>
  \<open>ngx_http_cache_turbo_autotune_maybe\<close>. The unlocked test and the test under the mutex read
  the same field; \<open>next_at_lock\<close> is what the second read sees, which another worker may have
  advanced in between.
\<close>

definition autotune_maybe_locked :: "time_t \<Rightarrow> time_t \<Rightarrow> at_state \<Rightarrow> at_state" where
  "autotune_maybe_locked now interval s =
     (if autotune_next s > now then s
      else recompute_locked (s\<lparr>autotune_next := now + interval\<rparr>))"

definition autotune_maybe :: "time_t \<Rightarrow> time_t \<Rightarrow> at_state \<Rightarrow> at_state" where
  "autotune_maybe now interval s =
     (let i = (if interval \<le> 0 then AT_INTERVAL else interval)
      in if autotune_next s > now then s else autotune_maybe_locked now i s)"

text \<open>\<open>ngx_http_cache_turbo_autotune_force\<close>.\<close>

definition autotune_force :: "at_state \<Rightarrow> at_state" where
  "autotune_force s = recompute_locked s"

text \<open>What the zone carve leaves in the slice (\<open>shm_init_zone\<close>).\<close>

definition at_init :: at_state where
  "at_init = \<lparr>hits = 0, misses = 0, refreshes = 0, cost_sum_ms = 0, cost_count = 0,
     autotuned_beta = 0, autotuned_load = 0, autotune_next = 0, snap_hits = 0, snap_misses = 0,
     snap_refreshes = 0, snap_cost_sum = 0, snap_cost_count = 0\<rparr>"

subsection \<open>The verdict\<close>

lemma clamp_int_range: "lo \<le> hi \<Longrightarrow> lo \<le> clamp_int lo hi x \<and> clamp_int lo hi x \<le> hi"
  by (simp add: clamp_int_def)

lemma clamp_int_id: "lo \<le> x \<Longrightarrow> x \<le> hi \<Longrightarrow> clamp_int lo hi x = x"
  by (simp add: clamp_int_def)

definition verdict_ok :: "int \<times> int \<Rightarrow> bool" where
  "verdict_ok v \<longleftrightarrow> v = (- 1, - 1) \<or> v = (0, AT_LOAD_BASE) \<or>
     (BETA_MIN \<le> fst v \<and> fst v \<le> BETA_MAX \<and> AT_LOAD_BASE \<le> snd v \<and> snd v \<le> AT_LOAD_MAX)"

lemma verdict_in_range: "verdict_ok (autotune_verdict h m r cs cc)"
proof -
  have "BETA_MIN \<le> BETA_MAX" and "AT_LOAD_BASE \<le> AT_LOAD_MAX"
    by (simp_all add: at_consts)
  then show ?thesis
    using clamp_int_range by (auto simp: verdict_ok_def autotune_verdict_def Let_def)
qed

text \<open>
  for every window, wrapped counters included, the verdict is one of "too little data"
  (-1, -1), "not under load" (0, baseline), or a beta inside the global band together with a
  load factor between one and four times the baseline.
\<close>

theorem autotune_verdict_ok: "verdict_ok (autotune_verdict h m r cs cc)"
  by (rule verdict_in_range)

text \<open>Without wrap-around the gates are the ones the comment states, over the naturals.\<close>

lemma at_qualifies_nat:
  assumes "unat h * 100 < 2 ^ 64" and "(unat h + unat m) * 100 < 2 ^ 64"
  shows "at_qualifies h m r c \<longleftrightarrow>
    ((30 \<le> unat c \<and> 100 \<le> unat m) \<or> (10 \<le> unat c \<and> unat h * 100 < (unat h + unat m) * 95)) \<and>
    unat r \<le> unat m * 2"
proof -
  have hm: "unat (h + m) = unat h + unat m"
    using assms by (intro unat_plus_no_overflow) simp
  have "unat (h * 100) = unat h * 100"
    using assms unat_mult_no_overflow [of h 100] by simp
  moreover have "unat ((h + m) * 95) = (unat h + unat m) * 95"
    using assms unat_mult_no_overflow [of "h + m" 95] hm by simp
  moreover have "unat (m * 2) = unat m * 2"
    using assms unat_mult_no_overflow [of m 2] by simp
  ultimately show ?thesis
    by (auto simp: at_qualifies_def Let_def at_consts word_le_nat_alt word_less_nat_alt)
qed

text \<open>The intended verdict, over the naturals.\<close>

definition verdict_spec :: "nat \<Rightarrow> nat \<Rightarrow> nat \<Rightarrow> nat \<Rightarrow> nat \<Rightarrow> int \<times> int" where
  "verdict_spec h m r cs cc =
     (if h + m < 100 \<or> cc = 0 then (- 1, - 1)
      else let c = cs div cc
           in if ((30 \<le> c \<and> 100 \<le> m) \<or> (10 \<le> c \<and> h * 100 < (h + m) * 95)) \<and> r \<le> m * 2
              then (clamp_int 500 3000 (int c * 50), clamp_int 1000 4000 (int c * 100))
              else (0, 1000))"

lemma sint_of_small: "unat (w :: u64) < 2 ^ 63 \<Longrightarrow> sint w = int (unat w)"
proof -
  assume a: "unat w < 2 ^ 63"
  then have "int (unat w) < int (2 ^ 63)" by (simp only: of_nat_less_iff)
  then have "uint w < 2 ^ 63" by (simp only: uint_nat [symmetric]) simp
  moreover have "- (2 ^ 63) \<le> uint w" by (rule order_trans [of _ 0]) simp_all
  ultimately show ?thesis
    by (simp add: sint_uint signed_take_bit_int_eq_self_iff del: uint_nat)
qed

lemma beta_of_cost:
  assumes "unat (c :: u64) < 2 ^ 32"
  shows "sint (c * 1000 div BETA_COST_DIVISOR) = int (unat c) * 50"
proof -
  have m: "unat (c * 1000) = unat c * 1000"
    using assms unat_mult_no_overflow [of c 1000] by simp
  have "unat (c * 1000 div BETA_COST_DIVISOR) = unat c * 1000 div 20"
    by (simp only: BETA_COST_DIVISOR_def unat_div m) simp
  then have "unat (c * 1000 div BETA_COST_DIVISOR) = unat c * 50"
    by (simp add: div_mult1_eq)
  then show ?thesis using assms by (simp add: sint_of_small)
qed

lemma load_of_cost:
  assumes "unat (c :: u64) < 2 ^ 32"
  shows "sint (c * AT_LOAD_PER_MS) = int (unat c) * 100"
proof -
  have "unat (c * 100) = unat c * 100"
    using assms unat_mult_no_overflow [of c 100] by simp
  then show ?thesis using assms by (simp add: sint_of_small AT_LOAD_PER_MS_def)
qed

text \<open>
  as long as a window's counters do not wrap the word arithmetic, the verdict is the
  documented one: data floor, strong or moderate cost gate, churn gate, then beta at 50 per
  millisecond and load at 100 per millisecond of average regeneration cost, each clamped.
\<close>

theorem autotune_verdict_refines:
  assumes "(unat h + unat m) * 100 < 2 ^ 64" and "unat cs < 2 ^ 32"
  shows "autotune_verdict h m r cs cc = verdict_spec (unat h) (unat m) (unat r) (unat cs) (unat cc)"
proof -
  let ?c = "cs div cc"
  have c: "unat ?c = unat cs div unat cc" by (rule unat_div)
  then have small: "unat ?c < 2 ^ 32"
    using assms(2) by (metis div_le_dividend order_le_less_trans)
  have tot: "(h + m < AT_MISSES_FLOOR) = (unat h + unat m < 100)"
    using assms unat_plus_no_overflow [of h m] by (simp add: word_less_nat_alt AT_MISSES_FLOOR_def)
  have q: "at_qualifies h m r ?c \<longleftrightarrow>
      ((30 \<le> unat ?c \<and> 100 \<le> unat m) \<or>
       (10 \<le> unat ?c \<and> unat h * 100 < (unat h + unat m) * 95)) \<and> unat r \<le> unat m * 2"
    using assms(1) by (intro at_qualifies_nat) auto
  show ?thesis
    unfolding autotune_verdict_def verdict_spec_def Let_def tot q
      beta_of_cost [OF small] load_of_cost [OF small]
    by (auto simp: c at_consts unat_0_iff)
qed

theorem autotune_verdict_refines_witness:
  "autotune_verdict 500 200 40 8000 200 = (2000, 4000)"
  using autotune_verdict_refines [of 500 200 8000 40 200] by (simp add: verdict_spec_def clamp_int_def)

subsection \<open>The published verdict, over every run\<close>

datatype at_event = CountHit | CountMiss | CountRefresh | RecordCost int
  | TuneMaybe time_t time_t | TuneForce

fun at_step :: "at_state \<Rightarrow> at_event \<Rightarrow> at_state" where
  "at_step s CountHit = s\<lparr>hits := hits s + 1\<rparr>"
| "at_step s CountMiss = s\<lparr>misses := misses s + 1\<rparr>"
| "at_step s CountRefresh = s\<lparr>refreshes := refreshes s + 1\<rparr>"
| "at_step s (RecordCost ms) = record_cost ms s"
| "at_step s (TuneMaybe now interval) = autotune_maybe now interval s"
| "at_step s TuneForce = autotune_force s"

definition published_ok :: "at_state \<Rightarrow> bool" where
  "published_ok s \<longleftrightarrow>
     (autotuned_beta s = 0 \<or> BETA_MIN \<le> autotuned_beta s \<and> autotuned_beta s \<le> BETA_MAX) \<and>
     (autotuned_load s = 0 \<or> AT_LOAD_BASE \<le> autotuned_load s \<and> autotuned_load s \<le> AT_LOAD_MAX) \<and>
     (autotuned_beta s \<noteq> 0 \<longrightarrow> autotuned_load s \<noteq> 0)"

lemma published_ok_cong:
  "autotuned_beta s = autotuned_beta t \<Longrightarrow> autotuned_load s = autotuned_load t \<Longrightarrow>
    published_ok s = published_ok t"
  by (simp add: published_ok_def)

lemma recompute_published_ok:
  assumes "published_ok s"
  shows "published_ok (recompute_locked s)"
proof -
  obtain b l where v: "autotune_verdict (hits s - snap_hits s) (misses s - snap_misses s)
      (refreshes s - snap_refreshes s) (cost_sum_ms s - snap_cost_sum s)
      (cost_count s - snap_cost_count s) = (b, l)"
    by (cases "autotune_verdict (hits s - snap_hits s) (misses s - snap_misses s)
      (refreshes s - snap_refreshes s) (cost_sum_ms s - snap_cost_sum s)
      (cost_count s - snap_cost_count s)")
  then have "verdict_ok (b, l)"
    using verdict_in_range by metis
  with assms v show ?thesis
    by (auto simp: recompute_locked_def published_ok_def verdict_ok_def at_consts)
qed

lemma recompute_frame [simp]:
  "autotune_next (recompute_locked s) = autotune_next s"
  "snap_hits (recompute_locked s) = hits s"
  "snap_misses (recompute_locked s) = misses s"
  "snap_refreshes (recompute_locked s) = refreshes s"
  "snap_cost_sum (recompute_locked s) = cost_sum_ms s"
  "snap_cost_count (recompute_locked s) = cost_count s"
  by (simp_all add: recompute_locked_def Let_def split: prod.split)

lemma autotune_maybe_published_ok:
  assumes "published_ok s"
  shows "published_ok (autotune_maybe now interval s)"
proof -
  have "published_ok (s\<lparr>autotune_next := t\<rparr>)" for t
    using assms by (simp add: published_ok_def)
  with assms show ?thesis
    by (simp add: autotune_maybe_def autotune_maybe_locked_def Let_def recompute_published_ok)
qed

lemma at_step_published_ok: "published_ok s \<Longrightarrow> published_ok (at_step s e)"
  by (cases e)
    (simp_all add: recompute_published_ok autotune_maybe_published_ok autotune_force_def,
     simp_all add: published_ok_def record_cost_def Let_def)

interpretation at: stateful at_step "\<lambda>_ _. True" published_ok
  by unfold_locales (simp add: at_step_published_ok)

lemma run_permitted_True: "run_permitted step (\<lambda>_ _. True) s es"
  by (induction es arbitrary: s) auto

text \<open>
  whatever requests, costs, clock readings and recomputes a zone sees after its carve, the
  beta and load factor a request reads are either absent (0) or inside their bands, and a beta is
  never published without a load factor.
\<close>

theorem autotune_published_in_band:
  "published_ok (run_events at_step at_init es)"
  by (rule at.run_inv) (simp_all add: published_ok_def at_init_def run_permitted_True)

text \<open>
  the throttle. A due call claims the slot \<open>interval\<close> seconds ahead (30 when the setting is
  not positive); until then every further call leaves the state alone, so at most one recompute
  happens per interval, and a recompute moves every snapshot to the counters it used.
\<close>

theorem autotune_throttled:
  assumes "autotune_next s \<le> now" and "now \<le> later"
    and "later < now + (if interval \<le> 0 then AT_INTERVAL else interval)"
  shows "autotune_maybe later interval' (autotune_maybe now interval s) =
      autotune_maybe now interval s \<and>
    snap_hits (autotune_maybe now interval s) = hits s \<and>
    snap_misses (autotune_maybe now interval s) = misses s \<and>
    snap_refreshes (autotune_maybe now interval s) = refreshes s \<and>
    snap_cost_sum (autotune_maybe now interval s) = cost_sum_ms s \<and>
    snap_cost_count (autotune_maybe now interval s) = cost_count s"
proof -
  let ?i = "if interval \<le> 0 then AT_INTERVAL else interval"
  have run: "autotune_maybe now interval s = recompute_locked (s\<lparr>autotune_next := now + ?i\<rparr>)"
    using assms(1) by (simp add: autotune_maybe_def autotune_maybe_locked_def Let_def)
  then have "later < autotune_next (autotune_maybe now interval s)"
    using assms(3) by simp
  then have "autotune_maybe later interval' (autotune_maybe now interval s) =
      autotune_maybe now interval s"
    by (simp add: autotune_maybe_def)
  then show ?thesis by (simp add: run)
qed

theorem autotune_throttled_witness:
  "autotune_maybe 129 30 (autotune_maybe 100 30 at_init) = autotune_maybe 100 30 at_init"
  using autotune_throttled [of at_init 100 129 30 30] by (simp add: at_init_def)

end
