(* ===== verification/Breaker.thy ===== *)
theory Breaker
  imports Prelude
begin

text \<open>
  The circuit breaker of \<^verbatim>\<open>src/ngx_http_cache_turbo_shm.c\<close> (\<open>brk_probe_age\<close>, \<open>breaker_state\<close>,
  \<open>breaker_record\<close>, \<open>breaker_state_str\<close>) with the packed words of
  \<^verbatim>\<open>src/ngx_http_cache_turbo_module.h\<close>. The zone's breaker fields are the record \<open>brk_st\<close>; every
  one is an \<open>ngx_atomic_t\<close>, a 64-bit word, and a cast to \<open>time_t\<close> is \<open>sint\<close>. The first part is
  the code run by one worker at a time. The second part takes the same decisions apart at their
  atomic accesses, so that any number of workers interleave between a load and the
  compare-and-set that depends on it. \<open>now\<close> is \<open>ngx_time()\<close>. The \<open>TEST_FAULTS\<close> counter is left out.
\<close>

type_synonym ngx_uint = u64

subsection \<open>The packed words\<close>

definition BREAKER_CLOSED :: ngx_uint where "BREAKER_CLOSED = 0"
definition BREAKER_OPEN :: ngx_uint where "BREAKER_OPEN = 1"
definition BREAKER_HALF_OPEN :: ngx_uint where "BREAKER_HALF_OPEN = 2"
definition BREAKER_NO_PROBE :: ngx_uint where "BREAKER_NO_PROBE = 0"
definition BREAKER_STATE_MASK :: ngx_uint where "BREAKER_STATE_MASK = 3"
definition BREAKER_PROBE_STAMP_MASK :: ngx_uint where "BREAKER_PROBE_STAMP_MASK = 0xffffffff"
definition BREAKER_PROBE_GEN_MASK :: ngx_uint where "BREAKER_PROBE_GEN_MASK = 0xffffffff"
definition BREAKER_PROBE_LEASE :: time_t where "BREAKER_PROBE_LEASE = 300"

lemmas brk_states = BREAKER_CLOSED_def BREAKER_OPEN_def BREAKER_HALF_OPEN_def

definition brk_state :: "ngx_uint \<Rightarrow> ngx_uint" where
  "brk_state w = w AND BREAKER_STATE_MASK"

definition brk_gen :: "ngx_uint \<Rightarrow> ngx_uint" where
  "brk_gen w = drop_bit 2 w"

definition brk_pack :: "ngx_uint \<Rightarrow> ngx_uint \<Rightarrow> ngx_uint" where
  "brk_pack gen st = push_bit 2 gen OR (st AND BREAKER_STATE_MASK)"

definition brk_probe_stamp :: "ngx_uint \<Rightarrow> ngx_uint" where
  "brk_probe_stamp w = w AND BREAKER_PROBE_STAMP_MASK"

definition brk_probe_gen :: "ngx_uint \<Rightarrow> ngx_uint" where
  "brk_probe_gen w = drop_bit 32 w AND BREAKER_PROBE_GEN_MASK"

definition brk_probe_pack :: "ngx_uint \<Rightarrow> ngx_uint \<Rightarrow> ngx_uint" where
  "brk_probe_pack gen stamp =
     push_bit 32 (gen AND BREAKER_PROBE_GEN_MASK) OR (stamp AND BREAKER_PROBE_STAMP_MASK)"

record brk_st =
  breaker_state_w :: u64
  breaker_fails :: u64
  breaker_window_start :: u64
  breaker_opened_at :: u64
  breaker_probe_w :: u64
  breaker_epoch :: u64
  breaker_opens :: u64

definition as_time :: "u64 \<Rightarrow> time_t" where "as_time w = sint w"
definition of_time :: "time_t \<Rightarrow> u64" where "of_time t = word_of_int t"

text \<open>The breaker's part of \<open>shm_init_zone\<close>.\<close>

definition brk_init :: "time_t \<Rightarrow> brk_st" where
  "brk_init now = \<lparr>breaker_state_w = BREAKER_CLOSED, breaker_fails = 0, breaker_window_start = 0,
     breaker_opened_at = 0, breaker_probe_w = 0, breaker_epoch = of_time now, breaker_opens = 0\<rparr>"

subsection \<open>The verdict for a request\<close>

definition brk_probe_age :: "brk_st \<Rightarrow> ngx_uint \<Rightarrow> time_t \<Rightarrow> time_t" where
  "brk_probe_age b probe_word now =
     (if now < as_time (breaker_epoch b) then 0
      else let rel = of_time (now - as_time (breaker_epoch b)) AND BREAKER_PROBE_STAMP_MASK;
               stamp = brk_probe_stamp probe_word
           in as_time ((rel - stamp) AND BREAKER_PROBE_STAMP_MASK))"

text \<open>The test of the reclaim branch, up to its compare-and-set.\<close>

definition brk_reclaimable :: "brk_st \<Rightarrow> ngx_uint \<Rightarrow> ngx_uint \<Rightarrow> time_t \<Rightarrow> time_t \<Rightarrow> bool" where
  "brk_reclaimable b word probe_word now open_for \<longleftrightarrow>
     open_for > 0 \<and> brk_probe_gen probe_word \<noteq> BREAKER_NO_PROBE \<and>
     brk_probe_gen probe_word = brk_gen word AND BREAKER_PROBE_GEN_MASK \<and>
     brk_probe_age b probe_word now \<ge> BREAKER_PROBE_LEASE"

text \<open>The next lease generation: 0 is skipped in the full and in the masked field.\<close>

definition brk_next_gen :: "ngx_uint \<Rightarrow> ngx_uint" where
  "brk_next_gen word =
     (let gen = brk_gen word + 1
      in if gen = BREAKER_NO_PROBE \<or> gen AND BREAKER_PROBE_GEN_MASK = BREAKER_NO_PROBE
         then (let gen = gen + 1 in if gen = BREAKER_NO_PROBE then 1 else gen)
         else gen)"

text \<open>\<open>ngx_atomic_cmp_set\<close> on the two contended words.\<close>

definition cas_state :: "brk_st \<Rightarrow> ngx_uint \<Rightarrow> ngx_uint \<Rightarrow> brk_st option" where
  "cas_state b old new =
     (if breaker_state_w b = old then Some (b\<lparr>breaker_state_w := new\<rparr>) else None)"

definition cas_probe :: "brk_st \<Rightarrow> ngx_uint \<Rightarrow> ngx_uint \<Rightarrow> brk_st option" where
  "cas_probe b old new =
     (if breaker_probe_w b = old then Some (b\<lparr>breaker_probe_w := new\<rparr>) else None)"

text \<open>The tail of \<open>breaker_state\<close>, from the OPEN test on: publish the probe word, then promote.\<close>

definition brk_promote ::
    "brk_st \<Rightarrow> ngx_uint \<Rightarrow> ngx_uint \<Rightarrow> ngx_uint \<Rightarrow> time_t \<Rightarrow> time_t \<Rightarrow> brk_st \<times> ngx_uint \<times> ngx_uint" where
  "brk_promote b word state probe_word now open_for =
     (if state \<noteq> BREAKER_OPEN \<or> open_for \<le> 0 then (b, state, BREAKER_NO_PROBE)
      else if now - as_time (breaker_opened_at b) < open_for
      then (b, BREAKER_OPEN, BREAKER_NO_PROBE)
      else let gen = brk_next_gen word; next = brk_pack gen BREAKER_HALF_OPEN
           in case cas_probe b probe_word
                     (brk_probe_pack gen (of_time (now - as_time (breaker_epoch b)))) of
                None \<Rightarrow> (b, BREAKER_OPEN, BREAKER_NO_PROBE)
              | Some b1 \<Rightarrow>
                  (case cas_state b1 word next of
                     None \<Rightarrow> (b1, BREAKER_OPEN, BREAKER_NO_PROBE)
                   | Some b2 \<Rightarrow> (b2, BREAKER_HALF_OPEN, gen)))"

text \<open>\<open>ngx_http_cache_turbo_shm_breaker_state\<close>: the new state, the verdict and the \<open>*probe\<close> token.\<close>

definition breaker_state :: "brk_st \<Rightarrow> time_t \<Rightarrow> time_t \<Rightarrow> brk_st \<times> ngx_uint \<times> ngx_uint" where
  "breaker_state b now open_for =
     (let word = breaker_state_w b; state = brk_state word; probe_word = breaker_probe_w b
      in if state = BREAKER_HALF_OPEN
         then (if brk_reclaimable b word probe_word now open_for
               then (case cas_state b word (brk_pack (brk_gen word) BREAKER_OPEN) of
                       None \<Rightarrow> (b, BREAKER_OPEN, BREAKER_NO_PROBE)
                     | Some b1 \<Rightarrow>
                         brk_promote (b1\<lparr>breaker_opened_at := of_time (now - open_for)\<rparr>)
                           (brk_pack (brk_gen word) BREAKER_OPEN) BREAKER_OPEN probe_word now open_for)
               else (b, BREAKER_OPEN, BREAKER_NO_PROBE))
         else brk_promote b word state probe_word now open_for)"

subsection \<open>Recording an outcome\<close>

definition brk_holds :: "ngx_uint \<Rightarrow> ngx_uint \<Rightarrow> bool" where
  "brk_holds word probe \<longleftrightarrow> brk_state word = BREAKER_HALF_OPEN \<and> probe \<noteq> BREAKER_NO_PROBE \<and>
     probe = brk_gen word"

definition brk_record_success :: "brk_st \<Rightarrow> ngx_uint \<Rightarrow> ngx_uint \<Rightarrow> brk_st" where
  "brk_record_success b word probe =
     (let b1 = b\<lparr>breaker_fails := 0\<rparr>
      in if brk_holds word probe
         then (case cas_state b1 word (brk_pack probe BREAKER_CLOSED) of None \<Rightarrow> b1 | Some b2 \<Rightarrow> b2)
         else b1)"

text \<open>The rolling window: the winner of the re-anchor clears the count.\<close>

definition brk_anchor :: "brk_st \<Rightarrow> time_t \<Rightarrow> time_t \<Rightarrow> brk_st" where
  "brk_anchor b now window =
     (if now - as_time (breaker_window_start b) \<ge> window
      then b\<lparr>breaker_window_start := of_time now, breaker_fails := 0\<rparr> else b)"

definition brk_count_failure :: "brk_st \<Rightarrow> ngx_uint \<Rightarrow> time_t \<Rightarrow> ngx_uint \<Rightarrow> brk_st" where
  "brk_count_failure b word now threshold =
     (let fails = breaker_fails b + 1; b1 = b\<lparr>breaker_fails := fails\<rparr>
      in if fails < threshold then b1
         else let b2 = b1\<lparr>breaker_opened_at := of_time now\<rparr>
              in case cas_state b2 (brk_pack (brk_gen word) BREAKER_CLOSED)
                        (brk_pack (brk_gen word) BREAKER_OPEN) of
                   None \<Rightarrow> b2
                 | Some b3 \<Rightarrow> b3\<lparr>breaker_fails := 0, breaker_opens := breaker_opens b3 + 1\<rparr>)"

text \<open>\<open>ngx_http_cache_turbo_shm_breaker_record\<close>.\<close>

definition breaker_record ::
    "brk_st \<Rightarrow> time_t \<Rightarrow> bool \<Rightarrow> ngx_uint \<Rightarrow> time_t \<Rightarrow> ngx_uint \<Rightarrow> brk_st" where
  "breaker_record b now success threshold window probe =
     (let word = breaker_state_w b; state = brk_state word
      in if success then brk_record_success b word probe
         else if brk_holds word probe
         then (let b1 = b\<lparr>breaker_opened_at := of_time now\<rparr>
               in case cas_state b1 word (brk_pack probe BREAKER_OPEN) of None \<Rightarrow> b1 | Some b2 \<Rightarrow> b2)
         else if state \<noteq> BREAKER_CLOSED \<or> threshold = 0 \<or> window \<le> 0 then b
         else brk_count_failure (brk_anchor b now window) word now threshold)"

definition breaker_state_str :: "ngx_uint \<Rightarrow> string" where
  "breaker_state_str st =
     (let state = brk_state st
      in if state = BREAKER_CLOSED then ''closed'' else if state = BREAKER_OPEN then ''open''
         else if state = BREAKER_HALF_OPEN then ''half-open'' else ''unknown'')"

subsection \<open>Facts about the packed words\<close>

lemma brk_masks:
  "BREAKER_STATE_MASK = mask 2" "BREAKER_PROBE_STAMP_MASK = mask 32" "BREAKER_PROBE_GEN_MASK = mask 32"
  by (simp_all add: BREAKER_STATE_MASK_def BREAKER_PROBE_STAMP_MASK_def BREAKER_PROBE_GEN_MASK_def
      mask_eq_exp_minus_1)

lemma brk_state_take: "brk_state w = take_bit 2 w"
  by (simp add: brk_state_def brk_masks take_bit_eq_mask)

lemma brk_pack_take: "brk_pack g s = push_bit 2 g OR take_bit 2 s"
  by (simp add: brk_pack_def brk_masks take_bit_eq_mask)

lemma brk_state_pack: "brk_state (brk_pack g s) = take_bit 2 s"
  unfolding brk_state_take brk_pack_take
  by (rule bit_eqI) (auto simp: bit_simps)

lemma brk_gen_pack: "brk_gen (brk_pack g s) = take_bit 62 g"
  unfolding brk_gen_def brk_pack_take
  by (rule bit_eqI) (auto simp: bit_simps)

lemma brk_pack_gen_state: "brk_pack (brk_gen w) (brk_state w) = w"
  unfolding brk_pack_take brk_state_take brk_gen_def
proof (rule bit_eqI)
  fix n
  have "2 \<le> n \<Longrightarrow> Suc (Suc (n - 2)) = n" by simp
  then show "bit (push_bit 2 (drop_bit 2 w) OR take_bit 2 (take_bit 2 w)) n = bit w n"
    by (auto simp: bit_simps dest: bit_imp_le_length)
qed

lemma brk_state_values [simp]:
  "take_bit 2 BREAKER_CLOSED = BREAKER_CLOSED" "take_bit 2 BREAKER_OPEN = BREAKER_OPEN"
  "take_bit 2 BREAKER_HALF_OPEN = BREAKER_HALF_OPEN"
  by (simp_all add: brk_states)

lemma brk_states_distinct [simp]:
  "BREAKER_CLOSED \<noteq> BREAKER_OPEN" "BREAKER_OPEN \<noteq> BREAKER_CLOSED"
  "BREAKER_CLOSED \<noteq> BREAKER_HALF_OPEN" "BREAKER_HALF_OPEN \<noteq> BREAKER_CLOSED"
  "BREAKER_OPEN \<noteq> BREAKER_HALF_OPEN" "BREAKER_HALF_OPEN \<noteq> BREAKER_OPEN"
  by (simp_all add: brk_states)

lemma brk_gen_bound: "unat (brk_gen w) < 2 ^ 62"
proof -
  have "unat w < 2 ^ LENGTH(64)" by (rule unsigned_less)
  moreover have "unat (brk_gen w) = drop_bit 2 (unat w)"
    unfolding brk_gen_def by (rule unat_drop_bit_eq)
  ultimately show ?thesis by (simp add: drop_bit_eq_div)
qed

lemma brk_gen_pack_small:
  assumes "unat g < 2 ^ 62"
  shows "brk_gen (brk_pack g s) = g"
proof -
  have "unat (take_bit 62 g) = take_bit 62 (unat g)" by (rule unsigned_take_bit_eq)
  also have "\<dots> = unat g" using assms by (simp add: take_bit_nat_eq_self_iff)
  finally show ?thesis by (simp add: brk_gen_pack word_unat_eq_iff)
qed

lemma brk_gen_pack_gen [simp]: "brk_gen (brk_pack (brk_gen w) s) = brk_gen w"
  by (rule brk_gen_pack_small) (rule brk_gen_bound)

text \<open>A promotion opens a strictly newer generation, never the reserved 0, and the token it hands
  out is the generation of the word it installed.\<close>

lemma brk_next_gen_newer:
  assumes "unat (brk_gen w) < 2 ^ 62 - 2"
  shows "unat (brk_gen w) < unat (brk_next_gen w)" "unat (brk_next_gen w) < 2 ^ 62"
    "brk_next_gen w \<noteq> BREAKER_NO_PROBE" "brk_next_gen w AND BREAKER_PROBE_GEN_MASK \<noteq> BREAKER_NO_PROBE"
proof -
  define g where "g = brk_gen w"
  have u1: "unat (g + 1) = unat g + 1" and u2: "unat (g + 1 + 1) = unat g + 2"
    using assms unat_plus_no_overflow [of g 1] unat_plus_no_overflow [of "g + 1" 1]
    by (simp_all add: g_def)
  have nz: "g + 1 \<noteq> 0" "g + 1 + 1 \<noteq> 0" using u1 u2 by (metis Suc_eq_plus1 add_2_eq_Suc' nat.distinct(1) unsigned_0)+
  have "unat (brk_next_gen w) = unat g + 1 \<or> unat (brk_next_gen w) = unat g + 2"
    using u1 u2 nz unfolding brk_next_gen_def g_def [symmetric] BREAKER_NO_PROBE_def Let_def by auto
  then show "unat (brk_gen w) < unat (brk_next_gen w)" "unat (brk_next_gen w) < 2 ^ 62"
    using assms by (auto simp: g_def)
  then show "brk_next_gen w \<noteq> BREAKER_NO_PROBE"
    unfolding BREAKER_NO_PROBE_def by (metis not_less_zero unsigned_0)
  have m: "x AND mask 32 = take_bit 32 x" for x :: u64 by (simp add: take_bit_eq_mask)
  have step: "take_bit 32 (x + 1) \<noteq> 0" if "take_bit 32 x = 0" for x :: u64
  proof -
    have low: "bit (take_bit 32 y) 0 = odd y" for y :: u64 by (simp add: bit_simps bit_0)
    have "even x" using low [of x] that by simp
    then have "bit (take_bit 32 (x + 1)) 0" using low [of "x + 1"] by simp
    then show ?thesis by auto
  qed
  show "brk_next_gen w AND BREAKER_PROBE_GEN_MASK \<noteq> BREAKER_NO_PROBE"
    using nz step [of "g + 1"]
    unfolding brk_next_gen_def g_def [symmetric] BREAKER_NO_PROBE_def Let_def brk_masks m by auto
qed

lemma brk_probe_gen_pack: "brk_probe_gen (brk_probe_pack g s) = g AND BREAKER_PROBE_GEN_MASK"
  unfolding brk_probe_gen_def brk_probe_pack_def brk_masks
  by (rule bit_eqI) (auto simp: bit_simps)

lemma brk_probe_stamp_pack: "brk_probe_stamp (brk_probe_pack g s) = s AND BREAKER_PROBE_STAMP_MASK"
  unfolding brk_probe_stamp_def brk_probe_pack_def brk_masks
  by (rule bit_eqI) (auto simp: bit_simps)

subsection \<open>The age of a lease\<close>

lemma uint_and_mask32: "uint ((w :: u64) AND mask 32) = uint w mod 2 ^ 32"
proof -
  have "uint (take_bit 32 w) = take_bit 32 (uint w)" by (rule unsigned_take_bit_eq)
  then show ?thesis by (simp only: take_bit_eq_mask [symmetric] take_bit_eq_mod)
qed

lemma uint_of_time: "uint (of_time t) = t mod 2 ^ 64"
  by (simp add: of_time_def uint_word_of_int)

lemma as_time_small:
  assumes "uint w < 2 ^ 63"
  shows "as_time w = uint w"
proof -
  have "0 \<le> uint w" by simp
  then have "signed_take_bit 63 (uint w) = uint w"
    using assms by (intro signed_take_bit_int_eq_self) linarith+
  then show ?thesis by (simp add: as_time_def sint_uint)
qed

lemma as_time_of_time:
  assumes "INT64_MIN \<le> t" and "t \<le> INT64_MAX"
  shows "as_time (of_time t) = t"
proof -
  have "signed_take_bit 63 t = t"
    using assms by (intro signed_take_bit_int_eq_self) (simp_all add: int64_defs)
  then show ?thesis by (simp add: as_time_def of_time_def signed_of_int)
qed

text \<open>The modular age: right for every lease younger than one wrap of the 32-bit stamp.\<close>

lemma brk_probe_age_mod:
  assumes "as_time (breaker_epoch b) \<le> now"
  shows "brk_probe_age b (brk_probe_pack g (of_time t)) now =
    (now - as_time (breaker_epoch b) - t) mod 2 ^ 32"
proof -
  define r where "r = now - as_time (breaker_epoch b)"
  let ?d = "(of_time r AND mask 32) - (of_time t AND mask 32 :: u64)"
  have m: "x mod 2 ^ 64 mod 2 ^ 32 = x mod 2 ^ 32" for x :: int
    by (rule mod_mod_cancel) simp
  have "uint (?d AND mask 32) = (r mod 2 ^ 64 mod 2 ^ 32 - t mod 2 ^ 64 mod 2 ^ 32) mod 2 ^ 64 mod 2 ^ 32"
    by (simp only: uint_and_mask32 uint_word_ariths(2) uint_of_time) simp
  also have "\<dots> = (r - t) mod 2 ^ 32" by (simp only: m mod_diff_eq)
  finally have u: "uint (?d AND mask 32) = (r - t) mod 2 ^ 32" .
  have "(r - t) mod 2 ^ 32 < 2 ^ 32" by simp
  then have "uint (?d AND mask 32) < 2 ^ 63" unfolding u by simp
  with u show ?thesis
    using assms
    by (simp add: brk_probe_age_def Let_def as_time_small r_def [symmetric] brk_probe_stamp_pack
        brk_masks)
qed

subsection \<open>Verdicts\<close>

lemma cas_simps [simp]:
  "cas_state b (breaker_state_w b) new = Some (b\<lparr>breaker_state_w := new\<rparr>)"
  "cas_probe b (breaker_probe_w b) new = Some (b\<lparr>breaker_probe_w := new\<rparr>)"
  by (simp_all add: cas_state_def cas_probe_def)

lemma cas_state_Some: "cas_state b old new = Some b' \<longleftrightarrow>
    breaker_state_w b = old \<and> b' = b\<lparr>breaker_state_w := new\<rparr>"
  by (auto simp: cas_state_def)

lemma cas_state_None: "cas_state b old new = None \<longleftrightarrow> breaker_state_w b \<noteq> old"
  by (auto simp: cas_state_def)

text \<open>A worker alone never loses a compare-and-set, so the promotion has one outcome.\<close>

lemma brk_promote_eq:
  "brk_promote (b\<lparr>breaker_state_w := word\<rparr>) word state (breaker_probe_w b) now open_for =
    (if state \<noteq> BREAKER_OPEN \<or> open_for \<le> 0 then (b\<lparr>breaker_state_w := word\<rparr>, state, BREAKER_NO_PROBE)
     else if now - as_time (breaker_opened_at b) < open_for
     then (b\<lparr>breaker_state_w := word\<rparr>, BREAKER_OPEN, BREAKER_NO_PROBE)
     else (b\<lparr>breaker_probe_w := brk_probe_pack (brk_next_gen word)
               (of_time (now - as_time (breaker_epoch b))),
             breaker_state_w := brk_pack (brk_next_gen word) BREAKER_HALF_OPEN\<rparr>,
           BREAKER_HALF_OPEN, brk_next_gen word))"
  by (simp add: brk_promote_def Let_def cas_state_def cas_probe_def)

lemma brk_promote_verdict:
  "brk_promote b word state pw now open_for = (b', BREAKER_HALF_OPEN, tok) \<Longrightarrow>
    state \<noteq> BREAKER_HALF_OPEN \<Longrightarrow>
    tok = brk_next_gen word \<and> breaker_state_w b' = brk_pack tok BREAKER_HALF_OPEN \<and>
    breaker_probe_w b' = brk_probe_pack tok (of_time (now - as_time (breaker_epoch b))) \<and>
    breaker_epoch b' = breaker_epoch b"
  by (auto simp: brk_promote_def Let_def cas_state_def cas_probe_def split: if_splits option.splits)

lemma breaker_state_promoted:
  assumes "breaker_state b now open_for = (b', BREAKER_HALF_OPEN, tok)"
  shows "tok = brk_next_gen (breaker_state_w b) \<and> breaker_state_w b' = brk_pack tok BREAKER_HALF_OPEN \<and>
    breaker_probe_w b' = brk_probe_pack tok (of_time (now - as_time (breaker_epoch b))) \<and>
    breaker_epoch b' = breaker_epoch b"
proof (cases "brk_state (breaker_state_w b) = BREAKER_HALF_OPEN")
  case True
  have next_gen: "brk_next_gen (brk_pack (brk_gen w) s) = brk_next_gen w" for w s
    by (simp add: brk_next_gen_def)
  show ?thesis
    using assms True
    by (auto simp: breaker_state_def Let_def next_gen split: if_splits
        dest!: brk_promote_verdict)
next
  case False
  with assms show ?thesis
    by (auto simp: breaker_state_def Let_def dest!: brk_promote_verdict)
qed

text \<open>C29: One probe per open window. A request that is told HALF_OPEN holds a fresh non-zero lease
  token, newer than every generation before it, which is the generation of the word now installed;
  until the 300-second lease runs out every other request is told OPEN, gets no token and changes
  nothing, whatever its own \<open>open_for\<close> is.\<close>

theorem breaker_one_probe:
  assumes promoted: "breaker_state b now open_for = (b', BREAKER_HALF_OPEN, tok)"
    and fresh: "unat (brk_gen (breaker_state_w b)) < 2 ^ 62 - 2"
    and epoch: "as_time (breaker_epoch b) \<le> now"
    and lease: "now \<le> now'" "now' - now < BREAKER_PROBE_LEASE"
  shows "tok \<noteq> BREAKER_NO_PROBE \<and> tok = brk_gen (breaker_state_w b') \<and>
    unat (brk_gen (breaker_state_w b)) < unat tok \<and>
    breaker_state b' now' open_for' = (b', BREAKER_OPEN, BREAKER_NO_PROBE)"
proof -
  note p = breaker_state_promoted [OF promoted]
  note g = brk_next_gen_newer [OF fresh]
  have gen: "brk_gen (breaker_state_w b') = tok"
    using p g(2) by (simp add: brk_gen_pack_small)
  have "brk_probe_age b' (breaker_probe_w b') now' = (now' - now) mod 2 ^ 32"
    using p lease epoch by (simp add: brk_probe_age_mod)
  also have "\<dots> = now' - now"
    using lease by (intro mod_pos_pos_trivial) (auto simp: BREAKER_PROBE_LEASE_def)
  finally have "\<not> brk_reclaimable b' (breaker_state_w b') (breaker_probe_w b') now' open_for'"
    using lease by (simp add: brk_reclaimable_def)
  moreover have "brk_state (breaker_state_w b') = BREAKER_HALF_OPEN"
    using p by (simp add: brk_state_pack)
  ultimately show ?thesis
    using p g gen by (simp add: breaker_state_def Let_def)
qed

definition demo_brk :: brk_st where
  "demo_brk = \<lparr>breaker_state_w = brk_pack 0 BREAKER_OPEN, breaker_fails = 0, breaker_window_start = 1000,
     breaker_opened_at = 1000, breaker_probe_w = 0, breaker_epoch = 500, breaker_opens = 1\<rparr>"

lemma demo_brk_promoted:
  "breaker_state demo_brk 1030 30 =
    (demo_brk\<lparr>breaker_probe_w := brk_probe_pack 1 530,
       breaker_state_w := brk_pack 1 BREAKER_HALF_OPEN\<rparr>, BREAKER_HALF_OPEN, 1)"
  by code_simp

lemma breaker_one_probe_witness:
  "breaker_state (fst (breaker_state demo_brk 1030 30)) 1031 30 =
     (fst (breaker_state demo_brk 1030 30), BREAKER_OPEN, BREAKER_NO_PROBE)"
proof -
  have "brk_gen (breaker_state_w demo_brk) = 0" and e: "as_time (breaker_epoch demo_brk) = 500"
    by code_simp+
  then have "unat (brk_gen (breaker_state_w demo_brk)) < 2 ^ 62 - 2"
    "as_time (breaker_epoch demo_brk) \<le> 1030" "(1031 :: int) - 1030 < BREAKER_PROBE_LEASE"
    by (simp_all add: e BREAKER_PROBE_LEASE_def)
  then show ?thesis
    using breaker_one_probe [OF demo_brk_promoted, of 1031 30] by (simp add: demo_brk_promoted)
qed

text \<open>Only the lease holder resolves a probe. Recording an outcome moves the state word in
  exactly three cases: the holder of the current lease closes the breaker on success, reopens it
  on failure, and, while CLOSED, a failure may trip it; an outcome that carries no token or a
  superseded one leaves a HALF_OPEN or OPEN breaker as it is.\<close>

theorem breaker_record_transitions:
  "breaker_state_w (breaker_record b now success threshold window probe) =
    (if brk_holds (breaker_state_w b) probe
     then brk_pack probe (if success then BREAKER_CLOSED else BREAKER_OPEN)
     else if brk_state (breaker_state_w b) = BREAKER_CLOSED \<and> \<not> success \<and> threshold \<noteq> 0 \<and> 0 < window \<and>
             threshold \<le> breaker_fails (brk_anchor b now window) + 1
     then brk_pack (brk_gen (breaker_state_w b)) BREAKER_OPEN
     else breaker_state_w b)"
proof -
  have closed: "brk_state w = BREAKER_CLOSED \<Longrightarrow> brk_pack (brk_gen w) BREAKER_CLOSED = w" for w
    by (metis brk_pack_gen_state)
  have anchor: "breaker_state_w (brk_anchor b now window) = breaker_state_w b"
    by (simp add: brk_anchor_def)
  show ?thesis
  proof (cases "success \<or> brk_holds (breaker_state_w b) probe")
    case True
    then show ?thesis
      by (auto simp: breaker_record_def brk_record_success_def Let_def cas_state_def)
  next
    case False
    define idle where "idle \<longleftrightarrow> brk_state (breaker_state_w b) \<noteq> BREAKER_CLOSED \<or> threshold = 0 \<or> window \<le> 0"
    show ?thesis
    proof (cases idle)
      case True
      with False show ?thesis by (auto simp: breaker_record_def Let_def idle_def)
    next
      case idle: False
      define f where "f = breaker_fails (brk_anchor b now window) + 1"
      have "breaker_record b now success threshold window probe =
          brk_count_failure (brk_anchor b now window) (breaker_state_w b) now threshold"
        using False idle by (simp add: breaker_record_def Let_def idle_def)
      also have "breaker_state_w \<dots> = (if f < threshold then breaker_state_w b
          else brk_pack (brk_gen (breaker_state_w b)) BREAKER_OPEN)"
        using closed [of "breaker_state_w b"] idle
        by (simp add: brk_count_failure_def Let_def cas_state_def anchor f_def [symmetric] idle_def)
      finally show ?thesis
        using False idle by (simp add: f_def [symmetric] idle_def not_less [symmetric])
    qed
  qed
qed

subsection \<open>Tripping\<close>

definition failures :: "brk_st \<Rightarrow> time_t list \<Rightarrow> ngx_uint \<Rightarrow> time_t \<Rightarrow> brk_st" where
  "failures b ts threshold window =
     foldl (\<lambda>b now. breaker_record b now False threshold window BREAKER_NO_PROBE) b ts"

lemma breaker_failure_closed:
  assumes "brk_state (breaker_state_w b) = BREAKER_CLOSED" "threshold \<noteq> 0" "0 < window"
  shows "breaker_record b now False threshold window BREAKER_NO_PROBE =
    brk_count_failure (brk_anchor b now window) (breaker_state_w b) now threshold"
  using assms by (simp add: breaker_record_def Let_def brk_holds_def)

text \<open>Failures in one window, below the threshold, only count.\<close>

lemma failures_below:
  assumes "brk_state (breaker_state_w b) = BREAKER_CLOSED" "0 < window"
    and "\<forall>t \<in> set ts. t - as_time (breaker_window_start b) < window"
    and "unat (breaker_fails b) + length ts < unat threshold"
  shows "failures b ts threshold window = b\<lparr>breaker_fails := breaker_fails b + of_nat (length ts)\<rparr>"
  using assms
proof (induction ts arbitrary: b)
  case (Cons t ts)
  have thr: "unat threshold < 2 ^ LENGTH(64)" by (rule unsigned_less)
  have f: "unat (breaker_fails b + 1) = unat (breaker_fails b) + 1"
    using Cons.prems(4) thr unat_plus_no_overflow [of "breaker_fails b" 1] by simp
  have less: "breaker_fails b + 1 < threshold"
    unfolding word_less_nat_alt f using Cons.prems(4) by simp
  have "breaker_record b t False threshold window BREAKER_NO_PROBE =
      b\<lparr>breaker_fails := breaker_fails b + 1\<rparr>"
    using Cons.prems less
    by (subst breaker_failure_closed) (auto simp: brk_count_failure_def brk_anchor_def Let_def)
  moreover have "failures (b\<lparr>breaker_fails := breaker_fails b + 1\<rparr>) ts threshold window =
      b\<lparr>breaker_fails := breaker_fails b + 1 + of_nat (length ts)\<rparr>"
    using Cons.prems f by (subst Cons.IH) auto
  ultimately show ?case by (simp add: failures_def algebra_simps)
qed (simp add: failures_def)

text \<open>A burst trips the breaker, and only a burst. Starting closed with no live window, a
  run of failures inside one window leaves the breaker CLOSED while it is shorter than the
  threshold, and the failure that reaches the threshold opens it: the generation is kept, the open
  window starts at that failure, and the open is counted.\<close>

theorem breaker_trips_at_threshold:
  assumes closed: "brk_state (breaker_state_w b) = BREAKER_CLOSED"
    and idle: "t0 - as_time (breaker_window_start b) \<ge> window" and window: "0 < window"
    and t0: "fits_int64 t0"
    and burst: "\<forall>t \<in> set ts. t - t0 < window" "t1 - t0 < window"
    and count: "length ts + 2 = unat threshold"
  shows "brk_state (breaker_state_w (failures b (t0 # ts) threshold window)) = BREAKER_CLOSED \<and>
    failures b (t0 # ts @ [t1]) threshold window =
      b\<lparr>breaker_state_w := brk_pack (brk_gen (breaker_state_w b)) BREAKER_OPEN, breaker_fails := 0,
        breaker_window_start := of_time t0, breaker_opened_at := of_time t1,
        breaker_opens := breaker_opens b + 1\<rparr>"
proof -
  have thr: "unat threshold < 2 ^ LENGTH(64)" by (rule unsigned_less)
  then have len: "unat (of_nat (length ts) + 1 :: u64) = length ts + 1"
    using count by (simp add: unat_of_nat unat_word_ariths)
  have less: "1 < threshold" "of_nat (length ts) + 1 < threshold"
    unfolding word_less_nat_alt len using count by simp_all
  have "unat (of_nat (length ts) + 1 + 1 :: u64) = length ts + 2"
    using thr count len unat_plus_no_overflow [of "of_nat (length ts) + 1 :: u64" 1] by simp
  then have eq: "of_nat (length ts) + 1 + 1 = threshold"
    using count by (simp add: word_unat_eq_iff)
  have nz: "threshold \<noteq> 0" using count by auto
  define b1 where "b1 = b\<lparr>breaker_window_start := of_time t0, breaker_fails := 1\<rparr>"
  define b2 where "b2 = b1\<lparr>breaker_fails := of_nat (length ts) + 1\<rparr>"
  have ws: "as_time (breaker_window_start b1) = t0" "as_time (breaker_window_start b2) = t0"
    using t0 by (simp_all add: b1_def b2_def as_time_of_time fits_int64_def)
  have st: "breaker_state_w b1 = breaker_state_w b" "breaker_state_w b2 = breaker_state_w b"
    by (simp_all add: b1_def b2_def)
  have r0: "breaker_record b t0 False threshold window BREAKER_NO_PROBE = b1"
    using closed window idle nz less(1)
    by (subst breaker_failure_closed) (auto simp: brk_count_failure_def brk_anchor_def Let_def b1_def)
  have "failures b1 ts threshold window = b1\<lparr>breaker_fails := breaker_fails b1 + of_nat (length ts)\<rparr>"
    using closed window burst ws count st by (intro failures_below) (auto simp: b1_def)
  then have run: "failures b1 ts threshold window = b2" by (simp add: b1_def b2_def add.commute)
  have keep: "brk_pack (brk_gen (breaker_state_w b)) BREAKER_CLOSED = breaker_state_w b"
    using closed by (metis brk_pack_gen_state)
  have last: "breaker_record b2 t1 False threshold window BREAKER_NO_PROBE =
      b2\<lparr>breaker_fails := 0, breaker_opened_at := of_time t1,
         breaker_state_w := brk_pack (brk_gen (breaker_state_w b)) BREAKER_OPEN,
         breaker_opens := breaker_opens b + 1\<rparr>"
    using closed window burst(2) nz ws st eq keep
    by (subst breaker_failure_closed)
      (auto simp: brk_count_failure_def brk_anchor_def Let_def cas_state_def b2_def b1_def)
  show ?thesis
    using run last r0 closed st
    by (simp add: failures_def b2_def b1_def)
qed

definition demo_closed :: brk_st where
  "demo_closed = brk_init 100"

lemma breaker_trips_at_threshold_witness:
  "brk_state (breaker_state_w (failures demo_closed [100, 101, 103] 3 10)) = BREAKER_OPEN"
proof -
  have h: "brk_state (breaker_state_w demo_closed) = BREAKER_CLOSED"
    "100 - as_time (breaker_window_start demo_closed) \<ge> 10" "fits_int64 100"
    by code_simp+
  show ?thesis
    using breaker_trips_at_threshold [of demo_closed 10 100 "[101]" 103 3]
        h
    by (simp add: brk_state_pack)
qed

subsection \<open>Recovery\<close>

lemma brk_holds_own_token:
  "unat tok < 2 ^ 62 \<Longrightarrow> tok \<noteq> BREAKER_NO_PROBE \<Longrightarrow> brk_holds (brk_pack tok BREAKER_HALF_OPEN) tok"
  by (simp add: brk_holds_def brk_state_pack brk_gen_pack_small)

text \<open>The breaker recovers. Once the open window has elapsed the next request is promoted;
  its success closes the breaker, and its failure reopens it with a window that starts at the
  failure. If the promoted request never reports, the first request after the lease is promoted in
  its place under a newer token, and the abandoned request's late report is ignored.\<close>

theorem breaker_recovers:
  assumes "open": "brk_state (breaker_state_w b) = BREAKER_OPEN"
    and elapsed: "0 < open_for" "now - as_time (breaker_opened_at b) \<ge> open_for"
    and gen: "unat (brk_gen (breaker_state_w b)) < 2 ^ 62 - 4"
    and epoch: "as_time (breaker_epoch b) \<le> now"
    and late: "BREAKER_PROBE_LEASE \<le> late - now" "late - now < 2 ^ 32" "fits_int64 (late - open_for)"
  shows "\<exists>b1 tok b2 tok2. breaker_state b now open_for = (b1, BREAKER_HALF_OPEN, tok) \<and>
    brk_state (breaker_state_w (breaker_record b1 t True threshold window tok)) = BREAKER_CLOSED \<and>
    brk_state (breaker_state_w (breaker_record b1 t False threshold window tok)) = BREAKER_OPEN \<and>
    breaker_opened_at (breaker_record b1 t False threshold window tok) = of_time t \<and>
    breaker_state b1 late open_for = (b2, BREAKER_HALF_OPEN, tok2) \<and> unat tok < unat tok2 \<and>
    breaker_state_w (breaker_record b2 t True threshold window tok) = breaker_state_w b2"
proof -
  define tok where "tok = brk_next_gen (breaker_state_w b)"
  define b1 where "b1 = b\<lparr>breaker_probe_w := brk_probe_pack tok (of_time (now - as_time (breaker_epoch b))),
    breaker_state_w := brk_pack tok BREAKER_HALF_OPEN\<rparr>"
  have p1: "breaker_state b now open_for = (b1, BREAKER_HALF_OPEN, tok)"
    using "open" elapsed brk_promote_eq [of "breaker_state_w b" b BREAKER_OPEN now open_for]
    by (simp add: breaker_state_def Let_def b1_def tok_def)
  have "unat (brk_gen (breaker_state_w b)) < 2 ^ 62 - 2" using gen by simp
  note n = brk_next_gen_newer [OF this, folded tok_def]
  have w1: "brk_gen (breaker_state_w b1) = tok" "brk_state (breaker_state_w b1) = BREAKER_HALF_OPEN"
    using n by (simp_all add: b1_def brk_gen_pack_small brk_state_pack)
  have holds: "brk_holds (breaker_state_w b1) tok"
    using n by (simp add: b1_def brk_holds_own_token)
  have opened: "breaker_opened_at (breaker_record b1 t False threshold window tok) = of_time t"
    using holds by (simp add: breaker_record_def Let_def cas_state_def)
  have step: "unat tok \<le> unat (brk_gen (breaker_state_w b)) + 2"
  proof -
    define g where "g = brk_gen (breaker_state_w b)"
    have "unat (g + 1) = unat g + 1" "unat (g + 1 + 1) = unat g + 2"
      using gen unat_plus_no_overflow [of g 1] unat_plus_no_overflow [of "g + 1" 1]
      by (simp_all add: g_def)
    moreover have "tok = g + 1 \<or> tok = g + 1 + 1 \<or> tok = 1"
      by (auto simp: tok_def brk_next_gen_def Let_def g_def)
    ultimately show ?thesis by (auto simp: g_def)
  qed
  have "brk_probe_age b1 (breaker_probe_w b1) late = (late - now) mod 2 ^ 32"
    using epoch late by (simp add: b1_def brk_probe_age_mod BREAKER_PROBE_LEASE_def)
  then have age: "brk_probe_age b1 (breaker_probe_w b1) late = late - now"
    using late by (simp add: BREAKER_PROBE_LEASE_def)
  have pg: "brk_probe_gen (breaker_probe_w b1) = tok AND BREAKER_PROBE_GEN_MASK"
    by (simp add: b1_def brk_probe_gen_pack)
  have rec: "brk_reclaimable b1 (breaker_state_w b1) (breaker_probe_w b1) late open_for"
    using elapsed late age n(4) pg w1 by (simp add: brk_reclaimable_def)
  define w2 where "w2 = brk_pack tok BREAKER_OPEN"
  define b1' where "b1' = b1\<lparr>breaker_opened_at := of_time (late - open_for)\<rparr>"
  define tok2 where "tok2 = brk_next_gen w2"
  have "late - as_time (breaker_opened_at b1') = open_for"
    using late by (simp add: b1'_def as_time_of_time fits_int64_def)
  moreover have "b1\<lparr>breaker_state_w := x, breaker_opened_at := y\<rparr> =
      b1\<lparr>breaker_opened_at := y, breaker_state_w := x\<rparr>" for x y
    by simp
  ultimately obtain b2 where p2: "breaker_state b1 late open_for = (b2, BREAKER_HALF_OPEN, tok2)"
    using rec w1 elapsed brk_promote_eq [of w2 b1' BREAKER_OPEN late open_for]
    by (auto simp: breaker_state_def Let_def b1'_def w2_def tok2_def)
  have g2: "brk_gen w2 = tok" using n by (simp add: w2_def brk_gen_pack_small)
  have "unat (brk_gen w2) < 2 ^ 62 - 2" using gen step g2 by simp
  note n2 = brk_next_gen_newer [OF this, folded tok2_def, unfolded g2]
  have "breaker_state_w b2 = brk_pack tok2 BREAKER_HALF_OPEN"
    using breaker_state_promoted [OF p2] by simp
  then have "brk_gen (breaker_state_w b2) = tok2" "brk_state (breaker_state_w b2) = BREAKER_HALF_OPEN"
    using n2 by (simp_all add: brk_gen_pack_small brk_state_pack)
  then have "breaker_state_w (breaker_record b2 t True threshold window tok) = breaker_state_w b2"
    using n2(1) by (auto simp: breaker_record_transitions brk_holds_def)
  then show ?thesis
    using p1 p2 opened holds n2(1)
    by (auto simp: breaker_record_transitions brk_state_pack)
qed

lemma breaker_recovers_witness:
  "\<exists>b1 tok b2 tok2. breaker_state demo_brk 1030 30 = (b1, BREAKER_HALF_OPEN, tok) \<and>
    brk_state (breaker_state_w (breaker_record b1 1031 True 5 10 tok)) = BREAKER_CLOSED \<and>
    brk_state (breaker_state_w (breaker_record b1 1031 False 5 10 tok)) = BREAKER_OPEN \<and>
    breaker_opened_at (breaker_record b1 1031 False 5 10 tok) = of_time 1031 \<and>
    breaker_state b1 1400 30 = (b2, BREAKER_HALF_OPEN, tok2) \<and> unat tok < unat tok2 \<and>
    breaker_state_w (breaker_record b2 1031 True 5 10 tok) = breaker_state_w b2"
proof -
  have s: "brk_state (breaker_state_w demo_brk) = BREAKER_OPEN"
    and g: "brk_gen (breaker_state_w demo_brk) = 0" and e: "as_time (breaker_epoch demo_brk) = 500"
    and a: "as_time (breaker_opened_at demo_brk) = 1000"
    by code_simp+
  show ?thesis
    by (rule breaker_recovers [OF s]) (simp_all add: g e a BREAKER_PROBE_LEASE_def int64_defs)
qed

text \<open>
  The generation occupies 62 bits of the state word but the token is the unpacked value, and the
  skip tests look for 0 in the 64-bit sum, which the sum never reaches. At the last generation the
  token handed out is therefore not the generation that was installed, and the lease can be
  resolved by nobody; it has to be reclaimed. A zone would need \<open>2 ^ 62\<close> promotions to get there.
\<close>

lemma breaker_last_generation_token:
  assumes "brk_gen w = 2 ^ 62 - 1"
  shows "brk_next_gen w = 2 ^ 62 + 1 \<and> brk_gen (brk_pack (brk_next_gen w) BREAKER_HALF_OPEN) = 1"
proof -
  have "brk_next_gen w = 2 ^ 62 + 1"
    using assms by (simp add: brk_next_gen_def BREAKER_NO_PROBE_def BREAKER_PROBE_GEN_MASK_def)
  then show ?thesis by (simp add: brk_gen_pack)
qed

end
