(* ===== verification/Breaker_Steps.thy ===== *)
theory Breaker_Steps
  imports Breaker
begin

text \<open>
  The breaker as its workers run it: \<open>breaker_state\<close> and \<open>breaker_record\<close> take no lock, so other
  workers act between any two of their accesses to the shared words. A worker's position in the
  code is a \<open>brk_pc\<close> holding the locals it has loaded so far; \<open>brk_exec\<close> performs its next atomic
  access, in the order of the source (the probe word is published before the state word, and
  \<open>breaker_opened_at\<close> is stored before the compare-and-set it belongs to, except on the reclaim
  path). \<open>brk_trans\<close> lets any worker take the next step, and records the lease tokens in the
  order they are handed out.
\<close>

datatype brk_pc =
    SStart time_t
  | SProbe time_t ngx_uint
  | SDecide time_t ngx_uint ngx_uint time_t
  | SReopen time_t ngx_uint ngx_uint time_t
  | STest time_t ngx_uint ngx_uint time_t
  | SPublish ngx_uint ngx_uint time_t
  | SPromote ngx_uint ngx_uint
  | SDone ngx_uint ngx_uint
  | RStart bool ngx_uint time_t ngx_uint
  | RSuccess ngx_uint ngx_uint
  | RClose ngx_uint ngx_uint
  | RFailure ngx_uint ngx_uint ngx_uint time_t time_t
  | RReopen ngx_uint ngx_uint
  | RAnchor ngx_uint ngx_uint time_t time_t ngx_uint
  | RClear ngx_uint ngx_uint time_t
  | RAdd ngx_uint ngx_uint time_t
  | RTrip ngx_uint time_t
  | RTripCas ngx_uint
  | RTripClear
  | RTripCount
  | RDone

text \<open>One atomic access of a worker; \<open>now\<close> is what \<open>ngx_time()\<close> would return at this moment.\<close>

fun brk_exec :: "brk_st \<Rightarrow> brk_pc \<Rightarrow> time_t \<Rightarrow> brk_st \<times> brk_pc" where
  "brk_exec b (SStart open_for) now = (b, SProbe open_for (breaker_state_w b))"
| "brk_exec b (SProbe open_for word) now = (b, SDecide open_for word (breaker_probe_w b) now)"
| "brk_exec b (SDecide open_for word probe_word t) now =
     (let state = brk_state word
      in if state = BREAKER_HALF_OPEN
         then (if brk_reclaimable b word probe_word t open_for
               then (case cas_state b word (brk_pack (brk_gen word) BREAKER_OPEN) of
                       None \<Rightarrow> (b, SDone BREAKER_OPEN BREAKER_NO_PROBE)
                     | Some b1 \<Rightarrow>
                         (b1, SReopen open_for (brk_pack (brk_gen word) BREAKER_OPEN) probe_word t))
               else (b, SDone BREAKER_OPEN BREAKER_NO_PROBE))
         else if state \<noteq> BREAKER_OPEN \<or> open_for \<le> 0 then (b, SDone state BREAKER_NO_PROBE)
         else (b, STest open_for word probe_word t))"
| "brk_exec b (SReopen open_for word probe_word t) now =
     (b\<lparr>breaker_opened_at := of_time (t - open_for)\<rparr>, STest open_for word probe_word t)"
| "brk_exec b (STest open_for word probe_word t) now =
     (if t - as_time (breaker_opened_at b) < open_for then (b, SDone BREAKER_OPEN BREAKER_NO_PROBE)
      else (b, SPublish word probe_word t))"
| "brk_exec b (SPublish word probe_word t) now =
     (case cas_probe b probe_word
             (brk_probe_pack (brk_next_gen word) (of_time (t - as_time (breaker_epoch b)))) of
        None \<Rightarrow> (b, SDone BREAKER_OPEN BREAKER_NO_PROBE)
      | Some b1 \<Rightarrow> (b1, SPromote word (brk_next_gen word)))"
| "brk_exec b (SPromote word gen) now =
     (case cas_state b word (brk_pack gen BREAKER_HALF_OPEN) of
        None \<Rightarrow> (b, SDone BREAKER_OPEN BREAKER_NO_PROBE)
      | Some b1 \<Rightarrow> (b1, SDone BREAKER_HALF_OPEN gen))"
| "brk_exec b (SDone v tok) now = (b, SDone v tok)"
| "brk_exec b (RStart success threshold window probe) now =
     (b, if success then RSuccess (breaker_state_w b) probe
         else RFailure (breaker_state_w b) probe threshold window now)"
| "brk_exec b (RSuccess word probe) now =
     (b\<lparr>breaker_fails := 0\<rparr>, if brk_holds word probe then RClose word probe else RDone)"
| "brk_exec b (RClose word probe) now =
     ((case cas_state b word (brk_pack probe BREAKER_CLOSED) of None \<Rightarrow> b | Some b1 \<Rightarrow> b1), RDone)"
| "brk_exec b (RFailure word probe threshold window t) now =
     (if brk_holds word probe then (b\<lparr>breaker_opened_at := of_time t\<rparr>, RReopen word probe)
      else if brk_state word \<noteq> BREAKER_CLOSED \<or> threshold = 0 \<or> window \<le> 0 then (b, RDone)
      else if t - as_time (breaker_window_start b) \<ge> window
           then (b, RAnchor word threshold window t (breaker_window_start b))
           else (b, RAdd word threshold t))"
| "brk_exec b (RReopen word probe) now =
     ((case cas_state b word (brk_pack probe BREAKER_OPEN) of None \<Rightarrow> b | Some b1 \<Rightarrow> b1), RDone)"
| "brk_exec b (RAnchor word threshold window t window_start) now =
     (if breaker_window_start b = window_start
      then (b\<lparr>breaker_window_start := of_time t\<rparr>, RClear word threshold t)
      else (b, RAdd word threshold t))"
| "brk_exec b (RClear word threshold t) now = (b\<lparr>breaker_fails := 0\<rparr>, RAdd word threshold t)"
| "brk_exec b (RAdd word threshold t) now =
     (let fails = breaker_fails b + 1
      in (b\<lparr>breaker_fails := fails\<rparr>, if fails < threshold then RDone else RTrip word t))"
| "brk_exec b (RTrip word t) now = (b\<lparr>breaker_opened_at := of_time t\<rparr>, RTripCas word)"
| "brk_exec b (RTripCas word) now =
     (case cas_state b (brk_pack (brk_gen word) BREAKER_CLOSED)
             (brk_pack (brk_gen word) BREAKER_OPEN) of
        None \<Rightarrow> (b, RDone)
      | Some b1 \<Rightarrow> (b1, RTripClear))"
| "brk_exec b RTripClear now = (b\<lparr>breaker_fails := 0\<rparr>, RTripCount)"
| "brk_exec b RTripCount now = (b\<lparr>breaker_opens := breaker_opens b + 1\<rparr>, RDone)"
| "brk_exec b RDone now = (b, RDone)"

fun brk_solo :: "nat \<Rightarrow> brk_st \<Rightarrow> brk_pc \<Rightarrow> time_t \<Rightarrow> brk_st \<times> brk_pc" where
  "brk_solo 0 b pc now = (b, pc)"
| "brk_solo (Suc n) b pc now = (case brk_exec b pc now of (b', pc') \<Rightarrow> brk_solo n b' pc' now)"

lemma brk_solo_done [simp]:
  "brk_solo n b (SDone v tok) now = (b, SDone v tok)" "brk_solo n b RDone now = (b, RDone)"
  by (induction n) auto

lemma brk_solo_numeral [simp]:
  "brk_solo (numeral k) b pc now =
    brk_solo (pred_numeral k) (fst (brk_exec b pc now)) (snd (brk_exec b pc now)) now"
  by (simp add: numeral_eq_Suc split: prod.split)

subsection \<open>A worker that is alone runs the sequential code\<close>


subsection \<open>Any number of workers\<close>

record brk_conc =
  shared :: brk_st
  workers :: "nat \<Rightarrow> brk_pc"
  issued :: "ngx_uint list"

fun brk_idle :: "brk_pc \<Rightarrow> bool" where
  "brk_idle (SDone v tok) = True"
| "brk_idle RDone = True"
| "brk_idle pc = False"

fun brk_entry :: "brk_pc \<Rightarrow> bool" where
  "brk_entry (SStart open_for) = True"
| "brk_entry (RStart success threshold window probe) = True"
| "brk_entry pc = False"

text \<open>The tokens handed out, newest first: a step whose verdict is HALF_OPEN hands out its token.\<close>

fun brk_issue :: "brk_pc \<Rightarrow> ngx_uint list \<Rightarrow> ngx_uint list" where
  "brk_issue (SDone v tok) toks = (if v = BREAKER_HALF_OPEN then tok # toks else toks)"
| "brk_issue pc toks = toks"

inductive brk_trans :: "brk_conc \<Rightarrow> brk_conc \<Rightarrow> bool" where
  call: "brk_idle (workers c i) \<Longrightarrow> brk_entry pc \<Longrightarrow>
    brk_trans c (c\<lparr>workers := (workers c)(i := pc)\<rparr>)"
| exec: "\<not> brk_idle (workers c i) \<Longrightarrow> brk_exec (shared c) (workers c i) now = (b', pc') \<Longrightarrow>
    brk_trans c (c\<lparr>shared := b', workers := (workers c)(i := pc'), issued := brk_issue pc' (issued c)\<rparr>)"

inductive brk_reach :: "brk_conc \<Rightarrow> bool" where
  init: "brk_reach \<lparr>shared = brk_init now, workers = (\<lambda>i. RDone), issued = []\<rparr>"
| step: "brk_reach c \<Longrightarrow> brk_trans c c' \<Longrightarrow> brk_reach c'"

inductive_cases brk_transE: "brk_trans c c'"

text \<open>What a worker's locals say: a pending promotion carries the successor of the generation it
  loaded, a pending resolution carries the generation of the HALF_OPEN word it loaded.\<close>

fun brk_local :: "brk_pc \<Rightarrow> bool" where
  "brk_local (SPromote word gen) = (gen = brk_next_gen word)"
| "brk_local (RClose word probe) = brk_holds word probe"
| "brk_local (RReopen word probe) = brk_holds word probe"
| "brk_local pc = True"

definition gen_now :: "brk_st \<Rightarrow> nat" where
  "gen_now b = unat (brk_gen (breaker_state_w b))"

definition brk_conc_inv :: "brk_conc \<Rightarrow> bool" where
  "brk_conc_inv c \<longleftrightarrow> (\<forall>i. brk_local (workers c i)) \<and>
     sorted_wrt (\<lambda>x y. unat y < unat x) (issued c) \<and>
     (\<forall>tok \<in> set (issued c). unat tok \<le> gen_now (shared c)) \<and>
     gen_now (shared c) \<le> 2 * length (issued c)"

lemma brk_next_gen_step: "unat (brk_gen w) < 2 ^ 62 - 2 \<Longrightarrow> unat (brk_next_gen w) \<le> unat (brk_gen w) + 2"
proof -
  assume small: "unat (brk_gen w) < 2 ^ 62 - 2"
  define g where "g = brk_gen w"
  have "unat (g + 1) = unat g + 1" "unat (g + 1 + 1) = unat g + 2"
    using small unat_plus_no_overflow [of g 1] unat_plus_no_overflow [of "g + 1" 1]
    by (simp_all add: g_def)
  moreover have "brk_next_gen w = g + 1 \<or> brk_next_gen w = g + 1 + 1 \<or> brk_next_gen w = 1"
    by (auto simp: brk_next_gen_def Let_def g_def)
  ultimately show ?thesis by (auto simp: g_def)
qed

text \<open>Every atomic access keeps the generation, except a successful promotion, which moves it
  strictly up and hands out the new value.\<close>

lemma brk_exec_local: "brk_local pc \<Longrightarrow> brk_exec b pc now = (b', pc') \<Longrightarrow> brk_local pc'"
  by (cases pc) (auto simp: Let_def cas_state_def cas_probe_def split: if_splits option.splits)

lemma brk_exec_gen:
  assumes "brk_local pc" and "brk_exec b pc now = (b', pc')" and "\<not> brk_idle pc"
    and "gen_now b < 2 ^ 62 - 2"
  shows "gen_now b' = gen_now b \<and> brk_issue pc' toks = toks \<or>
    (\<exists>tok. brk_issue pc' toks = tok # toks \<and> gen_now b' = unat tok \<and> gen_now b < unat tok \<and>
       unat tok \<le> gen_now b + 2)"
proof (cases "\<exists>word gen. pc = SPromote word gen \<and> breaker_state_w b = word")
  case True
  then have pc: "pc = SPromote (breaker_state_w b) (brk_next_gen (breaker_state_w b))"
    using assms(1) by auto
  note new = brk_next_gen_newer [OF assms(4) [unfolded gen_now_def]]
    and step = brk_next_gen_step [OF assms(4) [unfolded gen_now_def]]
  have "gen_now b' = unat (brk_next_gen (breaker_state_w b)) \<and>
      pc' = SDone BREAKER_HALF_OPEN (brk_next_gen (breaker_state_w b))"
    using assms(2) new(2) by (auto simp: pc gen_now_def brk_gen_pack_small)
  with new(1) step show ?thesis by (simp add: gen_now_def)
next
  case False
  have half: "brk_holds w p \<Longrightarrow> p = brk_gen w" for w p by (simp add: brk_holds_def)
  show ?thesis
    using assms(1,2,3) False
    by (cases pc)
      (auto simp: Let_def cas_state_def cas_probe_def gen_now_def dest!: half
        split: if_splits option.splits)
qed

lemma brk_reach_inv:
  "brk_reach c \<Longrightarrow> length (issued c) < 2 ^ 60 \<Longrightarrow> brk_conc_inv c"
proof (induction rule: brk_reach.induct)
  case (init now)
  then show ?case
    by (simp add: brk_conc_inv_def gen_now_def brk_init_def BREAKER_CLOSED_def brk_gen_def)
next
  case (step c c')
  from step.hyps(2) show ?case
  proof (cases rule: brk_trans.cases)
    case (call i pc)
    then have "brk_local pc" by (cases pc) auto
    with call step show ?thesis by (simp add: brk_conc_inv_def)
  next
    case (exec i now b' pc')
    have le: "length (issued c) \<le> length (issued c')"
      using exec by (cases pc') auto
    have inv: "brk_conc_inv c" using step le by simp
    then have "gen_now (shared c) \<le> 2 * length (issued c)" by (simp add: brk_conc_inv_def)
    then have small: "gen_now (shared c) < 2 ^ 62 - 2"
      using step.prems le by simp
    have loc: "brk_local (workers c i)" using inv by (simp add: brk_conc_inv_def)
    have "brk_local pc'" using brk_exec_local [OF loc exec(3)] .
    with inv brk_exec_gen [OF loc exec(3,2) small, of "issued c"] show ?thesis
      by (auto simp: brk_conc_inv_def exec(1)) (meson le_less_trans less_imp_le)+
  qed
qed

text \<open>A schedule that can be run: who acts, and whether it enters a function or takes its next
  access.\<close>

datatype brk_act = Call nat brk_pc | Tick nat time_t

fun brk_play :: "brk_conc \<Rightarrow> brk_act list \<Rightarrow> brk_conc option" where
  "brk_play c [] = Some c"
| "brk_play c (Call i pc # acts) =
     (if brk_idle (workers c i) \<and> brk_entry pc
      then brk_play (c\<lparr>workers := (workers c)(i := pc)\<rparr>) acts else None)"
| "brk_play c (Tick i now # acts) =
     (if brk_idle (workers c i) then None
      else let (b', pc') = brk_exec (shared c) (workers c i) now
           in brk_play (c\<lparr>shared := b', workers := (workers c)(i := pc'),
                          issued := brk_issue pc' (issued c)\<rparr>) acts)"

lemma brk_play_reach: "brk_reach c \<Longrightarrow> brk_play c acts = Some c' \<Longrightarrow> brk_reach c'"
proof (induction c acts rule: brk_play.induct)
  case (2 c i pc acts)
  then show ?case by (auto split: if_splits intro: brk_reach.step brk_trans.call)
next
  case (3 c i now acts)
  then show ?case
    by (auto simp: Let_def split: if_splits prod.splits intro!: brk_reach.step [OF _ brk_trans.exec])
qed simp

text \<open>One failure trips a zone of threshold 1; two workers race for the probe 30 seconds later and
  one wins; it is about to close the breaker.\<close>

definition demo_start :: brk_conc where
  "demo_start = \<lparr>shared = brk_init 100, workers = (\<lambda>i. RDone), issued = []\<rparr>"

definition demo_acts :: "brk_act list" where
  "demo_acts = Call 0 (RStart False 1 10 0) # replicate 9 (Tick 0 1000) @
     [Call 0 (SStart 30), Call 1 (SStart 30)] @
     concat (replicate 5 [Tick 0 1030, Tick 1 1030]) @ [Tick 0 1030, Call 0 (RStart True 1 10 1)] @
     replicate 2 (Tick 0 1031)"

definition demo_conc :: brk_conc where
  "demo_conc = (case brk_play demo_start demo_acts of None \<Rightarrow> demo_start | Some c \<Rightarrow> c)"

lemma demo_conc_runs:
  "case brk_play demo_start demo_acts of None \<Rightarrow> False
   | Some c \<Rightarrow> issued c = [1] \<and> workers c 0 = RClose (breaker_state_w (shared c)) 1 \<and>
       workers c 1 = SDone BREAKER_OPEN BREAKER_NO_PROBE \<and>
       brk_state (breaker_state_w (shared c)) = BREAKER_HALF_OPEN"
  by code_simp

lemma demo_conc_simps:
  "brk_reach demo_conc" "issued demo_conc = [1]"
  "workers demo_conc 0 = RClose (breaker_state_w (shared demo_conc)) 1"
  "brk_state (breaker_state_w (shared demo_conc)) = BREAKER_HALF_OPEN"
proof -
  have start: "brk_reach demo_start" unfolding demo_start_def by (rule brk_reach.init)
  obtain c where "brk_play demo_start demo_acts = Some c"
    using demo_conc_runs by (auto split: option.splits)
  then show "brk_reach demo_conc" "issued demo_conc = [1]"
    "workers demo_conc 0 = RClose (breaker_state_w (shared demo_conc)) 1"
    "brk_state (breaker_state_w (shared demo_conc)) = BREAKER_HALF_OPEN"
    using brk_play_reach [OF start] demo_conc_runs by (auto simp: demo_conc_def)
qed

text \<open>However the workers interleave, no lease token is handed out twice, none is the reserved
  value 0, and tokens are handed out in increasing order: at most one request is ever the probe of
  a given generation, up to \<open>2 ^ 60\<close> promotions of one zone.\<close>

theorem breaker_tokens_unique:
  assumes "brk_reach c" and "length (issued c) < 2 ^ 60"
  shows "distinct (issued c) \<and> sorted_wrt (\<lambda>x y. unat y < unat x) (issued c) \<and>
    (\<forall>tok \<in> set (issued c). unat tok \<le> unat (brk_gen (breaker_state_w (shared c))))"
proof -
  have inv: "brk_conc_inv c" by (rule brk_reach_inv) (use assms in auto)
  then have s: "sorted_wrt (\<lambda>x y. unat y < unat x) (issued c)" by (simp add: brk_conc_inv_def)
  have "distinct xs" if "sorted_wrt (\<lambda>x y. unat y < unat x) xs" for xs :: "ngx_uint list"
    using that by (induction xs) auto
  with s inv show ?thesis by (auto simp: brk_conc_inv_def gen_now_def)
qed

lemma breaker_tokens_unique_witness:
  "distinct (issued demo_conc) \<and> issued demo_conc = [1]"
  using breaker_tokens_unique [OF demo_conc_simps(1)] by (simp add: demo_conc_simps)

text \<open>C30: However the workers interleave, the step that closes the breaker belongs to a worker that
  presented the generation of the word being closed: a report of a superseded probe, or of a
  request that never held a lease, cannot close it.\<close>

theorem breaker_closed_by_holder:
  assumes "brk_reach c" and "length (issued c) < 2 ^ 60" and "brk_trans c c'"
    and "brk_state (breaker_state_w (shared c)) \<noteq> BREAKER_CLOSED"
    and "brk_state (breaker_state_w (shared c')) = BREAKER_CLOSED"
  shows "\<exists>i. workers c i =
      RClose (breaker_state_w (shared c)) (brk_gen (breaker_state_w (shared c))) \<and>
    brk_state (breaker_state_w (shared c)) = BREAKER_HALF_OPEN"
proof -
  have inv: "brk_conc_inv c" by (rule brk_reach_inv) (use assms in auto)
  from assms(3) show ?thesis
  proof (cases rule: brk_trans.cases)
    case (call i pc)
    with assms(4,5) show ?thesis by simp
  next
    case (exec i now b' pc')
    have loc: "brk_local (workers c i)" using inv by (simp add: brk_conc_inv_def)
    have "\<exists>word probe. workers c i = RClose word probe \<and> breaker_state_w (shared c) = word"
      using exec(1,3) assms(4,5)
      by (cases "workers c i")
        (auto simp: Let_def cas_state_def cas_probe_def brk_state_pack split: if_splits option.splits)
    with loc show ?thesis by (auto simp: brk_holds_def)
  qed
qed

definition demo_closed_conc :: brk_conc where
  "demo_closed_conc = demo_conc\<lparr>shared := (shared demo_conc)\<lparr>breaker_state_w := brk_pack 1 BREAKER_CLOSED\<rparr>,
     workers := (workers demo_conc)(0 := RDone), issued := issued demo_conc\<rparr>"

lemma breaker_closed_by_holder_witness:
  "\<exists>i. workers demo_conc i =
      RClose (breaker_state_w (shared demo_conc)) (brk_gen (breaker_state_w (shared demo_conc)))"
proof -
  have "brk_exec (shared demo_conc) (workers demo_conc 0) 1031 = (shared demo_closed_conc, RDone)"
    by (simp add: demo_conc_simps demo_closed_conc_def)
  from brk_trans.exec [OF _ this] have "brk_trans demo_conc demo_closed_conc"
    by (simp add: demo_conc_simps demo_closed_conc_def)
  from breaker_closed_by_holder [OF demo_conc_simps(1) _ this] show ?thesis
    by (auto simp: demo_conc_simps demo_closed_conc_def brk_state_pack)
qed

end
