(* ===== verification/Rbtree.thy ===== *)
theory Rbtree
  imports Prelude "HOL-Library.Tree"
begin

text \<open>
  The key index of the zone: \<^verbatim>\<open>ngx_http_cache_turbo_rbtree_insert_value\<close>,
  \<^verbatim>\<open>ngx_http_cache_turbo_shm_key64\<close> and \<^verbatim>\<open>ngx_http_cache_turbo_shm_lookup\<close> of
  \<^verbatim>\<open>src/ngx_http_cache_turbo_shm.c\<close>. A tree element is the part of a node the descent reads:
  the widened 64-bit key, the 32-byte key hash and the node's address. Colours, rotations and
  deletion belong to nginx's own red-black tree, which is not part of the module: they are the
  parameters \<open>rb_fix\<close> (what \<open>ngx_rbtree_insert\<close> does to the tree after the callback has hung the
  node) and \<open>rb_del\<close> (\<open>ngx_rbtree_delete\<close>), and \<open>rb_core_ok\<close> states what they promise: a
  rotation keeps the in-order sequence, a deletion removes exactly the node it is given.
\<close>

type_synonym addr = nat

datatype rbent = RbEnt (rb_key: u64) (rb_hash: bytes) (rb_addr: addr)

subsection \<open>Comparing keys\<close>

text \<open>\<open>ngx_memcmp\<close> of two buffers of one length: the sign of the first difference.\<close>

fun memcmp :: "bytes \<Rightarrow> bytes \<Rightarrow> int" where
  "memcmp (x # xs) (y # ys) = (if x < y then - 1 else if y < x then 1 else memcmp xs ys)"
| "memcmp _ _ = 0"

text \<open>\<open>ngx_http_cache_turbo_shm_key64\<close>: a big-endian load of the first eight bytes.\<close>

definition shm_key64 :: "bytes \<Rightarrow> u64" where
  "shm_key64 k =
     push_bit 56 (ucast (k ! 0)) OR push_bit 48 (ucast (k ! 1)) OR push_bit 40 (ucast (k ! 2))
     OR push_bit 32 (ucast (k ! 3)) OR push_bit 24 (ucast (k ! 4)) OR push_bit 16 (ucast (k ! 5))
     OR push_bit 8 (ucast (k ! 6)) OR ucast (k ! 7)"

text \<open>\<open>ngx_http_cache_turbo_rbtree_insert_value\<close>: hang the node at the leaf the order leads to.\<close>

fun rbtree_insert_value :: "rbent tree \<Rightarrow> rbent \<Rightarrow> rbent tree" where
  "rbtree_insert_value Leaf n = Node Leaf n Leaf"
| "rbtree_insert_value (Node l t r) n =
     (if rb_key n < rb_key t then Node (rbtree_insert_value l n) t r
      else if rb_key t < rb_key n then Node l t (rbtree_insert_value r n)
      else if memcmp (rb_hash n) (rb_hash t) < 0 then Node (rbtree_insert_value l n) t r
      else Node l t (rbtree_insert_value r n))"

text \<open>The descent of \<open>ngx_http_cache_turbo_shm_lookup\<close>, from a given root.\<close>

fun rb_descend :: "rbent tree \<Rightarrow> u64 \<Rightarrow> bytes \<Rightarrow> addr option" where
  "rb_descend Leaf key key_hash = None"
| "rb_descend (Node l n r) key key_hash =
     (if key < rb_key n then rb_descend l key key_hash
      else if rb_key n < key then rb_descend r key key_hash
      else let rc = memcmp key_hash (rb_hash n)
           in if rc = 0 then Some (rb_addr n)
              else if rc < 0 then rb_descend l key key_hash else rb_descend r key key_hash)"

definition rb_lookup :: "rbent tree \<Rightarrow> bytes \<Rightarrow> addr option" where
  "rb_lookup t key_hash = rb_descend t (shm_key64 key_hash) key_hash"

text \<open>What nginx's own tree code promises.\<close>

definition rb_core_ok :: "(rbent tree \<Rightarrow> rbent tree) \<Rightarrow> (rbent tree \<Rightarrow> addr \<Rightarrow> rbent tree) \<Rightarrow> bool" where
  "rb_core_ok fixup del \<longleftrightarrow> (\<forall>t. inorder (fixup t) = inorder t) \<and>
     (\<forall>t a. inorder (del t a) = filter (\<lambda>e. rb_addr e \<noteq> a) (inorder t))"

subsection \<open>The order is the byte order of the hash\<close>

lemma memcmp_refl [simp]: "memcmp x x = 0"
  by (induction x) auto

lemma memcmp_eq_0_iff: "length x = length y \<Longrightarrow> memcmp x y = 0 \<longleftrightarrow> x = y"
  by (induction x y rule: list_induct2) auto

lemma memcmp_swap: "memcmp y x = - memcmp x y"
  by (induction x y rule: memcmp.induct) auto

lemma memcmp_append:
  "length x = length y \<Longrightarrow>
    memcmp (x @ x') (y @ y') = (if memcmp x y = 0 then memcmp x' y' else memcmp x y)"
  by (induction x y rule: list_induct2) auto

text \<open>The number a big-endian byte string stands for orders strings of one length like \<open>memcmp\<close>.\<close>

fun be_val :: "bytes \<Rightarrow> nat" where
  "be_val [] = 0"
| "be_val (b # bs) = unat b * 256 ^ length bs + be_val bs"

lemma be_val_less: "be_val bs < 256 ^ length bs"
proof (induction bs)
  case (Cons b bs)
  have "be_val (b # bs) < unat b * 256 ^ length bs + 256 ^ length bs"
    using Cons by simp
  also have "\<dots> = (unat b + 1) * 256 ^ length bs"
    by (simp only: distrib_right mult_1)
  also have "\<dots> \<le> 256 * 256 ^ length bs"
    using unat_u8_less [of b] by (intro mult_right_mono) auto
  finally show ?case by simp
qed simp

lemma be_val_less_iff: "length x = length y \<Longrightarrow> be_val x < be_val y \<longleftrightarrow> memcmp x y < 0"
proof (induction x y rule: list_induct2)
  case (Cons b bs c cs)
  have small: "be_val bs < 256 ^ length cs" "be_val cs < 256 ^ length cs"
    using be_val_less [of bs] be_val_less [of cs] Cons.hyps by auto
  have step: "unat p * 256 ^ length cs + u < unat q * 256 ^ length cs + v"
    if "p < q" and "u < 256 ^ length cs" for p q :: u8 and u v :: nat
  proof -
    from that(1) have "unat p + 1 \<le> unat q" by (simp add: word_less_nat_alt)
    then have "(unat p + 1) * 256 ^ length cs \<le> unat q * 256 ^ length cs"
      by (intro mult_right_mono) auto
    with that(2) show ?thesis by (simp add: distrib_right)
  qed
  show ?case
    using step [of b c "be_val bs" "be_val cs"] step [of c b "be_val cs" "be_val bs"] small Cons
    by (cases b c rule: linorder_cases) (auto simp: not_less)
qed simp

definition be_step :: "u64 \<Rightarrow> u8 \<Rightarrow> u64" where
  "be_step x b = push_bit 8 x OR ucast b"

lemma unat_be_step:
  assumes "unat x < 2 ^ 56"
  shows "unat (be_step x b) = unat x * 256 + unat b"
proof -
  have "be_step x b = push_bit 8 x + ucast b"
    unfolding be_step_def
    by (rule disjunctive_add [symmetric]) (auto simp: bit_simps dest: bit_imp_le_length)
  moreover have "unat (push_bit 8 x) = unat x * 256"
    using assms unat_mult_no_overflow [of x 256] by (simp add: push_bit_eq_mult)
  moreover have "unat b < 256" by (rule unat_u8_less)
  moreover have "unat (ucast b :: u64) = unat b"
    by (simp add: unat_ucast_u8)
  ultimately show ?thesis
    using assms unat_plus_no_overflow [of "push_bit 8 x" "ucast b"] by simp
qed

lemma shm_key64_be_step:
  "shm_key64 [b0, b1, b2, b3, b4, b5, b6, b7] = foldl be_step 0 [b0, b1, b2, b3, b4, b5, b6, b7]"
  by (simp add: shm_key64_def be_step_def push_bit_or or.assoc numeral_eq_Suc)

lemma unat_foldl_be_step:
  "length bs + m \<le> 8 \<Longrightarrow> unat x < 256 ^ m \<Longrightarrow>
    unat (foldl be_step x bs) = unat x * 256 ^ length bs + be_val bs"
proof (induction bs arbitrary: x m)
  case (Cons b bs)
  have "(256 :: nat) ^ m \<le> 256 ^ 7"
    using Cons.prems(1) by (intro power_increasing) auto
  with Cons.prems(2) have x: "unat x < 2 ^ 56" by simp
  then have u: "unat (be_step x b) = unat x * 256 + unat b" by (rule unat_be_step)
  have "(unat x + 1) * 256 \<le> 256 ^ m * 256"
    using Cons.prems(2) by (intro mult_right_mono) auto
  then have "unat (be_step x b) < 256 ^ Suc m"
    using u unat_u8_less [of b] by simp
  then have "unat (foldl be_step (be_step x b) bs) =
      unat (be_step x b) * 256 ^ length bs + be_val bs"
    using Cons.prems(1) by (intro Cons.IH [where m = "Suc m"]) auto
  with u show ?case by (simp add: algebra_simps)
qed simp

lemma shm_key64_take: "8 \<le> length k \<Longrightarrow> shm_key64 (take 8 k) = shm_key64 k"
  by (simp add: shm_key64_def)

lemma unat_shm_key64_8:
  assumes "length k = 8"
  shows "unat (shm_key64 k) = be_val k"
proof -
  from assms obtain b0 b1 b2 b3 b4 b5 b6 b7 where k: "k = [b0, b1, b2, b3, b4, b5, b6, b7]"
    by (auto simp: length_Suc_conv numeral_eq_Suc)
  have "unat (foldl be_step 0 k) = be_val k"
    using unat_foldl_be_step [of k 0 0] assms by simp
  then show ?thesis by (simp only: k shm_key64_be_step)
qed

lemma unat_shm_key64: "length k = 32 \<Longrightarrow> unat (shm_key64 k) = be_val (take 8 k)"
  using unat_shm_key64_8 [of "take 8 k"] shm_key64_take [of k] by simp

lemma key64_less_iff:
  assumes "length x = 32" and "length y = 32"
  shows "shm_key64 x < shm_key64 y \<longleftrightarrow> memcmp (take 8 x) (take 8 y) < 0"
proof -
  have "be_val (take 8 x) < be_val (take 8 y) \<longleftrightarrow> memcmp (take 8 x) (take 8 y) < 0"
    using assms by (intro be_val_less_iff) simp
  then show ?thesis
    unfolding word_less_nat_alt using assms by (simp only: unat_shm_key64)
qed

lemma key64_eq_iff:
  assumes "length x = 32" and "length y = 32"
  shows "shm_key64 x = shm_key64 y \<longleftrightarrow> memcmp (take 8 x) (take 8 y) = 0"
proof -
  have "shm_key64 y < shm_key64 x \<longleftrightarrow> 0 < memcmp (take 8 x) (take 8 y)"
    using key64_less_iff [OF assms(2,1)] memcmp_swap [of "take 8 y" "take 8 x"] by linarith
  then show ?thesis
    using key64_less_iff [OF assms] by (metis linorder_neq_iff)
qed

lemma memcmp_split8:
  assumes "length x = 32" and "length y = 32"
  shows "memcmp x y = (if memcmp (take 8 x) (take 8 y) = 0
    then memcmp (drop 8 x) (drop 8 y) else memcmp (take 8 x) (take 8 y))"
  using memcmp_append [of "take 8 x" "take 8 y" "drop 8 x" "drop 8 y"] assms
  by (simp only: append_take_drop_id length_take)

text \<open>
  The two-level comparison of the source (first the 64-bit key, then \<open>ngx_memcmp\<close> on a tie) is
  the byte-lexicographic order of the hashes: widening the key changes no ordering decision.
\<close>

lemma key64_memcmp:
  assumes "length x = 32" and "length y = 32"
  shows "memcmp x y < 0 \<longleftrightarrow>
    shm_key64 x < shm_key64 y \<or> shm_key64 x = shm_key64 y \<and> memcmp x y < 0"
  unfolding key64_less_iff [OF assms] key64_eq_iff [OF assms] memcmp_split8 [OF assms]
  by auto

subsection \<open>The search-tree invariant\<close>

abbreviation hv :: "rbent \<Rightarrow> nat" where
  "hv e \<equiv> be_val (rb_hash e)"

definition ent_ok :: "rbent \<Rightarrow> bool" where
  "ent_ok e \<longleftrightarrow> length (rb_hash e) = 32 \<and> rb_key e = shm_key64 (rb_hash e)"

definition rb_inv :: "rbent tree \<Rightarrow> bool" where
  "rb_inv t \<longleftrightarrow> (\<forall>e \<in> set_tree t. ent_ok e) \<and> sorted_wrt (<) (map hv (inorder t))"

definition rb_entries :: "rbent tree \<Rightarrow> (bytes \<times> addr) set" where
  "rb_entries t = (\<lambda>e. (rb_hash e, rb_addr e)) ` set_tree t"

text \<open>Insertion of a key the tree does not hold: callback, then nginx's fix-up.\<close>

definition rb_insert :: "(rbent tree \<Rightarrow> rbent tree) \<Rightarrow> rbent tree \<Rightarrow> bytes \<Rightarrow> addr \<Rightarrow> rbent tree" where
  "rb_insert fixup t k a = fixup (rbtree_insert_value t (RbEnt (shm_key64 k) k a))"

text \<open>The comparison cascade of the source, decided by the byte order.\<close>

lemma be_val_inj: "length x = length y \<Longrightarrow> be_val x = be_val y \<longleftrightarrow> x = y"
proof -
  assume len: "length x = length y"
  have "be_val x = be_val y \<longleftrightarrow> memcmp x y = 0"
    using be_val_less_iff [of x y] be_val_less_iff [of y x] memcmp_swap [of x y] len by linarith
  then show ?thesis by (simp only: memcmp_eq_0_iff [OF len])
qed

lemma cascade_less:
  assumes "length k = 32" and "ent_ok e"
  shows "shm_key64 k < rb_key e \<or> shm_key64 k = rb_key e \<and> memcmp k (rb_hash e) < 0
    \<longleftrightarrow> be_val k < hv e"
  using assms key64_memcmp [of k "rb_hash e"] be_val_less_iff [of k "rb_hash e"]
  by (simp add: ent_ok_def)

lemma cascade_greater:
  assumes "length k = 32" and "ent_ok e"
  shows "rb_key e < shm_key64 k \<or> shm_key64 k = rb_key e \<and> 0 < memcmp k (rb_hash e)
    \<longleftrightarrow> hv e < be_val k"
  using assms key64_memcmp [of "rb_hash e" k] be_val_less_iff [of "rb_hash e" k]
    memcmp_swap [of k "rb_hash e"]
  by (auto simp: ent_ok_def)

lemma rb_descend_step:
  assumes "length k = 32" and "ent_ok n"
  shows "rb_descend (Node l n r) (shm_key64 k) k =
    (if be_val k < hv n then rb_descend l (shm_key64 k) k
     else if hv n < be_val k then rb_descend r (shm_key64 k) k else Some (rb_addr n))"
  using cascade_less [OF assms] cascade_greater [OF assms]
  by (auto simp: Let_def)

lemma rb_insert_step:
  assumes "ent_ok n" and "ent_ok t"
  shows "rbtree_insert_value (Node l t r) n =
    (if hv n < hv t then Node (rbtree_insert_value l n) t r
     else Node l t (rbtree_insert_value r n))"
  using cascade_less [of "rb_hash n" t] cascade_greater [of "rb_hash n" t] assms
  by (auto simp: ent_ok_def)

declare rb_descend.simps(2) [simp del] rbtree_insert_value.simps(2) [simp del]

lemma rb_inv_Leaf [simp]: "rb_inv Leaf"
  by (simp add: rb_inv_def)

lemma rb_inv_Node:
  "rb_inv (Node l e r) \<longleftrightarrow> rb_inv l \<and> rb_inv r \<and> ent_ok e \<and>
    (\<forall>x \<in> set_tree l. hv x < hv e) \<and> (\<forall>x \<in> set_tree r. hv e < hv x)"
proof
  assume inv: "rb_inv l \<and> rb_inv r \<and> ent_ok e \<and>
    (\<forall>x \<in> set_tree l. hv x < hv e) \<and> (\<forall>x \<in> set_tree r. hv e < hv x)"
  then have "\<forall>x \<in> set_tree l. \<forall>y \<in> set_tree r. hv x < hv y"
    by (meson less_trans)
  with inv show "rb_inv (Node l e r)"
    by (auto simp: rb_inv_def sorted_wrt_append)
qed (auto simp: rb_inv_def sorted_wrt_append)

lemma rb_lookup_iff:
  assumes "rb_inv t" and "length k = 32"
  shows "rb_lookup t k = Some a \<longleftrightarrow> (k, a) \<in> rb_entries t"
  using assms(1) unfolding rb_lookup_def
proof (induction t)
  case Leaf
  then show ?case by (simp add: rb_entries_def)
next
  case (Node l n r)
  have inj: "be_val (rb_hash x) = be_val k \<longleftrightarrow> rb_hash x = k" if "ent_ok x" for x
    using that assms(2) by (simp add: ent_ok_def be_val_inj)
  have sub: "(k, a) \<in> rb_entries (Node l n r) \<longleftrightarrow>
      (k, a) \<in> rb_entries l \<or> (k, a) \<in> rb_entries r \<or> k = rb_hash n \<and> a = rb_addr n"
    by (auto simp: rb_entries_def)
  from Node.prems have inv: "rb_inv l" "rb_inv r" "ent_ok n"
    and lo: "\<And>x. x \<in> set_tree l \<Longrightarrow> hv x < hv n" and hi: "\<And>x. x \<in> set_tree r \<Longrightarrow> hv n < hv x"
    by (auto simp: rb_inv_Node)
  have l: "(k, a) \<in> rb_entries l \<Longrightarrow> be_val k < hv n"
    and r: "(k, a) \<in> rb_entries r \<Longrightarrow> hv n < be_val k"
    using lo hi by (auto simp: rb_entries_def)
  have eq: "\<not> be_val k < hv n \<Longrightarrow> \<not> hv n < be_val k \<Longrightarrow> k = rb_hash n"
    using inj [OF inv(3)] by simp
  show ?case
    unfolding rb_descend_step [OF assms(2) inv(3)] sub
    using Node.IH(1) [OF inv(1)] Node.IH(2) [OF inv(2)] l r eq by auto
qed

lemma set_tree_insert_value: "set_tree (rbtree_insert_value t n) = insert n (set_tree t)"
  by (induction t n rule: rbtree_insert_value.induct) (auto simp: rbtree_insert_value.simps(2))

lemma rb_inv_insert_value:
  assumes "rb_inv t" and "ent_ok n" and "\<forall>x \<in> set_tree t. hv x \<noteq> hv n"
  shows "rb_inv (rbtree_insert_value t n)"
  using assms
proof (induction t)
  case Leaf
  then show ?case by (simp add: rb_inv_Node)
next
  case (Node l e r)
  then have "ent_ok e" and "hv e \<noteq> hv n" by (auto simp: rb_inv_Node)
  with Node show ?case
    by (auto simp: rb_insert_step rb_inv_Node set_tree_insert_value)
qed

lemma rb_inv_inorder_cong:
  "inorder t = inorder u \<Longrightarrow> rb_inv t = rb_inv u"
  by (metis rb_inv_def set_inorder)

lemma rb_entries_inorder: "rb_entries t = (\<lambda>e. (rb_hash e, rb_addr e)) ` set (inorder t)"
  by (simp add: rb_entries_def)

lemma rb_inv_del:
  assumes "rb_core_ok fixup del" and "rb_inv t"
  shows "rb_inv (del t a)"
proof -
  have io: "inorder (del t a) = filter (\<lambda>e. rb_addr e \<noteq> a) (inorder t)"
    using assms(1) by (simp add: rb_core_ok_def)
  then have "set_tree (del t a) \<subseteq> set_tree t"
    by (metis filter_is_subset set_inorder)
  moreover have "sorted_wrt (<) (map hv (filter (\<lambda>e. rb_addr e \<noteq> a) (inorder t)))"
    using assms(2) by (simp add: rb_inv_def sorted_wrt_map sorted_wrt_filter)
  ultimately show ?thesis
    using assms(2) io by (auto simp: rb_inv_def)
qed

lemma rb_entries_del:
  "rb_core_ok fixup del \<Longrightarrow> rb_entries (del t a) = {e \<in> rb_entries t. snd e \<noteq> a}"
  by (auto simp: rb_entries_inorder rb_core_ok_def simp del: set_inorder)

lemma rb_entries_insert:
  "rb_core_ok fixup del \<Longrightarrow> rb_entries (rb_insert fixup t k a) = insert (k, a) (rb_entries t)"
proof -
  assume ok: "rb_core_ok fixup del"
  have "set_tree (fixup u) = set_tree u" for u
    using ok by (metis rb_core_ok_def set_inorder)
  then show ?thesis
    by (simp add: rb_entries_def rb_insert_def set_tree_insert_value)
qed

lemma rb_inv_insert:
  assumes ok: "rb_core_ok fixup del" and inv: "rb_inv t" and k: "length k = 32"
    and new: "rb_lookup t k = None"
  shows "rb_inv (rb_insert fixup t k a)"
proof -
  have "hv x \<noteq> be_val k" if x: "x \<in> set_tree t" for x
  proof
    assume "hv x = be_val k"
    moreover have "length (rb_hash x) = 32" using inv x by (auto simp: rb_inv_def ent_ok_def)
    ultimately have "rb_hash x = k" using k by (simp add: be_val_inj)
    then have "(k, rb_addr x) \<in> rb_entries t" using x by (force simp: rb_entries_def)
    then show False using rb_lookup_iff [OF inv k] new by simp
  qed
  then have "rb_inv (rbtree_insert_value t (RbEnt (shm_key64 k) k a))"
    using inv k by (intro rb_inv_insert_value) (auto simp: ent_ok_def)
  then show ?thesis
    using ok rb_inv_inorder_cong unfolding rb_insert_def rb_core_ok_def by metis
qed

subsection \<open>The index interface\<close>

text \<open>
  What the zone relies on: a finite relation between key hashes and node addresses, with at
  most one address per hash, that lookup reads, insertion of an absent key extends and removal
  of an address shrinks.
\<close>

locale key_index =
  fixes lookup :: "'t \<Rightarrow> bytes \<Rightarrow> addr option"
    and insert_new :: "'t \<Rightarrow> bytes \<Rightarrow> addr \<Rightarrow> 't"
    and remove :: "'t \<Rightarrow> addr \<Rightarrow> 't"
    and entries :: "'t \<Rightarrow> (bytes \<times> addr) set"
    and inv :: "'t \<Rightarrow> bool"
  assumes lookup_iff: "inv t \<Longrightarrow> length k = 32 \<Longrightarrow> lookup t k = Some a \<longleftrightarrow> (k, a) \<in> entries t"
    and entries_len: "inv t \<Longrightarrow> (k, a) \<in> entries t \<Longrightarrow> length k = 32"
    and entries_insert: "inv t \<Longrightarrow> length k = 32 \<Longrightarrow> lookup t k = None \<Longrightarrow>
      entries (insert_new t k a) = insert (k, a) (entries t)"
    and inv_insert: "inv t \<Longrightarrow> length k = 32 \<Longrightarrow> lookup t k = None \<Longrightarrow> inv (insert_new t k a)"
    and entries_remove: "inv t \<Longrightarrow> entries (remove t a) = {e \<in> entries t. snd e \<noteq> a}"
    and inv_remove: "inv t \<Longrightarrow> inv (remove t a)"
begin

lemma entries_functional:
  assumes "inv t" and "(k, a) \<in> entries t" and "(k, b) \<in> entries t"
  shows "a = b"
proof -
  have k: "length k = 32" using assms(1,2) by (rule entries_len)
  have "lookup t k = Some a" and "lookup t k = Some b"
    using assms by (simp_all add: lookup_iff [OF assms(1) k])
  then show ?thesis by simp
qed

lemma lookup_insert:
  assumes "inv t" and "length k = 32" and "lookup t k = None" and "length k' = 32"
  shows "lookup (insert_new t k a) k' = (if k' = k then Some a else lookup t k')"
proof (rule option_eqI)
  fix b
  have "lookup (insert_new t k a) k' = Some b \<longleftrightarrow> (k', b) = (k, a) \<or> lookup t k' = Some b"
    using assms inv_insert [OF assms(1-3)] by (simp add: lookup_iff entries_insert)
  then show "(lookup (insert_new t k a) k' = Some b) =
      ((if k' = k then Some a else lookup t k') = Some b)"
    using assms(3) by auto
qed

lemma lookup_remove:
  assumes "inv t" and "length k = 32"
  shows "lookup (remove t a) k = (if lookup t k = Some a then None else lookup t k)"
proof (rule option_eqI)
  fix b
  have "lookup (remove t a) k = Some b \<longleftrightarrow> lookup t k = Some b \<and> b \<noteq> a"
    using assms inv_remove [OF assms(1)] by (simp add: lookup_iff entries_remove)
  then show "(lookup (remove t a) k = Some b) =
      ((if lookup t k = Some a then None else lookup t k) = Some b)"
    by auto
qed

lemma lookup_None_iff:
  assumes "inv t" and "length k = 32"
  shows "lookup t k = None \<longleftrightarrow> (\<forall>a. (k, a) \<notin> entries t)"
  using lookup_iff [OF assms] by (metis not_Some_eq)

end

interpretation rb: key_index rb_lookup "rb_insert fixup" del rb_entries
    "\<lambda>t. rb_core_ok fixup del \<and> rb_inv t" for fixup del
proof unfold_locales
  show "length k = 32" if "rb_core_ok fixup del \<and> rb_inv t" and "(k, a) \<in> rb_entries t" for t k a
    using that by (auto simp: rb_entries_def rb_inv_def ent_ok_def)
qed (auto simp: rb_lookup_iff rb_entries_insert rb_inv_insert rb_entries_del rb_inv_del)

subsection \<open>The tree as an index\<close>

text \<open>Inserting a key the tree does not hold makes exactly that key resolve to the new node and
  leaves every other key as it was, keys that share the 64-bit prefix the nodes are ordered by
  included; and the order invariant every descent relies on is kept, whatever rotations nginx does.\<close>

theorem rbtree_lookup_insert:
  assumes "rb_core_ok fixup del" and "rb_inv t" and "length k = 32" and "rb_lookup t k = None"
    and "length k' = 32"
  shows "rb_lookup (rb_insert fixup t k a) k' = (if k' = k then Some a else rb_lookup t k') \<and>
    rb_inv (rb_insert fixup t k a)"
  using rb.lookup_insert [of fixup del t k k' a] rb.inv_insert [of fixup del t k a] assms by simp

text \<open>Removing a node unbinds exactly the key that resolved to it.\<close>

theorem rbtree_lookup_remove:
  assumes "rb_core_ok fixup del" and "rb_inv t" and "length k = 32"
  shows "rb_lookup (del t a) k = (if rb_lookup t k = Some a then None else rb_lookup t k) \<and> rb_inv (del t a)"
  using rb.lookup_remove [of fixup del t k a] rb.inv_remove [of fixup del t a] assms by simp

definition demo_del :: "rbent tree \<Rightarrow> addr \<Rightarrow> rbent tree" where
  "demo_del t a = foldr (\<lambda>e t. Node Leaf e t) (filter (\<lambda>e. rb_addr e \<noteq> a) (inorder t)) Leaf"

lemma demo_del_ok: "rb_core_ok (\<lambda>t. t) demo_del"
proof -
  have "inorder (foldr (\<lambda>e t. Node Leaf e t) es Leaf) = es" for es :: "rbent list"
    by (induction es) simp_all
  then show ?thesis by (simp add: rb_core_ok_def demo_del_def)
qed

definition demo_tree :: "rbent tree" where
  "demo_tree = rb_insert (\<lambda>t. t) Leaf (replicate 32 0) 5"

lemma demo_tree_inv: "rb_inv demo_tree"
  using rb_inv_insert [OF demo_del_ok rb_inv_Leaf] by (simp add: demo_tree_def rb_lookup_def)

lemma demo_tree_lookup:
  "rb_lookup demo_tree (replicate 32 0) = Some 5" "rb_lookup demo_tree (replicate 31 0 @ [1]) = None"
  by code_simp+

theorem rbtree_lookup_insert_witness:
  "rb_lookup (rb_insert (\<lambda>t. t) demo_tree (replicate 31 0 @ [1]) 9) (replicate 32 0) = Some 5"
proof -
  have "replicate 32 0 \<noteq> replicate 31 0 @ [1 :: u8]" by code_simp
  with rbtree_lookup_insert [OF demo_del_ok demo_tree_inv _ demo_tree_lookup(2), of "replicate 32 0" 9]
  show ?thesis by (simp add: demo_tree_lookup(1))
qed

theorem rbtree_lookup_remove_witness:
  "rb_lookup (demo_del demo_tree 5) (replicate 32 0) = None"
  using rbtree_lookup_remove [OF demo_del_ok demo_tree_inv, of "replicate 32 0" 5]
  by (simp add: demo_tree_lookup(1))

end
