(* ===== verification/Sketch.thy ===== *)
theory Sketch
  imports Prelude
begin

text \<open>
  The W-TinyLFU frequency sketch of \<^verbatim>\<open>src/ngx_http_cache_turbo_shm.c\<close>: four rows of packed
  4-bit counters, two per byte, incremented on every access, halved one stripe at a time, and
  read as the minimum over the rows. The part of the zone's state it uses is the record
  \<open>sketch_st\<close>; \<open>sketch = None\<close> is the C NULL of a failed carve. \<open>ngx_uint_t\<close> sizes, indices and
  tallies are \<open>nat\<close>: they are bounded by the sketch's own size (the indices, the cursor and
  \<open>sketch_ops\<close>) or are diagnostics no decision reads.
\<close>

definition SKETCH_ROWS :: nat where "SKETCH_ROWS = 4"
definition SKETCH_MAX :: nat where "SKETCH_MAX = 15"
definition SKETCH_SAMPLE :: nat where "SKETCH_SAMPLE = 10"
definition SKETCH_MIN_WIDTH :: nat where "SKETCH_MIN_WIDTH = 1024"
definition SKETCH_MAX_WIDTH :: nat where "SKETCH_MAX_WIDTH = 2 ^ 20"
definition SKETCH_HALVE_STRIPES :: nat where "SKETCH_HALVE_STRIPES = 16"

lemmas sketch_consts = SKETCH_ROWS_def SKETCH_MAX_def SKETCH_SAMPLE_def SKETCH_MIN_WIDTH_def
  SKETCH_MAX_WIDTH_def SKETCH_HALVE_STRIPES_def

record sketch_st =
  sketch :: "bytes option"
  sketch_width :: nat
  sketch_ops :: nat
  sketch_reset_at :: nat
  sketch_gen :: nat
  sketch_cursor :: nat
  sketch_bumps :: nat

subsection \<open>Carving the sketch\<close>

text \<open>
  The rounding loop of \<open>shm_init_zone\<close>. It starts at \<open>SKETCH_MIN_WIDTH\<close>; the guard \<open>0 < w\<close> is
  there for termination only and always holds.
\<close>

function round_pow2 :: "nat \<Rightarrow> nat \<Rightarrow> nat" where
  "round_pow2 w width = (if 0 < w \<and> w \<le> width div 2 then round_pow2 (2 * w) width else w)"
  by pat_completeness auto
termination
  by (relation "measure (\<lambda>(w, width). width - w)") auto

declare round_pow2.simps [simp del]

definition sketch_width_of :: "nat \<Rightarrow> nat" where
  "sketch_width_of zone_size =
     (let width = zone_size div 4096;
          width = (if width < SKETCH_MIN_WIDTH then SKETCH_MIN_WIDTH
                   else if width > SKETCH_MAX_WIDTH then SKETCH_MAX_WIDTH else width)
      in round_pow2 SKETCH_MIN_WIDTH width)"

text \<open>The carve; \<open>granted\<close> is whether \<open>ngx_slab_calloc\<close> returned memory.\<close>

definition sketch_init :: "nat \<Rightarrow> bool \<Rightarrow> sketch_st" where
  "sketch_init zone_size granted =
     (let width = sketch_width_of zone_size; bytes = width * SKETCH_ROWS div 2
      in if granted
         then \<lparr>sketch = Some (replicate bytes 0), sketch_width = width, sketch_ops = 0,
               sketch_reset_at = width * SKETCH_SAMPLE, sketch_gen = 0, sketch_cursor = 0,
               sketch_bumps = 0\<rparr>
         else \<lparr>sketch = None, sketch_width = 0, sketch_ops = 0, sketch_reset_at = 0,
               sketch_gen = 0, sketch_cursor = 0, sketch_bumps = 0\<rparr>)"

subsection \<open>Operations\<close>

text \<open>\<open>ngx_http_cache_turbo_sketch_row_hash\<close>: the row index mixed in, then fmix32.\<close>

definition sketch_row_hash :: "u32 \<Rightarrow> nat \<Rightarrow> u32" where
  "sketch_row_hash hash row =
     (let h = hash XOR (0x9e3779b9 * word_of_nat (row + 1));
          h = h XOR drop_bit 16 h;
          h = h * 0x85ebca6b;
          h = h XOR drop_bit 13 h;
          h = h * 0xc2b2ae35
      in h XOR drop_bit 16 h)"

definition sketch_rows :: "u32 \<Rightarrow> u32 list" where
  "sketch_rows hash = map (sketch_row_hash hash) [0..<SKETCH_ROWS]"

text \<open>\<open>ngx_http_cache_turbo_sketch_get\<close> and \<open>_inc\<close>: even indices in the low nibble.\<close>

definition sketch_get :: "bytes \<Rightarrow> nat \<Rightarrow> nat" where
  "sketch_get sk idx =
     (let b = sk ! (idx div 2) in if odd idx then unat (drop_bit 4 b) else unat (b AND 0x0f))"

definition sketch_inc :: "bytes \<Rightarrow> nat \<Rightarrow> bytes" where
  "sketch_inc sk idx =
     (let byte = idx div 2; b = sk ! byte
      in if odd idx
         then (if unat (drop_bit 4 b) < SKETCH_MAX then sk[byte := b + 0x10] else sk)
         else (if unat (b AND 0x0f) < SKETCH_MAX then sk[byte := b + 0x01] else sk))"

text \<open>The counter index of one row: \<open>row * width + (rows[row] & (width - 1))\<close>.\<close>

definition sketch_idx :: "nat \<Rightarrow> u32 list \<Rightarrow> nat \<Rightarrow> nat" where
  "sketch_idx width rows row = row * width + (unat (rows ! row) AND (width - 1))"

text \<open>\<open>ngx_http_cache_turbo_sketch_halve\<close>: one stripe from the cursor.\<close>

definition halve_byte :: "u8 \<Rightarrow> u8" where
  "halve_byte b = drop_bit 1 b AND 0x77"

definition sketch_stripe :: "nat \<Rightarrow> nat" where
  "sketch_stripe bytes = (bytes + SKETCH_HALVE_STRIPES - 1) div SKETCH_HALVE_STRIPES"

definition sketch_halve :: "sketch_st \<Rightarrow> sketch_st" where
  "sketch_halve s =
     (case sketch s of
        None \<Rightarrow> s
      | Some sk \<Rightarrow>
          let bytes = sketch_width s * SKETCH_ROWS div 2;
              start = (if sketch_cursor s \<ge> bytes then 0 else sketch_cursor s);
              end1 = start + sketch_stripe bytes;
              end2 = (if end1 \<ge> bytes then bytes else end1);
              sk' = map (\<lambda>i. if start \<le> i \<and> i < end2 then halve_byte (sk ! i) else sk ! i)
                      [0..<length sk];
              s1 = s\<lparr>sketch := Some sk', sketch_ops := 0\<rparr>
          in if end2 \<ge> bytes then s1\<lparr>sketch_cursor := 0, sketch_gen := sketch_gen s + 1\<rparr>
             else s1\<lparr>sketch_cursor := end2\<rparr>)"

text \<open>\<open>ngx_http_cache_turbo_shm_sketch_bump\<close>.\<close>

definition sketch_bump :: "sketch_st \<Rightarrow> u32 list \<Rightarrow> sketch_st" where
  "sketch_bump s rows =
     (case sketch s of
        None \<Rightarrow> s
      | Some sk \<Rightarrow>
          let sk' = foldl (\<lambda>sk row. sketch_inc sk (sketch_idx (sketch_width s) rows row)) sk
                      [0..<SKETCH_ROWS];
              s1 = s\<lparr>sketch := Some sk', sketch_bumps := sketch_bumps s + 1,
                     sketch_ops := sketch_ops s + 1\<rparr>
          in if sketch_ops s1 \<ge> sketch_reset_at s1 then sketch_halve s1 else s1)"

text \<open>\<open>ngx_http_cache_turbo_shm_sketch_estimate\<close>: the minimum over the rows, at most 15.\<close>

definition sketch_estimate :: "sketch_st \<Rightarrow> u32 list \<Rightarrow> nat" where
  "sketch_estimate s rows =
     (case sketch s of
        None \<Rightarrow> 0
      | Some sk \<Rightarrow>
          foldl (\<lambda>m row. let v = sketch_get sk (sketch_idx (sketch_width s) rows row)
                          in if v < m then v else m)
            SKETCH_MAX [0..<SKETCH_ROWS])"

subsection \<open>The width\<close>

definition pow2_below :: "nat \<Rightarrow> nat \<Rightarrow> bool" where
  "pow2_below w width \<longleftrightarrow> (\<exists>k. w = 2 ^ k) \<and> w \<le> width \<and> width < 2 * w"

lemma round_pow2_spec:
  "0 < w \<Longrightarrow> w = 2 ^ k \<Longrightarrow> w \<le> width \<Longrightarrow> pow2_below (round_pow2 w width) width"
proof (induction w width arbitrary: k rule: round_pow2.induct)
  case (1 w width)
  show ?case
  proof (cases "w \<le> width div 2")
    case True
    have "pow2_below (round_pow2 (2 * w) width) width"
      using 1 True by (intro "1.IH" [of "Suc k"]) auto
    with True "1.prems"(1) show ?thesis by (simp add: round_pow2.simps [of w])
  next
    case False
    then have "round_pow2 w width = w" by (subst round_pow2.simps) simp
    with False 1 show ?thesis by (auto simp: pow2_below_def)
  qed
qed

lemma sketch_width_of_range:
  "SKETCH_MIN_WIDTH \<le> sketch_width_of z \<and> sketch_width_of z \<le> SKETCH_MAX_WIDTH \<and>
   (\<exists>k. sketch_width_of z = 2 ^ k)"
proof -
  define width where "width = (if z div 4096 < SKETCH_MIN_WIDTH then SKETCH_MIN_WIDTH
    else if z div 4096 > SKETCH_MAX_WIDTH then SKETCH_MAX_WIDTH else z div 4096)"
  have w: "SKETCH_MIN_WIDTH \<le> width" "width \<le> SKETCH_MAX_WIDTH"
    by (auto simp: width_def sketch_consts)
  have "sketch_width_of z = round_pow2 SKETCH_MIN_WIDTH width"
    by (simp add: sketch_width_of_def width_def)
  moreover have p: "pow2_below (round_pow2 SKETCH_MIN_WIDTH width) width"
    using w by (intro round_pow2_spec [of _ 10]) (auto simp: SKETCH_MIN_WIDTH_def)
  moreover have "1024 \<le> round_pow2 SKETCH_MIN_WIDTH width"
  proof -
    obtain k where k: "round_pow2 SKETCH_MIN_WIDTH width = 2 ^ k"
      using p by (auto simp: pow2_below_def)
    have "2 ^ 10 < 2 * (2 :: nat) ^ k"
      using p w k by (simp add: pow2_below_def SKETCH_MIN_WIDTH_def)
    then have "10 < Suc k" by (metis power_Suc power_strict_increasing_iff one_less_numeral_iff semiring_norm(76))
    then have "(2 :: nat) ^ 10 \<le> 2 ^ k" by (intro power_increasing) auto
    with k show ?thesis by simp
  qed
  ultimately show ?thesis
    using w by (auto simp: pow2_below_def SKETCH_MIN_WIDTH_def)
qed

subsection \<open>Nibbles\<close>

lemma unat_hi_nibble: "unat (drop_bit 4 (b :: u8)) = unat b div 16"
proof -
  have "unat (drop_bit 4 b) = drop_bit 4 (unat b)" by (rule unat_drop_bit_eq)
  then show ?thesis by (simp only: drop_bit_eq_div) simp
qed

lemma unat_lo_nibble: "unat ((b :: u8) AND 0x0f) = unat b mod 16"
proof -
  have "(0x0f :: u8) = mask 4" by (simp add: mask_eq_exp_minus_1)
  then have "b AND 0x0f = take_bit 4 b" by (simp only: take_bit_eq_mask)
  then have "unat (b AND 0x0f) = take_bit 4 (unat b)" by (simp only: unsigned_take_bit_eq)
  then show ?thesis by (simp only: take_bit_eq_mod) simp
qed

lemma halve_byte_table:
  "list_all (\<lambda>n. unat (halve_byte (word_of_nat n)) = n div 32 * 16 + n mod 16 div 2) [0..<256]"
  by code_simp

lemma unat_halve_byte: "unat (halve_byte b) = unat b div 32 * 16 + unat b mod 16 div 2"
proof -
  have "unat b \<in> set [0..<256]" using unat_u8_less [of b] by simp
  then show ?thesis using halve_byte_table unfolding list_all_iff by fastforce
qed

lemma nibble_halves:
  "unat (halve_byte b) div 16 = unat b div 16 div 2"
  "unat (halve_byte b) mod 16 = unat b mod 16 div 2"
  by (simp_all add: unat_halve_byte div_mult2_eq [symmetric])

lemma sketch_get_le_max: "sketch_get sk i \<le> SKETCH_MAX"
proof -
  have "unat (sk ! (i div 2)) div 16 < 16"
    using unat_u8_less [of "sk ! (i div 2)"] by (simp add: div_less_iff_less_mult)
  moreover have "unat (sk ! (i div 2)) mod 16 < 16" by simp
  ultimately have "unat (sk ! (i div 2)) div 16 \<le> 15" "unat (sk ! (i div 2)) mod 16 \<le> 15"
    by linarith+
  then show ?thesis
    by (simp only: sketch_get_def Let_def unat_hi_nibble unat_lo_nibble SKETCH_MAX_def split: if_split)
      simp
qed

text \<open>The saturating increment: its own counter moves, every other one stays.\<close>

definition nib :: "bool \<Rightarrow> u8 \<Rightarrow> nat" where
  "nib hi b = (if hi then unat b div 16 else unat b mod 16)"

definition nib_inc :: "bool \<Rightarrow> u8 \<Rightarrow> u8" where
  "nib_inc hi b = (if nib hi b < SKETCH_MAX then b + (if hi then 0x10 else 0x01) else b)"

lemma sketch_get_nib: "sketch_get sk i = nib (odd i) (sk ! (i div 2))"
  by (simp only: sketch_get_def Let_def nib_def unat_hi_nibble unat_lo_nibble split: if_split)

lemma sketch_inc_nib: "sketch_inc sk i = sk[i div 2 := nib_inc (odd i) (sk ! (i div 2))]"
  by (simp only: sketch_inc_def Let_def nib_inc_def nib_def unat_hi_nibble unat_lo_nibble
      list_update_id split: if_split) auto

lemma succ_in_nibble: "(n + 1) div 16 = n div 16" "(n + 1) mod 16 = n mod 16 + 1"
  if "n mod 16 < 15" for n :: nat
  using that by (simp_all add: div_Suc mod_Suc)

lemma nib_nib_inc:
  "nib side (nib_inc hi b) = (if side = hi then min SKETCH_MAX (nib side b + 1) else nib side b)"
proof -
  define n where "n = unat b"
  have n: "n < 256" unfolding n_def by (rule unat_u8_less)
  have bounds: "n div 16 \<le> 15" "n mod 16 \<le> 15"
    using n less_mult_imp_div_less [of n 16 16] mod_less_divisor [of 16 n] by linarith+
  have hi: "unat (b + 0x10) = n + 16" if "n div 16 < 15"
  proof -
    have "n < 15 * 16" using that by (simp add: div_less_iff_less_mult)
    then show ?thesis using unat_plus_no_overflow [of b 16] by (simp add: n_def)
  qed
  have lo: "unat (b + 0x01) = n + 1" if "n mod 16 < 15"
  proof -
    have "n \<noteq> 255" using that by auto
    with n show ?thesis using unat_plus_no_overflow [of b 1] by (simp add: n_def)
  qed
  have hi_carry: "(n + 16) div 16 = n div 16 + 1" "(n + 16) mod 16 = n mod 16"
    by simp_all
  show ?thesis
  proof (cases hi)
    case True
    then show ?thesis
      using hi hi_carry bounds
      by (cases side; cases "n div 16 < 15") (simp_all add: nib_def nib_inc_def n_def [symmetric] SKETCH_MAX_def)
  next
    case False
    then show ?thesis
      using lo succ_in_nibble [of n] bounds
      by (cases side; cases "n mod 16 < 15") (simp_all add: nib_def nib_inc_def n_def [symmetric] SKETCH_MAX_def)
  qed
qed

lemma same_counter: "i div 2 = j div 2 \<Longrightarrow> odd i = odd j \<Longrightarrow> i = j" for i j :: nat
  by (metis bit_eq_rec even_iff_mod_2_eq_zero odd_iff_mod_2_eq_one div_mult_mod_eq)

lemma sketch_get_inc:
  assumes i: "i div 2 < length sk"
  shows "sketch_get (sketch_inc sk i) j =
    (if j = i then min SKETCH_MAX (sketch_get sk i + 1) else sketch_get sk j)"
proof (cases "j div 2 = i div 2")
  case True
  then have "sk[i div 2 := nib_inc (odd i) (sk ! (i div 2))] ! (j div 2) = nib_inc (odd i) (sk ! (i div 2))"
    using i by simp
  then show ?thesis
    using same_counter [OF True] True
    by (auto simp only: sketch_get_nib sketch_inc_nib nib_nib_inc split: if_split)
next
  case False
  then have "sk[i div 2 := x] ! (j div 2) = sk ! (j div 2)" for x by simp
  with False show ?thesis by (auto simp only: sketch_get_nib sketch_inc_nib split: if_split)
qed

lemma length_sketch_inc [simp]: "length (sketch_inc sk i) = length sk"
  by (simp add: sketch_inc_def Let_def)

subsection \<open>Well-formed sketches\<close>

definition sketch_wf :: "sketch_st \<Rightarrow> bool" where
  "sketch_wf s \<longleftrightarrow> (case sketch s of
      None \<Rightarrow> True
    | Some sk \<Rightarrow> length sk = 2 * sketch_width s \<and> sketch_cursor s < length sk \<and>
        SKETCH_MIN_WIDTH \<le> sketch_width s \<and> (\<exists>k. sketch_width s = 2 ^ k))"

lemma sketch_init_wf: "sketch_wf (sketch_init z g)"
  using sketch_width_of_range [of z]
  by (auto simp: sketch_wf_def sketch_init_def Let_def SKETCH_ROWS_def SKETCH_MIN_WIDTH_def)

lemma and_width_less:
  assumes "width = 2 ^ k"
  shows "(n :: nat) AND (width - 1) < width"
proof -
  have "n AND (width - 1) = take_bit k n"
    using assms by (simp add: take_bit_eq_mask mask_eq_exp_minus_1)
  then show ?thesis using assms by (simp add: take_bit_nat_less_exp)
qed

lemma sketch_idx_row:
  assumes "width = 2 ^ k"
  shows "sketch_idx width rows row div width = row"
    and "row < SKETCH_ROWS \<Longrightarrow> sketch_idx width rows row div 2 < 2 * width"
proof -
  have less: "unat (rows ! row) AND (width - 1) < width" using assms by (rule and_width_less)
  then show "sketch_idx width rows row div width = row"
    by (simp add: sketch_idx_def)
  assume "row < SKETCH_ROWS"
  then have "(row + 1) * width \<le> 4 * width"
    by (intro mult_right_mono) (auto simp: SKETCH_ROWS_def)
  then have "row * width + width \<le> 4 * width" by simp
  then have "sketch_idx width rows row < 4 * width"
    unfolding sketch_idx_def using less by linarith
  then show "sketch_idx width rows row div 2 < 2 * width" by simp
qed

lemma length_foldl_inc [simp]:
  "length (foldl (\<lambda>sk row. sketch_inc sk (f row)) sk rs) = length sk"
  by (induction rs arbitrary: sk) auto

lemma sketch_halve_wf: "sketch_wf s \<Longrightarrow> sketch_wf (sketch_halve s)"
  by (auto simp: sketch_wf_def sketch_halve_def Let_def SKETCH_ROWS_def SKETCH_MIN_WIDTH_def
      split: option.splits)

lemma sketch_bump_wf: "sketch_wf s \<Longrightarrow> sketch_wf (sketch_bump s rows)"
proof (cases "sketch s")
  case (Some sk)
  assume "sketch_wf s"
  with Some have "sketch_wf (s\<lparr>sketch := Some (foldl (\<lambda>sk row. sketch_inc sk
      (sketch_idx (sketch_width s) rows row)) sk [0..<SKETCH_ROWS]),
      sketch_bumps := sketch_bumps s + 1, sketch_ops := sketch_ops s + 1\<rparr>)"
    by (simp add: sketch_wf_def)
  with Some show ?thesis by (simp add: sketch_bump_def Let_def sketch_halve_wf)
qed (simp add: sketch_bump_def)

text \<open>The interface every user of the sketch relies on.\<close>

datatype sketch_event = SBump "u32 list" | SHalve

fun sketch_step :: "sketch_st \<Rightarrow> sketch_event \<Rightarrow> sketch_st" where
  "sketch_step s (SBump rows) = sketch_bump s rows"
| "sketch_step s SHalve = sketch_halve s"

lemma sketch_halve_gen: "sketch_gen s \<le> sketch_gen (sketch_halve s)"
  by (simp add: sketch_halve_def Let_def split: option.splits)

lemma sketch_bump_gen: "sketch_gen s \<le> sketch_gen (sketch_bump s rows)"
proof (cases "sketch s")
  case (Some sk)
  then show ?thesis
    unfolding sketch_bump_def Let_def by (auto intro!: order_trans [OF _ sketch_halve_gen])
qed (simp add: sketch_bump_def)

interpretation sketch: monotone_stateful sketch_step "\<lambda>s e. True" sketch_wf sketch_gen
proof
  fix s e
  show "sketch_wf s \<Longrightarrow> sketch_wf (sketch_step s e)"
    by (cases e) (auto intro: sketch_bump_wf sketch_halve_wf)
  show "sketch_gen s \<le> sketch_gen (sketch_step s e)"
    by (cases e) (auto intro: sketch_bump_gen sketch_halve_gen)
qed

subsection \<open>The estimate never undercounts\<close>

text \<open>A running minimum, characterised by its lower bounds.\<close>

lemma running_min_le_iff:
  "n \<le> foldl (\<lambda>m x. let v = f x in if v < m then v else m) a xs \<longleftrightarrow>
    n \<le> a \<and> (\<forall>x \<in> set xs. n \<le> f x)" for n a :: "'a::linorder"
  by (induction xs arbitrary: a) (auto simp: Let_def)

definition counter_of :: "sketch_st \<Rightarrow> u32 list \<Rightarrow> nat \<Rightarrow> nat" where
  "counter_of s rows row =
    sketch_get (case sketch s of None \<Rightarrow> [] | Some sk \<Rightarrow> sk) (sketch_idx (sketch_width s) rows row)"

lemma le_sketch_estimate_iff:
  "sketch s \<noteq> None \<Longrightarrow> n \<le> sketch_estimate s rows \<longleftrightarrow>
    n \<le> SKETCH_MAX \<and> (\<forall>row < SKETCH_ROWS. n \<le> counter_of s rows row)"
  unfolding sketch_estimate_def counter_of_def
  by (auto simp: running_min_le_iff)

lemma sketch_get_foldl_inc:
  assumes "\<forall>r \<in> set rs. f r div 2 < length sk" and "distinct (map f rs)"
  shows "sketch_get (foldl (\<lambda>sk row. sketch_inc sk (f row)) sk rs) j =
    (if j \<in> f ` set rs then min SKETCH_MAX (sketch_get sk j + 1) else sketch_get sk j)"
  using assms
  by (induction rs arbitrary: sk) (auto simp: sketch_get_inc)

lemma counter_of_bump:
  assumes wf: "sketch_wf s" and sk: "sketch s \<noteq> None"
    and quiet: "sketch_ops s + 1 < sketch_reset_at s" and row: "row < SKETCH_ROWS"
  shows "counter_of (sketch_bump s rows') rows row =
    (if sketch_idx (sketch_width s) rows row = sketch_idx (sketch_width s) rows' row
     then min SKETCH_MAX (counter_of s rows row + 1) else counter_of s rows row)"
proof -
  from wf sk obtain a k where a: "sketch s = Some a" "length a = 2 * sketch_width s"
    and w: "sketch_width s = 2 ^ k"
    by (auto simp: sketch_wf_def)
  let ?f = "sketch_idx (sketch_width s) rows'"
  note div = sketch_idx_row(1) [OF w]
  have "inj ?f" by (rule injI) (metis div)
  then have d: "distinct (map ?f [0..<SKETCH_ROWS])"
    by (auto simp: distinct_map intro: inj_on_subset)
  have lt: "\<forall>r \<in> set [0..<SKETCH_ROWS]. ?f r div 2 < length a"
    using sketch_idx_row(2) [OF w] a(2) by auto
  have mem: "sketch_idx (sketch_width s) rows row \<in> ?f ` set [0..<SKETCH_ROWS] \<longleftrightarrow>
      sketch_idx (sketch_width s) rows row = ?f row"
    using row div by (auto simp: image_iff) metis
  show ?thesis
    using a quiet
    by (simp add: counter_of_def sketch_bump_def Let_def sketch_get_foldl_inc [OF lt d] mem
        del: set_upt)
qed

lemma bump_ops:
  "sketch s \<noteq> None \<Longrightarrow> sketch_ops s + 1 < sketch_reset_at s \<Longrightarrow>
    sketch_ops (sketch_bump s rows) = sketch_ops s + 1 \<and>
    sketch_reset_at (sketch_bump s rows) = sketch_reset_at s \<and>
    sketch_width (sketch_bump s rows) = sketch_width s \<and> sketch (sketch_bump s rows) \<noteq> None"
  by (auto simp: sketch_bump_def Let_def)

lemma estimate_bump_other:
  assumes "sketch_wf s" "sketch s \<noteq> None" "sketch_ops s + 1 < sketch_reset_at s"
  shows "sketch_estimate s rows \<le> sketch_estimate (sketch_bump s rows') rows"
proof -
  have "sketch (sketch_bump s rows') \<noteq> None" using bump_ops assms by blast
  then show ?thesis
    using le_sketch_estimate_iff [OF assms(2), of "sketch_estimate s rows" rows]
      counter_of_bump [OF assms]
    by (auto simp: le_sketch_estimate_iff)
qed

lemma estimate_bump_self:
  assumes "sketch_wf s" "sketch s \<noteq> None" "sketch_ops s + 1 < sketch_reset_at s"
  shows "sketch_estimate (sketch_bump s rows) rows = min SKETCH_MAX (sketch_estimate s rows + 1)"
proof -
  have sk: "sketch (sketch_bump s rows) \<noteq> None" using bump_ops assms by blast
  have "n \<le> sketch_estimate (sketch_bump s rows) rows \<longleftrightarrow>
      n \<le> min SKETCH_MAX (sketch_estimate s rows + 1)" for n
  proof (cases n)
    case (Suc m)
    then show ?thesis
      using le_sketch_estimate_iff [OF assms(2), of m rows] counter_of_bump [OF assms]
      by (auto simp: le_sketch_estimate_iff [OF sk])
  qed simp
  then show ?thesis by (meson order_antisym order_refl)
qed

text \<open>Between two ageing steps the estimate is one-sided: after any sequence of accesses, the
  estimate of an item has grown by at least the number of its own accesses (up to the saturation
  value), whatever else was counted and however the rows collide; no access lowers it.\<close>

theorem sketch_one_sided:
  assumes "sketch_wf s" and "sketch s \<noteq> None"
    and "sketch_ops s + length accesses < sketch_reset_at s"
  shows "min SKETCH_MAX (sketch_estimate s rows + count_list accesses rows)
    \<le> sketch_estimate (foldl sketch_bump s accesses) rows"
  using assms
proof (induction accesses arbitrary: s)
  case Nil
  then show ?case by simp
next
  case (Cons x xs)
  then have quiet: "sketch_ops s + 1 < sketch_reset_at s" by simp
  note b = bump_ops [OF Cons.prems(2) quiet, of x]
  have "min SKETCH_MAX (sketch_estimate (sketch_bump s x) rows + count_list xs rows)
      \<le> sketch_estimate (foldl sketch_bump (sketch_bump s x) xs) rows"
    using Cons.prems b by (intro Cons.IH) (auto intro: sketch_bump_wf)
  moreover have "min SKETCH_MAX (sketch_estimate s rows + (if x = rows then 1 else 0))
      \<le> sketch_estimate (sketch_bump s x) rows"
    using estimate_bump_other [OF Cons.prems(1,2) quiet, of rows x]
      estimate_bump_self [OF Cons.prems(1,2) quiet, of rows] by auto
  ultimately show ?case by (auto split: if_splits)
qed

definition demo_sketch :: sketch_st where
  "demo_sketch = sketch_init 0 True"

lemma demo_sketch_simps:
  "sketch_wf demo_sketch" "sketch demo_sketch \<noteq> None" "sketch_ops demo_sketch = 0"
  "sketch_reset_at demo_sketch = 10240"
  by (simp_all add: demo_sketch_def sketch_init_wf)
    (simp_all add: sketch_init_def sketch_width_of_def round_pow2.simps Let_def sketch_consts)

lemma sketch_one_sided_witness:
  "min SKETCH_MAX (sketch_estimate demo_sketch (sketch_rows 7) +
      count_list [sketch_rows 7, sketch_rows 9, sketch_rows 7] (sketch_rows 7))
    \<le> sketch_estimate (foldl sketch_bump demo_sketch
        [sketch_rows 7, sketch_rows 9, sketch_rows 7]) (sketch_rows 7)"
  by (rule sketch_one_sided) (simp_all add: demo_sketch_simps)

subsection \<open>A lap of the ageing cursor\<close>

definition aged :: "nat \<Rightarrow> nat \<Rightarrow> bytes \<Rightarrow> bytes" where
  "aged lo hi sk = map (\<lambda>i. if lo \<le> i \<and> i < hi then halve_byte (sk ! i) else sk ! i) [0..<length sk]"

lemma aged_aged:
  "lo \<le> mid \<Longrightarrow> mid \<le> hi \<Longrightarrow> aged mid hi (aged lo mid sk) = aged lo hi sk"
  by (rule nth_equalityI) (auto simp: aged_def)

lemma aged_empty: "aged lo lo sk = sk"
  by (rule nth_equalityI) (auto simp: aged_def)

text \<open>The sixteen stripes of a sketch divide it evenly: its length is a multiple of 16.\<close>

lemma stripe_exact:
  assumes "sketch_wf s" and "sketch s = Some sk"
  shows "16 * sketch_stripe (2 * sketch_width s) = length sk"
proof -
  from assms obtain k where w: "sketch_width s = 2 ^ k" "1024 \<le> sketch_width s"
    and len: "length sk = 2 * sketch_width s"
    by (auto simp: sketch_wf_def SKETCH_MIN_WIDTH_def)
  have "3 \<le> k"
  proof (rule ccontr)
    assume "\<not> 3 \<le> k"
    then have "(2 :: nat) ^ k \<le> 2 ^ 2" by (intro power_increasing) auto
    with w show False by simp
  qed
  then obtain j where "k = j + 3" by (metis add.commute le_Suc_ex)
  with w have "2 * sketch_width s = 16 * 2 ^ j" by (simp add: power_add)
  then show ?thesis
    by (simp add: len sketch_stripe_def SKETCH_HALVE_STRIPES_def)
qed

lemma halve_lap_prefix:
  assumes wf: "sketch_wf s" and sk: "sketch s = Some sk" and c: "sketch_cursor s = 0"
    and d: "d = sketch_stripe (2 * sketch_width s)" and n: "n < 16"
  shows "(sketch_halve ^^ n) s = s\<lparr>sketch := Some (aged 0 (n * d) sk), sketch_cursor := n * d,
    sketch_ops := (if n = 0 then sketch_ops s else 0)\<rparr>"
  using n
proof (induction n)
  case 0
  then show ?case using sk c by (simp add: aged_empty)
next
  case (Suc n)
  have len: "16 * d = length sk" "length sk = 2 * sketch_width s" "0 < length sk"
    using stripe_exact [OF wf sk] wf sk d by (auto simp: sketch_wf_def)
  then have "0 < d" by (cases d) auto
  then have lt: "n * d < 16 * d" "n * d + d < 16 * d"
    using Suc.prems by (simp_all flip: add_mult_distrib2 add: algebra_simps) 
  let ?t = "s\<lparr>sketch := Some (aged 0 (n * d) sk), sketch_cursor := n * d,
    sketch_ops := (if n = 0 then sketch_ops s else 0)\<rparr>"
  have "(sketch_halve ^^ Suc n) s = sketch_halve ?t" using Suc by simp
  also have "\<dots> = s\<lparr>sketch := Some (aged (n * d) (n * d + d) (aged 0 (n * d) sk)),
      sketch_cursor := n * d + d, sketch_ops := 0\<rparr>"
    using lt len by (simp add: sketch_halve_def Let_def SKETCH_ROWS_def aged_def d [symmetric])
  finally show ?case by (simp add: aged_aged add.commute)
qed

lemma halve_lap:
  assumes wf: "sketch_wf s" and sk: "sketch s = Some sk" and c: "sketch_cursor s = 0"
  shows "(sketch_halve ^^ SKETCH_HALVE_STRIPES) s =
    s\<lparr>sketch := Some (map halve_byte sk), sketch_ops := 0, sketch_cursor := 0,
      sketch_gen := sketch_gen s + 1\<rparr>"
proof -
  define d where "d = sketch_stripe (2 * sketch_width s)"
  have len: "16 * d = length sk" "length sk = 2 * sketch_width s" "0 < length sk"
    using stripe_exact [OF wf sk] wf sk d_def by (auto simp: sketch_wf_def)
  then have "0 < d" by (cases d) auto
  have "(sketch_halve ^^ SKETCH_HALVE_STRIPES) s = sketch_halve ((sketch_halve ^^ 15) s)"
    by (simp add: SKETCH_HALVE_STRIPES_def numeral_eq_Suc)
  also have "\<dots> = sketch_halve (s\<lparr>sketch := Some (aged 0 (15 * d) sk), sketch_cursor := 15 * d,
      sketch_ops := 0\<rparr>)"
    using halve_lap_prefix [OF wf sk c d_def, of 15] by simp
  also have "\<dots> = s\<lparr>sketch := Some (aged (15 * d) (16 * d) (aged 0 (15 * d) sk)),
      sketch_ops := 0, sketch_cursor := 0, sketch_gen := sketch_gen s + 1\<rparr>"
    using len \<open>0 < d\<close>
    by (simp add: sketch_halve_def Let_def SKETCH_ROWS_def aged_def d_def [symmetric])
  also have "aged (15 * d) (16 * d) (aged 0 (15 * d) sk) = map halve_byte sk"
    using len by (simp add: aged_aged) (rule nth_equalityI, auto simp: aged_def)
  finally show ?thesis .
qed

text \<open>Ageing is fair: one lap of the cursor, sixteen stripe halvings from the start of the
  sketch, halves every 4-bit counter exactly once, touches nothing else of the sketch, returns the
  cursor to the start and counts one generation.\<close>

theorem sketch_lap_halves:
  assumes wf: "sketch_wf s" and sk: "sketch s = Some sk" and c: "sketch_cursor s = 0"
    and i: "i < 4 * sketch_width s"
  shows "(\<exists>sk'. sketch ((sketch_halve ^^ SKETCH_HALVE_STRIPES) s) = Some sk' \<and>
      length sk' = length sk \<and> sketch_get sk' i = sketch_get sk i div 2) \<and>
    sketch_cursor ((sketch_halve ^^ SKETCH_HALVE_STRIPES) s) = 0 \<and>
    sketch_gen ((sketch_halve ^^ SKETCH_HALVE_STRIPES) s) = sketch_gen s + 1"
proof -
  have "i div 2 < length sk" using wf sk i by (auto simp: sketch_wf_def)
  then have "sketch_get (map halve_byte sk) i = sketch_get sk i div 2"
    by (simp only: sketch_get_nib nth_map nib_def nibble_halves split: if_split) auto
  then show ?thesis by (simp add: halve_lap [OF wf sk c])
qed

lemma sketch_lap_halves_witness:
  "\<exists>sk. sketch demo_sketch = Some sk \<and>
    (\<exists>sk'. sketch ((sketch_halve ^^ SKETCH_HALVE_STRIPES) demo_sketch) = Some sk' \<and>
      length sk' = length sk \<and> sketch_get sk' 5 = sketch_get sk 5 div 2)"
proof -
  have d: "sketch_cursor demo_sketch = 0" "5 < 4 * sketch_width demo_sketch"
    by (simp_all add: demo_sketch_def sketch_init_def sketch_width_of_def round_pow2.simps Let_def
        sketch_consts)
  obtain sk where sk: "sketch demo_sketch = Some sk" using demo_sketch_simps(2) by blast
  show ?thesis using sketch_lap_halves [OF demo_sketch_simps(1) sk d] sk by blast
qed

text \<open>The carve picks a power of two between the documented floor and ceiling for every zone
  size, and the row index of every item stays inside its own row of the buffer.\<close>

theorem sketch_indices_in_bounds:
  assumes "row < SKETCH_ROWS"
  shows "SKETCH_MIN_WIDTH \<le> sketch_width_of z \<and> sketch_width_of z \<le> SKETCH_MAX_WIDTH \<and>
    sketch_idx (sketch_width_of z) rows row div sketch_width_of z = row \<and>
    sketch_idx (sketch_width_of z) rows row div 2 < sketch_width_of z * SKETCH_ROWS div 2"
proof -
  obtain k where k: "sketch_width_of z = 2 ^ k" using sketch_width_of_range by blast
  show ?thesis
    using sketch_width_of_range [of z] sketch_idx_row [OF k, where rows = rows and row = row] assms
    by (simp add: SKETCH_ROWS_def)
qed

lemma sketch_indices_in_bounds_witness:
  "sketch_idx (sketch_width_of 0) (sketch_rows 3) 2 div 2 < sketch_width_of 0 * SKETCH_ROWS div 2"
  using sketch_indices_in_bounds [of 2 0 "sketch_rows 3"] by (simp add: SKETCH_ROWS_def)

end
