(* ===== verification/Zone.thy ===== *)
theory Zone
  imports Rbtree Sketch Breaker Autotune
begin

text \<open>
  The L1 zone of \<^verbatim>\<open>src/ngx_http_cache_turbo_shm.c\<close>: the nodes, their reference-counted bodies,
  the segmented LRU, eviction, allocation, storing, and purging. An address is a slab address; the
  body pointer \<open>data\<close> of a node is represented by the address of the \<open>blobref\<close> header in front of
  it (\<open>CT_BLOBREF\<close>). Every operation runs under the zone mutex from start to end, so it is one
  function on the zone; \<open>blob_release\<close>, which runs without it, is a single atomic decrement and
  is one function too. \<open>now\<close> is \<open>ngx_time()\<close>, a value cached per event-loop turn.

  The slab allocator, the rotations of nginx's red-black tree and two struct sizes are nginx's
  own and come in as the record \<open>ngx_core\<close>; what the module relies on is \<open>core_ok\<close>. Counters that
  only ever count up by one from 0 (\<open>owner_seq\<close>, \<open>evictions\<close>, \<open>miss_count\<close>, reference counts) are
  \<open>nat\<close>: their 64-bit wrap needs \<open>2 ^ 64\<close> operations. Fault-injection blocks
  (\<open>NGX_TEST_HARNESS\<close>, \<open>TEST_FAULTS\<close>) and logging are left out.
\<close>

subsection \<open>What nginx provides\<close>

record 'p ngx_core =
  slab_alloc :: "'p \<Rightarrow> nat \<Rightarrow> (addr \<times> 'p) option"
  slab_free :: "'p \<Rightarrow> addr \<Rightarrow> 'p"
  rb_fix :: "rbent tree \<Rightarrow> rbent tree"
  rb_del :: "rbent tree \<Rightarrow> addr \<Rightarrow> rbent tree"
  sizeof_node :: nat
  sizeof_blobref :: nat

definition core_ok :: "'p ngx_core \<Rightarrow> ('p \<Rightarrow> addr set) \<Rightarrow> bool" where
  "core_ok C live \<longleftrightarrow> rb_core_ok (rb_fix C) (rb_del C) \<and>
     (\<forall>p n a p'. slab_alloc C p n = Some (a, p') \<longrightarrow> a \<notin> live p \<and> live p' = insert a (live p)) \<and>
     (\<forall>p a. a \<in> live p \<longrightarrow> live (slab_free C p a) = live p - {a})"

subsection \<open>State\<close>

datatype node_kind = NODE_ENTRY | NODE_COUNTER | NODE_MARKER
datatype segment = SEG_PROBATION | SEG_PROTECTED

record node =
  kind :: node_kind
  data :: "addr option"
  len :: nat
  fresh_until :: time_t
  stale_until :: time_t
  refreshing :: bool
  refresh_owner :: nat
  refresh_lock_until :: time_t
  miss_count :: nat
  l2_neg_until :: time_t
  last_access :: time_t
  seg :: segment
  promotable :: bool
  sie_spared :: bool
  varidx_pending :: bool
  hash_crc32 :: u32

record blobref =
  refs :: nat
  detached :: bool
  blob_bytes :: nat
  content :: bytes

text \<open>The statistics counters of the zone that only count.\<close>

datatype counter = STALE_SERVES | BG_INFLIGHT | L2_HITS | L2_MISSES | LOCK_WAITS | MIN_USES_SKIPS
  | L2_NEG_SKIPS | BYPASSES | REFUSE_SET_COOKIE | REFUSE_ENCODED | REFUSE_VARY_UNSAFE
  | REFUSE_AUTHORIZATION | REFUSE_CACHE_CONTROL | REFUSE_REQUIRE_HEADER | REFUSE_PARTIAL
  | REFUSE_HEAD | SIE_SERVES | BREAKER_SERVES | ORIGIN_FAILURES | VARIDX_DROPS | VARIDX_REISSUES
  | VARIDX_INFLIGHT | TAG_INDEX_DROPS | TAG_CAP_DROPS

record 'p zone =
  pool :: 'p
  nodes :: "addr \<Rightarrow> node option"
  blobs :: "addr \<Rightarrow> blobref option"
  rbtree :: "rbent tree"
  lru :: "addr list"
  lru_protected :: "addr list"
  n_protected :: nat
  n_entries :: nat
  used_bytes :: nat
  markers :: nat
  owner_seq :: nat
  evictions :: nat
  admission :: bool
  admission_refused :: nat
  zsketch :: sketch_st
  zbreaker :: brk_st
  zautotune :: at_state
  counters :: "counter \<Rightarrow> nat"

text \<open>The queues list their nodes head first. Reading and writing one node:\<close>

definition node_at :: "'p zone \<Rightarrow> addr \<Rightarrow> node" where
  "node_at z a = the (nodes z a)"

definition upd_node :: "addr \<Rightarrow> (node \<Rightarrow> node) \<Rightarrow> 'p zone \<Rightarrow> 'p zone" where
  "upd_node a f z = z\<lparr>nodes := (nodes z)(a \<mapsto> f (node_at z a))\<rparr>"

text \<open>The fresh carve of \<open>shm_init_zone\<close> (no previous cycle and no existing segment): \<open>pool\<close> is the
  slab pool after the carve of the context and of the sketch, \<open>sketch_granted\<close> whether the latter
  succeeded. On a reload the live context is inherited and only \<open>admission\<close> is set again.\<close>

definition shm_init_zone :: "'p \<Rightarrow> nat \<Rightarrow> bool \<Rightarrow> bool \<Rightarrow> time_t \<Rightarrow> 'p zone" where
  "shm_init_zone p zone_size sketch_granted adm now =
     \<lparr>pool = p, nodes = (\<lambda>a. None), blobs = (\<lambda>a. None), rbtree = Leaf, lru = [],
      lru_protected = [], n_protected = 0, n_entries = 0, used_bytes = 0, markers = 0,
      owner_seq = 0, evictions = 0, admission = adm, admission_refused = 0,
      zsketch = sketch_init zone_size sketch_granted, zbreaker = brk_init now,
      zautotune = at_init, counters = (\<lambda>c. 0)\<rparr>"

definition shm_reload_zone :: "bool \<Rightarrow> 'p zone \<Rightarrow> 'p zone" where
  "shm_reload_zone adm z = z\<lparr>admission := adm\<rparr>"

text \<open>\<open>ngx_http_cache_turbo_shm_lookup\<close> on the zone's tree.\<close>

definition shm_lookup :: "'p zone \<Rightarrow> bytes \<Rightarrow> addr option" where
  "shm_lookup z key_hash = rb_lookup (rbtree z) key_hash"

subsection \<open>Freeing and the reference count\<close>

definition shm_free_locked :: "'p ngx_core \<Rightarrow> 'p zone \<Rightarrow> addr \<Rightarrow> nat \<Rightarrow> 'p zone" where
  "shm_free_locked C z p sz =
     z\<lparr>used_bytes := (if used_bytes z \<ge> sz then used_bytes z - sz else 0),
       pool := slab_free C (pool z) p\<rparr>"

text \<open>A decrement of \<open>refs\<close>; whoever takes it from 1 to 0 frees the slab.\<close>

definition blob_release :: "'p ngx_core \<Rightarrow> 'p zone \<Rightarrow> addr \<Rightarrow> 'p zone" where
  "blob_release C z b =
     (let ref = the (blobs z b); bytes = blob_bytes ref
      in if refs ref = 1
         then shm_free_locked C (z\<lparr>blobs := (blobs z)(b := None)\<rparr>) b bytes
         else z\<lparr>blobs := (blobs z)(b \<mapsto> ref\<lparr>refs := refs ref - 1\<rparr>)\<rparr>)"

definition blob_node_release :: "'p ngx_core \<Rightarrow> 'p zone \<Rightarrow> addr \<Rightarrow> 'p zone" where
  "blob_node_release C z b =
     (let ref = (the (blobs z b))\<lparr>detached := True\<rparr>; bytes = blob_bytes ref
      in if refs ref = 1
         then shm_free_locked C (z\<lparr>blobs := (blobs z)(b := None)\<rparr>) b bytes
         else z\<lparr>blobs := (blobs z)(b \<mapsto> ref\<lparr>refs := refs ref - 1\<rparr>)\<rparr>)"

definition blob_acquire :: "'p zone \<Rightarrow> addr \<Rightarrow> 'p zone" where
  "blob_acquire z b = z\<lparr>blobs := (blobs z)(b \<mapsto> (the (blobs z b))\<lparr>refs := refs (the (blobs z b)) + 1\<rparr>)\<rparr>"

subsection \<open>The segmented LRU\<close>

definition lru_link_head :: "'p zone \<Rightarrow> addr \<Rightarrow> 'p zone" where
  "lru_link_head z a =
     (if seg (node_at z a) = SEG_PROTECTED
      then z\<lparr>lru_protected := a # lru_protected z, n_protected := n_protected z + 1\<rparr>
      else z\<lparr>lru := a # lru z\<rparr>)"

text \<open>\<open>ngx_queue_remove\<close> takes the node off the queue it is threaded on.\<close>

definition lru_unlink :: "'p zone \<Rightarrow> addr \<Rightarrow> 'p zone" where
  "lru_unlink z a =
     (let z1 = z\<lparr>lru := removeAll a (lru z), lru_protected := removeAll a (lru_protected z)\<rparr>
      in if seg (node_at z a) = SEG_PROTECTED then z1\<lparr>n_protected := n_protected z1 - 1\<rparr> else z1)"

definition lru_insert_new :: "'p zone \<Rightarrow> addr \<Rightarrow> 'p zone" where
  "lru_insert_new z a =
     (let z1 = upd_node a (\<lambda>n. n\<lparr>seg := SEG_PROBATION, sie_spared := False, varidx_pending := False\<rparr>) z
      in z1\<lparr>lru := a # lru z1, n_entries := n_entries z1 + 1\<rparr>)"

definition LRU_CAP_MAX_EVICT :: nat where "LRU_CAP_MAX_EVICT = 8"

text \<open>The loop of \<open>lru_enforce_cap\<close>; the first argument is the number of demotions it may still do.\<close>

fun lru_demote :: "nat \<Rightarrow> nat \<Rightarrow> 'p zone \<Rightarrow> 'p zone" where
  "lru_demote 0 cap z = z"
| "lru_demote (Suc k) cap z =
     (if n_protected z > cap \<and> lru_protected z \<noteq> []
      then let victim = last (lru_protected z);
               z1 = lru_unlink z victim;
               z2 = upd_node victim (\<lambda>n. n\<lparr>seg := SEG_PROBATION\<rparr>) z1
           in lru_demote k cap (lru_link_head z2 victim)
      else z)"

definition lru_enforce_cap :: "'p zone \<Rightarrow> nat \<Rightarrow> 'p zone" where
  "lru_enforce_cap z protected_pct =
     (let cap = (n_entries z * protected_pct + 99) div 100;
          cap = (if cap = 0 then 1 else cap)
      in lru_demote LRU_CAP_MAX_EVICT cap z)"

definition shm_touch_lru :: "'p zone \<Rightarrow> addr \<Rightarrow> time_t \<Rightarrow> nat \<Rightarrow> u32 \<Rightarrow> 'p zone" where
  "shm_touch_lru z a now protected_pct hash =
     (let z = z\<lparr>zsketch := sketch_bump (zsketch z) (sketch_rows hash)\<rparr>
      in if now - last_access (node_at z a) < 1 then z
         else let z = upd_node a (\<lambda>n. n\<lparr>last_access := now\<rparr>) z;
                  z = lru_unlink z a;
                  n = node_at z a;
                  s = (if protected_pct = 0 then SEG_PROBATION
                       else if kind n = NODE_ENTRY \<and> seg n = SEG_PROBATION \<and> promotable n
                       then SEG_PROTECTED else seg n);
                  z = upd_node a (\<lambda>n. n\<lparr>seg := s, promotable := True\<rparr>) z;
                  z = lru_link_head z a
              in if protected_pct > 0 then lru_enforce_cap z protected_pct else z)"

subsection \<open>Eviction\<close>

definition shm_get_u32 :: "bytes \<Rightarrow> nat \<Rightarrow> u32" where
  "shm_get_u32 p i =
     ucast (p ! i) OR push_bit 8 (ucast (p ! (i + 1))) OR push_bit 16 (ucast (p ! (i + 2)))
     OR push_bit 24 (ucast (p ! (i + 3)))"

definition shm_get_u64 :: "bytes \<Rightarrow> nat \<Rightarrow> u64" where
  "shm_get_u64 p i = ucast (shm_get_u32 p i) OR push_bit 32 (ucast (shm_get_u32 p (i + 4)))"

definition shm_node_sie_live :: "'p zone \<Rightarrow> node \<Rightarrow> time_t \<Rightarrow> bool" where
  "shm_node_sie_live z n now =
     (if kind n \<noteq> NODE_ENTRY then False
      else case data n of
        None \<Rightarrow> False
      | Some b \<Rightarrow>
          let p = content (the (blobs z b));
              created = sint (shm_get_u64 p 24); sie_ttl = shm_get_u32 p 40
          in sie_ttl > 0 \<and> now < created + uint sie_ttl)"

definition shm_drop_locked :: "'p ngx_core \<Rightarrow> 'p zone \<Rightarrow> addr \<Rightarrow> 'p zone" where
  "shm_drop_locked C z a =
     (let n = node_at z a;
          z = lru_unlink z a;
          z = z\<lparr>n_entries := n_entries z - 1, rbtree := rb_del C (rbtree z) a\<rparr>;
          z = (if kind n = NODE_MARKER then z\<lparr>markers := markers z - 1\<rparr> else z);
          z = (case data n of None \<Rightarrow> z | Some b \<Rightarrow> blob_node_release C z b)
      in shm_free_locked C (z\<lparr>nodes := (nodes z)(a := None)\<rparr>) a (sizeof_node C))"

text \<open>The walk of one queue, oldest first: spare live stale-if-error entries once while the
  breaker is open; the result is the first node that may be taken.\<close>

fun evict_walk :: "'p zone \<Rightarrow> bool \<Rightarrow> time_t \<Rightarrow> addr list \<Rightarrow> 'p zone \<times> addr option" where
  "evict_walk z breaker_open now [] = (z, None)"
| "evict_walk z breaker_open now (a # as) =
     (if breaker_open \<and> \<not> sie_spared (node_at z a) \<and> shm_node_sie_live z (node_at z a) now
      then evict_walk (upd_node a (\<lambda>n. n\<lparr>sie_spared := True\<rparr>) z) breaker_open now as
      else (z, Some a))"

definition evict_take :: "'p ngx_core \<Rightarrow> 'p zone \<Rightarrow> addr \<Rightarrow> 'p zone" where
  "evict_take C z a = (let z = shm_drop_locked C z a in z\<lparr>evictions := evictions z + 1\<rparr>)"

definition evict_queue :: "'p ngx_core \<Rightarrow> 'p zone \<Rightarrow> bool \<Rightarrow> time_t \<Rightarrow> addr list \<Rightarrow> 'p zone" where
  "evict_queue C z breaker_open now q =
     (case evict_walk z breaker_open now (rev q) of
        (z, Some a) \<Rightarrow> evict_take C z a
      | (z, None) \<Rightarrow> evict_take C z (last q))"

text \<open>\<open>None\<close> is the return value 0: both queues empty, nothing changed.\<close>

definition shm_evict_one :: "'p ngx_core \<Rightarrow> 'p zone \<Rightarrow> time_t \<Rightarrow> 'p zone option" where
  "shm_evict_one C z now =
     (let breaker_open = (brk_state (breaker_state_w (zbreaker z)) = BREAKER_OPEN)
      in if lru z \<noteq> [] then Some (evict_queue C z breaker_open now (lru z))
         else if lru_protected z \<noteq> [] then Some (evict_queue C z breaker_open now (lru_protected z))
         else None)"

text \<open>Every eviction shortens the queues, so the loop of \<open>shm_alloc_evict\<close> ends.\<close>

definition q_len :: "'p zone \<Rightarrow> nat" where
  "q_len z = length (lru z) + length (lru_protected z)"

lemma upd_node_simps [simp]:
  "pool (upd_node a f z) = pool z" "blobs (upd_node a f z) = blobs z"
  "rbtree (upd_node a f z) = rbtree z" "lru (upd_node a f z) = lru z"
  "lru_protected (upd_node a f z) = lru_protected z" "n_protected (upd_node a f z) = n_protected z"
  "n_entries (upd_node a f z) = n_entries z" "used_bytes (upd_node a f z) = used_bytes z"
  "markers (upd_node a f z) = markers z" "owner_seq (upd_node a f z) = owner_seq z"
  "evictions (upd_node a f z) = evictions z" "admission (upd_node a f z) = admission z"
  "zsketch (upd_node a f z) = zsketch z" "zbreaker (upd_node a f z) = zbreaker z"
  "zautotune (upd_node a f z) = zautotune z" "counters (upd_node a f z) = counters z"
  "admission_refused (upd_node a f z) = admission_refused z"
  "nodes (upd_node a f z) = (nodes z)(a \<mapsto> f (node_at z a))"
  by (simp_all add: upd_node_def)

lemma free_locked_simps [simp]:
  "nodes (shm_free_locked C z a n) = nodes z" "blobs (shm_free_locked C z a n) = blobs z"
  "rbtree (shm_free_locked C z a n) = rbtree z" "lru (shm_free_locked C z a n) = lru z"
  "lru_protected (shm_free_locked C z a n) = lru_protected z"
  "n_protected (shm_free_locked C z a n) = n_protected z"
  "n_entries (shm_free_locked C z a n) = n_entries z" "markers (shm_free_locked C z a n) = markers z"
  "owner_seq (shm_free_locked C z a n) = owner_seq z" "evictions (shm_free_locked C z a n) = evictions z"
  "admission (shm_free_locked C z a n) = admission z"
  "zsketch (shm_free_locked C z a n) = zsketch z" "zbreaker (shm_free_locked C z a n) = zbreaker z"
  "pool (shm_free_locked C z a n) = slab_free C (pool z) a"
  "used_bytes (shm_free_locked C z a n) = used_bytes z - n"
  "zautotune (shm_free_locked C z a n) = zautotune z" "counters (shm_free_locked C z a n) = counters z"
  "admission_refused (shm_free_locked C z a n) = admission_refused z"
  by (simp_all add: shm_free_locked_def)

lemma node_release_simps [simp]:
  "nodes (blob_node_release C z b) = nodes z" "rbtree (blob_node_release C z b) = rbtree z"
  "lru (blob_node_release C z b) = lru z" "lru_protected (blob_node_release C z b) = lru_protected z"
  "n_protected (blob_node_release C z b) = n_protected z"
  "n_entries (blob_node_release C z b) = n_entries z" "markers (blob_node_release C z b) = markers z"
  "owner_seq (blob_node_release C z b) = owner_seq z" "evictions (blob_node_release C z b) = evictions z"
  "admission (blob_node_release C z b) = admission z"
  "zsketch (blob_node_release C z b) = zsketch z" "zbreaker (blob_node_release C z b) = zbreaker z"
  "zautotune (blob_node_release C z b) = zautotune z"
  "counters (blob_node_release C z b) = counters z"
  "admission_refused (blob_node_release C z b) = admission_refused z"
  by (simp_all add: blob_node_release_def Let_def)

lemma unlink_simps [simp]:
  "pool (lru_unlink z a) = pool z" "nodes (lru_unlink z a) = nodes z" "blobs (lru_unlink z a) = blobs z"
  "rbtree (lru_unlink z a) = rbtree z" "lru (lru_unlink z a) = removeAll a (lru z)"
  "lru_protected (lru_unlink z a) = removeAll a (lru_protected z)"
  "n_entries (lru_unlink z a) = n_entries z" "used_bytes (lru_unlink z a) = used_bytes z"
  "markers (lru_unlink z a) = markers z" "owner_seq (lru_unlink z a) = owner_seq z"
  "evictions (lru_unlink z a) = evictions z" "admission (lru_unlink z a) = admission z"
  "zsketch (lru_unlink z a) = zsketch z" "zbreaker (lru_unlink z a) = zbreaker z"
  "n_protected (lru_unlink z a) =
     (if seg (node_at z a) = SEG_PROTECTED then n_protected z - 1 else n_protected z)"
  "zautotune (lru_unlink z a) = zautotune z" "counters (lru_unlink z a) = counters z"
  "admission_refused (lru_unlink z a) = admission_refused z"
  by (simp_all add: lru_unlink_def Let_def)

lemma drop_locked_simps [simp]:
  "lru (shm_drop_locked C z a) = removeAll a (lru z)"
  "lru_protected (shm_drop_locked C z a) = removeAll a (lru_protected z)"
  "rbtree (shm_drop_locked C z a) = rb_del C (rbtree z) a"
  "nodes (shm_drop_locked C z a) = (nodes z)(a := None)"
  "n_entries (shm_drop_locked C z a) = n_entries z - 1"
  "owner_seq (shm_drop_locked C z a) = owner_seq z"
  "evictions (shm_drop_locked C z a) = evictions z"
  "zbreaker (shm_drop_locked C z a) = zbreaker z" "zsketch (shm_drop_locked C z a) = zsketch z"
  "admission (shm_drop_locked C z a) = admission z"
  "zautotune (shm_drop_locked C z a) = zautotune z" "counters (shm_drop_locked C z a) = counters z"
  "admission_refused (shm_drop_locked C z a) = admission_refused z"
  "n_protected (shm_drop_locked C z a) =
     (if seg (node_at z a) = SEG_PROTECTED then n_protected z - 1 else n_protected z)"
  "markers (shm_drop_locked C z a) =
     (if kind (node_at z a) = NODE_MARKER then markers z - 1 else markers z)"
  by (simp_all add: shm_drop_locked_def Let_def split: option.split)

lemma evict_walk_simps [simp]:
  "pool (fst (evict_walk z br now as)) = pool z" "blobs (fst (evict_walk z br now as)) = blobs z"
  "rbtree (fst (evict_walk z br now as)) = rbtree z" "lru (fst (evict_walk z br now as)) = lru z"
  "lru_protected (fst (evict_walk z br now as)) = lru_protected z"
  "n_entries (fst (evict_walk z br now as)) = n_entries z"
  "evictions (fst (evict_walk z br now as)) = evictions z"
  by (induction z br now as rule: evict_walk.induct) auto

lemma evict_walk_mem: "evict_walk z br now as = (z', Some a) \<Longrightarrow> a \<in> set as"
  by (induction z br now as rule: evict_walk.induct) (auto split: if_splits)

lemma length_removeAll_less: "a \<in> set xs \<Longrightarrow> length (removeAll a xs) < length xs"
  by (induction xs) (auto simp: le_imp_less_Suc length_filter_le removeAll_filter_not_eq)

lemma length_removeAll_le: "length (removeAll a xs) \<le> length xs"
  by (simp add: removeAll_filter_not_eq)

lemma q_len_take:
  assumes "a \<in> set (lru z) \<or> a \<in> set (lru_protected z)"
  shows "q_len (evict_take C z a) < q_len z"
proof -
  have "length (removeAll a (lru z)) + length (removeAll a (lru_protected z)) < q_len z"
    unfolding q_len_def
    using assms length_removeAll_less [of a "lru z"] length_removeAll_less [of a "lru_protected z"]
      length_removeAll_le [of a "lru z"] length_removeAll_le [of a "lru_protected z"]
    by linarith
  then show ?thesis by (simp add: q_len_def evict_take_def Let_def)
qed

text \<open>The victim of one queue: the first node the walk may take, else the tail.\<close>

definition evict_victim :: "'p zone \<Rightarrow> bool \<Rightarrow> time_t \<Rightarrow> addr list \<Rightarrow> addr" where
  "evict_victim z breaker_open now q =
     (case snd (evict_walk z breaker_open now (rev q)) of Some a \<Rightarrow> a | None \<Rightarrow> last q)"

lemma evict_queue_eq:
  "evict_queue C z br now q = evict_take C (fst (evict_walk z br now (rev q))) (evict_victim z br now q)"
  by (simp add: evict_queue_def evict_victim_def split: prod.split option.split)

lemma evict_victim_mem: "q \<noteq> [] \<Longrightarrow> evict_victim z br now q \<in> set q"
  using evict_walk_mem [of z br now "rev q" "fst (evict_walk z br now (rev q))"]
  by (auto simp: evict_victim_def split: option.split) (metis prod.collapse)

lemma q_len_walk [simp]: "q_len (fst (evict_walk z br now as)) = q_len z"
  by (simp add: q_len_def)

lemma q_len_evict_one:
  assumes "shm_evict_one C z now = Some z'"
  shows "q_len z' < q_len z"
proof -
  have "q_len (evict_queue C z br now q) < q_len z" if "q \<noteq> []" "q = lru z \<or> q = lru_protected z" for br q
  proof -
    have "evict_victim z br now q \<in> set q" using that(1) by (rule evict_victim_mem)
    then have "q_len (evict_queue C z br now q) < q_len (fst (evict_walk z br now (rev q)))"
      unfolding evict_queue_eq using that(2) by (intro q_len_take) auto
    then show ?thesis by simp
  qed
  then show ?thesis
    using assms by (auto simp: shm_evict_one_def Let_def split: if_splits)
qed

subsection \<open>Allocation\<close>

function shm_alloc_evict :: "'p ngx_core \<Rightarrow> 'p zone \<Rightarrow> time_t \<Rightarrow> nat \<Rightarrow> addr option \<times> 'p zone" where
  "shm_alloc_evict C z now sz =
     (case slab_alloc C (pool z) sz of
        Some (p, pool') \<Rightarrow> (Some p, z\<lparr>pool := pool', used_bytes := used_bytes z + sz\<rparr>)
      | None \<Rightarrow>
          (case shm_evict_one C z now of
             None \<Rightarrow> (None, z)
           | Some z' \<Rightarrow> shm_alloc_evict C z' now sz))"
  by pat_completeness auto
termination
  by (relation "measure (\<lambda>(C, z, now, sz). q_len z)") (auto intro: q_len_evict_one)

declare shm_alloc_evict.simps [simp del]

text \<open>The caller's \<open>ngx_memcpy\<close> of the body is part of the allocation here.\<close>

definition blob_alloc :: "'p ngx_core \<Rightarrow> 'p zone \<Rightarrow> time_t \<Rightarrow> bytes \<Rightarrow> addr option \<times> 'p zone" where
  "blob_alloc C z now body =
     (let bytes = sizeof_blobref C + length body
      in case shm_alloc_evict C z now bytes of
           (None, z) \<Rightarrow> (None, z)
         | (Some b, z) \<Rightarrow>
             (Some b, z\<lparr>blobs := (blobs z)(b \<mapsto>
                \<lparr>refs = 1, detached = False, blob_bytes = bytes, content = body\<rparr>)\<rparr>))"

end
