(* ===== verification/Zone_Inv.thy ===== *)
theory Zone_Inv
  imports Zone
begin

text \<open>
  The zone invariant and its preservation by the building blocks of every operation: unlinking and
  linking a node, releasing and acquiring a body, allocating, inserting and dropping. Between two
  building blocks the zone is in an intermediate state, so the invariant is indexed:

  \<^item> \<open>R b\<close> is the number of references in-flight requests hold on body \<open>b\<close> (a ghost count; the code
    only has the sum in \<open>refs\<close>);
  \<^item> \<open>D\<close> is the set of nodes that are in the tree but on no queue at the moment;
  \<^item> \<open>X\<close> is the set of node-sized allocations that are not nodes yet.

  Between operations \<open>D\<close> and \<open>X\<close> are empty.
\<close>

subsection \<open>The parts of the invariant\<close>

definition live_ok :: "('p \<Rightarrow> addr set) \<Rightarrow> addr set \<Rightarrow> 'p zone \<Rightarrow> bool" where
  "live_ok live X z \<longleftrightarrow> finite (dom (nodes z)) \<and> finite (dom (blobs z)) \<and> finite X \<and>
     dom (nodes z) \<inter> dom (blobs z) = {} \<and> X \<inter> dom (nodes z) = {} \<and> X \<inter> dom (blobs z) = {} \<and>
     live (pool z) = dom (nodes z) \<union> dom (blobs z) \<union> X"

definition blob_charge :: "'p zone \<Rightarrow> addr \<Rightarrow> nat" where
  "blob_charge z b = blob_bytes (the (blobs z b))"

definition used_ok :: "'p ngx_core \<Rightarrow> addr set \<Rightarrow> 'p zone \<Rightarrow> bool" where
  "used_ok C X z \<longleftrightarrow> used_bytes z =
     (card (dom (nodes z)) + card X) * sizeof_node C + (\<Sum>b \<in> dom (blobs z). blob_charge z b)"

definition idx_ok :: "'p zone \<Rightarrow> bool" where
  "idx_ok z \<longleftrightarrow> rb_inv (rbtree z) \<and> snd ` rb_entries (rbtree z) = dom (nodes z) \<and>
     inj_on snd (rb_entries (rbtree z))"

definition lru_ok :: "addr set \<Rightarrow> 'p zone \<Rightarrow> bool" where
  "lru_ok D z \<longleftrightarrow> distinct (lru z @ lru_protected z) \<and> D \<subseteq> dom (nodes z) \<and>
     set (lru z) \<union> set (lru_protected z) = dom (nodes z) - D \<and>
     (\<forall>a \<in> set (lru z). seg (node_at z a) = SEG_PROBATION) \<and>
     (\<forall>a \<in> set (lru_protected z). seg (node_at z a) = SEG_PROTECTED) \<and>
     n_protected z = length (lru_protected z) \<and>
     n_entries z = card (dom (nodes z))"

definition owned :: "'p zone \<Rightarrow> addr \<Rightarrow> bool" where
  "owned z b \<longleftrightarrow> (\<exists>a n. nodes z a = Some n \<and> data n = Some b)"

definition own_uniq :: "'p zone \<Rightarrow> bool" where
  "own_uniq z \<longleftrightarrow> (\<forall>a a' n n' b. nodes z a = Some n \<longrightarrow> nodes z a' = Some n' \<longrightarrow>
     data n = Some b \<longrightarrow> data n' = Some b \<longrightarrow> a = a')"

definition blob_ok :: "(addr \<Rightarrow> nat) \<Rightarrow> 'p zone \<Rightarrow> bool" where
  "blob_ok R z \<longleftrightarrow> own_uniq z \<and>
     (\<forall>b. owned z b \<longrightarrow> b \<in> dom (blobs z) \<and> \<not> detached (the (blobs z b))) \<and>
     (\<forall>b r. blobs z b = Some r \<longrightarrow> refs r = R b + (if owned z b then 1 else 0)) \<and>
     (\<forall>b. b \<in> dom (blobs z) \<longrightarrow> 0 < R b \<or> owned z b) \<and>
     (\<forall>b. 0 < R b \<longrightarrow> b \<in> dom (blobs z))"

definition shape_ok :: "'p zone \<Rightarrow> node \<Rightarrow> bool" where
  "shape_ok z n \<longleftrightarrow> (kind n = NODE_COUNTER \<longleftrightarrow> data n = None) \<and>
     (case data n of None \<Rightarrow> len n = 0 \<and> fresh_until n = 0 | Some b \<Rightarrow> len n = length (content (the (blobs z b))))"

definition shapes_ok :: "addr set \<Rightarrow> 'p zone \<Rightarrow> bool" where
  "shapes_ok D z \<longleftrightarrow> (\<forall>a n. nodes z a = Some n \<longrightarrow> a \<notin> D \<longrightarrow> shape_ok z n)"

definition marker_nodes :: "'p zone \<Rightarrow> addr set" where
  "marker_nodes z = {a. \<exists>n. nodes z a = Some n \<and> kind n = NODE_MARKER}"

definition lease_ok :: "'p zone \<Rightarrow> bool" where
  "lease_ok z \<longleftrightarrow> (\<forall>a n. nodes z a = Some n \<longrightarrow> refresh_owner n \<le> owner_seq z \<and>
       (refresh_owner n \<noteq> 0 \<longrightarrow> refreshing n)) \<and>
     (\<forall>a a' n n'. nodes z a = Some n \<longrightarrow> nodes z a' = Some n' \<longrightarrow>
        refresh_owner n = refresh_owner n' \<longrightarrow> refresh_owner n \<noteq> 0 \<longrightarrow> a = a')"

text \<open>\<open>M\<close> is how far the marker counter runs ahead for certain; it is 0 between operations.\<close>

definition markers_ok :: "nat \<Rightarrow> 'p zone \<Rightarrow> bool" where
  "markers_ok M z \<longleftrightarrow> card (marker_nodes z) + M \<le> markers z"

definition zinv :: "'p ngx_core \<Rightarrow> ('p \<Rightarrow> addr set) \<Rightarrow> (addr \<Rightarrow> nat) \<Rightarrow> addr set \<Rightarrow> addr set \<Rightarrow> nat \<Rightarrow>
    'p zone \<Rightarrow> bool" where
  "zinv C live R D X M z \<longleftrightarrow> core_ok C live \<and> live_ok live X z \<and> used_ok C X z \<and> idx_ok z \<and>
     lru_ok D z \<and> blob_ok R z \<and> shapes_ok D z \<and> markers_ok M z \<and> lease_ok z \<and>
     sketch_wf (zsketch z)"

lemma zinvD:
  assumes "zinv C live R D X M z"
  shows "core_ok C live" "live_ok live X z" "used_ok C X z" "idx_ok z" "lru_ok D z" "blob_ok R z"
    "shapes_ok D z" "markers_ok M z" "lease_ok z" "sketch_wf (zsketch z)"
  using assms by (simp_all add: zinv_def)

lemma zinvI:
  "core_ok C live \<Longrightarrow> live_ok live X z \<Longrightarrow> used_ok C X z \<Longrightarrow> idx_ok z \<Longrightarrow> lru_ok D z \<Longrightarrow> blob_ok R z \<Longrightarrow>
    shapes_ok D z \<Longrightarrow> markers_ok M z \<Longrightarrow> lease_ok z \<Longrightarrow> sketch_wf (zsketch z) \<Longrightarrow> zinv C live R D X M z"
  by (simp add: zinv_def)

lemma finite_marker_nodes: "finite (dom (nodes z)) \<Longrightarrow> finite (marker_nodes z)"
  by (rule finite_subset [of _ "dom (nodes z)"]) (auto simp: marker_nodes_def)

lemma node_at_Some: "nodes z a = Some n \<Longrightarrow> node_at z a = n"
  by (simp add: node_at_def)

lemma nodes_node_at: "a \<in> dom (nodes z) \<Longrightarrow> nodes z a = Some (node_at z a)"
  by (auto simp: node_at_def)

lemma node_at_upd: "node_at (upd_node a f z) b = (if b = a then f (node_at z a) else node_at z b)"
  by (simp add: node_at_def)

lemma dom_upd: "a \<in> dom (nodes z) \<Longrightarrow> dom (nodes (upd_node a f z)) = dom (nodes z)"
  by (auto simp: dom_def)

text \<open>Who owns a body, from the point of view of one node.\<close>

definition owned_by_other :: "'p zone \<Rightarrow> addr \<Rightarrow> addr \<Rightarrow> bool" where
  "owned_by_other z a b \<longleftrightarrow> (\<exists>a' n. a' \<noteq> a \<and> nodes z a' = Some n \<and> data n = Some b)"

lemma owned_split:
  "a \<in> dom (nodes z) \<Longrightarrow> owned z b \<longleftrightarrow> data (node_at z a) = Some b \<or> owned_by_other z a b"
  unfolding owned_def owned_by_other_def by (metis nodes_node_at node_at_Some)

lemma owned_upd:
  "a \<in> dom (nodes z) \<Longrightarrow>
    owned (upd_node a f z) b \<longleftrightarrow> data (f (node_at z a)) = Some b \<or> owned_by_other z a b"
  unfolding owned_def owned_by_other_def by (auto split: if_splits)

lemma own_uniq_other: "own_uniq z \<Longrightarrow> a \<in> dom (nodes z) \<Longrightarrow> data (node_at z a) = Some b \<Longrightarrow>
    \<not> owned_by_other z a b"
  unfolding own_uniq_def owned_by_other_def by (metis nodes_node_at)

lemma own_uniq_upd:
  "own_uniq z \<Longrightarrow> a \<in> dom (nodes z) \<Longrightarrow>
    (\<And>b. data (f (node_at z a)) = Some b \<Longrightarrow> \<not> owned_by_other z a b) \<Longrightarrow> own_uniq (upd_node a f z)"
  unfolding own_uniq_def owned_by_other_def
  by (auto split: if_splits) blast+

lemma blob_okI:
  assumes "own_uniq z"
    and "\<And>b. owned z b \<Longrightarrow> b \<in> dom (blobs z) \<and> \<not> detached (the (blobs z b))"
    and "\<And>b r. blobs z b = Some r \<Longrightarrow> refs r = R b + (if owned z b then 1 else 0)"
    and "\<And>b. b \<in> dom (blobs z) \<Longrightarrow> 0 < R b \<or> owned z b"
    and "\<And>b. 0 < R b \<Longrightarrow> b \<in> dom (blobs z)"
  shows "blob_ok R z"
  using assms unfolding blob_ok_def by blast

lemma blob_okD:
  assumes "blob_ok R z"
  shows "own_uniq z" "owned z b \<Longrightarrow> b \<in> dom (blobs z)" "owned z b \<Longrightarrow> \<not> detached (the (blobs z b))"
    "blobs z b = Some r \<Longrightarrow> refs r = R b + (if owned z b then 1 else 0)"
    "b \<in> dom (blobs z) \<Longrightarrow> 0 < R b \<or> owned z b" "0 < R b \<Longrightarrow> b \<in> dom (blobs z)"
  using assms unfolding blob_ok_def by blast+

lemma shape_ok_cong: "blobs z' = blobs z \<Longrightarrow> shape_ok z' n = shape_ok z n"
  unfolding shape_ok_def by (simp only:)

lemma idx_ok_cong: "rbtree z' = rbtree z \<Longrightarrow> nodes z' = nodes z \<Longrightarrow> idx_ok z' = idx_ok z"
  unfolding idx_ok_def by (simp only:)

lemma lru_ok_cong:
  "nodes z' = nodes z \<Longrightarrow> lru z' = lru z \<Longrightarrow> lru_protected z' = lru_protected z \<Longrightarrow>
    n_protected z' = n_protected z \<Longrightarrow> n_entries z' = n_entries z \<Longrightarrow> lru_ok D z' = lru_ok D z"
  unfolding lru_ok_def node_at_def by (simp only:)

lemma markers_ok_cong: "nodes z' = nodes z \<Longrightarrow> markers z' = markers z \<Longrightarrow> markers_ok M z' = markers_ok M z"
  unfolding markers_ok_def marker_nodes_def by (simp only:)

lemma lease_ok_cong: "nodes z' = nodes z \<Longrightarrow> owner_seq z' = owner_seq z \<Longrightarrow> lease_ok z' = lease_ok z"
  unfolding lease_ok_def by (simp only:)

lemma owned_cong: "nodes z' = nodes z \<Longrightarrow> owned z' = owned z"
  by (simp add: owned_def fun_eq_iff)

lemma own_uniq_cong: "nodes z' = nodes z \<Longrightarrow> own_uniq z' = own_uniq z"
  unfolding own_uniq_def by (simp only:)

text \<open>Operations that only change bodies.\<close>

lemma zinv_frame_blobs:
  assumes inv: "zinv C live R D X M z"
    and new: "live_ok live X z'" "used_ok C X z'" "blob_ok R' z'"
    and shapes: "\<And>a n. nodes z a = Some n \<Longrightarrow> a \<notin> D \<Longrightarrow> shape_ok z' n = shape_ok z n"
    and same: "nodes z' = nodes z" "rbtree z' = rbtree z" "lru z' = lru z"
      "lru_protected z' = lru_protected z" "n_protected z' = n_protected z"
      "n_entries z' = n_entries z" "markers z' = markers z" "owner_seq z' = owner_seq z"
      "zsketch z' = zsketch z"
  shows "zinv C live R' D X M z'"
proof -
  note i = zinvD [OF inv]
  have "shapes_ok D z'" using i(7) shapes by (simp add: shapes_ok_def same)
  then show ?thesis
    using i new idx_ok_cong [OF same(2,1)] lru_ok_cong [OF same(1,3,4,5,6)]
      markers_ok_cong [OF same(1,7)] lease_ok_cong [OF same(1,8)] same(9)
    by (simp add: zinv_def)
qed

lemma shapes_ok_cong:
  "nodes z' = nodes z \<Longrightarrow> blobs z' = blobs z \<Longrightarrow> shapes_ok D z' = shapes_ok D z"
  unfolding shapes_ok_def shape_ok_def by (simp only:)

text \<open>Operations that only move nodes between the queues.\<close>

lemma zinv_frame:
  assumes inv: "zinv C live R D X M z" and lru: "lru_ok D' z'" and shapes: "shapes_ok D' z'"
    and same: "pool z' = pool z" "nodes z' = nodes z" "blobs z' = blobs z" "rbtree z' = rbtree z"
      "used_bytes z' = used_bytes z" "markers z' = markers z" "owner_seq z' = owner_seq z"
      "sketch_wf (zsketch z) \<Longrightarrow> sketch_wf (zsketch z')"
  shows "zinv C live R D' X M z'"
proof -
  note i = zinvD [OF inv]
  have "blob_charge z' = blob_charge z" "owned z' = owned z" "marker_nodes z' = marker_nodes z"
    by (simp_all add: same blob_charge_def owned_def marker_nodes_def fun_eq_iff)
  with i lru shapes same show ?thesis
    unfolding zinv_def live_ok_def used_ok_def idx_ok_def blob_ok_def own_uniq_def markers_ok_def
      lease_ok_def
    by (simp only:)
qed

lemma lease_ok_upd:
  assumes l: "lease_ok z" and a: "a \<in> dom (nodes z)"
    and f: "refreshing (node_at z a) \<Longrightarrow> refreshing (f (node_at z a))"
      "refresh_owner (f (node_at z a)) = refresh_owner (node_at z a)"
  shows "lease_ok (upd_node a f z)"
proof -
  have n: "nodes (upd_node a f z) c = Some n' \<Longrightarrow>
      \<exists>n. nodes z c = Some n \<and> (refreshing n \<longrightarrow> refreshing n') \<and> refresh_owner n' = refresh_owner n" for c n'
    using f nodes_node_at [OF a] by (auto split: if_splits)
  show ?thesis
    unfolding lease_ok_def upd_node_simps(10)
  proof (intro conjI allI impI)
    fix c n' assume "nodes (upd_node a f z) c = Some n'"
    from n [OF this] show "refresh_owner n' \<le> owner_seq z"
      "refresh_owner n' \<noteq> 0 \<Longrightarrow> refreshing n'"
      using l unfolding lease_ok_def by metis+
  next
    fix c c' n1 n2
    assume c: "nodes (upd_node a f z) c = Some n1" and c': "nodes (upd_node a f z) c' = Some n2"
      and eq: "refresh_owner n1 = refresh_owner n2" "refresh_owner n1 \<noteq> 0"
    from n [OF c] n [OF c'] eq show "c = c'" using l unfolding lease_ok_def by metis
  qed
qed

text \<open>Changing fields of one node that the invariant does not read.\<close>

definition soft :: "node \<Rightarrow> node \<Rightarrow> bool" where
  "soft n n' \<longleftrightarrow> kind n' = kind n \<and> data n' = data n \<and> len n' = len n \<and>
     (data n = None \<longrightarrow> fresh_until n' = fresh_until n) \<and>
     (refreshing n \<longrightarrow> refreshing n') \<and> refresh_owner n' = refresh_owner n"

lemma soft_shape: "soft n n' \<Longrightarrow> shape_ok z n' = shape_ok z n"
  unfolding soft_def shape_ok_def by (cases "data n") simp_all

lemma zinv_upd_soft [zone_intros]:
  assumes inv: "zinv C live R D X M z" and a: "a \<in> dom (nodes z)"
    and soft: "soft (node_at z a) (f (node_at z a))"
    and seg: "a \<in> D \<or> seg (f (node_at z a)) = seg (node_at z a)"
  shows "zinv C live R D X M (upd_node a f z)"
proof -
  note n = nodes_node_at [OF a]
  let ?z = "upd_node a f z"
  note i = zinvD [OF inv]
  have dom: "dom (nodes ?z) = dom (nodes z)" using a by (rule dom_upd)
  have own: "owned ?z b = owned z b" for b
    using soft unfolding owned_upd [OF a] owned_split [OF a] by (simp add: soft_def)
  show ?thesis
  proof (rule zinvI)
    show "live_ok live X ?z" using i(2) unfolding live_ok_def dom by simp
    show "used_ok C X ?z" using i(3) unfolding used_ok_def dom by (simp add: blob_charge_def)
    show "idx_ok ?z" using i(4) unfolding idx_ok_def dom by simp
    have D: "D \<subseteq> dom (nodes z)" "set (lru z) \<union> set (lru_protected z) = dom (nodes z) - D"
      using i(5) by (simp_all add: lru_ok_def)
    then have "b \<in> set (lru z) \<union> set (lru_protected z) \<Longrightarrow> seg (node_at ?z b) = seg (node_at z b)" for b
      using seg by (auto simp: node_at_upd)
    then show "lru_ok D ?z"
      using i(5) dom by (auto simp: lru_ok_def simp del: upd_node_simps(16))
    have "own_uniq ?z"
      using soft own_uniq_other [OF blob_okD(1) [OF i(6)] a]
      by (intro own_uniq_upd [OF blob_okD(1) [OF i(6)] a]) (simp add: soft_def)
    then show "blob_ok R ?z"
      using i(6) unfolding blob_ok_def own upd_node_simps by blast
    show "shapes_ok D ?z"
      using i(7) n soft_shape [OF soft] shape_ok_cong [of ?z z] by (auto simp: shapes_ok_def)
    have "marker_nodes ?z = marker_nodes z"
      using n soft by (auto simp: marker_nodes_def soft_def)
    then show "markers_ok M ?z" using i(8) by (simp add: markers_ok_def)
    show "lease_ok ?z" using soft by (intro lease_ok_upd [OF i(9) a]) (simp_all add: soft_def)
  qed (use i in simp_all)
qed

lemma zinv_unlink [zone_intros]:
  assumes inv: "zinv C live R D X M z" and a: "a \<in> dom (nodes z)" "a \<notin> D"
  shows "zinv C live R (insert a D) X M (lru_unlink z a)"
proof -
  note i = zinvD [OF inv]
  let ?z = "lru_unlink z a"
  have same: "nodes ?z = nodes z" "blobs ?z = blobs z" by simp_all
  have at: "node_at ?z = node_at z" by (simp add: node_at_def fun_eq_iff)
  have l: "distinct (lru z)" "distinct (lru_protected z)"
    "set (lru z) \<union> set (lru_protected z) = dom (nodes z) - D"
    "\<forall>a \<in> set (lru z). seg (node_at z a) = SEG_PROBATION"
    "\<forall>a \<in> set (lru_protected z). seg (node_at z a) = SEG_PROTECTED"
    "n_protected z = length (lru_protected z)"
    using i(5) by (simp_all add: lru_ok_def)
  have "n_protected ?z = length (lru_protected ?z)"
  proof (cases "seg (node_at z a) = SEG_PROTECTED")
    case True
    have "a \<in> set (lru z) \<union> set (lru_protected z)" using l(3) a by simp
    with True have "a \<in> set (lru_protected z)" using l(4) by auto
    with True l show ?thesis by (simp add: length_removeAll_distinct)
  next
    case False
    then have "a \<notin> set (lru_protected z)" using l by auto
    with False l show ?thesis by simp
  qed
  then have "lru_ok (insert a D) ?z"
    using i(5) a unfolding lru_ok_def at by (auto simp: distinct_removeAll)
  moreover have "shapes_ok (insert a D) ?z"
    using i(7) shape_ok_cong [of ?z z] by (auto simp: shapes_ok_def)
  ultimately show ?thesis by (rule zinv_frame [OF inv]) simp_all
qed

lemma link_head_simps [simp]:
  "pool (lru_link_head z a) = pool z" "nodes (lru_link_head z a) = nodes z"
  "blobs (lru_link_head z a) = blobs z" "rbtree (lru_link_head z a) = rbtree z"
  "n_entries (lru_link_head z a) = n_entries z" "used_bytes (lru_link_head z a) = used_bytes z"
  "markers (lru_link_head z a) = markers z" "owner_seq (lru_link_head z a) = owner_seq z"
  "evictions (lru_link_head z a) = evictions z" "admission (lru_link_head z a) = admission z"
  "zsketch (lru_link_head z a) = zsketch z" "zbreaker (lru_link_head z a) = zbreaker z"
  "lru (lru_link_head z a) =
     (if seg (node_at z a) = SEG_PROTECTED then lru z else a # lru z)"
  "lru_protected (lru_link_head z a) =
     (if seg (node_at z a) = SEG_PROTECTED then a # lru_protected z else lru_protected z)"
  by (simp_all add: lru_link_head_def)

lemma zinv_link_head [zone_intros]:
  assumes inv: "zinv C live R D X M z" and a: "a \<in> D" and shape: "shape_ok z (node_at z a)"
  shows "zinv C live R (D - {a}) X M (lru_link_head z a)"
proof -
  note i = zinvD [OF inv]
  let ?z = "lru_link_head z a"
  have at: "node_at ?z = node_at z" by (simp add: node_at_def fun_eq_iff)
  have dom: "a \<in> dom (nodes z)" using i(5) a by (auto simp: lru_ok_def)
  have "seg (node_at z a) = SEG_PROBATION \<or> seg (node_at z a) = SEG_PROTECTED"
    using segment.exhaust by blast
  then have "lru_ok (D - {a}) ?z"
    using i(5) a dom unfolding lru_ok_def at by (auto simp: lru_link_head_def)
  moreover have "shapes_ok (D - {a}) ?z"
    using i(7) shape nodes_node_at [OF dom] shape_ok_cong [of ?z z]
    by (auto simp: shapes_ok_def)
  ultimately show ?thesis by (rule zinv_frame [OF inv]) simp_all
qed

subsection \<open>Bodies\<close>

text \<open>What \<open>blob_release\<close> and the second half of \<open>blob_node_release\<close> do to a body nobody owns.\<close>

definition blob_unref :: "'p ngx_core \<Rightarrow> 'p zone \<Rightarrow> addr \<Rightarrow> blobref \<Rightarrow> 'p zone" where
  "blob_unref C z b ref =
     (if refs ref = 1
      then shm_free_locked C (z\<lparr>blobs := (blobs z)(b := None)\<rparr>) b (blob_bytes ref)
      else z\<lparr>blobs := (blobs z)(b \<mapsto> ref\<lparr>refs := refs ref - 1\<rparr>)\<rparr>)"

lemma blob_release_unref: "blob_release C z b = blob_unref C z b (the (blobs z b))"
  by (simp add: blob_release_def blob_unref_def Let_def)

lemma blob_node_release_unref:
  "blob_node_release C z b = blob_unref C z b ((the (blobs z b))\<lparr>detached := True\<rparr>)"
  by (simp add: blob_node_release_def blob_unref_def Let_def)

lemma zinv_unref:
  assumes inv: "zinv C live R D X M z" and R: "0 < R b"
    and ref: "ref = the (blobs z b) \<or> ref = (the (blobs z b))\<lparr>detached := True\<rparr> \<and> \<not> owned z b"
  shows "zinv C live (R(b := R b - 1)) D X M (blob_unref C z b ref)"
proof -
  note i = zinvD [OF inv]
  obtain r where r: "blobs z b = Some r"
    using blob_okD(6) [OF i(6) R] by auto
  have refs: "refs ref = R b + (if owned z b then 1 else 0)" "refs ref = refs r"
    "blob_bytes ref = blob_bytes r" "content ref = content r"
    using blob_okD(4) [OF i(6) r] r ref by auto
  have b: "b \<in> live (pool z)" "b \<notin> dom (nodes z)" "b \<notin> X" "b \<in> dom (blobs z)"
    using i(2) r by (auto simp: live_ok_def)
  note bk = blob_okD [OF i(6)]
  show ?thesis
  proof (cases "refs ref = 1")
    case True
    then have un: "\<not> owned z b" "R b = 1" using refs R by (auto split: if_splits)
    define z' where "z' = shm_free_locked C (z\<lparr>blobs := (blobs z)(b := None)\<rparr>) b (blob_bytes ref)"
    have own: "owned z' = owned z" "own_uniq z' = own_uniq z"
      by (rule owned_cong own_uniq_cong, simp add: z'_def)+
    have bl: "blobs z' = (blobs z)(b := None)" by (simp add: z'_def)
    have "zinv C live (R(b := R b - 1)) D X M z'"
    proof (rule zinv_frame_blobs [OF inv])
      show "live_ok live X z'"
        using i(1,2) b by (auto simp: live_ok_def core_ok_def z'_def)
      have "(\<Sum>b \<in> dom (blobs z). blob_charge z b) =
          blob_charge z b + (\<Sum>b \<in> dom (blobs z) - {b}. blob_charge z b)"
        using i(2) b by (intro sum.remove) (auto simp: live_ok_def)
      moreover have "(\<Sum>c \<in> dom (blobs z) - {b}. blob_charge z' c) =
          (\<Sum>c \<in> dom (blobs z) - {b}. blob_charge z c)"
        by (intro sum.cong) (auto simp: blob_charge_def bl)
      ultimately show "used_ok C X z'"
        using i(3) refs r by (simp add: used_ok_def blob_charge_def z'_def)
      show "blob_ok (R(b := R b - 1)) z'"
        by (rule blob_okI, unfold own bl) (use bk un in \<open>auto split: if_splits\<close>)
      fix a n assume "nodes z a = Some n"
      then have "data n \<noteq> Some b" using un(1) by (auto simp: owned_def)
      then show "shape_ok z' n = shape_ok z n" by (auto simp: shape_ok_def bl split: option.split)
    qed (simp_all add: z'_def)
    with True show ?thesis by (simp add: blob_unref_def z'_def)
  next
    case False
    define z' where "z' = z\<lparr>blobs := (blobs z)(b \<mapsto> ref\<lparr>refs := refs ref - 1\<rparr>)\<rparr>"
    have own: "owned z' = owned z" "own_uniq z' = own_uniq z"
      by (rule owned_cong own_uniq_cong, simp add: z'_def)+
    have bl: "blobs z' = (blobs z)(b \<mapsto> ref\<lparr>refs := refs ref - 1\<rparr>)" by (simp add: z'_def)
    have dom: "dom (blobs z') = dom (blobs z)" using b(4) by (auto simp: dom_def z'_def)
    have ch: "blob_charge z' = blob_charge z" using refs r by (auto simp: blob_charge_def fun_eq_iff bl)
    have det: "owned z b \<Longrightarrow> \<not> detached ref" using bk(3) ref by auto
    have many: "R b = 1 \<Longrightarrow> owned z b" using refs False by (auto split: if_splits)
    have "zinv C live (R(b := R b - 1)) D X M z'"
    proof (rule zinv_frame_blobs [OF inv])
      show "live_ok live X z'" "used_ok C X z'"
        using i(2,3) unfolding live_ok_def used_ok_def dom ch by (simp_all add: z'_def)
      show "blob_ok (R(b := R b - 1)) z'"
      proof (rule blob_okI, unfold own dom)
        fix c assume "owned z c"
        then show "c \<in> dom (blobs z) \<and> \<not> detached (the (blobs z' c))"
          using bk(2,3) det by (auto simp: bl)
      next
        fix c r' assume "blobs z' c = Some r'"
        then show "refs r' = (R(b := R b - 1)) c + (if owned z c then 1 else 0)"
          using bk(4) refs R by (auto simp: bl split: if_splits)
      next
        fix c assume "c \<in> dom (blobs z)"
        then show "0 < (R(b := R b - 1)) c \<or> owned z c"
          using bk(5) many R by (cases "c = b"; cases "R b = 1") auto
      next
        fix c assume "0 < (R(b := R b - 1)) c"
        then show "c \<in> dom (blobs z)" using bk(6) b(4) by (auto split: if_splits)
      qed (use bk(1) in simp)
      fix a n
      show "shape_ok z' n = shape_ok z n"
        using refs r by (auto simp: shape_ok_def bl split: option.split)
    qed (simp_all add: z'_def)
    with False show ?thesis by (simp add: blob_unref_def z'_def)
  qed
qed

text \<open>A request drops a reference it holds.\<close>

lemma zinv_blob_release [zone_intros]:
  "zinv C live R D X M z \<Longrightarrow> 0 < R b \<Longrightarrow> zinv C live (R(b := R b - 1)) D X M (blob_release C z b)"
  unfolding blob_release_unref by (rule zinv_unref) auto

lemma zinv_blob_acquire [zone_intros]:
  assumes inv: "zinv C live R D X M z" and b: "b \<in> dom (blobs z)"
  shows "zinv C live (R(b := R b + 1)) D X M (blob_acquire z b)"
proof -
  note i = zinvD [OF inv]
  obtain r where r: "blobs z b = Some r" using b by auto
  note bk = blob_okD [OF i(6)]
  define z' where "z' = blob_acquire z b"
  have own: "owned z' = owned z" "own_uniq z' = own_uniq z"
    by (rule owned_cong own_uniq_cong, simp add: z'_def blob_acquire_def)+
  have bl: "blobs z' = (blobs z)(b \<mapsto> r\<lparr>refs := refs r + 1\<rparr>)"
    using r by (simp add: z'_def blob_acquire_def)
  have dom: "dom (blobs z') = dom (blobs z)" using b by (auto simp: dom_def bl)
  have ch: "blob_charge z' = blob_charge z"
    using r by (auto simp: blob_charge_def fun_eq_iff bl)
  have "zinv C live (R(b := R b + 1)) D X M z'"
  proof (rule zinv_frame_blobs [OF inv])
    show "live_ok live X z'" "used_ok C X z'"
      using i(2,3) unfolding live_ok_def used_ok_def dom ch by (simp_all add: z'_def blob_acquire_def)
    show "blob_ok (R(b := R b + 1)) z'"
    proof (rule blob_okI, unfold own dom)
      fix c assume "owned z c"
      then show "c \<in> dom (blobs z) \<and> \<not> detached (the (blobs z' c))"
        using bk(2,3) [of c] r by (auto simp: bl)
    next
      fix c r' assume "blobs z' c = Some r'"
      then show "refs r' = (R(b := R b + 1)) c + (if owned z c then 1 else 0)"
        using bk(4) r by (auto simp: bl split: if_splits)
    qed (use bk b in \<open>auto split: if_splits\<close>)
    fix a n
    show "shape_ok z' n = shape_ok z n"
      using r by (auto simp: shape_ok_def bl split: option.split)
  qed (simp_all add: z'_def blob_acquire_def)
  then show ?thesis by (simp add: z'_def)
qed

text \<open>A node off the queues hands its reference to the operation, and takes one from it.\<close>

lemma zinv_take_data:
  assumes inv: "zinv C live R D X M z" and a: "a \<in> D" and d: "data (node_at z a) = Some b"
  shows "zinv C live (R(b := R b + 1)) D X M (upd_node a (\<lambda>n. n\<lparr>data := None\<rparr>) z)"
    and "\<not> owned (upd_node a (\<lambda>n. n\<lparr>data := None\<rparr>) z) b"
proof -
  note i = zinvD [OF inv]
  let ?z = "upd_node a (\<lambda>n. n\<lparr>data := None\<rparr>) z"
  have dom_a: "a \<in> dom (nodes z)" using i(5) a by (auto simp: lru_ok_def)
  note n = nodes_node_at [OF dom_a]
  have dom: "dom (nodes ?z) = dom (nodes z)" using dom_a by (rule dom_upd)
  have other: "\<not> owned_by_other z a b" by (rule own_uniq_other [OF blob_okD(1) [OF i(6)] dom_a d])
  have own: "owned ?z c \<longleftrightarrow> owned z c \<and> c \<noteq> b" for c
    using other d unfolding owned_upd [OF dom_a] owned_split [OF dom_a, of c] by auto
  have uq: "own_uniq ?z" by (rule own_uniq_upd [OF blob_okD(1) [OF i(6)] dom_a]) simp
  have mk: "marker_nodes ?z = marker_nodes z" using n by (auto simp: marker_nodes_def)
  have sg: "seg (node_at ?z c) = seg (node_at z c)" for c by (simp add: node_at_upd)
  have owb: "owned z b" using d by (simp add: owned_split [OF dom_a])
  note bk = blob_okD [OF i(6)]
  have "blob_ok (R(b := R b + 1)) ?z"
  proof (rule blob_okI)
    fix c assume "owned ?z c"
    then show "c \<in> dom (blobs ?z) \<and> \<not> detached (the (blobs ?z c))" using bk(2,3) [of c] own by simp
  next
    fix c r' assume "blobs ?z c = Some r'"
    then show "refs r' = (R(b := R b + 1)) c + (if owned ?z c then 1 else 0)"
      using bk(4) [of c r'] owb by (auto simp: own)
  next
    fix c assume "c \<in> dom (blobs ?z)"
    then show "0 < (R(b := R b + 1)) c \<or> owned ?z c" using bk(5) [of c] by (auto simp: own)
  next
    fix c assume "0 < (R(b := R b + 1)) c"
    then show "c \<in> dom (blobs ?z)" using bk(6) [of c] bk(2) [OF owb] by (auto split: if_splits)
  qed (rule uq)
  moreover have "shapes_ok D ?z"
    using i(7) a shape_ok_cong [of ?z z] by (auto simp: shapes_ok_def)
  moreover have "lease_ok ?z" by (rule lease_ok_upd [OF i(9) dom_a]) simp_all
  moreover have "live_ok live X ?z" "used_ok C X ?z" "lru_ok D ?z" "idx_ok ?z"
    using i(2,3,4,5) unfolding live_ok_def used_ok_def lru_ok_def idx_ok_def dom sg
    by (simp_all add: blob_charge_def)
  ultimately show "zinv C live (R(b := R b + 1)) D X M ?z"
    using i by (simp add: zinv_def markers_ok_def mk)
  show "\<not> owned ?z b" by (simp add: own)
qed

lemma zinv_give_data:
  assumes inv: "zinv C live R D X M z" and a: "a \<in> D" and d: "data (node_at z a) = None"
    and b: "0 < R b" "\<not> owned z b" "\<not> detached (the (blobs z b))"
  shows "zinv C live (R(b := R b - 1)) D X M (upd_node a (\<lambda>n. n\<lparr>data := Some b\<rparr>) z)"
proof -
  note i = zinvD [OF inv]
  let ?z = "upd_node a (\<lambda>n. n\<lparr>data := Some b\<rparr>) z"
  have dom_a: "a \<in> dom (nodes z)" using i(5) a by (auto simp: lru_ok_def)
  note n = nodes_node_at [OF dom_a]
  have dom: "dom (nodes ?z) = dom (nodes z)" using dom_a by (rule dom_upd)
  have own: "owned ?z c \<longleftrightarrow> owned z c \<or> c = b" for c
    using d unfolding owned_upd [OF dom_a] owned_split [OF dom_a, of c] by auto
  have uq: "own_uniq ?z"
    using b(2) unfolding owned_split [OF dom_a]
    by (intro own_uniq_upd [OF blob_okD(1) [OF i(6)] dom_a]) auto
  have mk: "marker_nodes ?z = marker_nodes z" using n by (auto simp: marker_nodes_def)
  have sg: "seg (node_at ?z c) = seg (node_at z c)" for c by (simp add: node_at_upd)
  have bb: "b \<in> dom (blobs z)" using blob_okD(6) [OF i(6) b(1)] .
  note bk = blob_okD [OF i(6)]
  have "blob_ok (R(b := R b - 1)) ?z"
  proof (rule blob_okI)
    fix c assume "owned ?z c"
    then show "c \<in> dom (blobs ?z) \<and> \<not> detached (the (blobs ?z c))"
      using bk(2,3) [of c] own b bb by auto
  next
    fix c r' assume "blobs ?z c = Some r'"
    then show "refs r' = (R(b := R b - 1)) c + (if owned ?z c then 1 else 0)"
      using bk(4) [of c r'] b by (auto simp: own)
  next
    fix c assume "c \<in> dom (blobs ?z)"
    then show "0 < (R(b := R b - 1)) c \<or> owned ?z c" using bk(5) [of c] by (auto simp: own)
  next
    fix c assume "0 < (R(b := R b - 1)) c"
    then show "c \<in> dom (blobs ?z)" using bk(6) [of c] bb by (auto split: if_splits)
  qed (rule uq)
  moreover have "shapes_ok D ?z"
    using i(7) a shape_ok_cong [of ?z z] by (auto simp: shapes_ok_def)
  moreover have "lease_ok ?z" by (rule lease_ok_upd [OF i(9) dom_a]) simp_all
  moreover have "live_ok live X ?z" "used_ok C X ?z" "lru_ok D ?z" "idx_ok ?z"
    using i(2,3,4,5) unfolding live_ok_def used_ok_def lru_ok_def idx_ok_def dom sg
    by (simp_all add: blob_charge_def)
  ultimately show ?thesis
    using i by (simp add: zinv_def markers_ok_def mk)
qed

subsection \<open>Nodes\<close>

text \<open>The last step of every removal: a node that is off the queues and has no body any more leaves
  the tree, the counts and the slab.\<close>

definition node_remove :: "'p ngx_core \<Rightarrow> 'p zone \<Rightarrow> addr \<Rightarrow> 'p zone" where
  "node_remove C z a =
     (let n = node_at z a;
          z = z\<lparr>n_entries := n_entries z - 1, rbtree := rb_del C (rbtree z) a\<rparr>;
          z = (if kind n = NODE_MARKER then z\<lparr>markers := markers z - 1\<rparr> else z)
      in shm_free_locked C (z\<lparr>nodes := (nodes z)(a := None)\<rparr>) a (sizeof_node C))"

lemma node_remove_simps:
  "nodes (node_remove C z a) = (nodes z)(a := None)" "blobs (node_remove C z a) = blobs z"
  "rbtree (node_remove C z a) = rb_del C (rbtree z) a" "lru (node_remove C z a) = lru z"
  "lru_protected (node_remove C z a) = lru_protected z"
  "n_protected (node_remove C z a) = n_protected z" "n_entries (node_remove C z a) = n_entries z - 1"
  "used_bytes (node_remove C z a) = used_bytes z - sizeof_node C"
  "markers (node_remove C z a) =
     (if kind (node_at z a) = NODE_MARKER then markers z - 1 else markers z)"
  "pool (node_remove C z a) = slab_free C (pool z) a" "owner_seq (node_remove C z a) = owner_seq z"
  "zsketch (node_remove C z a) = zsketch z" "evictions (node_remove C z a) = evictions z"
  "zbreaker (node_remove C z a) = zbreaker z" "admission (node_remove C z a) = admission z"
  "zautotune (node_remove C z a) = zautotune z" "counters (node_remove C z a) = counters z"
  "admission_refused (node_remove C z a) = admission_refused z"
  by (simp_all add: node_remove_def Let_def)

lemma zinv_node_remove:
  assumes inv: "zinv C live R D X M z" and a: "a \<in> D" and d: "data (node_at z a) = None"
  shows "zinv C live R (D - {a}) X M (node_remove C z a)"
proof -
  note i = zinvD [OF inv]
  define z' where "z' = node_remove C z a"
  note z' = node_remove_simps [of C z a, folded z'_def]
  have dom_a: "a \<in> dom (nodes z)" using i(5) a by (auto simp: lru_ok_def)
  note n = nodes_node_at [OF dom_a]
  have dom: "dom (nodes z') = dom (nodes z) - {a}" by (auto simp: z')
  have fin: "finite (dom (nodes z))" using i(2) by (simp add: live_ok_def)
  have card: "card (dom (nodes z')) = card (dom (nodes z)) - 1" "0 < card (dom (nodes z))"
    using fin dom_a unfolding dom by (auto simp: card_gt_0_iff)
  have "owned z' b = owned_by_other z a b" for b
    by (auto simp: owned_def owned_by_other_def z')
  then have own: "owned z' b = owned z b" for b
    using d by (simp add: owned_split [OF dom_a])
  have at: "c \<noteq> a \<Longrightarrow> node_at z' c = node_at z c" for c by (simp add: node_at_def z')
  have notq: "a \<notin> set (lru z)" "a \<notin> set (lru_protected z)" using i(5) a by (auto simp: lru_ok_def)
  then have q: "c \<in> set (lru z) \<Longrightarrow> node_at z' c = node_at z c"
    "c \<in> set (lru_protected z) \<Longrightarrow> node_at z' c = node_at z c" for c
    using at [of c] by blast+
  have "a \<in> live (pool z)" using i(2) dom_a by (simp add: live_ok_def)
  then have "live (pool z') = live (pool z) - {a}" using i(1) unfolding z' core_ok_def by blast
  then have "live_ok live X z'"
    using i(2) dom_a unfolding live_ok_def dom z'(2) by auto
  moreover have "used_ok C X z'"
  proof -
    obtain k where k: "card (dom (nodes z)) = Suc k" using card(2) gr0_implies_Suc by blast
    have "blob_charge z' = blob_charge z" by (simp add: blob_charge_def fun_eq_iff z')
    then show ?thesis
      using i(3) card(1) unfolding used_ok_def k by (simp add: z' add_mult_distrib)
  qed
  moreover have "idx_ok z'"
  proof -
    have rbc: "rb_core_ok (rb_fix C) (rb_del C)" and rbi: "rb_inv (rbtree z)"
      using i(1,4) by (simp_all add: core_ok_def idx_ok_def)
    have ent: "rb_entries (rbtree z') = {e \<in> rb_entries (rbtree z). snd e \<noteq> a}"
      unfolding z' by (rule rb_entries_del [OF rbc])
    have "rb_inv (rbtree z')" unfolding z' by (rule rb_inv_del [OF rbc rbi])
    moreover have "snd ` rb_entries (rbtree z') = dom (nodes z')"
      using i(4) unfolding ent dom idx_ok_def by auto
    moreover have "inj_on snd (rb_entries (rbtree z'))"
      using i(4) unfolding ent idx_ok_def by (auto intro: inj_on_subset)
    ultimately show ?thesis by (simp add: idx_ok_def)
  qed
  moreover have "lru_ok (D - {a}) z'"
    using i(5) dom card notq q unfolding lru_ok_def z'(4-7) by auto
  moreover have "blob_ok R z'"
  proof (rule blob_okI, unfold own z'(2))
    show "own_uniq z'" using blob_okD(1) [OF i(6)] unfolding own_uniq_def z' by (auto split: if_splits)
  qed (use blob_okD [OF i(6)] in auto)
  moreover have "shapes_ok (D - {a}) z'"
    using i(7) shape_ok_cong [OF z'(2)] by (auto simp: shapes_ok_def z')
  moreover have "markers_ok M z'"
  proof -
    have mk: "marker_nodes z' = marker_nodes z - {a}" by (auto simp: marker_nodes_def z')
    show ?thesis
    proof (cases "kind (node_at z a) = NODE_MARKER")
      case True
      then have "a \<in> marker_nodes z" using n by (auto simp: marker_nodes_def)
      then have "card (marker_nodes z') = card (marker_nodes z) - 1" "0 < card (marker_nodes z)"
        using finite_marker_nodes [OF fin] unfolding mk by (auto simp: card_gt_0_iff)
      with True i(8) show ?thesis by (simp add: markers_ok_def z')
    next
      case False
      then have "marker_nodes z' = marker_nodes z" using n unfolding mk by (auto simp: marker_nodes_def)
      with False i(8) show ?thesis by (simp add: markers_ok_def z')
    qed
  qed
  moreover have "lease_ok z'" using i(9) unfolding lease_ok_def z' by (auto split: if_splits)
  ultimately have "zinv C live R (D - {a}) X M z'" using i by (simp add: zinv_def z')
  then show ?thesis by (simp add: z'_def)
qed

lemma markers_unref [simp]: "markers (blob_unref C z b r) = markers z"
  by (simp add: blob_unref_def)

text \<open>\<open>shm_drop_locked\<close> is: unlink, hand the body's reference over, release it, remove the node.\<close>

lemma zinv_drop [zone_intros]:
  assumes inv: "zinv C live R D X M z" and a: "a \<in> dom (nodes z)" "a \<notin> D"
  shows "zinv C live R D X M (shm_drop_locked C z a)"
proof -
  let ?u = "lru_unlink z a"
  have u: "zinv C live R (insert a D) X M ?u" using zinv_unlink [OF inv a] .
  have del: "insert a D - {a} = D" using a(2) by blast
  have at: "node_at ?u a = node_at z a" by (simp add: node_at_def)
  show ?thesis
  proof (cases "data (node_at z a)")
    case None
    then have "shm_drop_locked C z a = node_remove C ?u a"
      by (simp add: shm_drop_locked_def node_remove_def Let_def at)
    with zinv_node_remove [OF u, of a] None at show ?thesis by (simp add: del)
  next
    case (Some b)
    let ?t = "upd_node a (\<lambda>n. n\<lparr>data := None\<rparr>) ?u"
    have t: "zinv C live (R(b := R b + 1)) (insert a D) X M ?t" "\<not> owned ?t b"
      using zinv_take_data [OF u, of a b] Some at by auto
    let ?r = "blob_node_release C ?t b"
    have "zinv C live ((R(b := R b + 1))(b := (R(b := R b + 1)) b - 1)) (insert a D) X M ?r"
      unfolding blob_node_release_unref by (rule zinv_unref [OF t(1)]) (use t(2) in auto)
    then have r: "zinv C live R (insert a D) X M ?r" by simp
    have nat: "node_at ?r a = (node_at z a)\<lparr>data := None\<rparr>"
      by (simp add: node_at_def at)
    have "shm_drop_locked C z a = node_remove C ?r a"
      by (rule zone.equality)
        (simp_all add: node_remove_simps nat,
         simp_all add: Some shm_drop_locked_def Let_def blob_node_release_def)
    with zinv_node_remove [OF r, of a] nat show ?thesis by (simp add: del)
  qed
qed

subsection \<open>Eviction and allocation\<close>

text \<open>Evictions only take away: the nodes that are left are unchanged except for their second
  chance, and a body that somebody else refers to stays. \<open>K\<close> is a set of nodes off the queues,
  which eviction cannot reach.\<close>

definition spared_only :: "node \<Rightarrow> node \<Rightarrow> bool" where
  "spared_only n n' \<longleftrightarrow> n' = n\<lparr>sie_spared := sie_spared n'\<rparr>"

lemma spared_only_refl [simp]: "spared_only n n"
  by (simp add: spared_only_def)

lemma spared_only_upd [simp]: "spared_only n (n\<lparr>sie_spared := b\<rparr>)"
  by (simp add: spared_only_def)

lemma spared_only_trans: "spared_only n n2 \<Longrightarrow> spared_only n2 n3 \<Longrightarrow> spared_only n n3"
proof -
  assume a: "spared_only n n2" "spared_only n2 n3"
  have "n3 = n2\<lparr>sie_spared := sie_spared n3\<rparr>" using a(2) unfolding spared_only_def .
  also have "n2 = n\<lparr>sie_spared := sie_spared n2\<rparr>" using a(1) unfolding spared_only_def .
  also have "n\<lparr>sie_spared := sie_spared n2, sie_spared := sie_spared n3\<rparr> = n\<lparr>sie_spared := sie_spared n3\<rparr>"
    by simp
  finally show ?thesis unfolding spared_only_def .
qed

definition shrinks :: "addr set \<Rightarrow> 'p zone \<Rightarrow> 'p zone \<Rightarrow> bool" where
  "shrinks D z z' \<longleftrightarrow>
     (\<forall>a n'. nodes z' a = Some n' \<longrightarrow> (\<exists>n. nodes z a = Some n \<and> spared_only n n')) \<and>
     (\<forall>a \<in> D. nodes z' a = nodes z a) \<and>
     (\<forall>b r'. blobs z' b = Some r' \<longrightarrow> (\<exists>r. blobs z b = Some r \<and> content r' = content r)) \<and>
     rb_entries (rbtree z') = {e \<in> rb_entries (rbtree z). snd e \<in> dom (nodes z')} \<and>
     owner_seq z' = owner_seq z \<and> zsketch z' = zsketch z \<and> admission z' = admission z \<and>
     zbreaker z' = zbreaker z"

lemma shrinks_refl:
  assumes "idx_ok z"
  shows "shrinks D z z"
proof -
  have "rb_entries (rbtree z) = {e \<in> rb_entries (rbtree z). snd e \<in> dom (nodes z)}"
    using assms unfolding idx_ok_def by blast
  then show ?thesis unfolding shrinks_def by simp
qed

lemma shrinks_trans:
  assumes "shrinks D x y" and "shrinks D y z"
  shows "shrinks D x z"
  unfolding shrinks_def
proof (intro conjI allI impI ballI)
  fix a n' assume "nodes z a = Some n'"
  then obtain n2 where n2: "nodes y a = Some n2" "spared_only n2 n'"
    using assms(2) unfolding shrinks_def by blast
  then obtain n1 where "nodes x a = Some n1" "spared_only n1 n2"
    using assms(1) unfolding shrinks_def by blast
  with n2 show "\<exists>n. nodes x a = Some n \<and> spared_only n n'" using spared_only_trans by blast
next
  fix b r' assume "blobs z b = Some r'"
  then obtain r2 where "blobs y b = Some r2" "content r' = content r2"
    using assms(2) unfolding shrinks_def by blast
  then show "\<exists>r. blobs x b = Some r \<and> content r' = content r"
    using assms(1) unfolding shrinks_def by metis
next
  have "dom (nodes z) \<subseteq> dom (nodes y)"
    using assms(2) unfolding shrinks_def by blast
  then show "rb_entries (rbtree z) = {e \<in> rb_entries (rbtree x). snd e \<in> dom (nodes z)}"
    using assms unfolding shrinks_def by auto
qed (use assms in \<open>auto simp: shrinks_def\<close>)

lemma zinv_evict_walk:
  assumes "zinv C live R D X M z" and "set as \<subseteq> dom (nodes z)" and "set as \<inter> D = {}"
  shows "zinv C live R D X M (fst (evict_walk z br now as)) \<and> shrinks D z (fst (evict_walk z br now as)) \<and>
    dom (nodes (fst (evict_walk z br now as))) = dom (nodes z)"
  using assms
proof (induction z br now as rule: evict_walk.induct)
  case (1 z br now)
  then show ?case using shrinks_refl [OF zinvD(4)] by auto
next
  case (2 z br now a as)
  have a: "a \<in> dom (nodes z)" "a \<notin> D" using "2.prems" by auto
  show ?case
  proof (cases "br \<and> \<not> sie_spared (node_at z a) \<and> shm_node_sie_live z (node_at z a) now")
    case True
    define u where "u = upd_node a (\<lambda>n. n\<lparr>sie_spared := True\<rparr>) z"
    have u: "zinv C live R D X M u"
      unfolding u_def using "2.prems"(1) a(1) by (rule zinv_upd_soft) (simp_all add: soft_def)
    have dom: "dom (nodes u) = dom (nodes z)" unfolding u_def using a(1) by (rule dom_upd)
    have "rb_entries (rbtree u) = {e \<in> rb_entries (rbtree z). snd e \<in> dom (nodes u)}"
      using zinvD(4) [OF "2.prems"(1)] unfolding dom idx_ok_def by (auto simp: u_def)
    then have "shrinks D z u"
      using nodes_node_at [OF a(1)] a(2) unfolding shrinks_def u_def
      by (auto split: if_splits)
    moreover have "zinv C live R D X M (fst (evict_walk u br now as)) \<and>
        shrinks D u (fst (evict_walk u br now as)) \<and>
        dom (nodes (fst (evict_walk u br now as))) = dom (nodes u)"
      by (rule "2.IH" [OF True, folded u_def]) (use u dom "2.prems" in auto)
    ultimately show ?thesis
      using True shrinks_trans dom by (auto simp: u_def)
  next
    case False
    then show ?thesis using "2.prems" shrinks_refl [OF zinvD(4) [OF "2.prems"(1)]] by auto
  qed
qed

lemma zinv_evictions:
  assumes d: "zinv C live R D X M z"
  shows "zinv C live R D X M (z\<lparr>evictions := k\<rparr>)"
proof -
  have "lru_ok D (z\<lparr>evictions := k\<rparr>)" "shapes_ok D (z\<lparr>evictions := k\<rparr>)"
    using zinvD(5,7) [OF d] lru_ok_cong [of "z\<lparr>evictions := k\<rparr>" z D]
      shapes_ok_cong [of "z\<lparr>evictions := k\<rparr>" z D] by simp_all
  then show ?thesis by (rule zinv_frame [OF d]) simp_all
qed

lemma blobs_unref:
  "blobs (blob_unref C z b r) =
    (if refs r = 1 then (blobs z)(b := None) else (blobs z)(b \<mapsto> r\<lparr>refs := refs r - 1\<rparr>))"
  by (simp add: blob_unref_def)

lemma drop_blobs:
  "blobs (shm_drop_locked C z a) =
    (case data (node_at z a) of None \<Rightarrow> blobs z | Some b \<Rightarrow> blobs (blob_node_release C z b))"
  by (simp add: shm_drop_locked_def Let_def blob_node_release_def split: option.split)

lemma drop_content:
  assumes "blobs (shm_drop_locked C z a) b = Some r'" and "blob_ok R z" and "a \<in> dom (nodes z)"
  shows "\<exists>r. blobs z b = Some r \<and> content r' = content r"
proof (cases "data (node_at z a)")
  case (Some c)
  then have "owned z c" using assms(3) by (simp add: owned_split)
  then obtain r where "blobs z c = Some r" using blob_okD(2) [OF assms(2)] by blast
  with assms(1) Some show ?thesis
    by (auto simp: drop_blobs blob_node_release_unref blobs_unref split: if_splits)
qed (use assms(1) in \<open>simp add: drop_blobs\<close>)

text \<open>One eviction: a node leaves, the rest stays.\<close>

lemma zinv_evict_queue:
  assumes inv: "zinv C live R D X M z" and q: "q \<noteq> []" "set q \<subseteq> dom (nodes z) - D"
  shows "zinv C live R D X M (evict_queue C z br now q)"
    and "shrinks D z (evict_queue C z br now q)"
proof -
  define w where "w = fst (evict_walk z br now (rev q))"
  define a where "a = evict_victim z br now q"
  have w: "zinv C live R D X M w" "shrinks D z w" "dom (nodes w) = dom (nodes z)"
    using zinv_evict_walk [OF inv, of "rev q" br now] q by (auto simp: w_def)
  have "a \<in> set q" unfolding a_def by (rule evict_victim_mem [OF q(1)])
  then have a: "a \<in> dom (nodes w)" "a \<notin> D" using q(2) w(3) by auto
  have eq: "evict_queue C z br now q = evict_take C w a" by (simp add: evict_queue_eq w_def a_def)
  let ?d = "shm_drop_locked C w a"
  have d: "zinv C live R D X M ?d" by (rule zinv_drop [OF w(1) a])
  then show "zinv C live R D X M (evict_queue C z br now q)"
    unfolding eq evict_take_def Let_def by (rule zinv_evictions)
  have "shrinks D w (evict_take C w a)"
  proof -
    have ent: "rb_entries (rb_del C (rbtree w) a) = {e \<in> rb_entries (rbtree w). snd e \<noteq> a}"
      using zinvD(1) [OF w(1)] unfolding core_ok_def by (intro rb_entries_del) auto
    have dom: "snd ` rb_entries (rbtree w) = dom (nodes w)"
      using zinvD(4) [OF w(1)] by (simp add: idx_ok_def)
    have "rb_entries (rb_del C (rbtree w) a) = {e \<in> rb_entries (rbtree w). snd e \<in> dom (nodes w) - {a}}"
      unfolding ent dom [symmetric] by auto
    then show ?thesis
      using drop_content [OF _ zinvD(6) [OF w(1)] a(1)] a(2)
      unfolding shrinks_def evict_take_def Let_def by (auto split: if_splits)
  qed
  with w(2) show "shrinks D z (evict_queue C z br now q)"
    unfolding eq by (rule shrinks_trans)
qed

lemma lru_ok_queues:
  assumes "lru_ok D z"
  shows "set (lru z) \<subseteq> dom (nodes z) - D" "set (lru_protected z) \<subseteq> dom (nodes z) - D"
  using assms unfolding lru_ok_def by blast+

lemma zinv_evict_one:
  assumes inv: "zinv C live R D X M z" and e: "shm_evict_one C z now = Some z'"
  shows "zinv C live R D X M z'" and "shrinks D z z'"
  using e zinv_evict_queue [OF inv] lru_ok_queues [OF zinvD(5) [OF inv]]
  by (auto simp: shm_evict_one_def Let_def split: if_splits)

text \<open>The allocation loop: some evictions, then one slab allocation, or nothing left to evict.\<close>

definition granted :: "'p ngx_core \<Rightarrow> 'p zone \<Rightarrow> nat \<Rightarrow> addr \<Rightarrow> 'p zone \<Rightarrow> bool" where
  "granted C z n p z' \<longleftrightarrow> (\<exists>pool'. slab_alloc C (pool z) n = Some (p, pool') \<and>
     z' = z\<lparr>pool := pool', used_bytes := used_bytes z + n\<rparr>)"

lemma zinv_alloc_evict:
  assumes "zinv C live R D X M z"
  shows "\<exists>w. zinv C live R D X M w \<and> shrinks D z w \<and>
    (case shm_alloc_evict C z now n of
       (None, z') \<Rightarrow> z' = w \<and> lru w = [] \<and> lru_protected w = []
     | (Some p, z') \<Rightarrow> granted C w n p z')"
  using assms
proof (induction C z now n rule: shm_alloc_evict.induct)
  case (1 C z now n)
  note refl = shrinks_refl [OF zinvD(4) [OF "1.prems"], of D]
  show ?case
  proof (cases "slab_alloc C (pool z) n")
    case (Some r)
    obtain p pool' where "r = (p, pool')" by (cases r)
    with Some have "case shm_alloc_evict C z now n of
       (None, z') \<Rightarrow> z' = z \<and> lru z = [] \<and> lru_protected z = []
     | (Some p, z') \<Rightarrow> granted C z n p z'"
      by (subst shm_alloc_evict.simps) (simp add: granted_def)
    with "1.prems" refl show ?thesis by (intro exI [of _ z]) (rule conjI, assumption)+
  next
    case none: None
    show ?thesis
    proof (cases "shm_evict_one C z now")
      case None
      then have "lru z = [] \<and> lru_protected z = []"
        by (auto simp: shm_evict_one_def Let_def split: if_splits)
      with none None have "case shm_alloc_evict C z now n of
          (None, z') \<Rightarrow> z' = z \<and> lru z = [] \<and> lru_protected z = []
        | (Some p, z') \<Rightarrow> granted C z n p z'"
        by (subst shm_alloc_evict.simps) simp
      with "1.prems" refl show ?thesis by (intro exI [of _ z]) (rule conjI, assumption)+
    next
      case (Some z1)
      note e = zinv_evict_one [OF "1.prems" Some]
      have "shm_alloc_evict C z now n = shm_alloc_evict C z1 now n"
        using none Some by (subst shm_alloc_evict.simps) simp
      moreover from "1.IH" [OF none Some e(1)] obtain w where
        w: "zinv C live R D X M w" "shrinks D z1 w"
          "case shm_alloc_evict C z1 now n of
             (None, z') \<Rightarrow> z' = w \<and> lru w = [] \<and> lru_protected w = []
           | (Some p, z') \<Rightarrow> granted C w n p z'"
        by (elim exE conjE)
      moreover have "shrinks D z w" using e(2) w(2) by (rule shrinks_trans)
      ultimately show ?thesis by (intro exI [of _ w] conjI) (simp_all only:)
    qed
  qed
qed

subsection \<open>What an allocation becomes\<close>

lemma core_alloc:
  assumes "zinv C live R D X M z" and "slab_alloc C (pool z) n = Some (a, pool')"
  shows "a \<notin> dom (nodes z)" "a \<notin> dom (blobs z)" "a \<notin> X" "live pool' = insert a (live (pool z))"
proof -
  have "a \<notin> live (pool z) \<and> live pool' = insert a (live (pool z))"
    using zinvD(1) [OF assms(1)] assms(2) unfolding core_ok_def by blast
  then show "a \<notin> dom (nodes z)" "a \<notin> dom (blobs z)" "a \<notin> X" "live pool' = insert a (live (pool z))"
    using zinvD(2) [OF assms(1)] by (auto simp: live_ok_def)
qed

text \<open>A node-sized allocation that is not a node yet.\<close>

lemma zinv_granted_node:
  assumes inv: "zinv C live R D X M z" and g: "granted C z (sizeof_node C) a z'"
  shows "zinv C live R D (insert a X) M z'"
proof -
  obtain pool' where al: "slab_alloc C (pool z) (sizeof_node C) = Some (a, pool')"
    and z': "z' = z\<lparr>pool := pool', used_bytes := used_bytes z + sizeof_node C\<rparr>"
    using g by (auto simp: granted_def)
  note i = zinvD [OF inv] and c = core_alloc [OF inv al]
  have "live_ok live (insert a X) z'" using i(2) c by (auto simp: live_ok_def z')
  moreover have "used_ok C (insert a X) z'"
    using i(2,3) c by (simp add: used_ok_def live_ok_def z' blob_charge_def)
  moreover have "blob_ok R z'"
    by (rule blob_okI) (use blob_okD [OF i(6)] in \<open>auto simp: z' owned_def own_uniq_def\<close>)
  ultimately show ?thesis
    using i idx_ok_cong [of z' z] lru_ok_cong [of z' z D] markers_ok_cong [of z' z M]
      lease_ok_cong [of z' z] shapes_ok_cong [of z' z D]
    by (simp add: zinv_def z')
qed

lemma zinv_free_raw:
  assumes inv: "zinv C live R D X M z" and a: "a \<in> X"
  shows "zinv C live R D (X - {a}) M (shm_free_locked C z a (sizeof_node C))"
proof -
  define z' where "z' = shm_free_locked C z a (sizeof_node C)"
  note i = zinvD [OF inv]
  have "a \<in> live (pool z)" using i(2) a by (simp add: live_ok_def)
  then have l: "live (pool z') = live (pool z) - {a}"
    using i(1) unfolding core_ok_def z'_def by auto
  have "live_ok live (X - {a}) z'"
    using i(2) a unfolding live_ok_def l by (auto simp: z'_def)
  moreover have "used_ok C (X - {a}) z'"
  proof -
    have "0 < card X" using i(2) a by (auto simp: live_ok_def card_gt_0_iff)
    then obtain k where k: "card X = Suc k" using gr0_implies_Suc by blast
    have "card (X - {a}) = k" using i(2) a k by (simp add: live_ok_def)
    then show ?thesis
      using i(3) unfolding used_ok_def k by (simp add: z'_def blob_charge_def add_mult_distrib)
  qed
  moreover have "blob_ok R z'"
    by (rule blob_okI) (use blob_okD [OF i(6)] in \<open>auto simp: z'_def owned_def own_uniq_def\<close>)
  ultimately have "zinv C live R D (X - {a}) M z'"
    using i idx_ok_cong [of z' z] lru_ok_cong [of z' z D] markers_ok_cong [of z' z M]
      lease_ok_cong [of z' z] shapes_ok_cong [of z' z D]
    by (simp add: zinv_def z'_def)
  then show ?thesis by (simp add: z'_def)
qed

text \<open>A body: the operation that allocated it holds its one reference until it gives it to a node.\<close>

lemma zinv_granted_blob:
  assumes inv: "zinv C live R D X M z" and g: "granted C z n b z1"
    and z': "z' = z1\<lparr>blobs := (blobs z1)(b \<mapsto> r)\<rparr>"
    and r: "refs r = 1" "\<not> detached r" "blob_bytes r = n"
  shows "zinv C live (R(b := 1)) D X M z'" "R b = 0" "\<not> owned z' b" "blobs z' b = Some r"
    "nodes z' = nodes z" "b \<notin> dom (blobs z)"
proof -
  obtain pool' where al: "slab_alloc C (pool z) n = Some (b, pool')"
    and z1: "z1 = z\<lparr>pool := pool', used_bytes := used_bytes z + n\<rparr>"
    using g by (auto simp: granted_def)
  note i = zinvD [OF inv] and c = core_alloc [OF inv al] and bk = blob_okD [OF zinvD(6) [OF inv]]
  have bl: "blobs z' = (blobs z)(b \<mapsto> r)" and nd: "nodes z' = nodes z" by (simp_all add: z' z1)
  then show "blobs z' b = Some r" "nodes z' = nodes z" by simp_all
  show "b \<notin> dom (blobs z)" using c by simp
  show R: "R b = 0" using bk(6) [of b] c by auto
  have own: "owned z' = owned z" by (rule owned_cong) (rule nd)
  have un: "\<not> owned z b" using bk(2) c by blast
  with own show "\<not> owned z' b" by simp
  have dom: "dom (blobs z') = insert b (dom (blobs z))" by (auto simp: bl)
  have "zinv C live (R(b := 1)) D X M z'"
  proof (rule zinv_frame_blobs [OF inv])
    show "live_ok live X z'" using i(2) c unfolding live_ok_def dom nd by (auto simp: z' z1)
    have "(\<Sum>c \<in> dom (blobs z). blob_charge z' c) = (\<Sum>c \<in> dom (blobs z). blob_charge z c)"
      using c by (intro sum.cong) (auto simp: blob_charge_def bl)
    then show "used_ok C X z'"
      using i(2,3) c r unfolding used_ok_def dom nd live_ok_def
      by (simp add: blob_charge_def bl, simp add: z' z1)
    show "blob_ok (R(b := 1)) z'"
    proof (rule blob_okI, unfold own dom)
      show "own_uniq z'" using bk(1) own_uniq_cong [OF nd] by simp
      show "d \<in> insert b (dom (blobs z)) \<and> \<not> detached (the (blobs z' d))" if "owned z d" for d
        using bk(2,3) [OF that] un that by (auto simp: bl)
      show "refs r' = (R(b := 1)) d + (if owned z d then 1 else 0)" if "blobs z' d = Some r'" for d r'
        using that bk(4) [of d r'] un r by (auto simp: bl split: if_splits)
      show "0 < (R(b := 1)) d \<or> owned z d" if "d \<in> insert b (dom (blobs z))" for d
        using that bk(5) [of d] by auto
      show "d \<in> insert b (dom (blobs z))" if "0 < (R(b := 1)) d" for d
        using that bk(6) [of d] by (auto split: if_splits)
    qed
    fix a n assume "nodes z a = Some n"
    then have "data n \<noteq> Some b" using un by (auto simp: owned_def)
    then show "shape_ok z' n = shape_ok z n" by (auto simp: shape_ok_def bl split: option.split)
  qed (simp_all add: z' z1)
  then show "zinv C live (R(b := 1)) D X M z'" .
qed

text \<open>An allocation becomes a node, off the queues and without a body.\<close>

definition node_insert :: "'p ngx_core \<Rightarrow> 'p zone \<Rightarrow> bytes \<Rightarrow> addr \<Rightarrow> node \<Rightarrow> 'p zone" where
  "node_insert C z key_hash a n =
     z\<lparr>nodes := (nodes z)(a \<mapsto> n), rbtree := rb_insert (rb_fix C) (rbtree z) key_hash a,
       n_entries := n_entries z + 1\<rparr>"

lemma node_insert_simps:
  "nodes (node_insert C z k a n) = (nodes z)(a \<mapsto> n)" "blobs (node_insert C z k a n) = blobs z"
  "rbtree (node_insert C z k a n) = rb_insert (rb_fix C) (rbtree z) k a"
  "lru (node_insert C z k a n) = lru z" "lru_protected (node_insert C z k a n) = lru_protected z"
  "n_protected (node_insert C z k a n) = n_protected z"
  "n_entries (node_insert C z k a n) = n_entries z + 1"
  "used_bytes (node_insert C z k a n) = used_bytes z" "markers (node_insert C z k a n) = markers z"
  "pool (node_insert C z k a n) = pool z" "owner_seq (node_insert C z k a n) = owner_seq z"
  "zsketch (node_insert C z k a n) = zsketch z"
  by (simp_all add: node_insert_def)

lemma zinv_node_insert:
  assumes inv: "zinv C live R D X M z" and a: "a \<in> X" and k: "length k = 32"
    and new: "shm_lookup z k = None"
    and n: "data n = None" "refresh_owner n = 0" "\<not> refreshing n" "kind n \<noteq> NODE_MARKER"
  shows "zinv C live R (insert a D) (X - {a}) M (node_insert C z k a n)"
proof -
  define z' where "z' = node_insert C z k a n"
  note z' = node_insert_simps [of C z k a n, folded z'_def]
  note i = zinvD [OF inv] and bk = blob_okD [OF zinvD(6) [OF inv]]
  have fresh: "a \<notin> dom (nodes z)" "a \<notin> dom (blobs z)" and fin: "finite (dom (nodes z))" "finite X"
    using i(2) a by (auto simp: live_ok_def)
  have dom: "dom (nodes z') = insert a (dom (nodes z))" by (auto simp: z')
  have card: "card (dom (nodes z')) = card (dom (nodes z)) + 1" using fresh fin unfolding dom by simp
  have own: "owned z' = owned z"
    using n fresh by (auto simp: owned_def z' fun_eq_iff)
  have "live_ok live (X - {a}) z'"
    using i(2) a fresh unfolding live_ok_def dom by (auto simp: z')
  moreover have "used_ok C (X - {a}) z'"
  proof -
    have "0 < card X" using fin a by (auto simp: card_gt_0_iff)
    then obtain m where m: "card X = Suc m" using gr0_implies_Suc by blast
    have "card (X - {a}) = m" using fin a m by simp
    moreover have "blob_charge z' = blob_charge z" by (simp add: blob_charge_def fun_eq_iff z')
    ultimately show ?thesis
      using i(3) unfolding used_ok_def m card by (simp add: z' add_mult_distrib)
  qed
  moreover have "idx_ok z'"
  proof -
    have rb: "rb_core_ok (rb_fix C) (rb_del C) \<and> rb_inv (rbtree z)"
      using i(1,4) by (simp add: core_ok_def idx_ok_def)
    have new': "rb_lookup (rbtree z) k = None" using new by (simp add: shm_lookup_def)
    note ent = rb.entries_insert [OF rb k new', of a]
    have "rb_inv (rbtree z')" using rb.inv_insert [OF rb k new', of a] by (simp add: z')
    moreover have "snd ` rb_entries (rbtree z') = dom (nodes z')"
      using i(4) unfolding dom z' ent idx_ok_def by auto
    moreover have "inj_on snd (rb_entries (rbtree z'))"
      using i(4) fresh unfolding z' ent idx_ok_def by (auto simp: inj_on_insert)
    ultimately show ?thesis by (simp add: idx_ok_def)
  qed
  moreover have "lru_ok (insert a D) z'"
  proof -
    have at: "c \<in> set (lru z) \<Longrightarrow> node_at z' c = node_at z c"
      "c \<in> set (lru_protected z) \<Longrightarrow> node_at z' c = node_at z c" for c
      using lru_ok_queues [OF i(5)] fresh by (auto simp: node_at_def z')
    then show ?thesis
      using i(5) card fresh unfolding lru_ok_def dom z'(4-7) by auto
  qed
  moreover have "blob_ok R z'"
  proof (rule blob_okI, unfold own z'(2))
    show "own_uniq z'" using bk(1) n unfolding own_uniq_def z' by (auto split: if_splits)
  qed (use bk in auto)
  moreover have "shapes_ok (insert a D) z'"
    using i(7) shape_ok_cong [OF z'(2)] by (auto simp: shapes_ok_def z')
  moreover have "marker_nodes z' = marker_nodes z"
    using n fresh by (auto simp: marker_nodes_def z')
  then have "markers_ok M z'" using i(8) by (simp add: markers_ok_def z')
  moreover have "lease_ok z'"
    using i(9) n unfolding lease_ok_def z' by (auto split: if_splits)
  ultimately have "zinv C live R (insert a D) (X - {a}) M z'" using i by (simp add: zinv_def z')
  then show ?thesis by (simp add: z'_def)
qed

subsection \<open>Leases and kinds\<close>

lemma lease_ok_clear:
  assumes l: "lease_ok z" and a: "a \<in> dom (nodes z)"
    and f: "refresh_owner (f (node_at z a)) = 0" "\<not> refreshing (f (node_at z a))"
  shows "lease_ok (upd_node a f z)"
  using l f unfolding lease_ok_def by (auto split: if_splits)

text \<open>A node keeps its body and its lease, or gives the lease up; off the queues it may change its
  kind, its length and its segment as well.\<close>

lemma zinv_upd_gen:
  assumes inv: "zinv C live R D X M z" and a: "a \<in> dom (nodes z)"
    and d: "data (f (node_at z a)) = data (node_at z a)"
    and l: "lease_ok (upd_node a f z)"
    and off: "a \<in> D \<or> kind (f (node_at z a)) = kind (node_at z a) \<and>
      len (f (node_at z a)) = len (node_at z a) \<and> seg (f (node_at z a)) = seg (node_at z a) \<and>
      (data (node_at z a) = None \<longrightarrow> fresh_until (f (node_at z a)) = fresh_until (node_at z a))"
    and m: "markers_ok M' (upd_node a f z)"
  shows "zinv C live R D X M' (upd_node a f z)"
proof -
  note i = zinvD [OF inv] and n = nodes_node_at [OF a]
  let ?z = "upd_node a f z"
  have dom: "dom (nodes ?z) = dom (nodes z)" using a by (rule dom_upd)
  have own: "owned ?z b = owned z b" for b
    unfolding owned_upd [OF a] owned_split [OF a] d ..
  have "live_ok live X ?z" using i(2) unfolding live_ok_def dom by simp
  moreover have "used_ok C X ?z" using i(3) unfolding used_ok_def dom by (simp add: blob_charge_def)
  moreover have "idx_ok ?z" using i(4) unfolding idx_ok_def dom by simp
  moreover have "lru_ok D ?z"
  proof -
    have "b \<in> set (lru z) \<union> set (lru_protected z) \<Longrightarrow> seg (node_at ?z b) = seg (node_at z b)" for b
      using lru_ok_queues [OF i(5)] off by (auto simp: node_at_upd)
    then show ?thesis
      using i(5) dom by (auto simp: lru_ok_def simp del: upd_node_simps(18))
  qed
  moreover have "blob_ok R ?z"
  proof -
    have "own_uniq ?z"
      using own_uniq_other [OF blob_okD(1) [OF i(6)] a] d
      by (intro own_uniq_upd [OF blob_okD(1) [OF i(6)] a]) simp
    then show ?thesis using i(6) unfolding blob_ok_def own upd_node_simps by blast
  qed
  moreover have "shapes_ok D ?z"
  proof -
    have "a \<notin> D \<Longrightarrow> shape_ok z (f (node_at z a)) = shape_ok z (node_at z a)"
      using off d unfolding shape_ok_def by (cases "data (node_at z a)") simp_all
    then show ?thesis using i(7) n shape_ok_cong [of ?z z] by (auto simp: shapes_ok_def)
  qed
  ultimately show ?thesis using i m l by (simp add: zinv_def)
qed

lemma markers_ok_upd:
  assumes "markers_ok M z" and "a \<in> dom (nodes z)"
    and "kind (f (node_at z a)) = NODE_MARKER \<longleftrightarrow> kind (node_at z a) = NODE_MARKER"
  shows "markers_ok M (upd_node a f z)"
proof -
  have "marker_nodes (upd_node a f z) = marker_nodes z"
    using nodes_node_at [OF assms(2)] assms(3) by (auto simp: marker_nodes_def)
  with assms(1) show ?thesis by (simp add: markers_ok_def)
qed

text \<open>Retagging a marker as something else leaves the counter one ahead; tagging a node as a
  marker uses that up.\<close>

lemma markers_ok_untag:
  assumes "markers_ok M z" and a: "a \<in> dom (nodes z)" and fin: "finite (dom (nodes z))"
    and k: "kind (f (node_at z a)) \<noteq> NODE_MARKER"
  shows "markers_ok (if kind (node_at z a) = NODE_MARKER then M + 1 else M) (upd_node a f z)"
proof (cases "kind (node_at z a) = NODE_MARKER")
  case True
  have "a \<in> marker_nodes z" using True nodes_node_at [OF a] by (auto simp: marker_nodes_def)
  moreover have "marker_nodes (upd_node a f z) = marker_nodes z - {a}"
    using k by (auto simp: marker_nodes_def split: if_splits)
  ultimately show ?thesis
    using assms(1) True finite_marker_nodes [OF fin] card_Suc_Diff1 [of "marker_nodes z" a]
    by (simp add: markers_ok_def)
next
  case False
  with k show ?thesis using markers_ok_upd [OF assms(1) a, of f] by simp
qed

lemma markers_ok_tag:
  assumes "markers_ok (Suc M) z"
  shows "markers_ok M (upd_node a f z)"
proof -
  have sub: "marker_nodes (upd_node a f z) \<subseteq> insert a (marker_nodes z)"
    by (auto simp: marker_nodes_def split: if_splits)
  show ?thesis
  proof (cases "finite (marker_nodes z)")
    case True
    have "card (marker_nodes (upd_node a f z)) \<le> card (insert a (marker_nodes z))"
      using sub True by (intro card_mono) auto
    also have "\<dots> \<le> Suc (card (marker_nodes z))" using True by (rule card_insert_le_m1 [THEN le_SucI, of 1, simplified] | simp add: card_insert_if)
    finally show ?thesis using assms by (simp add: markers_ok_def)
  next
    case False
    have "marker_nodes z \<subseteq> insert a (marker_nodes (upd_node a f z))"
      by (auto simp: marker_nodes_def)
    then have "infinite (marker_nodes (upd_node a f z))"
      using False finite_subset by (metis finite_insert)
    then show ?thesis using assms by (simp add: markers_ok_def)
  qed
qed

text \<open>A new lease takes the next token of the zone.\<close>

definition take_lease :: "'p zone \<Rightarrow> addr \<Rightarrow> time_t \<Rightarrow> 'p zone" where
  "take_lease z a t = upd_node a (\<lambda>n. n\<lparr>refreshing := True, refresh_lock_until := t,
     refresh_owner := owner_seq z + 1\<rparr>) (z\<lparr>owner_seq := owner_seq z + 1\<rparr>)"

lemma lease_ok_take:
  assumes l: "lease_ok z" and a: "a \<in> dom (nodes z)"
  shows "lease_ok (take_lease z a t)"
proof -
  have new: "nodes (take_lease z a t) c = Some n \<Longrightarrow>
      c = a \<and> refresh_owner n = Suc (owner_seq z) \<and> refreshing n \<or> c \<noteq> a \<and> nodes z c = Some n" for c n
    by (auto simp: take_lease_def split: if_splits)
  have old: "nodes z c = Some n \<Longrightarrow> refresh_owner n \<le> owner_seq z" for c n
    using l unfolding lease_ok_def by blast
  have seq: "owner_seq (take_lease z a t) = Suc (owner_seq z)" by (simp add: take_lease_def)
  show ?thesis
    unfolding lease_ok_def seq
  proof (intro conjI allI impI)
    fix c n assume "nodes (take_lease z a t) c = Some n"
    from new [OF this] show "refresh_owner n \<le> Suc (owner_seq z)"
      "refresh_owner n \<noteq> 0 \<Longrightarrow> refreshing n"
      using l old unfolding lease_ok_def by (auto simp: le_SucI)
  next
    fix c c' n n'
    assume n: "nodes (take_lease z a t) c = Some n" and n': "nodes (take_lease z a t) c' = Some n'"
      and eq: "refresh_owner n = refresh_owner n'" "refresh_owner n \<noteq> 0"
    show "c = c'"
    proof (cases "c = a \<or> c' = a")
      case True
      with new [OF n] new [OF n'] old eq show ?thesis by (metis Suc_n_not_le_n)
    next
      case False
      with new [OF n] new [OF n'] l eq show ?thesis unfolding lease_ok_def by blast
    qed
  qed
qed

lemma zinv_seq:
  assumes inv: "zinv C live R D X M z"
  shows "zinv C live R D X M (z\<lparr>owner_seq := owner_seq z + 1\<rparr>)"
proof -
  define z' where "z' = z\<lparr>owner_seq := owner_seq z + 1\<rparr>"
  note i = zinvD [OF inv]
  have "lease_ok z'" using i(9) unfolding lease_ok_def by (auto simp: z'_def le_SucI)
  moreover have "blob_ok R z'"
    using i(6) owned_cong [of z' z] own_uniq_cong [of z' z]
    unfolding blob_ok_def by (simp add: z'_def)
  moreover have "live_ok live X z'" "used_ok C X z'"
    using i(2,3) unfolding live_ok_def used_ok_def blob_charge_def by (simp_all add: z'_def)
  ultimately have "zinv C live R D X M z'"
    using i idx_ok_cong [of z' z] lru_ok_cong [of z' z D] markers_ok_cong [of z' z M]
      shapes_ok_cong [of z' z D]
    by (simp add: zinv_def z'_def)
  then show ?thesis by (simp add: z'_def)
qed

lemma zinv_take_lease:
  assumes inv: "zinv C live R D X M z" and a: "a \<in> dom (nodes z)"
  shows "zinv C live R D X M (take_lease z a t)"
proof -
  let ?s = "z\<lparr>owner_seq := owner_seq z + 1\<rparr>"
  have s: "zinv C live R D X M ?s" by (rule zinv_seq [OF inv])
  have "lease_ok (take_lease z a t)" by (rule lease_ok_take [OF zinvD(9) [OF inv] a])
  then show ?thesis
    unfolding take_lease_def using a
    by (intro zinv_upd_gen [OF s] markers_ok_upd [OF zinvD(8) [OF s]]) auto
qed

text \<open>Giving a lease up, possibly with other fields the invariant does not read.\<close>

lemma zinv_clear_lease:
  assumes inv: "zinv C live R D X M z" and a: "a \<in> dom (nodes z)"
    and f: "refresh_owner (f (node_at z a)) = 0" "\<not> refreshing (f (node_at z a))"
    and same: "data (f (node_at z a)) = data (node_at z a)" "kind (f (node_at z a)) = kind (node_at z a)"
      "len (f (node_at z a)) = len (node_at z a)" "seg (f (node_at z a)) = seg (node_at z a)"
      "data (node_at z a) = None \<longrightarrow> fresh_until (f (node_at z a)) = fresh_until (node_at z a)"
  shows "zinv C live R D X M (upd_node a f z)"
  using same
  by (intro zinv_upd_gen [OF inv a] lease_ok_clear [OF zinvD(9) [OF inv] a] f
      markers_ok_upd [OF zinvD(8) [OF inv] a]) auto

end
