(* ===== verification/Zone_Ops.thy ===== *)
theory Zone_Ops
  imports Zone
begin

text \<open>
  The operations of the L1 backend of \<^verbatim>\<open>src/ngx_http_cache_turbo_shm.c\<close> that callers see: purging,
  storing with admission, the conditional store, 304 freshening, the single-flight lease of a cold
  miss, the miss counter, the negative memo and the variant-index flag. The public entry points
  take the zone mutex around one \<open>_locked\<close> body; a caller's NULL out-parameter is a
  \<open>False\<close> argument here. \<open>hash\<close> is the 32-bit short hash the callers pass next to the 32-byte
  \<open>key_hash\<close>.
\<close>

subsection \<open>Admission\<close>

text \<open>\<open>ngx_http_cache_turbo_shm_admit\<close>: refuse a key the sketch knows to be strictly colder than
  the probation tail.\<close>

definition shm_admit :: "'p zone \<Rightarrow> u32 \<Rightarrow> bool \<times> 'p zone" where
  "shm_admit z hash =
     (if \<not> admission z then (True, z)
      else if sketch (zsketch z) = None then (True, z)
      else if lru z = [] then (True, z)
      else let victim = node_at z (last (lru z));
               cand_freq = sketch_estimate (zsketch z) (sketch_rows hash);
               victim_freq = sketch_estimate (zsketch z) (sketch_rows (hash_crc32 victim))
           in if cand_freq < victim_freq then (False, z\<lparr>admission_refused := admission_refused z + 1\<rparr>)
              else (True, z))"

subsection \<open>Storing\<close>

text \<open>The tail all four node-creation sites share: \<open>ngx_rbtree_insert\<close> and \<open>lru_insert_new\<close>.\<close>

definition insert_node :: "'p ngx_core \<Rightarrow> 'p zone \<Rightarrow> bytes \<Rightarrow> addr \<Rightarrow> node \<Rightarrow> 'p zone" where
  "insert_node C z key_hash a n =
     lru_insert_new (z\<lparr>nodes := (nodes z)(a \<mapsto> n),
       rbtree := rb_insert (rb_fix C) (rbtree z) key_hash a\<rparr>) a"

definition deadline :: "time_t \<Rightarrow> time_t \<Rightarrow> time_t" where
  "deadline now sttl = (if sttl \<noteq> 0 then now + sttl else 0)"

definition entry_node :: "addr \<Rightarrow> nat \<Rightarrow> time_t \<Rightarrow> time_t \<Rightarrow> time_t \<Rightarrow> u32 \<Rightarrow> node" where
  "entry_node b l now fttl sttl hash =
     \<lparr>kind = NODE_ENTRY, data = Some b, len = l, fresh_until = now + fttl,
      stale_until = deadline now sttl, refreshing = False, refresh_owner = 0,
      refresh_lock_until = 0, miss_count = 0, l2_neg_until = 0, last_access = now,
      seg = SEG_PROBATION, promotable = False, sie_spared = False, varidx_pending = False,
      hash_crc32 = hash\<rparr>"

text \<open>The three kinds of body-less node: a cold-miss stub, a miss counter, a negative memo.\<close>

definition counter_node :: "nat \<Rightarrow> time_t \<Rightarrow> time_t \<Rightarrow> u32 \<Rightarrow> node" where
  "counter_node uses memo now hash =
     \<lparr>kind = NODE_COUNTER, data = None, len = 0, fresh_until = 0, stale_until = 0,
      refreshing = False, refresh_owner = 0, refresh_lock_until = 0, miss_count = uses,
      l2_neg_until = memo, last_access = now, seg = SEG_PROBATION, promotable = False,
      sie_spared = False, varidx_pending = False, hash_crc32 = hash\<rparr>"

text \<open>\<open>shm_store_locked\<close>, its two halves: refreshing a resident node, which is taken off its queue
  before anything is evicted, and creating a new one, which may be refused admission.\<close>

definition store_refresh ::
    "'p ngx_core \<Rightarrow> 'p zone \<Rightarrow> time_t \<Rightarrow> bytes \<Rightarrow> time_t \<Rightarrow> time_t \<Rightarrow> addr \<Rightarrow> ngx_rc \<times> addr option \<times> 'p zone" where
  "store_refresh C z now body fttl sttl a =
     (let z = lru_unlink z a
      in case blob_alloc C z now body of
           (None, z) \<Rightarrow> (NGX_ERROR, None, lru_link_head z a)
         | (Some b, z) \<Rightarrow>
             let z = (case data (node_at z a) of None \<Rightarrow> z | Some old \<Rightarrow> blob_node_release C z old);
                 z = upd_node a (\<lambda>n. n\<lparr>kind := NODE_ENTRY, data := Some b, len := length body,
                       fresh_until := now + fttl, stale_until := deadline now sttl,
                       refreshing := False, refresh_lock_until := 0, refresh_owner := 0,
                       l2_neg_until := 0, last_access := now, seg := SEG_PROBATION,
                       promotable := False, sie_spared := False\<rparr>) z
             in (NGX_OK, Some a, lru_link_head z a))"

definition store_new ::
    "'p ngx_core \<Rightarrow> 'p zone \<Rightarrow> time_t \<Rightarrow> bytes \<Rightarrow> u32 \<Rightarrow> bytes \<Rightarrow> time_t \<Rightarrow> time_t \<Rightarrow>
      ngx_rc \<times> addr option \<times> 'p zone" where
  "store_new C z now key_hash hash body fttl sttl =
     (case shm_admit z hash of
        (False, z) \<Rightarrow> (NGX_DECLINED, None, z)
      | (True, z) \<Rightarrow>
          (case shm_alloc_evict C z now (sizeof_node C) of
             (None, z) \<Rightarrow> (NGX_ERROR, None, z)
           | (Some a, z) \<Rightarrow>
               (case blob_alloc C z now body of
                  (None, z) \<Rightarrow> (NGX_ERROR, None, shm_free_locked C z a (sizeof_node C))
                | (Some b, z) \<Rightarrow>
                    (NGX_OK, Some a,
                     insert_node C z key_hash a (entry_node b (length body) now fttl sttl hash)))))"

definition shm_store_locked ::
    "'p ngx_core \<Rightarrow> 'p zone \<Rightarrow> time_t \<Rightarrow> bytes \<Rightarrow> u32 \<Rightarrow> bytes \<Rightarrow> time_t \<Rightarrow> time_t \<Rightarrow> addr option \<Rightarrow>
      ngx_rc \<times> addr option \<times> 'p zone" where
  "shm_store_locked C z now key_hash hash body fttl sttl ctn =
     (case (case ctn of None \<Rightarrow> shm_lookup z key_hash | Some a \<Rightarrow> Some a) of
        Some a \<Rightarrow> store_refresh C z now body fttl sttl a
      | None \<Rightarrow> store_new C z now key_hash hash body fttl sttl)"

text \<open>A caller that asks for the stored body (\<open>want\<close>) gets a reference to it, taken inside the lock.\<close>

definition hand_out :: "bool \<Rightarrow> ngx_rc \<times> addr option \<times> 'p zone \<Rightarrow> ngx_rc \<times> addr option \<times> 'p zone" where
  "hand_out want r =
     (case r of (rc, written, z) \<Rightarrow>
        (case written of
           Some a \<Rightarrow>
             if rc = NGX_OK \<and> want
             then (let b = the (data (node_at z a)) in (rc, Some b, blob_acquire z b))
             else (rc, None, z)
         | None \<Rightarrow> (rc, None, z)))"

definition shm_store ::
    "'p ngx_core \<Rightarrow> 'p zone \<Rightarrow> time_t \<Rightarrow> bytes \<Rightarrow> u32 \<Rightarrow> bytes \<Rightarrow> time_t \<Rightarrow> time_t \<Rightarrow> bool \<Rightarrow>
      ngx_rc \<times> addr option \<times> 'p zone" where
  "shm_store C z now key_hash hash body fttl sttl want =
     hand_out want (shm_store_locked C z now key_hash hash body fttl sttl None)"

definition shm_store_marker ::
    "'p ngx_core \<Rightarrow> 'p zone \<Rightarrow> time_t \<Rightarrow> bytes \<Rightarrow> u32 \<Rightarrow> bytes \<Rightarrow> time_t \<Rightarrow> time_t \<Rightarrow> ngx_rc \<times> 'p zone" where
  "shm_store_marker C z now key_hash hash body fttl sttl =
     (let ctn = shm_lookup z key_hash;
          was_marker = (case ctn of None \<Rightarrow> False | Some a \<Rightarrow> kind (node_at z a) = NODE_MARKER)
      in case shm_store_locked C z now key_hash hash body fttl sttl ctn of
           (rc, written, z) \<Rightarrow>
             (case written of
                Some a \<Rightarrow>
                  if rc = NGX_OK
                  then (let z = upd_node a (\<lambda>n. n\<lparr>kind := NODE_MARKER\<rparr>) z
                        in (rc, if was_marker then z else z\<lparr>markers := markers z + 1\<rparr>))
                  else (rc, z)
              | None \<Rightarrow> (rc, z)))"

datatype store_if_pred = STORE_IF_NEWER | STORE_IF_ABSENT_OR_DEAD | STORE_IF_UNKNOWN

definition store_if_refuse :: "node \<Rightarrow> time_t \<Rightarrow> time_t \<Rightarrow> store_if_pred \<Rightarrow> bool" where
  "store_if_refuse n now fttl p =
     (if kind n = NODE_ENTRY \<and> len n > 0
      then (case p of
              STORE_IF_NEWER \<Rightarrow> fresh_until n > now + fttl
            | STORE_IF_ABSENT_OR_DEAD \<Rightarrow> stale_until n = 0 \<or> now < stale_until n
            | STORE_IF_UNKNOWN \<Rightarrow> True)
      else False)"

definition shm_store_if ::
    "'p ngx_core \<Rightarrow> 'p zone \<Rightarrow> time_t \<Rightarrow> bytes \<Rightarrow> u32 \<Rightarrow> bytes \<Rightarrow> time_t \<Rightarrow> time_t \<Rightarrow> store_if_pred \<Rightarrow> bool \<Rightarrow>
      ngx_rc \<times> addr option \<times> 'p zone" where
  "shm_store_if C z now key_hash hash body fttl sttl p want =
     (let ctn = shm_lookup z key_hash
      in if (case ctn of None \<Rightarrow> False | Some a \<Rightarrow> store_if_refuse (node_at z a) now fttl p)
         then (NGX_DECLINED, None, z)
         else hand_out want (shm_store_locked C z now key_hash hash body fttl sttl ctn))"

definition shm_freshen :: "'p zone \<Rightarrow> time_t \<Rightarrow> bytes \<Rightarrow> time_t \<Rightarrow> time_t \<Rightarrow> ngx_rc \<times> 'p zone" where
  "shm_freshen z now key_hash fttl sttl =
     (case shm_lookup z key_hash of
        None \<Rightarrow> (NGX_DECLINED, z)
      | Some a \<Rightarrow>
          if kind (node_at z a) \<noteq> NODE_ENTRY \<or> len (node_at z a) = 0 then (NGX_DECLINED, z)
          else (NGX_OK, upd_node a (\<lambda>n. n\<lparr>fresh_until := now + fttl,
                  stale_until := deadline now sttl, refreshing := False, refresh_lock_until := 0,
                  refresh_owner := 0, last_access := now\<rparr>) z))"

subsection \<open>Purging\<close>

definition shm_purge_key :: "'p ngx_core \<Rightarrow> 'p zone \<Rightarrow> bytes \<Rightarrow> bool \<times> 'p zone" where
  "shm_purge_key C z key_hash =
     (case shm_lookup z key_hash of None \<Rightarrow> (False, z) | Some a \<Rightarrow> (True, shm_drop_locked C z a))"

definition shm_purge_if_blob :: "'p ngx_core \<Rightarrow> 'p zone \<Rightarrow> bytes \<Rightarrow> addr \<Rightarrow> bool \<times> 'p zone" where
  "shm_purge_if_blob C z key_hash stored =
     (case shm_lookup z key_hash of
        None \<Rightarrow> (False, z)
      | Some a \<Rightarrow> if data (node_at z a) \<noteq> Some stored then (False, z) else (True, shm_drop_locked C z a))"

definition PURGE_BATCH :: nat where "PURGE_BATCH = 512"

text \<open>The two drain loops of one batch: drop queue heads until \<open>n\<close> are gone or the queue is empty.
  The result counts the drops.\<close>

fun drain_lru :: "'p ngx_core \<Rightarrow> nat \<Rightarrow> 'p zone \<Rightarrow> nat \<times> 'p zone" where
  "drain_lru C 0 z = (0, z)"
| "drain_lru C (Suc n) z =
     (if lru z = [] then (0, z)
      else case drain_lru C n (shm_drop_locked C z (hd (lru z))) of (k, z) \<Rightarrow> (Suc k, z))"

fun drain_protected :: "'p ngx_core \<Rightarrow> nat \<Rightarrow> 'p zone \<Rightarrow> nat \<times> 'p zone" where
  "drain_protected C 0 z = (0, z)"
| "drain_protected C (Suc n) z =
     (if lru_protected z = [] then (0, z)
      else case drain_protected C n (shm_drop_locked C z (hd (lru_protected z))) of (k, z) \<Rightarrow> (Suc k, z))"

definition purge_batch :: "'p ngx_core \<Rightarrow> nat \<Rightarrow> 'p zone \<Rightarrow> nat \<times> 'p zone" where
  "purge_batch C remaining z =
     (let budget = min PURGE_BATCH remaining
      in case drain_lru C budget z of (k, z) \<Rightarrow>
           case drain_protected C (budget - k) z of (k', z) \<Rightarrow> (k + k', z))"

text \<open>The mutex is released between batches: \<open>env i\<close> is what the other workers do to the zone
  before batch \<open>i\<close>.\<close>

definition zone_empty :: "'p zone \<Rightarrow> bool" where
  "zone_empty z \<longleftrightarrow> lru z = [] \<and> lru_protected z = []"

lemma drain_lru_le: "fst (drain_lru C n z) \<le> n"
  by (induction C n z rule: drain_lru.induct) (auto split: prod.split)

lemma drain_protected_le: "fst (drain_protected C n z) \<le> n"
  by (induction C n z rule: drain_protected.induct) (auto split: prod.split)

lemma purge_batch_le: "fst (purge_batch C n z) \<le> n"
proof -
  let ?b = "min PURGE_BATCH n"
  have "fst (drain_lru C ?b z) \<le> ?b" by (rule drain_lru_le)
  moreover have "fst (drain_protected C (?b - fst (drain_lru C ?b z)) (snd (drain_lru C ?b z))) \<le>
      ?b - fst (drain_lru C ?b z)"
    by (rule drain_protected_le)
  ultimately show ?thesis
    unfolding purge_batch_def Let_def case_prod_beta fst_conv by linarith
qed

function purge_loop ::
    "'p ngx_core \<Rightarrow> (nat \<Rightarrow> 'p zone \<Rightarrow> 'p zone) \<Rightarrow> nat \<Rightarrow> nat \<Rightarrow> nat \<Rightarrow> 'p zone \<Rightarrow> ngx_rc \<times> nat \<times> 'p zone" where
  "purge_loop C env i remaining purged z =
     (if remaining = 0 then (NGX_OK, purged, z)
      else case purge_batch C remaining (env i z) of (batch, z) \<Rightarrow>
        let rc = (if \<not> zone_empty z \<and> (remaining - batch = 0 \<or> batch = 0) then NGX_AGAIN else NGX_OK)
        in if batch = 0 \<or> rc \<noteq> NGX_OK then (rc, purged + batch, z)
           else purge_loop C env (Suc i) (remaining - batch) (purged + batch) z)"
  by pat_completeness auto
termination
  by (relation "measure (\<lambda>(C, env, i, remaining, purged, z). remaining)") auto

declare purge_loop.simps [simp del]

definition shm_purge_all ::
    "'p ngx_core \<Rightarrow> (nat \<Rightarrow> 'p zone \<Rightarrow> 'p zone) \<Rightarrow> 'p zone \<Rightarrow> ngx_rc \<times> nat \<times> 'p zone" where
  "shm_purge_all C env z =
     (let remaining = n_entries z;
          rc = (if remaining = 0 \<and> \<not> zone_empty z then NGX_AGAIN else NGX_OK)
      in if remaining = 0 then (rc, 0, z) else purge_loop C env 0 remaining 0 z)"

subsection \<open>Cold misses\<close>

datatype claim_rc = CLAIM_WINNER | CLAIM_LOSER | CLAIM_FRESH

text \<open>The result of a claim: the verdict, the owner token (0 for none), the body handed out on
  FRESH with its length, and the zone. \<open>want\<close> is whether the caller passed \<open>fresh_data\<close>.\<close>

definition shm_claim_locked ::
    "'p ngx_core \<Rightarrow> 'p zone \<Rightarrow> time_t \<Rightarrow> u32 \<Rightarrow> bytes \<Rightarrow> time_t \<Rightarrow> addr option \<Rightarrow> bool \<Rightarrow>
      claim_rc \<times> nat \<times> (addr \<times> nat) option \<times> 'p zone" where
  "shm_claim_locked C z now hash key_hash lock_ttl ctn want =
     (case ctn of
        Some a \<Rightarrow>
          let n = node_at z a
          in if len n > 0 \<and> now < fresh_until n
             then (if want
                   then (CLAIM_FRESH, 0, Some (the (data n), len n), blob_acquire z (the (data n)))
                   else (CLAIM_FRESH, 0, None, z))
             else if refreshing n \<and> now < refresh_lock_until n then (CLAIM_LOSER, 0, None, z)
             else let owner = owner_seq z + 1;
                      z = z\<lparr>owner_seq := owner\<rparr>;
                      z = upd_node a (\<lambda>n. n\<lparr>refreshing := True, refresh_lock_until := now + lock_ttl,
                            refresh_owner := owner\<rparr>) z
                  in (CLAIM_WINNER, owner, None, z)
      | None \<Rightarrow>
          (case shm_alloc_evict C z now (sizeof_node C) of
             (None, z) \<Rightarrow> (CLAIM_WINNER, 0, None, z)
           | (Some a, z) \<Rightarrow>
               let owner = owner_seq z + 1;
                   z = z\<lparr>owner_seq := owner\<rparr>;
                   n = (counter_node 0 0 now hash)\<lparr>refreshing := True,
                         refresh_lock_until := now + lock_ttl, refresh_owner := owner\<rparr>
               in (CLAIM_WINNER, owner, None, insert_node C z key_hash a n)))"

definition shm_claim ::
    "'p ngx_core \<Rightarrow> 'p zone \<Rightarrow> time_t \<Rightarrow> bytes \<Rightarrow> u32 \<Rightarrow> time_t \<Rightarrow> claim_rc \<times> nat \<times> 'p zone" where
  "shm_claim C z now key_hash hash lock_ttl =
     (case shm_claim_locked C z now hash key_hash lock_ttl (shm_lookup z key_hash) False of
        (rc, owner, fresh, z) \<Rightarrow> (rc, owner, z))"

definition shm_count_miss_locked ::
    "'p ngx_core \<Rightarrow> 'p zone \<Rightarrow> time_t \<Rightarrow> bytes \<Rightarrow> u32 \<Rightarrow> int \<Rightarrow> time_t \<Rightarrow> addr option \<Rightarrow> ngx_rc \<times> 'p zone" where
  "shm_count_miss_locked C z now key_hash hash min_uses min_uses_window ctn =
     (case ctn of
        Some a \<Rightarrow>
          let n = node_at z a
          in if kind n = NODE_ENTRY \<and> len n > 0 then (NGX_OK, z)
             else if refreshing n \<and> now < refresh_lock_until n then (NGX_OK, z)
             else let c = (if min_uses_window > 0 \<and> now - last_access n > min_uses_window
                           then 0 else miss_count n) + 1;
                      z = upd_node a (\<lambda>n. n\<lparr>miss_count := c\<rparr>) z
                  in (if int c \<ge> min_uses then NGX_OK else NGX_DECLINED, z)
      | None \<Rightarrow>
          (case shm_alloc_evict C z now (sizeof_node C) of
             (None, z) \<Rightarrow> (NGX_OK, z)
           | (Some a, z) \<Rightarrow>
               (if min_uses \<le> 1 then NGX_OK else NGX_DECLINED,
                insert_node C z key_hash a (counter_node 1 0 now hash))))"

definition shm_count_miss ::
    "'p ngx_core \<Rightarrow> 'p zone \<Rightarrow> time_t \<Rightarrow> bytes \<Rightarrow> u32 \<Rightarrow> int \<Rightarrow> time_t \<Rightarrow> ngx_rc \<times> 'p zone" where
  "shm_count_miss C z now key_hash hash min_uses min_uses_window =
     shm_count_miss_locked C z now key_hash hash min_uses min_uses_window (shm_lookup z key_hash)"

text \<open>The merged cold-miss path: count, then claim, under one lock and on one lookup.\<close>

definition shm_resolve_miss ::
    "'p ngx_core \<Rightarrow> 'p zone \<Rightarrow> time_t \<Rightarrow> bytes \<Rightarrow> u32 \<Rightarrow> int \<Rightarrow> time_t \<Rightarrow> time_t \<Rightarrow>
      ngx_rc \<times> claim_rc \<times> nat \<times> (addr \<times> nat) option \<times> 'p zone" where
  "shm_resolve_miss C z now key_hash hash min_uses min_uses_window lock_ttl =
     (let ctn = shm_lookup z key_hash
      in case shm_count_miss_locked C z now key_hash hash min_uses min_uses_window ctn of
           (count_miss_rc, z) \<Rightarrow>
             if count_miss_rc = NGX_DECLINED then (count_miss_rc, CLAIM_WINNER, 0, None, z)
             else let ctn = (case ctn of None \<Rightarrow> shm_lookup z key_hash | Some a \<Rightarrow> Some a)
                  in case shm_claim_locked C z now hash key_hash lock_ttl ctn True of
                       (rc, owner, fresh, z) \<Rightarrow> (count_miss_rc, rc, owner, fresh, z))"

definition shm_owns :: "'p zone \<Rightarrow> bytes \<Rightarrow> nat \<Rightarrow> ngx_rc" where
  "shm_owns z key_hash owner =
     (if owner = 0 then NGX_DECLINED
      else case shm_lookup z key_hash of
             None \<Rightarrow> NGX_DECLINED
           | Some a \<Rightarrow> if refreshing (node_at z a) \<and> refresh_owner (node_at z a) = owner
                       then NGX_OK else NGX_DECLINED)"

definition shm_unstub :: "'p ngx_core \<Rightarrow> 'p zone \<Rightarrow> time_t \<Rightarrow> bytes \<Rightarrow> nat \<Rightarrow> 'p zone" where
  "shm_unstub C z now key_hash owner =
     (if owner = 0 then z
      else case shm_lookup z key_hash of
             None \<Rightarrow> z
           | Some a \<Rightarrow>
               let n = node_at z a
               in if (kind n = NODE_COUNTER \<or> kind n = NODE_ENTRY) \<and> refreshing n \<and> refresh_owner n = owner
                  then let z = upd_node a (\<lambda>n. n\<lparr>refreshing := False, refresh_lock_until := 0,
                                 refresh_owner := 0\<rparr>) z
                       in if kind n = NODE_COUNTER \<and> miss_count n = 0 \<and> l2_neg_until n \<le> now
                          then let z = lru_unlink z a;
                                   z = z\<lparr>n_entries := n_entries z - 1, rbtree := rb_del C (rbtree z) a,
                                         nodes := (nodes z)(a := None)\<rparr>
                               in shm_free_locked C z a (sizeof_node C)
                          else z
                  else z)"

subsection \<open>The negative memo and the variant-index flag\<close>

definition shm_l2_neg_check :: "'p zone \<Rightarrow> time_t \<Rightarrow> bytes \<Rightarrow> u32 \<Rightarrow> ngx_rc \<times> 'p zone" where
  "shm_l2_neg_check z now key_hash hash =
     (case shm_lookup z key_hash of
        None \<Rightarrow> (NGX_OK, z)
      | Some a \<Rightarrow>
          if kind (node_at z a) = NODE_COUNTER \<and> l2_neg_until (node_at z a) > now
          then (NGX_DECLINED, shm_touch_lru z a now 0 hash) else (NGX_OK, z))"

definition shm_l2_neg_set :: "'p ngx_core \<Rightarrow> 'p zone \<Rightarrow> time_t \<Rightarrow> bytes \<Rightarrow> u32 \<Rightarrow> time_t \<Rightarrow> 'p zone" where
  "shm_l2_neg_set C z now key_hash hash ttl =
     (case shm_lookup z key_hash of
        Some a \<Rightarrow>
          if kind (node_at z a) = NODE_ENTRY \<or> kind (node_at z a) = NODE_MARKER then z
          else upd_node a (\<lambda>n. n\<lparr>l2_neg_until := now + ttl\<rparr>) z
      | None \<Rightarrow>
          (case shm_alloc_evict C z now (sizeof_node C) of
             (None, z) \<Rightarrow> z
           | (Some a, z) \<Rightarrow> insert_node C z key_hash a (counter_node 0 (now + ttl) now hash)))"

text \<open>The claim of a background or inline refresh on a resident entry (\<^verbatim>\<open>access.c\<close>): it takes no owner
  token and is resolved by the store that follows, or by time.\<close>

definition claim_refresh :: "addr \<Rightarrow> time_t \<Rightarrow> 'p zone \<Rightarrow> 'p zone" where
  "claim_refresh a until z = upd_node a (\<lambda>n. n\<lparr>refreshing := True, refresh_lock_until := until\<rparr>) z"

definition shm_varidx_pending_set :: "'p zone \<Rightarrow> bytes \<Rightarrow> bool \<Rightarrow> 'p zone" where
  "shm_varidx_pending_set z key_hash pending =
     (case shm_lookup z key_hash of
        None \<Rightarrow> z
      | Some a \<Rightarrow>
          if kind (node_at z a) = NODE_ENTRY then upd_node a (\<lambda>n. n\<lparr>varidx_pending := pending\<rparr>) z
          else z)"

end
