(* ===== verification/Zone_Safe.thy ===== *)
theory Zone_Safe
  imports Zone_Inv Zone_Ops
begin

text \<open>
  Every operation of \<open>Zone_Ops\<close> preserves the zone invariant, whatever the slab allocator, the
  clock and the callers do, and the whole zone is one instance of the \<open>stateful\<close> interface. The
  state of that instance is the zone together with the references requests hold.
\<close>

abbreviation zok :: "'p ngx_core \<Rightarrow> ('p \<Rightarrow> addr set) \<Rightarrow> (addr \<Rightarrow> nat) \<Rightarrow> 'p zone \<Rightarrow> bool" where
  "zok C live R z \<equiv> zinv C live R {} {} 0 z"

subsection \<open>Lookup\<close>

lemma zinv_rb:
  "zinv C live R D X M z \<Longrightarrow> rb_core_ok (rb_fix C) (rb_del C) \<and> rb_inv (rbtree z)"
  unfolding zinv_def core_ok_def idx_ok_def by blast

lemma lookup_iff:
  assumes "zinv C live R D X M z" and "length k = 32"
  shows "shm_lookup z k = Some a \<longleftrightarrow> (k, a) \<in> rb_entries (rbtree z)"
  unfolding shm_lookup_def by (rule rb.lookup_iff [OF zinv_rb [OF assms(1)] assms(2)])

lemma lookup_dom:
  "zinv C live R D X M z \<Longrightarrow> length k = 32 \<Longrightarrow> shm_lookup z k = Some a \<Longrightarrow> a \<in> dom (nodes z)"
  using lookup_iff [of C live R D X M z k a] unfolding zinv_def idx_ok_def by force

lemma lookup_shrinks:
  assumes "zinv C live R D X M z" "zinv C live R' D' X' M' w" "shrinks K z w" "length k = 32"
  shows "shm_lookup w k = Some a \<longleftrightarrow> shm_lookup z k = Some a \<and> a \<in> dom (nodes w)"
  unfolding lookup_iff [OF assms(1,4)] lookup_iff [OF assms(2,4)]
  using assms(3) unfolding shrinks_def by auto

lemma lookup_shrinks_None:
  assumes "zinv C live R D X M z" "zinv C live R' D' X' M' w" "shrinks K z w" "length k = 32"
    and "shm_lookup z k = None"
  shows "shm_lookup w k = None"
  using lookup_shrinks [OF assms(1-4)] assms(5) by (cases "shm_lookup w k") auto

subsection \<open>Allocating a body\<close>

definition new_blob :: "'p ngx_core \<Rightarrow> bytes \<Rightarrow> blobref" where
  "new_blob C body = \<lparr>refs = 1, detached = False, blob_bytes = sizeof_blobref C + length body,
     content = body\<rparr>"

lemma blob_alloc_cases:
  assumes inv: "zinv C live R D X M z" and al: "blob_alloc C z now body = (r, z')"
  obtains (none) "r = None" "zinv C live R D X M z'" "shrinks D z z'"
  | (some) b w where "r = Some b" "zinv C live R D X M w" "shrinks D z w"
      "zinv C live (R(b := 1)) D X M z'" "R b = 0" "\<not> owned z' b"
      "blobs z' = (blobs w)(b \<mapsto> new_blob C body)" "nodes z' = nodes w" "rbtree z' = rbtree w"
      "b \<notin> dom (blobs w)" "owner_seq z' = owner_seq w" "lru z' = lru w"
      "lru_protected z' = lru_protected w"
proof -
  let ?n = "sizeof_blobref C + length body"
  obtain w where w: "zinv C live R D X M w" "shrinks D z w"
    and res: "case shm_alloc_evict C z now ?n of
       (None, z') \<Rightarrow> z' = w \<and> lru w = [] \<and> lru_protected w = []
     | (Some p, z') \<Rightarrow> granted C w ?n p z'"
    using zinv_alloc_evict [OF inv, where now = now and n = ?n] by (elim exE conjE)
  obtain p z1 where ev: "shm_alloc_evict C z now ?n = (p, z1)" by (cases "shm_alloc_evict C z now ?n")
  show ?thesis
  proof (cases p)
    case None
    with ev al res have "r = None" "z' = w" by (auto simp: blob_alloc_def)
    with w none show ?thesis by blast
  next
    case (Some b)
    with ev res have g: "granted C w ?n b z1" by simp
    have r: "r = Some b" and z': "z' = z1\<lparr>blobs := (blobs z1)(b \<mapsto> new_blob C body)\<rparr>"
      using ev Some al by (auto simp: blob_alloc_def new_blob_def Let_def)
    have nb: "refs (new_blob C body) = 1" "\<not> detached (new_blob C body)"
      "blob_bytes (new_blob C body) = ?n"
      by (simp_all add: new_blob_def)
    note gb = zinv_granted_blob [OF w(1) g z' nb]
    have "blobs z' = (blobs w)(b \<mapsto> new_blob C body)" "rbtree z' = rbtree w"
      "owner_seq z' = owner_seq w" "lru z' = lru w" "lru_protected z' = lru_protected w"
      using g by (auto simp: granted_def z')
    with r w gb show ?thesis by (intro some [of b w]) auto
  qed
qed

lemma alloc_node_cases:
  assumes inv: "zinv C live R D X M z" and al: "shm_alloc_evict C z now (sizeof_node C) = (r, z')"
  obtains (none) "r = None" "zinv C live R D X M z'" "shrinks D z z'"
  | (some) a where "r = Some a" "zinv C live R D (insert a X) M z'" "shrinks D z z'"
      "a \<notin> dom (nodes z')"
proof -
  obtain w where w: "zinv C live R D X M w" "shrinks D z w"
    and res: "case (r, z') of
       (None, z') \<Rightarrow> z' = w \<and> lru w = [] \<and> lru_protected w = []
     | (Some p, z') \<Rightarrow> granted C w (sizeof_node C) p z'"
    using zinv_alloc_evict [OF inv, where now = now and n = "sizeof_node C", unfolded al]
    by (elim exE conjE)
  show ?thesis
  proof (cases r)
    case None
    with res w none show ?thesis by simp
  next
    case (Some a)
    with res have g: "granted C w (sizeof_node C) a z'" by simp
    have "a \<notin> dom (nodes w)" using g core_alloc(1) [OF w(1)] by (auto simp: granted_def)
    then have "a \<notin> dom (nodes z')" using g by (auto simp: granted_def)
    moreover have "shrinks D z z'" using w(2) g unfolding shrinks_def granted_def by auto
    ultimately show ?thesis using some [of a] Some zinv_granted_node [OF w(1) g] by blast
  qed
qed

subsection \<open>Storing\<close>

lemma node_at_cong: "nodes z' a = nodes z a \<Longrightarrow> node_at z' a = node_at z a"
  by (simp add: node_at_def)

lemma shape_ok_shrinks:
  assumes "shrinks K z w" "blob_ok R w" "nodes w a = Some n" "shape_ok z n"
  shows "shape_ok w n"
proof (cases "data n")
  case (Some b)
  have "owned w b" using assms(3) Some by (auto simp: owned_def)
  then obtain r where r: "blobs w b = Some r" using blob_okD(2) [OF assms(2)] by blast
  then obtain r0 where "blobs z b = Some r0" "content r = content r0"
    using assms(1) unfolding shrinks_def by blast
  with assms(4) r Some show ?thesis by (simp add: shape_ok_def)
qed (use assms(4) in \<open>simp add: shape_ok_def\<close>)

text \<open>Swapping the body of a node that is off the queues: the old one loses the node's reference,
  the new one takes over the reference of the operation.\<close>

lemma zinv_swap_body:
  assumes inv: "zinv C live (R(b := 1)) D X M z" and a: "a \<in> D" and b: "\<not> owned z b"
    "blobs z b = Some r" "\<not> detached r" and R: "R b = 0"
  defines "z1 \<equiv> (case data (node_at z a) of None \<Rightarrow> z | Some old \<Rightarrow> blob_node_release C z old)"
  shows "zinv C live R D X M (upd_node a (\<lambda>n. n\<lparr>data := Some b\<rparr>) z1)" "nodes z1 = nodes z"
    "blobs z1 b = Some r"
proof -
  have dom_a: "a \<in> dom (nodes z)" using zinvD(5) [OF inv] a by (auto simp: lru_ok_def)
  have R': "(R(b := 1))(b := (R(b := 1)) b - 1) = R" using R by auto
  show "nodes z1 = nodes z" by (simp add: z1_def split: option.split)
  have "zinv C live R D X M (upd_node a (\<lambda>n. n\<lparr>data := Some b\<rparr>) z1) \<and> blobs z1 b = Some r"
  proof (cases "data (node_at z a)")
    case None
    have "zinv C live ((R(b := 1))(b := (R(b := 1)) b - 1)) D X M (upd_node a (\<lambda>n. n\<lparr>data := Some b\<rparr>) z)"
      by (rule zinv_give_data [OF inv a None]) (use b in simp_all)
    with R' None b show ?thesis by (simp add: z1_def)
  next
    case (Some old)
    have ob: "old \<noteq> b" using b(1) Some by (auto simp: owned_split [OF dom_a])
    let ?t = "upd_node a (\<lambda>n. n\<lparr>data := None\<rparr>) z"
    note t = zinv_take_data [OF inv a Some]
    let ?u = "blob_node_release C ?t old"
    have "zinv C live ((R(b := 1, old := (R(b := 1)) old + 1))
        (old := (R(b := 1, old := (R(b := 1)) old + 1)) old - 1)) D X M ?u"
      unfolding blob_node_release_unref by (rule zinv_unref [OF t(1)]) (use t(2) in auto)
    moreover have "(R(b := 1, old := (R(b := 1)) old + 1))
        (old := (R(b := 1, old := (R(b := 1)) old + 1)) old - 1) = R(b := 1)"
      by (simp add: fun_eq_iff)
    ultimately have u: "zinv C live (R(b := 1)) D X M ?u" by simp
    have "\<not> owned ?t b" using b(1) by (auto simp: owned_upd [OF dom_a] owned_split [OF dom_a])
    then have ub: "\<not> owned ?u b" using owned_cong [of ?u ?t] by simp
    have bl: "blobs ?u b = Some r"
      using b(2) ob by (simp add: blob_node_release_unref blobs_unref)
    have "zinv C live ((R(b := 1))(b := (R(b := 1)) b - 1)) D X M
        (upd_node a (\<lambda>n. n\<lparr>data := Some b\<rparr>) ?u)"
      by (rule zinv_give_data [OF u a]) (use ub b bl in \<open>simp_all add: node_at_def\<close>)
    moreover have "upd_node a (\<lambda>n. n\<lparr>data := Some b\<rparr>) ?u =
        upd_node a (\<lambda>n. n\<lparr>data := Some b\<rparr>) (blob_node_release C z old)"
      by (rule zone.equality) (simp_all add: node_at_def, simp_all add: blob_node_release_def Let_def)
    ultimately show ?thesis
      using R' Some b ob by (simp add: z1_def blob_node_release_unref blobs_unref)
  qed
  then show "zinv C live R D X M (upd_node a (\<lambda>n. n\<lparr>data := Some b\<rparr>) z1)" "blobs z1 b = Some r"
    by auto
qed

text \<open>What a successful refresh leaves behind.\<close>

definition refreshed :: "addr \<Rightarrow> nat \<Rightarrow> time_t \<Rightarrow> time_t \<Rightarrow> time_t \<Rightarrow> node \<Rightarrow> node" where
  "refreshed b l now fttl sttl n = n\<lparr>kind := NODE_ENTRY, data := Some b, len := l,
     fresh_until := now + fttl, stale_until := deadline now sttl, refreshing := False,
     refresh_lock_until := 0, refresh_owner := 0, l2_neg_until := 0, last_access := now,
     seg := SEG_PROBATION, promotable := False, sie_spared := False\<rparr>"

text \<open>Nothing but the fresh body \<open>b\<close> is new, and what stays keeps its bytes.\<close>

definition bodies_kept :: "'p zone \<Rightarrow> 'p zone \<Rightarrow> addr \<Rightarrow> bool" where
  "bodies_kept w z' b \<longleftrightarrow> b \<notin> dom (blobs w) \<and> (\<forall>b' r'. b' \<noteq> b \<longrightarrow> blobs z' b' = Some r' \<longrightarrow>
     (\<exists>r. blobs w b' = Some r \<and> content r' = content r))"

lemma store_refresh_inv:
  assumes inv: "zok C live R z" and a: "a \<in> dom (nodes z)"
    and st: "store_refresh C z now body fttl sttl a = (rc, written, z')"
  shows "zinv C live R {} {} (if rc = NGX_OK \<and> kind (node_at z a) = NODE_MARKER then 1 else 0) z'"
    and "rc = NGX_OK \<or> rc = NGX_ERROR"
    and "rc = NGX_ERROR \<Longrightarrow> written = None \<and> shrinks {a} z z'"
    and "rc = NGX_OK \<Longrightarrow> written = Some a \<and> (\<exists>b w. shrinks {a} z w \<and>
      nodes z' = (nodes w)(a \<mapsto> refreshed b (length body) now fttl sttl (node_at z a)) \<and>
      (\<exists>r. blobs z' b = Some r \<and> content r = body) \<and> bodies_kept w z' b \<and> zinv C live R {a} {} 0 w \<and> rbtree z' = rbtree w)"
proof -
  let ?u = "lru_unlink z a"
  have u: "zinv C live R {a} {} 0 ?u" using zinv_unlink [OF inv a] by simp
  have un: "nodes ?u = nodes z" by simp
  have uz: "shrinks {a} z ?u"
    using shrinks_refl [OF zinvD(4) [OF inv], of "{a}"] unfolding shrinks_def by simp
  obtain p z1 where al: "blob_alloc C ?u now body = (p, z1)" by (cases "blob_alloc C ?u now body")
  have both: "zinv C live R {} {} (if rc = NGX_OK \<and> kind (node_at z a) = NODE_MARKER then 1 else 0) z' \<and>
    (rc = NGX_ERROR \<and> written = None \<and> shrinks {a} z z' \<or>
     rc = NGX_OK \<and> written = Some a \<and> (\<exists>b w. shrinks {a} z w \<and>
      nodes z' = (nodes w)(a \<mapsto> refreshed b (length body) now fttl sttl (node_at z a)) \<and>
      (\<exists>r. blobs z' b = Some r \<and> content r = body) \<and> bodies_kept w z' b \<and> zinv C live R {a} {} 0 w \<and> rbtree z' = rbtree w))"
  proof (cases rule: blob_alloc_cases [OF u al, case_names none some])
    case none
    have same: "nodes z1 a = nodes z a" using none(3) unfolding shrinks_def by simp
    have "shape_ok z (node_at z a)"
      using zinvD(7) [OF inv] nodes_node_at [OF a] by (auto simp: shapes_ok_def)
    then have "shape_ok z1 (node_at z a)"
      using shape_ok_shrinks [OF shrinks_trans [OF uz none(3)] zinvD(6) [OF none(2)], of a]
        nodes_node_at [OF a] same by simp
    then have "zinv C live R ({a} - {a}) {} 0 (lru_link_head z1 a)"
      by (intro zinv_link_head [OF none(2)]) (simp_all add: node_at_cong [OF same])
    moreover have "shrinks {a} z (lru_link_head z1 a)"
      using shrinks_trans [OF uz none(3)] unfolding shrinks_def by simp
    ultimately show ?thesis
      using st none(1) al by (simp add: store_refresh_def Let_def)
  next
    case (some b w)
    have dom1: "a \<in> dom (nodes z1)"
      using zinvD(5) [OF some(4)] by (auto simp: lru_ok_def)
    have same: "nodes z1 a = nodes z a" using some(3,8) unfolding shrinks_def by simp
    have bb: "blobs z1 b = Some (new_blob C body)" using some(7) by simp
    define z2 where "z2 = (case data (node_at z1 a) of None \<Rightarrow> z1 | Some old \<Rightarrow> blob_node_release C z1 old)"
    have sw: "zinv C live R {a} {} 0 (upd_node a (\<lambda>n. n\<lparr>data := Some b\<rparr>) z2)"
      "nodes z2 = nodes z1" "blobs z2 b = Some (new_blob C body)"
      unfolding z2_def
      using zinv_swap_body [OF some(4) _ some(6) bb _ some(5), of a] by (auto simp: new_blob_def)
    let ?t = "upd_node a (\<lambda>n. n\<lparr>data := Some b\<rparr>) z2"
    let ?f = "refreshed b (length body) now fttl sttl"
    have at: "node_at z2 a = node_at z a" using sw(2) same by (simp add: node_at_def)
    have domt: "a \<in> dom (nodes ?t)" by simp
    define M where "M = (if kind (node_at z a) = NODE_MARKER then 1 else (0 :: nat))"
    have "markers_ok M (upd_node a ?f ?t)"
      using markers_ok_untag [OF zinvD(8) [OF sw(1)] domt, of ?f] zinvD(2) [OF sw(1)]
      by (cases "kind (node_at z a) = NODE_MARKER")
        (simp_all add: M_def refreshed_def live_ok_def node_at_upd at)
    then have "zinv C live R {a} {} M (upd_node a ?f ?t)"
      by (intro zinv_upd_gen [OF sw(1) domt] lease_ok_clear [OF zinvD(9) [OF sw(1)] domt])
        (simp_all add: refreshed_def node_at_upd)
    moreover have eq: "upd_node a ?f ?t = upd_node a ?f z2"
      by (rule zone.equality) (simp_all add: refreshed_def node_at_upd)
    ultimately have f: "zinv C live R {a} {} M (upd_node a ?f z2)" by simp
    have "shape_ok (upd_node a ?f z2) (node_at (upd_node a ?f z2) a)"
      using sw(3) by (simp add: node_at_upd refreshed_def shape_ok_def new_blob_def)
    then have l: "zinv C live R ({a} - {a}) {} M (lru_link_head (upd_node a ?f z2) a)"
      by (intro zinv_link_head [OF f]) simp
    have res: "rc = NGX_OK" "written = Some a" "z' = lru_link_head (upd_node a ?f z2) a"
      using st some(1) al unfolding store_refresh_def Let_def z2_def refreshed_def by auto
    have "nodes z' = (nodes w)(a \<mapsto> ?f (node_at z a))"
      using res sw(2) some(8) at by simp
    moreover have "rbtree z' = rbtree w"
      using res some(9) by (simp add: z2_def split: option.split)
    moreover have "\<exists>r. blobs z' b = Some r \<and> content r = body"
      using res sw(3) by (simp add: new_blob_def)
    moreover have "bodies_kept w z' b"
    proof (cases "data (node_at z1 a)")
      case None
      then show ?thesis using some(7,10) res by (auto simp: bodies_kept_def z2_def split: if_splits)
    next
      case (Some old)
      then have o: "owned z1 old" using owned_split [OF dom1] by simp
      then obtain r where "blobs z1 old = Some r" "old \<noteq> b"
        using blob_okD(2) [OF zinvD(6) [OF some(4)]] some(6) by blast
      with Some show ?thesis
        using some(7,10) res
        by (auto simp: bodies_kept_def z2_def blob_node_release_unref blobs_unref split: if_splits)
    qed
    moreover have "shrinks {a} z w" using shrinks_trans [OF uz some(3)] .
    moreover have "zinv C live R {} {} (if rc = NGX_OK \<and> kind (node_at z a) = NODE_MARKER then 1 else 0) z'"
      using l res by (simp add: M_def)
    ultimately show ?thesis using res some(2) by blast
  qed
  from both show "zinv C live R {} {} (if rc = NGX_OK \<and> kind (node_at z a) = NODE_MARKER then 1 else 0) z'"
    by blast
  from both show "rc = NGX_OK \<or> rc = NGX_ERROR" by blast
  from both show "rc = NGX_ERROR \<Longrightarrow> written = None \<and> shrinks {a} z z'" by blast
  from both show "rc = NGX_OK \<Longrightarrow> written = Some a \<and> (\<exists>b w. shrinks {a} z w \<and>
      nodes z' = (nodes w)(a \<mapsto> refreshed b (length body) now fttl sttl (node_at z a)) \<and>
      (\<exists>r. blobs z' b = Some r \<and> content r = body) \<and> bodies_kept w z' b \<and> zinv C live R {a} {} 0 w \<and> rbtree z' = rbtree w)" by blast
qed

text \<open>Creating a node: what the creation sites do, as one linking of a node that is already in the
  tree.\<close>

lemma insert_node_eq:
  assumes "seg n = SEG_PROBATION" "\<not> sie_spared n" "\<not> varidx_pending n"
  shows "insert_node C z k a n = lru_link_head (node_insert C z k a n) a"
proof -
  have "n\<lparr>seg := SEG_PROBATION, sie_spared := False, varidx_pending := False\<rparr> = n"
    using assms by simp
  then show ?thesis
    using assms(1)
    by (intro zone.equality)
      (simp_all add: insert_node_def lru_insert_new_def node_insert_simps Let_def node_at_def
        lru_link_head_def node_insert_def)
qed

lemma insert_node_simps:
  assumes "seg n = SEG_PROBATION" "\<not> sie_spared n" "\<not> varidx_pending n"
  shows "nodes (insert_node C z k a n) = (nodes z)(a \<mapsto> n)" "blobs (insert_node C z k a n) = blobs z"
    "rbtree (insert_node C z k a n) = rb_insert (rb_fix C) (rbtree z) k a"
    "owner_seq (insert_node C z k a n) = owner_seq z" "lru (insert_node C z k a n) = a # lru z"
    "lru_protected (insert_node C z k a n) = lru_protected z"
    "n_entries (insert_node C z k a n) = n_entries z + 1"
  unfolding insert_node_eq [OF assms]
  using assms by (simp_all add: node_insert_simps node_at_def)

lemma lookup_insert_node:
  assumes "zinv C live R D X M z" "length k = 32" "shm_lookup z k = None" "length k' = 32"
    and "seg n = SEG_PROBATION" "\<not> sie_spared n" "\<not> varidx_pending n"
  shows "shm_lookup (insert_node C z k a n) k' = (if k' = k then Some a else shm_lookup z k')"
  using rb.lookup_insert [OF zinv_rb [OF assms(1)] assms(2) _ assms(4)] assms(3)
  unfolding shm_lookup_def insert_node_simps(3) [OF assms(5-7)] by blast

lemma zinv_insert_counter:
  assumes inv: "zinv C live R {} {a} 0 z" and k: "length k = 32" and new: "shm_lookup z k = None"
  shows "zok C live R (insert_node C z k a (counter_node uses memo now hash))"
proof -
  let ?n = "counter_node uses memo now hash"
  have i: "zinv C live R {a} ({a} - {a}) 0 (node_insert C z k a ?n)"
    by (rule zinv_node_insert [OF inv _ k new]) (simp_all add: counter_node_def)
  have "zinv C live R ({a} - {a}) ({a} - {a}) 0 (lru_link_head (node_insert C z k a ?n) a)"
    by (rule zinv_link_head [OF i])
      (simp_all add: node_at_def node_insert_simps shape_ok_def counter_node_def)
  then show ?thesis by (subst insert_node_eq) (simp_all add: counter_node_def)
qed

lemma zinv_insert_stub:
  assumes inv: "zinv C live R {} {a} 0 z" and k: "length k = 32" and new: "shm_lookup z k = None"
  shows "zok C live R (insert_node C (z\<lparr>owner_seq := owner_seq z + 1\<rparr>) k a
    ((counter_node 0 0 now hash)\<lparr>refreshing := True, refresh_lock_until := t,
       refresh_owner := owner_seq z + 1\<rparr>))"
proof -
  let ?n = "counter_node 0 0 now hash"
  let ?i = "node_insert C z k a ?n"
  have i: "zinv C live R {a} ({a} - {a}) 0 ?i"
    by (rule zinv_node_insert [OF inv _ k new]) (simp_all add: counter_node_def)
  have l: "zinv C live R {a} ({a} - {a}) 0 (take_lease ?i a t)"
    by (rule zinv_take_lease [OF i]) (simp add: node_insert_simps)
  have "zinv C live R ({a} - {a}) ({a} - {a}) 0 (lru_link_head (take_lease ?i a t) a)"
    by (rule zinv_link_head [OF l])
      (simp_all add: take_lease_def node_at_def node_insert_simps shape_ok_def counter_node_def)
  moreover have "insert_node C (z\<lparr>owner_seq := owner_seq z + 1\<rparr>) k a
      (?n\<lparr>refreshing := True, refresh_lock_until := t, refresh_owner := owner_seq z + 1\<rparr>) =
      lru_link_head (take_lease ?i a t) a"
    by (subst insert_node_eq) (simp_all add: counter_node_def,
      rule zone.equality, simp_all add: lru_link_head_def take_lease_def node_at_def node_insert_def)
  ultimately show ?thesis by simp
qed

lemma zinv_insert_entry:
  assumes inv: "zinv C live (R(b := 1)) {} {a} 0 z" and k: "length k = 32"
    and new: "shm_lookup z k = None" and b: "\<not> owned z b" "blobs z b = Some (new_blob C body)"
    and R: "R b = 0"
  shows "zok C live R (insert_node C z k a (entry_node b (length body) now fttl sttl hash))"
proof -
  let ?n = "entry_node b (length body) now fttl sttl hash"
  let ?i = "node_insert C z k a (?n\<lparr>data := None\<rparr>)"
  have i: "zinv C live (R(b := 1)) {a} ({a} - {a}) 0 ?i"
    by (rule zinv_node_insert [OF inv _ k new]) (simp_all add: entry_node_def)
  let ?g = "upd_node a (\<lambda>n. n\<lparr>data := Some b\<rparr>) ?i"
  have "\<not> owned ?i b"
    using b(1) by (auto simp: owned_def node_insert_simps split: if_splits)
  then have "zinv C live ((R(b := 1))(b := (R(b := 1)) b - 1)) {a} ({a} - {a}) 0 ?g"
    by (intro zinv_give_data [OF i]) (use b(2) in \<open>simp_all add: node_at_def node_insert_simps new_blob_def\<close>)
  moreover have "(R(b := 1))(b := (R(b := 1)) b - 1) = R" using R by auto
  ultimately have g: "zinv C live R {a} ({a} - {a}) 0 ?g" by simp
  have "zinv C live R ({a} - {a}) ({a} - {a}) 0 (lru_link_head ?g a)"
    by (rule zinv_link_head [OF g])
      (use b(2) in \<open>simp_all add: node_at_def node_insert_simps shape_ok_def new_blob_def entry_node_def\<close>)
  moreover have "insert_node C z k a ?n = lru_link_head ?g a"
    by (subst insert_node_eq) (simp_all add: entry_node_def,
      rule zone.equality, simp_all add: lru_link_head_def node_at_def node_insert_def)
  ultimately show ?thesis by simp
qed

lemma zinv_refused:
  assumes inv: "zinv C live R D X M z"
  shows "zinv C live R D X M (z\<lparr>admission_refused := k\<rparr>)"
proof -
  have "lru_ok D (z\<lparr>admission_refused := k\<rparr>)" "shapes_ok D (z\<lparr>admission_refused := k\<rparr>)"
    using zinvD(5,7) [OF inv] lru_ok_cong [of "z\<lparr>admission_refused := k\<rparr>" z D]
      shapes_ok_cong [of "z\<lparr>admission_refused := k\<rparr>" z D] by simp_all
  then show ?thesis by (rule zinv_frame [OF inv]) simp_all
qed

lemma shm_admit_cases: "shm_admit z hash = (ok, z') \<Longrightarrow>
    z' = z \<and> ok \<or> z' = z\<lparr>admission_refused := admission_refused z + 1\<rparr> \<and> \<not> ok"
  by (auto simp: shm_admit_def Let_def split: if_splits)

lemma store_new_inv:
  assumes inv: "zok C live R z" and k: "length k = 32" and new: "shm_lookup z k = None"
    and st: "store_new C z now k hash body fttl sttl = (rc, written, z')"
  shows "zok C live R z'"
    and "rc \<in> {NGX_OK, NGX_DECLINED, NGX_ERROR}"
    and "rc \<noteq> NGX_OK \<Longrightarrow> written = None \<and> shrinks {} z z' \<and> shm_lookup z' k = None"
    and "rc = NGX_OK \<Longrightarrow> (\<exists>a b w. written = Some a \<and> shrinks {} z w \<and> a \<notin> dom (nodes w) \<and>
      nodes z' = (nodes w)(a \<mapsto> entry_node b (length body) now fttl sttl hash) \<and>
      (\<exists>r. blobs z' b = Some r \<and> content r = body) \<and> bodies_kept w z' b \<and> zinv C live R {} {a} 0 w \<and>
      (\<forall>k'. length k' = 32 \<longrightarrow> shm_lookup z' k' = (if k' = k then Some a else shm_lookup w k')))"
proof -
  note srefl = shrinks_refl [OF zinvD(4) [OF inv], of "{}"]
  obtain ok z0 where ad: "shm_admit z hash = (ok, z0)" by (cases "shm_admit z hash")
  have all: "zok C live R z' \<and>
    (rc \<in> {NGX_DECLINED, NGX_ERROR} \<and> written = None \<and> shrinks {} z z' \<and> shm_lookup z' k = None \<or>
     rc = NGX_OK \<and> (\<exists>a b w. written = Some a \<and> shrinks {} z w \<and> a \<notin> dom (nodes w) \<and>
      nodes z' = (nodes w)(a \<mapsto> entry_node b (length body) now fttl sttl hash) \<and>
      (\<exists>r. blobs z' b = Some r \<and> content r = body) \<and> bodies_kept w z' b \<and> zinv C live R {} {a} 0 w \<and>
      (\<forall>k'. length k' = 32 \<longrightarrow> shm_lookup z' k' = (if k' = k then Some a else shm_lookup w k'))))"
  proof (cases ok)
    case False
    then have "rc = NGX_DECLINED" "written = None" "z' = z\<lparr>admission_refused := admission_refused z + 1\<rparr>"
      using st ad shm_admit_cases [OF ad] by (auto simp: store_new_def)
    moreover have "shrinks {} z (z\<lparr>admission_refused := admission_refused z + 1\<rparr>)"
      using srefl unfolding shrinks_def by simp
    ultimately show ?thesis using zinv_refused [OF inv] new by (simp add: shm_lookup_def)
  next
    case True
    then have z0: "z0 = z" using shm_admit_cases [OF ad] by simp
    obtain p z1 where al: "shm_alloc_evict C z now (sizeof_node C) = (p, z1)"
      by (cases "shm_alloc_evict C z now (sizeof_node C)")
    show ?thesis
    proof (cases rule: alloc_node_cases [OF inv al, case_names none some])
      case none
      then have "rc = NGX_ERROR" "written = None" "z' = z1"
        using st ad True al z0 by (auto simp: store_new_def)
      with none lookup_shrinks_None [OF inv none(2,3) k new] show ?thesis by simp
    next
      case (some a)
      have raw: "zinv C live R {} {a} 0 z1" using some(2) by simp
      have l1: "shm_lookup z1 k = None" by (rule lookup_shrinks_None [OF inv raw some(3) k new])
      obtain q z2 where bl: "blob_alloc C z1 now body = (q, z2)" by (cases "blob_alloc C z1 now body")
      show ?thesis
      proof (cases rule: blob_alloc_cases [OF raw bl, case_names none some])
        case bnone: none
        let ?f = "shm_free_locked C z2 a (sizeof_node C)"
        have res: "rc = NGX_ERROR" "written = None" "z' = ?f"
          using st ad True al z0 some(1) bl bnone(1) by (auto simp: store_new_def)
        have "zok C live R ?f" using zinv_free_raw [OF bnone(2), of a] by simp
        moreover have sh: "shrinks {} z z2" by (rule shrinks_trans [OF some(3) bnone(3)])
        then have "shrinks {} z ?f" unfolding shrinks_def by simp
        moreover have "shm_lookup ?f k = None"
          using lookup_shrinks_None [OF raw bnone(2,3) k l1] by (simp add: shm_lookup_def)
        ultimately show ?thesis using res by simp
      next
        case bsome: (some b w)
        let ?n = "entry_node b (length body) now fttl sttl hash"
        have res: "rc = NGX_OK" "written = Some a" "z' = insert_node C z2 k a ?n"
          using st ad True al z0 some(1) bl bsome(1) by (auto simp: store_new_def)
        have lw: "shm_lookup w k = None" by (rule lookup_shrinks_None [OF raw bsome(2,3) k l1])
        then have l2: "shm_lookup z2 k = None" using bsome(9) by (simp add: shm_lookup_def)
        have bb: "blobs z2 b = Some (new_blob C body)" using bsome(7) by simp
        have n: "seg ?n = SEG_PROBATION" "\<not> sie_spared ?n" "\<not> varidx_pending ?n"
          by (simp_all add: entry_node_def)
        have "zok C live R z'"
          unfolding res by (rule zinv_insert_entry [OF bsome(4) k l2 bsome(6) bb bsome(5)])
        moreover have "shrinks {} z w" by (rule shrinks_trans [OF some(3) bsome(3)])
        moreover have "a \<notin> dom (nodes w)" using some(4) bsome(3) unfolding shrinks_def by blast
        moreover have "nodes z' = (nodes w)(a \<mapsto> ?n)"
          unfolding res insert_node_simps [OF n] bsome(8) ..
        moreover have "\<exists>r. blobs z' b = Some r \<and> content r = body"
          unfolding res insert_node_simps [OF n] using bb by (simp add: new_blob_def)
        moreover have "bodies_kept w z' b"
          unfolding res bodies_kept_def insert_node_simps [OF n] using bsome(7,10)
          by (auto split: if_splits)
        moreover have "shm_lookup z' k' = (if k' = k then Some a else shm_lookup w k')"
          if "length k' = 32" for k'
          unfolding res using lookup_insert_node [OF bsome(4) k l2 that n] bsome(9)
          by (simp add: shm_lookup_def)
        ultimately show ?thesis using res bsome(2) by blast
      qed
    qed
  qed
  show "zok C live R z'" "rc \<in> {NGX_OK, NGX_DECLINED, NGX_ERROR}"
    using all by auto
  show "rc \<noteq> NGX_OK \<Longrightarrow> written = None \<and> shrinks {} z z' \<and> shm_lookup z' k = None"
    using all by auto
  show "rc = NGX_OK \<Longrightarrow> (\<exists>a b w. written = Some a \<and> shrinks {} z w \<and> a \<notin> dom (nodes w) \<and>
      nodes z' = (nodes w)(a \<mapsto> entry_node b (length body) now fttl sttl hash) \<and>
      (\<exists>r. blobs z' b = Some r \<and> content r = body) \<and> bodies_kept w z' b \<and> zinv C live R {} {a} 0 w \<and>
      (\<forall>k'. length k' = 32 \<longrightarrow> shm_lookup z' k' = (if k' = k then Some a else shm_lookup w k')))"
    using all by auto
qed

lemma zinv_weaken: "zinv C live R D X M z \<Longrightarrow> M' \<le> M \<Longrightarrow> zinv C live R D X M' z"
  by (simp add: zinv_def markers_ok_def)

definition resident_marker :: "'p zone \<Rightarrow> bytes \<Rightarrow> bool" where
  "resident_marker z k \<longleftrightarrow> (\<exists>a. shm_lookup z k = Some a \<and> kind (node_at z a) = NODE_MARKER)"

lemma store_locked_inv:
  assumes inv: "zok C live R z" and k: "length k = 32" and ctn: "ctn = None \<or> ctn = shm_lookup z k"
    and st: "shm_store_locked C z now k hash body fttl sttl ctn = (rc, written, z')"
  shows "zinv C live R {} {} (if rc = NGX_OK \<and> resident_marker z k then 1 else 0) z'"
    and "rc = NGX_OK \<Longrightarrow> \<exists>a b n r. written = Some a \<and> nodes z' a = Some n \<and> data n = Some b \<and>
      kind n = NODE_ENTRY \<and> blobs z' b = Some r \<and> content r = body"
    and "rc \<noteq> NGX_OK \<Longrightarrow> written = None"
proof -
  have key: "(case ctn of None \<Rightarrow> shm_lookup z k | Some a \<Rightarrow> Some a) = shm_lookup z k"
    using ctn by (auto split: option.split)
  have "zinv C live R {} {} (if rc = NGX_OK \<and> resident_marker z k then 1 else 0) z' \<and>
    (rc = NGX_OK \<longrightarrow> (\<exists>a b n r. written = Some a \<and> nodes z' a = Some n \<and> data n = Some b \<and>
      kind n = NODE_ENTRY \<and> blobs z' b = Some r \<and> content r = body)) \<and>
    (rc \<noteq> NGX_OK \<longrightarrow> written = None)"
  proof (cases "shm_lookup z k")
    case None
    then have "store_new C z now k hash body fttl sttl = (rc, written, z')"
      using st key by (simp add: shm_store_locked_def)
    note n = store_new_inv [OF inv k None this]
    have "\<exists>a b n r. written = Some a \<and> nodes z' a = Some n \<and> data n = Some b \<and>
      kind n = NODE_ENTRY \<and> blobs z' b = Some r \<and> content r = body" if "rc = NGX_OK"
    proof -
      from n(4) [OF that] obtain a b where
        "written = Some a" "nodes z' a = Some (entry_node b (length body) now fttl sttl hash)"
        "\<exists>r. blobs z' b = Some r \<and> content r = body"
        by (auto 0 3 simp del: fun_upd_apply) (metis fun_upd_same)
      then show ?thesis by (auto simp: entry_node_def)
    qed
    then show ?thesis using None n(1,3) by (simp add: resident_marker_def)
  next
    case (Some a)
    then have st': "store_refresh C z now body fttl sttl a = (rc, written, z')"
      using st key by (simp add: shm_store_locked_def)
    note n = store_refresh_inv [OF inv lookup_dom [OF inv k Some] st']
    have "\<exists>a b n r. written = Some a \<and> nodes z' a = Some n \<and> data n = Some b \<and>
      kind n = NODE_ENTRY \<and> blobs z' b = Some r \<and> content r = body" if "rc = NGX_OK"
    proof -
      from n(4) [OF that] obtain b where
        "written = Some a" "nodes z' a = Some (refreshed b (length body) now fttl sttl (node_at z a))"
        "\<exists>r. blobs z' b = Some r \<and> content r = body"
        by (auto 0 3 simp del: fun_upd_apply) (metis fun_upd_same)
      then show ?thesis by (auto simp: refreshed_def)
    qed
    moreover have "rc \<noteq> NGX_OK \<Longrightarrow> written = None" using n(2,3) by blast
    ultimately show ?thesis using Some n(1) by (simp add: resident_marker_def)
  qed
  then show "zinv C live R {} {} (if rc = NGX_OK \<and> resident_marker z k then 1 else 0) z'"
    "rc = NGX_OK \<Longrightarrow> \<exists>a b n r. written = Some a \<and> nodes z' a = Some n \<and> data n = Some b \<and>
      kind n = NODE_ENTRY \<and> blobs z' b = Some r \<and> content r = body"
    "rc \<noteq> NGX_OK \<Longrightarrow> written = None"
    by blast+
qed

text \<open>The references requests hold, after an operation handed one out.\<close>

definition took :: "addr option \<Rightarrow> (addr \<Rightarrow> nat) \<Rightarrow> addr \<Rightarrow> nat" where
  "took r R = (case r of None \<Rightarrow> R | Some b \<Rightarrow> R(b := R b + 1))"

lemma took_simps [simp]: "took None R = R" "took (Some b) R = R(b := R b + 1)"
  by (simp_all add: took_def)

lemma hand_out_inv:
  assumes inv: "zok C live R z" and k: "length k = 32" and ctn: "ctn = None \<or> ctn = shm_lookup z k"
    and st: "hand_out want (shm_store_locked C z now k hash body fttl sttl ctn) = (rc, out, z')"
  shows "zok C live (took out R) z'"
proof -
  obtain rc1 written z1 where l: "shm_store_locked C z now k hash body fttl sttl ctn = (rc1, written, z1)"
    by (cases "shm_store_locked C z now k hash body fttl sttl ctn") auto
  note s = store_locked_inv [OF inv k ctn l]
  have z1: "zok C live R z1" by (rule zinv_weaken [OF s(1)]) simp
  show ?thesis
  proof (cases "rc1 = NGX_OK \<and> want")
    case True
    with s(2) obtain a b n r where w: "written = Some a" "nodes z1 a = Some n" "data n = Some b"
      "blobs z1 b = Some r" by blast
    then have "out = Some b" "z' = blob_acquire z1 b"
      using st l True by (auto simp: hand_out_def node_at_def Let_def)
    then show ?thesis using zinv_blob_acquire [OF z1, of b] w by auto
  next
    case False
    then have "out = None" "z' = z1" using st l by (auto simp: hand_out_def split: option.splits)
    then show ?thesis using z1 by simp
  qed
qed

lemma shm_store_inv:
  "zok C live R z \<Longrightarrow> length k = 32 \<Longrightarrow> shm_store C z now k hash body fttl sttl want = (rc, out, z') \<Longrightarrow>
    zok C live (took out R) z'"
  unfolding shm_store_def by (rule hand_out_inv [where ctn = None]) simp_all

lemma shm_store_if_inv:
  assumes "zok C live R z" "length k = 32"
    and "shm_store_if C z now k hash body fttl sttl p want = (rc, out, z')"
  shows "zok C live (took out R) z'"
proof (cases "case shm_lookup z k of None \<Rightarrow> False | Some a \<Rightarrow> store_if_refuse (node_at z a) now fttl p")
  case True
  with assms show ?thesis by (auto simp: shm_store_if_def Let_def)
next
  case False
  then have "hand_out want (shm_store_locked C z now k hash body fttl sttl (shm_lookup z k)) = (rc, out, z')"
    using assms(3) by (simp add: shm_store_if_def Let_def)
  then show ?thesis by (rule hand_out_inv [OF assms(1,2) disjI2 [OF refl]])
qed

text \<open>Setting the counter next to a change of the node map.\<close>

lemma zinv_markers:
  assumes "zinv C live R D X M z" and "markers_ok M' (z\<lparr>markers := k\<rparr>)"
  shows "zinv C live R D X M' (z\<lparr>markers := k\<rparr>)"
proof -
  let ?z = "z\<lparr>markers := k\<rparr>"
  note i = zinvD [OF assms(1)]
  have "blob_ok R ?z"
    using i(6) owned_cong [of ?z z] own_uniq_cong [of ?z z] unfolding blob_ok_def by simp
  moreover have "live_ok live X ?z" "used_ok C X ?z"
    using i(2,3) unfolding live_ok_def used_ok_def blob_charge_def by simp_all
  ultimately show ?thesis
    using i assms(2) idx_ok_cong [of ?z z] lru_ok_cong [of ?z z D] lease_ok_cong [of ?z z]
      shapes_ok_cong [of ?z z D]
    by (simp add: zinv_def)
qed

lemma shm_store_marker_inv:
  assumes inv: "zok C live R z" and k: "length k = 32"
    and st: "shm_store_marker C z now k hash body fttl sttl = (rc, z')"
  shows "zok C live R z'"
proof -
  obtain rc1 written z1 where l: "shm_store_locked C z now k hash body fttl sttl (shm_lookup z k) = (rc1, written, z1)"
    by (cases "shm_store_locked C z now k hash body fttl sttl (shm_lookup z k)") auto
  note s = store_locked_inv [OF inv k disjI2 [OF refl] l]
  have was: "(case shm_lookup z k of None \<Rightarrow> False | Some a \<Rightarrow> kind (node_at z a) = NODE_MARKER) =
      resident_marker z k"
    by (auto simp: resident_marker_def split: option.split)
  show ?thesis
  proof (cases "rc1 = NGX_OK")
    case False
    then have "z' = z1" using st l s(3) by (simp add: shm_store_marker_def Let_def)
    then show ?thesis using zinv_weaken [OF s(1), of 0] by simp
  next
    case True
    then obtain a b n r where w: "written = Some a" "nodes z1 a = Some n" "data n = Some b"
      "kind n = NODE_ENTRY" using s(2) by blast
    let ?u = "upd_node a (\<lambda>n. n\<lparr>kind := NODE_MARKER\<rparr>) z1"
    have a: "a \<in> dom (nodes z1)" using w by blast
    have z': "z' = (if resident_marker z k then ?u else ?u\<lparr>markers := markers ?u + 1\<rparr>)"
      using st l True w(1) was by (auto simp: shm_store_marker_def Let_def)
    have na: "node_at z1 a = n" using w(2) by (simp add: node_at_def)
    have bump: "markers_ok (Suc 0) (z1\<lparr>markers := markers z1 + 1\<rparr>)"
      using zinvD(8) [OF s(1)] by (simp add: markers_ok_def marker_nodes_def split: if_splits)
    define z2 where "z2 = (if resident_marker z k then z1 else z1\<lparr>markers := markers z1 + 1\<rparr>)"
    have z2: "zinv C live R {} {} 1 z2"
    proof (cases "resident_marker z k")
      case True
      with s(1) \<open>rc1 = NGX_OK\<close> show ?thesis by (simp add: z2_def)
    next
      case False
      have "zinv C live R {} {} 0 z1" by (rule zinv_weaken [OF s(1)]) simp
      from zinv_markers [OF this bump] False show ?thesis by (simp add: z2_def)
    qed
    have z'2: "z' = upd_node a (\<lambda>n. n\<lparr>kind := NODE_MARKER\<rparr>) z2"
      by (simp add: z' z2_def upd_node_def node_at_def)
    have a2: "a \<in> dom (nodes z2)" "node_at z2 a = n" using a na by (simp_all add: z2_def node_at_def)
    show ?thesis
    proof -
      note i = zinvD [OF z2]
      let ?f = "\<lambda>n. n\<lparr>kind := NODE_MARKER\<rparr>"
      have dom: "dom (nodes (upd_node a ?f z2)) = dom (nodes z2)" using a2(1) by (rule dom_upd)
      have own: "owned (upd_node a ?f z2) c = owned z2 c" for c
        unfolding owned_upd [OF a2(1)] owned_split [OF a2(1)] by simp
      have sg: "seg (node_at (upd_node a ?f z2) c) = seg (node_at z2 c)" for c by (simp add: node_at_upd)
      have "shapes_ok {} (upd_node a ?f z2)"
        using i(7) nodes_node_at [OF a2(1)] w(3,4) a2(2) shape_ok_cong [of "upd_node a ?f z2" z2]
        unfolding shapes_ok_def by (auto simp: shape_ok_def split: option.splits)
      moreover have "blob_ok R (upd_node a ?f z2)"
      proof -
        have "own_uniq (upd_node a ?f z2)"
          using own_uniq_other [OF blob_okD(1) [OF i(6)] a2(1)]
          by (intro own_uniq_upd [OF blob_okD(1) [OF i(6)] a2(1)]) simp
        then show ?thesis using i(6) unfolding blob_ok_def own upd_node_simps by blast
      qed
      moreover have "markers_ok 0 (upd_node a ?f z2)" using i(8) by (intro markers_ok_tag) simp
      moreover have "lease_ok (upd_node a ?f z2)" by (rule lease_ok_upd [OF i(9) a2(1)]) simp_all
      moreover have "live_ok live {} (upd_node a ?f z2)" "used_ok C {} (upd_node a ?f z2)"
        "lru_ok {} (upd_node a ?f z2)" "idx_ok (upd_node a ?f z2)"
        using i(2,3,4,5) unfolding live_ok_def used_ok_def lru_ok_def idx_ok_def dom sg
        by (simp_all add: blob_charge_def)
      ultimately show ?thesis using i unfolding z'2 by (simp add: zinv_def)
    qed
  qed
qed

lemma shm_freshen_inv:
  assumes inv: "zok C live R z" and k: "length k = 32" and st: "shm_freshen z now k fttl sttl = (rc, z')"
  shows "zok C live R z'"
proof (cases "shm_lookup z k")
  case (Some a)
  note a = lookup_dom [OF inv k Some]
  have "shape_ok z (node_at z a)" using zinvD(7) [OF inv] nodes_node_at [OF a] by (auto simp: shapes_ok_def)
  then have d: "kind (node_at z a) = NODE_ENTRY \<longrightarrow> data (node_at z a) \<noteq> None" by (auto simp: shape_ok_def)
  show ?thesis
    using st Some inv d zinv_clear_lease [OF inv a, of "\<lambda>n. n\<lparr>fresh_until := now + fttl,
      stale_until := deadline now sttl, refreshing := False, refresh_lock_until := 0,
      refresh_owner := 0, last_access := now\<rparr>"]
    by (auto simp: shm_freshen_def split: if_splits)
qed (use st inv in \<open>auto simp: shm_freshen_def\<close>)

subsection \<open>Purging\<close>

lemma shm_purge_key_inv:
  "zok C live R z \<Longrightarrow> length k = 32 \<Longrightarrow> shm_purge_key C z k = (r, z') \<Longrightarrow> zok C live R z'"
  by (auto simp: shm_purge_key_def split: option.splits intro: zinv_drop dest: lookup_dom)

lemma shm_purge_if_blob_inv:
  "zok C live R z \<Longrightarrow> length k = 32 \<Longrightarrow> shm_purge_if_blob C z k b = (r, z') \<Longrightarrow> zok C live R z'"
  by (auto simp: shm_purge_if_blob_def split: option.splits if_splits intro: zinv_drop dest: lookup_dom)

lemma hd_queue_dom:
  assumes "zok C live R z"
  shows "lru z \<noteq> [] \<Longrightarrow> hd (lru z) \<in> dom (nodes z)"
    "lru_protected z \<noteq> [] \<Longrightarrow> hd (lru_protected z) \<in> dom (nodes z)"
  using lru_ok_queues [OF zinvD(5) [OF assms]] hd_in_set by blast+

lemma drain_lru_inv: "zok C live R z \<Longrightarrow> zok C live R (snd (drain_lru C n z))"
proof (induction C n z rule: drain_lru.induct)
  case (2 C n z)
  show ?case
  proof (cases "lru z = []")
    case False
    have "zok C live R (shm_drop_locked C z (hd (lru z)))"
      using zinv_drop [OF "2.prems" hd_queue_dom(1) [OF "2.prems" False]] by simp
    from "2.IH" [OF False this] False show ?thesis by (simp add: case_prod_beta)
  qed (use "2.prems" in simp)
qed simp

lemma drain_protected_inv: "zok C live R z \<Longrightarrow> zok C live R (snd (drain_protected C n z))"
proof (induction C n z rule: drain_protected.induct)
  case (2 C n z)
  show ?case
  proof (cases "lru_protected z = []")
    case False
    have "zok C live R (shm_drop_locked C z (hd (lru_protected z)))"
      using zinv_drop [OF "2.prems" hd_queue_dom(2) [OF "2.prems" False]] by simp
    from "2.IH" [OF False this] False show ?thesis by (simp add: case_prod_beta)
  qed (use "2.prems" in simp)
qed simp

lemma purge_batch_inv: "zok C live R z \<Longrightarrow> zok C live R (snd (purge_batch C n z))"
  by (simp add: purge_batch_def Let_def case_prod_beta drain_lru_inv drain_protected_inv)

subsection \<open>Touching\<close>

lemma zinv_sketch:
  assumes inv: "zinv C live R D X M z" and s: "sketch_wf s"
  shows "zinv C live R D X M (z\<lparr>zsketch := s\<rparr>)"
proof -
  have "lru_ok D (z\<lparr>zsketch := s\<rparr>)" "shapes_ok D (z\<lparr>zsketch := s\<rparr>)"
    using zinvD(5,7) [OF inv] lru_ok_cong [of "z\<lparr>zsketch := s\<rparr>" z D]
      shapes_ok_cong [of "z\<lparr>zsketch := s\<rparr>" z D] by simp_all
  then show ?thesis by (rule zinv_frame [OF inv]) (simp_all add: s)
qed

text \<open>Moving a node: off its queue, onto the queue its new segment names.\<close>

lemma zinv_move:
  assumes inv: "zok C live R z" and a: "a \<in> dom (nodes z)"
    and f: "soft (node_at z a) (f (node_at z a))"
  shows "zok C live R (lru_link_head (upd_node a f (lru_unlink z a)) a)"
proof -
  let ?u = "lru_unlink z a"
  have u: "zinv C live R {a} {} 0 ?u" using zinv_unlink [OF inv a] by simp
  have at: "node_at ?u a = node_at z a" by (simp add: node_at_def)
  have v: "zinv C live R {a} {} 0 (upd_node a f ?u)"
    by (rule zinv_upd_soft [OF u]) (use a f at in auto)
  have "shape_ok z (node_at z a)"
    using zinvD(7) [OF inv] nodes_node_at [OF a] by (auto simp: shapes_ok_def)
  then have "shape_ok (upd_node a f ?u) (node_at (upd_node a f ?u) a)"
    using soft_shape [OF f, of z] shape_ok_cong [of "upd_node a f ?u" z] by (simp add: node_at_upd at)
  then have "zinv C live R ({a} - {a}) {} 0 (lru_link_head (upd_node a f ?u) a)"
    by (intro zinv_link_head [OF v]) simp
  then show ?thesis by simp
qed

lemma lru_demote_inv: "zok C live R z \<Longrightarrow> zok C live R (lru_demote n cap z)"
proof (induction n cap z rule: lru_demote.induct)
  case (2 n cap z)
  show ?case
  proof (cases "n_protected z > cap \<and> lru_protected z \<noteq> []")
    case True
    then have "last (lru_protected z) \<in> dom (nodes z)"
      using lru_ok_queues(2) [OF zinvD(5) [OF "2.prems"]] last_in_set by blast
    then have "zok C live R (lru_link_head (upd_node (last (lru_protected z))
        (\<lambda>n. n\<lparr>seg := SEG_PROBATION\<rparr>) (lru_unlink z (last (lru_protected z)))) (last (lru_protected z)))"
      by (intro zinv_move [OF "2.prems"]) (simp_all add: soft_def)
    with "2.IH" [OF True] True show ?thesis by (simp add: Let_def)
  next
    case False
    then have "lru_demote (Suc n) cap z = z" by auto
    with "2.prems" show ?thesis by simp
  qed
qed simp

lemma shm_touch_lru_inv:
  assumes inv: "zok C live R z" and a: "a \<in> dom (nodes z)"
  shows "zok C live R (shm_touch_lru z a now pct hash)"
proof -
  let ?z0 = "z\<lparr>zsketch := sketch_bump (zsketch z) (sketch_rows hash)\<rparr>"
  have z0: "zok C live R ?z0"
    by (rule zinv_sketch [OF inv sketch_bump_wf]) (rule zinvD(10) [OF inv])
  have a0: "a \<in> dom (nodes ?z0)" using a by simp
  let ?z1 = "upd_node a (\<lambda>n. n\<lparr>last_access := now\<rparr>) ?z0"
  have z1: "zok C live R ?z1"
    by (rule zinv_upd_soft [OF z0 a0]) (simp_all add: soft_def)
  have a1: "a \<in> dom (nodes ?z1)" by simp
  have mv: "zok C live R (lru_link_head (upd_node a (\<lambda>n. n\<lparr>seg := s, promotable := True\<rparr>)
      (lru_unlink ?z1 a)) a)" for s
    by (rule zinv_move [OF z1 a1]) (simp add: soft_def)
  then have "zok C live R (lru_enforce_cap (lru_link_head (upd_node a
      (\<lambda>n. n\<lparr>seg := s, promotable := True\<rparr>) (lru_unlink ?z1 a)) a) pct)" for s
    unfolding lru_enforce_cap_def Let_def by (intro lru_demote_inv)
  with mv z0 show ?thesis
    unfolding shm_touch_lru_def Let_def by (simp only: split: if_split) simp
qed

subsection \<open>Cold misses\<close>

lemma shm_claim_locked_inv:
  assumes inv: "zok C live R z" and k: "length k = 32" and ctn: "ctn = shm_lookup z k"
    and st: "shm_claim_locked C z now hash k ttl ctn want = (rc, owner, fresh, z')"
  shows "zok C live (took (map_option fst fresh) R) z'"
proof (cases "shm_lookup z k")
  case (Some a)
  note a = lookup_dom [OF inv k Some]
  let ?n = "node_at z a"
  consider (fresh) "len ?n > 0 \<and> now < fresh_until ?n"
    | (loser) "\<not> (len ?n > 0 \<and> now < fresh_until ?n)" "refreshing ?n \<and> now < refresh_lock_until ?n"
    | (winner) "\<not> (len ?n > 0 \<and> now < fresh_until ?n)" "\<not> (refreshing ?n \<and> now < refresh_lock_until ?n)"
    by blast
  then show ?thesis
  proof cases
    case fresh
    have "shape_ok z ?n" using zinvD(7) [OF inv] nodes_node_at [OF a] by (auto simp: shapes_ok_def)
    then obtain b where d: "data ?n = Some b"
      using fresh by (cases "data ?n") (auto simp: shape_ok_def)
    then have "owned z b" by (simp add: owned_split [OF a])
    then have "b \<in> dom (blobs z)" using blob_okD(2) [OF zinvD(6) [OF inv]] by blast
    with d fresh st Some ctn inv show ?thesis
      by (auto simp: shm_claim_locked_def Let_def split: if_splits dest: zinv_blob_acquire)
  next
    case loser
    with st Some ctn inv show ?thesis by (auto simp: shm_claim_locked_def Let_def)
  next
    case winner
    then have "fresh = None" "z' = take_lease z a (now + ttl)"
      using st Some ctn by (auto simp: shm_claim_locked_def Let_def take_lease_def)
    with zinv_take_lease [OF inv a] show ?thesis by simp
  qed
next
  case None
  obtain p z1 where al: "shm_alloc_evict C z now (sizeof_node C) = (p, z1)"
    by (cases "shm_alloc_evict C z now (sizeof_node C)")
  show ?thesis
  proof (cases rule: alloc_node_cases [OF inv al, case_names none some])
    case none
    then show ?thesis using st None ctn al by (auto simp: shm_claim_locked_def)
  next
    case (some a)
    then have raw: "zinv C live R {} {a} 0 z1" by simp
    have "shm_lookup z1 k = None" by (rule lookup_shrinks_None [OF inv raw some(3) k None])
    from zinv_insert_stub [OF raw k this] show ?thesis
      using st None ctn al some(1) by (auto simp: shm_claim_locked_def Let_def)
  qed
qed

lemma shm_count_miss_locked_inv:
  assumes inv: "zok C live R z" and k: "length k = 32" and ctn: "ctn = shm_lookup z k"
    and st: "shm_count_miss_locked C z now k hash mu win ctn = (rc, z')"
  shows "zok C live R z'"
proof (cases "shm_lookup z k")
  case (Some a)
  note a = lookup_dom [OF inv k Some]
  have "zok C live R (upd_node a (\<lambda>n. n\<lparr>miss_count := c\<rparr>) z)" for c
    by (rule zinv_upd_soft [OF inv a]) (simp_all add: soft_def)
  with inv st Some ctn show ?thesis by (auto simp: shm_count_miss_locked_def Let_def split: if_splits)
next
  case None
  obtain p z1 where al: "shm_alloc_evict C z now (sizeof_node C) = (p, z1)"
    by (cases "shm_alloc_evict C z now (sizeof_node C)")
  show ?thesis
  proof (cases rule: alloc_node_cases [OF inv al, case_names none some])
    case none
    then show ?thesis using st None ctn al by (auto simp: shm_count_miss_locked_def)
  next
    case (some a)
    then have raw: "zinv C live R {} {a} 0 z1" by simp
    have "shm_lookup z1 k = None" by (rule lookup_shrinks_None [OF inv raw some(3) k None])
    from zinv_insert_counter [OF raw k this] show ?thesis
      using st None ctn al some(1) by (auto simp: shm_count_miss_locked_def)
  qed
qed

text \<open>After a miss was counted the key resolves to the counted node, which was not there before or
  is the one found.\<close>

lemma count_miss_lookup:
  assumes inv: "zok C live R z" and k: "length k = 32"
    and st: "shm_count_miss_locked C z now k hash mu win (shm_lookup z k) = (rc, z')"
  shows "shm_lookup z k \<noteq> None \<Longrightarrow> shm_lookup z' k = shm_lookup z k"
proof -
  assume "shm_lookup z k \<noteq> None"
  then obtain a where "shm_lookup z k = Some a" by blast
  with st have "rbtree z' = rbtree z"
    by (auto simp: shm_count_miss_locked_def Let_def split: if_splits)
  then show ?thesis by (simp add: shm_lookup_def)
qed

lemma shm_resolve_miss_inv:
  assumes inv: "zok C live R z" and k: "length k = 32"
    and st: "shm_resolve_miss C z now k hash mu win ttl = (crc, rc, owner, fresh, z')"
  shows "zok C live (took (map_option fst fresh) R) z'"
proof -
  obtain c z1 where cm: "shm_count_miss_locked C z now k hash mu win (shm_lookup z k) = (c, z1)"
    by (cases "shm_count_miss_locked C z now k hash mu win (shm_lookup z k)")
  have z1: "zok C live R z1" by (rule shm_count_miss_locked_inv [OF inv k refl cm])
  show ?thesis
  proof (cases "c = NGX_DECLINED")
    case True
    then show ?thesis using st cm z1 by (auto simp: shm_resolve_miss_def Let_def)
  next
    case False
    have key: "(case shm_lookup z k of None \<Rightarrow> shm_lookup z1 k | Some a \<Rightarrow> Some a) = shm_lookup z1 k"
      using count_miss_lookup [OF inv k cm] by (auto split: option.split)
    then have "shm_claim_locked C z1 now hash k ttl (shm_lookup z1 k) True = (rc, owner, fresh, z')"
      using st cm False
      by (cases "shm_claim_locked C z1 now hash k ttl (shm_lookup z1 k) True")
        (simp add: shm_resolve_miss_def Let_def)
    then show ?thesis by (rule shm_claim_locked_inv [OF z1 k refl])
  qed
qed

lemma shm_unstub_inv:
  assumes inv: "zok C live R z" and k: "length k = 32"
  shows "zok C live R (shm_unstub C z now k owner)"
proof (cases "shm_lookup z k")
  case (Some a)
  note a = lookup_dom [OF inv k Some]
  let ?n = "node_at z a"
  let ?u = "upd_node a (\<lambda>n. n\<lparr>refreshing := False, refresh_lock_until := 0, refresh_owner := 0\<rparr>) z"
  have u: "zok C live R ?u" by (rule zinv_clear_lease [OF inv a]) simp_all
  have ua: "a \<in> dom (nodes ?u)" by simp
  show ?thesis
  proof (cases "owner \<noteq> 0 \<and> (kind ?n = NODE_COUNTER \<or> kind ?n = NODE_ENTRY) \<and> refreshing ?n \<and>
      refresh_owner ?n = owner")
    case True
    show ?thesis
    proof (cases "kind ?n = NODE_COUNTER \<and> miss_count ?n = 0 \<and> l2_neg_until ?n \<le> now")
      case free: True
      have "shape_ok z ?n" using zinvD(7) [OF inv] nodes_node_at [OF a] by (auto simp: shapes_ok_def)
      then have d: "data ?n = None" using free by (simp add: shape_ok_def)
      have "shm_unstub C z now k owner = shm_drop_locked C ?u a"
        using True free d Some
        by (intro zone.equality) (simp_all add: shm_unstub_def shm_drop_locked_def Let_def node_at_upd)
      with zinv_drop [OF u ua] show ?thesis by simp
    next
      case False
      with True Some u show ?thesis by (simp add: shm_unstub_def Let_def) auto
    qed
  next
    case False
    with Some inv show ?thesis by (auto simp: shm_unstub_def Let_def)
  qed
qed (use inv in \<open>simp add: shm_unstub_def\<close>)

lemma shm_l2_neg_check_inv:
  "zok C live R z \<Longrightarrow> length k = 32 \<Longrightarrow> shm_l2_neg_check z now k hash = (rc, z') \<Longrightarrow> zok C live R z'"
  by (auto simp: shm_l2_neg_check_def split: option.splits if_splits
      intro: shm_touch_lru_inv dest: lookup_dom)

lemma shm_l2_neg_set_inv:
  assumes inv: "zok C live R z" and k: "length k = 32"
  shows "zok C live R (shm_l2_neg_set C z now k hash ttl)"
proof (cases "shm_lookup z k")
  case (Some a)
  have "zok C live R (upd_node a (\<lambda>n. n\<lparr>l2_neg_until := now + ttl\<rparr>) z)"
    by (rule zinv_upd_soft [OF inv lookup_dom [OF inv k Some]]) (simp_all add: soft_def)
  with Some inv show ?thesis by (simp add: shm_l2_neg_set_def)
next
  case None
  obtain p z1 where al: "shm_alloc_evict C z now (sizeof_node C) = (p, z1)"
    by (cases "shm_alloc_evict C z now (sizeof_node C)")
  show ?thesis
  proof (cases rule: alloc_node_cases [OF inv al, case_names none some])
    case none
    then show ?thesis using None al by (simp add: shm_l2_neg_set_def)
  next
    case (some a)
    then have raw: "zinv C live R {} {a} 0 z1" by simp
    have "shm_lookup z1 k = None" by (rule lookup_shrinks_None [OF inv raw some(3) k None])
    from zinv_insert_counter [OF raw k this] show ?thesis
      using None al some(1) by (simp add: shm_l2_neg_set_def)
  qed
qed

lemma shm_varidx_inv:
  assumes inv: "zok C live R z" and k: "length k = 32"
  shows "zok C live R (shm_varidx_pending_set z k p)"
proof (cases "shm_lookup z k")
  case (Some a)
  have "zok C live R (upd_node a (\<lambda>n. n\<lparr>varidx_pending := p\<rparr>) z)"
    by (rule zinv_upd_soft [OF inv lookup_dom [OF inv k Some]]) (simp_all add: soft_def)
  with Some inv show ?thesis by (simp add: shm_varidx_pending_set_def)
qed (use inv in \<open>simp add: shm_varidx_pending_set_def\<close>)

end
