(* ===== verification/Zone_Events.thy ===== *)
theory Zone_Events
  imports Zone_Safe
begin

text \<open>
  The zone as one state machine. An event is one critical section of a worker (any worker: the
  sections of all of them interleave in some order, and that order is the event list), or the
  lock-free release of a body reference. The state pairs the zone with \<open>R\<close>, the number of references
  in-flight requests hold on each body. The obligations are what the callers guarantee: 32-byte keys
  (they are SHA-256 digests), and a reference is released only by a request that holds one.
\<close>

type_synonym 'p zstate = "'p zone \<times> (addr \<Rightarrow> nat)"

datatype zevent =
    EStore time_t bytes u32 bytes time_t time_t bool
  | EStoreMarker time_t bytes u32 bytes time_t time_t
  | EStoreIf time_t bytes u32 bytes time_t time_t store_if_pred bool
  | EFreshen time_t bytes time_t time_t
  | EPurgeKey bytes
  | EPurgeIf bytes addr
  | EPurgeBatch nat
  | EClaim time_t bytes u32 time_t
  | EResolve time_t bytes u32 int time_t time_t
  | EUnstub time_t bytes nat
  | ECountMiss time_t bytes u32 int time_t
  | ENegCheck time_t bytes u32
  | ENegSet time_t bytes u32 time_t
  | EVaridx bytes bool
  | ETouch time_t bytes nat u32
  | EAcquire bytes
  | ERelease addr
  | EClaimRefresh bytes time_t
  | EReload bool

fun zone_step :: "'p ngx_core \<Rightarrow> 'p zstate \<Rightarrow> zevent \<Rightarrow> 'p zstate" where
  "zone_step C (z, R) (EStore now k h body f s want) =
     (case shm_store C z now k h body f s want of (rc, out, z') \<Rightarrow> (z', took out R))"
| "zone_step C (z, R) (EStoreMarker now k h body f s) =
     (snd (shm_store_marker C z now k h body f s), R)"
| "zone_step C (z, R) (EStoreIf now k h body f s p want) =
     (case shm_store_if C z now k h body f s p want of (rc, out, z') \<Rightarrow> (z', took out R))"
| "zone_step C (z, R) (EFreshen now k f s) = (snd (shm_freshen z now k f s), R)"
| "zone_step C (z, R) (EPurgeKey k) = (snd (shm_purge_key C z k), R)"
| "zone_step C (z, R) (EPurgeIf k b) = (snd (shm_purge_if_blob C z k b), R)"
| "zone_step C (z, R) (EPurgeBatch n) = (snd (purge_batch C n z), R)"
| "zone_step C (z, R) (EClaim now k h ttl) = (snd (snd (shm_claim C z now k h ttl)), R)"
| "zone_step C (z, R) (EResolve now k h mu win ttl) =
     (case shm_resolve_miss C z now k h mu win ttl of
        (crc, rc, owner, fresh, z') \<Rightarrow> (z', took (map_option fst fresh) R))"
| "zone_step C (z, R) (EUnstub now k owner) = (shm_unstub C z now k owner, R)"
| "zone_step C (z, R) (ECountMiss now k h mu win) = (snd (shm_count_miss C z now k h mu win), R)"
| "zone_step C (z, R) (ENegCheck now k h) = (snd (shm_l2_neg_check z now k h), R)"
| "zone_step C (z, R) (ENegSet now k h ttl) = (shm_l2_neg_set C z now k h ttl, R)"
| "zone_step C (z, R) (EVaridx k p) = (shm_varidx_pending_set z k p, R)"
| "zone_step C (z, R) (ETouch now k pct h) =
     (case shm_lookup z k of None \<Rightarrow> (z, R) | Some a \<Rightarrow> (shm_touch_lru z a now pct h, R))"
| "zone_step C (z, R) (EAcquire k) =
     (case shm_lookup z k of
        None \<Rightarrow> (z, R)
      | Some a \<Rightarrow> (case data (node_at z a) of
                     None \<Rightarrow> (z, R) | Some b \<Rightarrow> (blob_acquire z b, R(b := R b + 1))))"
| "zone_step C (z, R) (ERelease b) = (blob_release C z b, R(b := R b - 1))"
| "zone_step C (z, R) (EClaimRefresh k until) =
     (case shm_lookup z k of
        None \<Rightarrow> (z, R)
      | Some a \<Rightarrow> (if data (node_at z a) = None then z else claim_refresh a until z, R))"
| "zone_step C (z, R) (EReload adm) = (shm_reload_zone adm z, R)"

fun event_ok :: "'p zstate \<Rightarrow> zevent \<Rightarrow> bool" where
  "event_ok zr (EStore now k h body f s want) = (length k = 32)"
| "event_ok zr (EStoreMarker now k h body f s) = (length k = 32)"
| "event_ok zr (EStoreIf now k h body f s p want) = (length k = 32)"
| "event_ok zr (EFreshen now k f s) = (length k = 32)"
| "event_ok zr (EPurgeKey k) = (length k = 32)"
| "event_ok zr (EPurgeIf k b) = (length k = 32)"
| "event_ok zr (EPurgeBatch n) = True"
| "event_ok zr (EClaim now k h ttl) = (length k = 32)"
| "event_ok zr (EResolve now k h mu win ttl) = (length k = 32)"
| "event_ok zr (EUnstub now k owner) = (length k = 32)"
| "event_ok zr (ECountMiss now k h mu win) = (length k = 32)"
| "event_ok zr (ENegCheck now k h) = (length k = 32)"
| "event_ok zr (ENegSet now k h ttl) = (length k = 32)"
| "event_ok zr (EVaridx k p) = (length k = 32)"
| "event_ok zr (ETouch now k pct h) = (length k = 32)"
| "event_ok zr (EAcquire k) = (length k = 32)"
| "event_ok zr (ERelease b) = (0 < snd zr b)"
| "event_ok zr (EClaimRefresh k until) = (length k = 32)"
| "event_ok zr (EReload adm) = True"

definition zone_ok :: "'p ngx_core \<Rightarrow> ('p \<Rightarrow> addr set) \<Rightarrow> 'p zstate \<Rightarrow> bool" where
  "zone_ok C live zr \<longleftrightarrow> zok C live (snd zr) (fst zr)"

lemma zinv_admission:
  assumes d: "zinv C live R D X M z"
  shows "zinv C live R D X M (shm_reload_zone adm z)"
proof -
  have "lru_ok D (z\<lparr>admission := adm\<rparr>)" "shapes_ok D (z\<lparr>admission := adm\<rparr>)"
    using zinvD(5,7) [OF d] lru_ok_cong [of "z\<lparr>admission := adm\<rparr>" z D]
      shapes_ok_cong [of "z\<lparr>admission := adm\<rparr>" z D] by simp_all
  then show ?thesis unfolding shm_reload_zone_def by (rule zinv_frame [OF d]) simp_all
qed

lemma node_blob:
  assumes inv: "zok C live R z" and a: "a \<in> dom (nodes z)" and d: "data (node_at z a) = Some b"
  shows "b \<in> dom (blobs z)" "owned z b"
  using d blob_okD(2) [OF zinvD(6) [OF inv]] by (simp_all add: owned_split [OF a])

lemma zone_step_ok:
  assumes "zone_ok C live zr" and "event_ok zr e"
  shows "zone_ok C live (zone_step C zr e)"
proof -
  obtain z R where zr: "zr = (z, R)" by (cases zr)
  have inv: "zok C live R z" using assms(1) by (simp add: zone_ok_def zr)
  note ok = assms(2) [unfolded zr]
  show ?thesis
  proof (cases e)
    case (EStore now k h body f s want)
    with ok shm_store_inv [OF inv] show ?thesis
      by (cases "shm_store C z now k h body f s want") (simp add: zr zone_ok_def)
  next
    case (EStoreMarker now k h body f s)
    with ok shm_store_marker_inv [OF inv] show ?thesis
      by (cases "shm_store_marker C z now k h body f s") (simp add: zr zone_ok_def)
  next
    case (EStoreIf now k h body f s p want)
    with ok shm_store_if_inv [OF inv] show ?thesis
      by (cases "shm_store_if C z now k h body f s p want") (simp add: zr zone_ok_def)
  next
    case (EFreshen now k f s)
    with ok shm_freshen_inv [OF inv] show ?thesis
      by (cases "shm_freshen z now k f s") (simp add: zr zone_ok_def)
  next
    case (EPurgeKey k)
    with ok shm_purge_key_inv [OF inv] show ?thesis
      by (cases "shm_purge_key C z k") (simp add: zr zone_ok_def)
  next
    case (EPurgeIf k b)
    with ok shm_purge_if_blob_inv [OF inv] show ?thesis
      by (cases "shm_purge_if_blob C z k b") (simp add: zr zone_ok_def)
  next
    case (EPurgeBatch n)
    with purge_batch_inv [OF inv] show ?thesis by (simp add: zr zone_ok_def)
  next
    case (EClaim now k h ttl)
    obtain rc owner fresh z' where st:
      "shm_claim_locked C z now h k ttl (shm_lookup z k) False = (rc, owner, fresh, z')"
      by (cases "shm_claim_locked C z now h k ttl (shm_lookup z k) False")
    then have "fresh = None"
      by (auto simp: shm_claim_locked_def Let_def split: option.splits prod.splits if_splits)
    with shm_claim_locked_inv [OF inv _ refl st] ok EClaim st show ?thesis
      by (simp add: zr zone_ok_def shm_claim_def)
  next
    case (EResolve now k h mu win ttl)
    with ok shm_resolve_miss_inv [OF inv] show ?thesis
      by (cases "shm_resolve_miss C z now k h mu win ttl") (simp add: zr zone_ok_def)
  next
    case (EUnstub now k owner)
    with ok shm_unstub_inv [OF inv] show ?thesis by (simp add: zr zone_ok_def)
  next
    case (ECountMiss now k h mu win)
    with ok shm_count_miss_locked_inv [OF inv _ refl] show ?thesis
      by (cases "shm_count_miss C z now k h mu win") (simp add: zr zone_ok_def shm_count_miss_def)
  next
    case (ENegCheck now k h)
    with ok shm_l2_neg_check_inv [OF inv] show ?thesis
      by (cases "shm_l2_neg_check z now k h") (simp add: zr zone_ok_def)
  next
    case (ENegSet now k h ttl)
    with ok shm_l2_neg_set_inv [OF inv] show ?thesis by (simp add: zr zone_ok_def)
  next
    case (EVaridx k p)
    with ok shm_varidx_inv [OF inv] show ?thesis by (simp add: zr zone_ok_def)
  next
    case (ETouch now k pct h)
    with ok inv shm_touch_lru_inv [OF inv] lookup_dom [OF inv] show ?thesis
      by (simp add: zr zone_ok_def split: option.split)
  next
    case (EClaimRefresh k until)
    with ok inv zinv_upd_soft [OF inv] lookup_dom [OF inv] show ?thesis
      by (simp add: zr zone_ok_def claim_refresh_def soft_def split: option.split)
  next
    case (EAcquire k)
    show ?thesis
    proof (cases "shm_lookup z k")
      case None
      with EAcquire inv show ?thesis by (simp add: zr zone_ok_def)
    next
      case (Some a)
      note a = lookup_dom [OF inv _ Some]
      show ?thesis
      proof (cases "data (node_at z a)")
        case None
        with EAcquire inv Some show ?thesis by (simp add: zr zone_ok_def)
      next
        case d: (Some b)
        have "b \<in> dom (blobs z)" using node_blob(1) [OF inv a d] ok EAcquire by simp
        from zinv_blob_acquire [OF inv this] EAcquire Some d show ?thesis
          by (simp add: zr zone_ok_def)
      qed
    qed
  next
    case (ERelease b)
    with ok zinv_blob_release [OF inv] show ?thesis by (simp add: zr zone_ok_def)
  next
    case (EReload adm)
    with zinv_admission [OF inv] show ?thesis by (simp add: zr zone_ok_def)
  qed
qed

interpretation zone: stateful "zone_step C" event_ok "zone_ok C live"
  for C :: "'p ngx_core" and live
  by unfold_locales (rule zone_step_ok)

subsection \<open>The fresh zone\<close>

lemma init_zone_ok:
  assumes "core_ok C live" and "live p = {}"
  shows "zone_ok C live (shm_init_zone p zone_size sk adm now, (\<lambda>b. 0))"
  using assms sketch_init_wf [of zone_size sk]
  by (simp add: zone_ok_def zinv_def shm_init_zone_def live_ok_def used_ok_def idx_ok_def rb_entries_def
      lru_ok_def blob_ok_def own_uniq_def owned_def shapes_ok_def markers_ok_def marker_nodes_def
      lease_ok_def)

subsection \<open>A concrete nginx core\<close>

text \<open>Used by the witnesses: a slab of \<open>cap\<close> chunks that hands out fresh addresses from 1 on, and
  the unbalanced tree for the red-black one. The pool is the list of chunks handed out.\<close>

definition demo_core :: "nat \<Rightarrow> addr list ngx_core" where
  "demo_core cap = \<lparr>
     slab_alloc = (\<lambda>p n. if length p < cap then let a = Suc (fold max p 0) in Some (a, a # p) else None),
     slab_free = (\<lambda>p a. removeAll a p),
     rb_fix = (\<lambda>t. t),
     rb_del = (\<lambda>t a. foldr (\<lambda>e t. Node Leaf e t) (filter (\<lambda>e. rb_addr e \<noteq> a) (inorder t)) Leaf),
     sizeof_node = 200, sizeof_blobref = 24\<rparr>"

lemma inorder_spine: "inorder (foldr (\<lambda>e t. Node Leaf e t) es Leaf) = es"
  by (induction es) simp_all

lemma fold_max_ge: "(x :: nat) \<le> fold max xs x \<and> (\<forall>y \<in> set xs. y \<le> fold max xs x)"
proof (induction xs arbitrary: x)
  case (Cons y xs)
  have "max y x \<le> fold max xs (max y x)" using Cons.IH [of "max y x"] by blast
  then show ?case using Cons.IH [of "max y x"] by (simp add: max.bounded_iff)
qed simp

lemma demo_core_ok: "core_ok (demo_core cap) set"
proof -
  have "Suc (fold max p 0) \<notin> set p" for p :: "nat list"
    using fold_max_ge [of 0 p] by (metis Suc_n_not_le_n)
  then show ?thesis
    by (auto simp: core_ok_def demo_core_def rb_core_ok_def inorder_spine Let_def split: if_splits)
qed

end
