(* ===== verification/Zone_Runs.thy ===== *)
theory Zone_Runs
  imports Zone_Events
begin

text \<open>
  What holds of the zone after any sequence of critical sections, of any workers in any order: the
  slab accounting, the reference counts, the queues, the index, the leases and the marker counter.
  All of it is \<open>zone.run_inv\<close> on the event machine, read off the invariant part by part.
\<close>

definition zone_start :: "'p \<Rightarrow> nat \<Rightarrow> bool \<Rightarrow> bool \<Rightarrow> time_t \<Rightarrow> 'p zstate" where
  "zone_start p zone_size sk adm t = (shm_init_zone p zone_size sk adm t, (\<lambda>b. 0))"

definition zone_run :: "'p ngx_core \<Rightarrow> 'p zstate \<Rightarrow> zevent list \<Rightarrow> 'p zstate" where
  "zone_run C zr es = run_events (zone_step C) zr es"

definition zone_permits :: "'p ngx_core \<Rightarrow> 'p zstate \<Rightarrow> zevent list \<Rightarrow> bool" where
  "zone_permits C zr es = run_permitted (zone_step C) event_ok zr es"

lemma zone_run_ok:
  assumes "core_ok C live" and "live p = {}" and "zone_permits C (zone_start p sz sk adm t) es"
    and "zone_run C (zone_start p sz sk adm t) es = (z, R)"
  shows "zok C live R z"
  using zone.run_inv [of C live "zone_start p sz sk adm t" es] init_zone_ok [OF assms(1,2), of sz sk adm t]
    assms(3,4)
  by (simp add: zone_run_def zone_permits_def zone_ok_def zone_start_def)

subsection \<open>A concrete run\<close>

definition demo_key :: "u8 \<Rightarrow> bytes" where
  "demo_key b = replicate 31 0 @ [b]"

text \<open>A claim, the store it leads to (handing out the body), the release of that body, a marker, a
  counted miss and a purge, on a slab of six chunks.\<close>

definition demo_events :: "zevent list" where
  "demo_events =
     [EClaim 100 (demo_key 1) 7 5, EStore 101 (demo_key 1) 7 [10, 20, 30] 60 240 True, ERelease 2,
      EStoreMarker 103 (demo_key 2) 8 [9, 9] 60 0, ECountMiss 104 (demo_key 3) 9 2 60,
      EPurgeKey (demo_key 1)]"

lemma length_demo_key [simp]: "length (demo_key b) = 32"
  by (simp add: demo_key_def)

text \<open>The fresh zone with the carve of a refused sketch evaluated.\<close>

definition demo_zone :: "addr list zone" where
  "demo_zone = \<lparr>pool = [], nodes = (\<lambda>a. None), blobs = (\<lambda>a. None), rbtree = Leaf, lru = [],
     lru_protected = [], n_protected = 0, n_entries = 0, used_bytes = 0, markers = 0,
     owner_seq = 0, evictions = 0, admission = True, admission_refused = 0,
     zsketch = \<lparr>sketch = None, sketch_width = 0, sketch_ops = 0, sketch_reset_at = 0,
       sketch_gen = 0, sketch_cursor = 0, sketch_bumps = 0\<rparr>,
     zbreaker = brk_init 0, zautotune = at_init, counters = (\<lambda>c. 0)\<rparr>"

lemma demo_start: "zone_start [] 0 False True 0 = (demo_zone, (\<lambda>b. 0))"
  by (simp add: zone_start_def shm_init_zone_def demo_zone_def sketch_init_def)

lemma demo_held: "0 < snd (zone_step (demo_core 6) (zone_step (demo_core 6) (demo_zone, (\<lambda>b. 0))
    (EClaim 100 (demo_key 1) 7 5)) (EStore 101 (demo_key 1) 7 [10, 20, 30] 60 240 True)) 2"
  by code_simp

lemma demo_permitted: "zone_permits (demo_core 6) (zone_start [] 0 False True 0) demo_events"
  using demo_held unfolding demo_start demo_events_def zone_permits_def
  by (simp only: run_permitted.simps event_ok.simps length_demo_key simp_thms)

lemma demo_zone_ok: "zok (demo_core cap) set (\<lambda>b. 0) demo_zone"
  using init_zone_ok [OF demo_core_ok, where p = "[]" and zone_size = 0 and sk = False and adm = True
      and now = 0] demo_start
  by (simp add: zone_ok_def zone_start_def)

text \<open>The demo zone holding one entry (node 1, body 2) under the key 1.\<close>

definition demo_stored :: "addr list zone" where
  "demo_stored = demo_zone\<lparr>pool := [2, 1], nodes := (\<lambda>a. None)(1 \<mapsto> entry_node 2 3 100 60 240 7),
     blobs := (\<lambda>a. None)(2 \<mapsto> \<lparr>refs = 1, detached = False, blob_bytes = 27, content = [10, 20, 30]\<rparr>),
     rbtree := Node Leaf (RbEnt (shm_key64 (demo_key 1)) (demo_key 1) 1) Leaf, lru := [1],
     n_entries := 1, used_bytes := 227\<rparr>"

lemma demo_store: "shm_store (demo_core 6) demo_zone 100 (demo_key 1) 7 [10, 20, 30] 60 240 False =
    (NGX_OK, None, demo_stored)"
  by (simp add: shm_store_def hand_out_def shm_store_locked_def store_new_def shm_lookup_def rb_lookup_def
      shm_admit_def shm_alloc_evict.simps blob_alloc_def insert_node_def lru_insert_new_def
      demo_core_def demo_zone_def demo_stored_def rb_insert_def upd_node_def node_at_def entry_node_def
      numeral_2_eq_2 [symmetric])

lemma demo_stored_queues: "lru demo_stored = [1]" "lru_protected demo_stored = []"
  by code_simp+

lemma demo_stored_breaker: "brk_state (breaker_state_w (zbreaker demo_stored)) = BREAKER_CLOSED"
  by code_simp

lemma demo_stored_lookup: "shm_lookup demo_stored (demo_key 1) = Some 1"
  by code_simp

lemma demo_stored_absent: "shm_lookup demo_stored (demo_key 2) = None"
  by code_simp

lemma demo_stored_node: "nodes demo_stored 1 = Some (entry_node 2 3 100 60 240 7)"
  by code_simp

lemma demo_stored_counts: "n_entries demo_stored = 1" "owner_seq demo_stored = 0"
  by code_simp+

lemma demo_stored_pool: "pool demo_stored = [2, 1]"
  by code_simp

lemma demo_stored_ok: "zok (demo_core 6) set (\<lambda>b. 0) demo_stored"
  using shm_store_inv [OF demo_zone_ok length_demo_key demo_store] by simp

lemma set_Nil_empty: "set ([] :: addr list) = {}"
  by simp

subsection \<open>Properties of every run\<close>

text \<open>C1: Slab accounting. After any run of critical sections from a fresh zone the slab chunks in
  use are exactly the zone's nodes and bodies (nothing leaks, nothing is freed twice or used after
  its free), no chunk is both, and \<open>used_bytes\<close> is exactly what they are charged.\<close>

theorem zone_accounting:
  assumes "core_ok C live" and "live p = {}"
    and "zone_permits C (zone_start p sz sk adm t) es"
    and "zone_run C (zone_start p sz sk adm t) es = (z, R)"
  shows "live (pool z) = dom (nodes z) \<union> dom (blobs z) \<and> dom (nodes z) \<inter> dom (blobs z) = {} \<and>
    used_bytes z = card (dom (nodes z)) * sizeof_node C
      + (\<Sum>b \<in> dom (blobs z). blob_bytes (the (blobs z b)))"
  using zinvD(2,3) [OF zone_run_ok [OF assms]]
  by (simp add: live_ok_def used_ok_def blob_charge_def)

theorem zone_accounting_witness:
  "let z = fst (zone_run (demo_core 6) (zone_start [] 0 False True 0) demo_events)
   in set (pool z) = dom (nodes z) \<union> dom (blobs z) \<and> used_bytes z =
     card (dom (nodes z)) * 200 + (\<Sum>b \<in> dom (blobs z). blob_bytes (the (blobs z b)))"
  using zone_accounting [OF demo_core_ok set_Nil_empty demo_permitted surjective_pairing]
  by (simp add: demo_core_def Let_def)

text \<open>C2: Reference counts. After any run, \<open>refs\<close> of every body is the number of in-flight requests
  that hold it plus one when a node owns it, and no body outlives that count; every body a node
  owns or a request holds exists (no dangling pointer), a body is owned by one node at most, and
  the \<open>len\<close> of a node is the length of its body.\<close>

theorem zone_refcounts:
  assumes "core_ok C live" and "live p = {}"
    and "zone_permits C (zone_start p sz sk adm t) es"
    and "zone_run C (zone_start p sz sk adm t) es = (z, R)"
  shows "(\<forall>b r. blobs z b = Some r \<longrightarrow>
      refs r = R b + card {a. \<exists>n. nodes z a = Some n \<and> data n = Some b} \<and> 0 < refs r) \<and>
    (\<forall>b. 0 < R b \<longrightarrow> b \<in> dom (blobs z)) \<and>
    (\<forall>a n b. nodes z a = Some n \<longrightarrow> data n = Some b \<longrightarrow>
      (\<exists>r. blobs z b = Some r \<and> len n = length (content r)))"
proof -
  note i = zone_run_ok [OF assms]
  note bk = blob_okD [OF zinvD(6) [OF i]]
  have owners: "card {a. \<exists>n. nodes z a = Some n \<and> data n = Some b} = (if owned z b then 1 else 0)" for b
  proof (cases "owned z b")
    case True
    then obtain a n where a: "nodes z a = Some n" "data n = Some b" by (auto simp: owned_def)
    then have "{a. \<exists>n. nodes z a = Some n \<and> data n = Some b} = {a}"
      using bk(1) unfolding own_uniq_def by blast
    with True show ?thesis by simp
  next
    case False
    then have none: "{a. \<exists>n. nodes z a = Some n \<and> data n = Some b} = {}" by (auto simp: owned_def)
    show ?thesis unfolding none using False by simp
  qed
  have "0 < refs r" if "blobs z b = Some r" for b r
    using bk(4,5) [of b] that by (auto split: if_splits)
  moreover have "\<exists>r. blobs z b = Some r \<and> len n = length (content r)"
    if "nodes z a = Some n" "data n = Some b" for a n b
  proof -
    have "owned z b" using that by (auto simp: owned_def)
    moreover have "shape_ok z n" using zinvD(7) [OF i] that(1) by (auto simp: shapes_ok_def)
    ultimately show ?thesis using bk(2) [of b] that(2) by (auto simp: shape_ok_def)
  qed
  ultimately show ?thesis using bk(4,6) unfolding owners by blast
qed

theorem zone_refcounts_witness:
  "let (z, R) = zone_run (demo_core 6) (zone_start [] 0 False True 0) demo_events
   in \<forall>b r. blobs z b = Some r \<longrightarrow>
        refs r = R b + card {a. \<exists>n. nodes z a = Some n \<and> data n = Some b} \<and> 0 < refs r"
  using zone_refcounts [OF demo_core_ok set_Nil_empty demo_permitted surjective_pairing]
  unfolding Let_def case_prod_beta by (elim conjE)

text \<open>The segmented queue. After any run the two LRU queues hold every node exactly once, a
  node's \<open>seg\<close> tells which queue it is on, \<open>n_protected\<close> is the length of the protected queue and
  \<open>n_entries\<close> the number of nodes.\<close>

theorem zone_queues:
  assumes "core_ok C live" and "live p = {}"
    and "zone_permits C (zone_start p sz sk adm t) es"
    and "zone_run C (zone_start p sz sk adm t) es = (z, R)"
  shows "distinct (lru z @ lru_protected z) \<and> set (lru z @ lru_protected z) = dom (nodes z) \<and>
    (\<forall>a \<in> set (lru z). seg (node_at z a) = SEG_PROBATION) \<and>
    (\<forall>a \<in> set (lru_protected z). seg (node_at z a) = SEG_PROTECTED) \<and>
    n_protected z = length (lru_protected z) \<and> n_entries z = length (lru z) + length (lru_protected z)"
proof -
  note l = zinvD(5) [OF zone_run_ok [OF assms], unfolded lru_ok_def]
  then have "card (set (lru z @ lru_protected z)) = length (lru z @ lru_protected z)"
    by (intro distinct_card) blast
  with l show ?thesis by auto
qed

theorem zone_queues_witness:
  "let z = fst (zone_run (demo_core 6) (zone_start [] 0 False True 0) demo_events)
   in distinct (lru z @ lru_protected z) \<and> set (lru z @ lru_protected z) = dom (nodes z) \<and>
      n_entries z = length (lru z) + length (lru_protected z)"
  using zone_queues [OF demo_core_ok set_Nil_empty demo_permitted surjective_pairing]
  by (simp add: Let_def)

text \<open>The index. After any run every node is found under exactly one key, no two keys find the
  same node, and a lookup never returns an address that is not a node.\<close>

theorem zone_index:
  assumes "core_ok C live" and "live p = {}"
    and "zone_permits C (zone_start p sz sk adm t) es"
    and "zone_run C (zone_start p sz sk adm t) es = (z, R)"
  shows "(\<forall>a \<in> dom (nodes z). \<exists>!k. length k = 32 \<and> shm_lookup z k = Some a) \<and>
    (\<forall>k a. length k = 32 \<and> shm_lookup z k = Some a \<longrightarrow> a \<in> dom (nodes z))"
proof (intro conjI ballI allI impI)
  note i = zone_run_ok [OF assms]
  note x = zinvD(4) [OF i, unfolded idx_ok_def]
  fix a assume "a \<in> dom (nodes z)"
  with x obtain k where k: "(k, a) \<in> rb_entries (rbtree z)" by force
  have len: "length k = 32" using rb.entries_len [OF zinv_rb [OF i] k] .
  moreover have "shm_lookup z k = Some a" using k lookup_iff [OF i len] by simp
  moreover have "k' = k" if "length k' = 32" "shm_lookup z k' = Some a" for k'
  proof -
    have "(k', a) \<in> rb_entries (rbtree z)" using that lookup_iff [OF i that(1)] by simp
    with k x show ?thesis by (metis inj_onD prod.inject snd_conv)
  qed
  ultimately show "\<exists>!k. length k = 32 \<and> shm_lookup z k = Some a" by blast
next
  fix k a assume "length k = 32 \<and> shm_lookup z k = Some a"
  then show "a \<in> dom (nodes z)" using lookup_dom [OF zone_run_ok [OF assms]] by blast
qed

theorem zone_index_witness:
  "let z = fst (zone_run (demo_core 6) (zone_start [] 0 False True 0) demo_events)
   in \<forall>a \<in> dom (nodes z). \<exists>!k. length k = 32 \<and> shm_lookup z k = Some a"
  using zone_index [OF demo_core_ok set_Nil_empty demo_permitted surjective_pairing]
  by (simp add: Let_def)

text \<open>Leases and markers. After any run no two nodes carry the same owner token, no token is
  ahead of the sequence it is drawn from, a node that carries a token is \<open>refreshing\<close>,
  and the marker counter never undercounts the resident markers (so skipping the marker lookup
  when it reads 0 is safe).\<close>

theorem zone_leases_markers:
  assumes "core_ok C live" and "live p = {}"
    and "zone_permits C (zone_start p sz sk adm t) es"
    and "zone_run C (zone_start p sz sk adm t) es = (z, R)"
  shows "(\<forall>a n. nodes z a = Some n \<longrightarrow>
      refresh_owner n \<le> owner_seq z \<and> (refresh_owner n \<noteq> 0 \<longrightarrow> refreshing n)) \<and>
    (\<forall>a a' n n'. nodes z a = Some n \<longrightarrow> nodes z a' = Some n' \<longrightarrow>
      refresh_owner n = refresh_owner n' \<longrightarrow> refresh_owner n \<noteq> 0 \<longrightarrow> a = a') \<and>
    card {a. \<exists>n. nodes z a = Some n \<and> kind n = NODE_MARKER} \<le> markers z"
  using zinvD(8,9) [OF zone_run_ok [OF assms]]
  by (simp add: markers_ok_def marker_nodes_def lease_ok_def)

theorem zone_leases_markers_witness:
  "let z = fst (zone_run (demo_core 6) (zone_start [] 0 False True 0) demo_events)
   in card {a. \<exists>n. nodes z a = Some n \<and> kind n = NODE_MARKER} \<le> markers z"
  using zone_leases_markers [OF demo_core_ok set_Nil_empty demo_permitted surjective_pairing]
  by (simp add: Let_def)

end
