(* ===== verification/Zone_Evict.thy ===== *)
theory Zone_Evict
  imports Zone_Runs
begin

text \<open>
  Eviction and allocation: who is evicted, in which order, and that an allocation only fails once
  nothing is left to evict. The reference for the walk of one queue is a search from the tail; the
  code's walk writes \<open>sie_spared\<close> as it goes.
\<close>

subsection \<open>The walk is a search from the tail\<close>

text \<open>A node the walk passes over: a live stale-if-error entry, not spared before, while the
  breaker is open.\<close>

definition passes :: "'p zone \<Rightarrow> bool \<Rightarrow> time_t \<Rightarrow> addr \<Rightarrow> bool" where
  "passes z breaker_open now a \<longleftrightarrow>
     breaker_open \<and> \<not> sie_spared (node_at z a) \<and> shm_node_sie_live z (node_at z a) now"

definition spec_victim :: "'p zone \<Rightarrow> bool \<Rightarrow> time_t \<Rightarrow> addr list \<Rightarrow> addr" where
  "spec_victim z breaker_open now q =
     (case find (\<lambda>a. \<not> passes z breaker_open now a) (rev q) of Some a \<Rightarrow> a | None \<Rightarrow> last q)"

definition spec_spared :: "'p zone \<Rightarrow> bool \<Rightarrow> time_t \<Rightarrow> addr list \<Rightarrow> addr set" where
  "spec_spared z breaker_open now q = set (takeWhile (passes z breaker_open now) (rev q))"

lemma passes_upd_other: "b \<noteq> a \<Longrightarrow> passes (upd_node a f z) br now b = passes z br now b"
  by (simp add: passes_def node_at_def shm_node_sie_live_def split: option.split)

lemma walk_search_both:
  "distinct as \<Longrightarrow> snd (evict_walk z br now as) = find (\<lambda>a. \<not> passes z br now a) as \<and>
    (\<forall>b. nodes (fst (evict_walk z br now as)) b = (if b \<in> set (takeWhile (passes z br now) as)
      then Some ((node_at z b)\<lparr>sie_spared := True\<rparr>) else nodes z b))"
proof (induction z br now as rule: evict_walk.induct)
  case (2 z br now a as)
  let ?u = "upd_node a (\<lambda>n. n\<lparr>sie_spared := True\<rparr>) z"
  have other: "passes ?u br now c = passes z br now c" if "c \<in> set as" for c
    using that "2.prems" by (intro passes_upd_other) auto
  have find: "find (\<lambda>c. \<not> passes ?u br now c) as = find (\<lambda>c. \<not> passes z br now c) as"
    by (rule find_cong) (simp_all add: other)
  have tw: "takeWhile (passes ?u br now) as = takeWhile (passes z br now) as"
    by (rule takeWhile_cong) (simp_all add: other)
  have p: "passes z br now a \<longleftrightarrow>
      br \<and> \<not> sie_spared (node_at z a) \<and> shm_node_sie_live z (node_at z a) now"
    by (simp add: passes_def)
  show ?case
  proof (cases "passes z br now a")
    case True
    have na: "a \<notin> set (takeWhile (passes z br now) as)"
      using "2.prems" set_takeWhileD by fastforce
    have "evict_walk z br now (a # as) = evict_walk ?u br now as" using True p by simp
    then show ?thesis
      using "2.IH" [unfolded p [symmetric], OF True] "2.prems" True find tw na
      by (auto simp: node_at_def)
  next
    case False
    then have "evict_walk z br now (a # as) = (z, Some a)" using p by auto
    with False show ?thesis by simp
  qed
qed simp

lemmas walk_search = walk_search_both [THEN conjunct1] walk_search_both [THEN conjunct2, rule_format]

lemma closed_victim: "q \<noteq> [] \<Longrightarrow> spec_victim z False now q = last q"
  by (cases q rule: rev_cases) (simp_all add: spec_victim_def passes_def)

lemma closed_spared: "spec_spared z False now q = {}"
  by (cases q rule: rev_cases) (simp_all add: spec_spared_def passes_def)

definition evict_from :: "'p zone \<Rightarrow> addr list" where
  "evict_from z = (if lru z \<noteq> [] then lru z else lru_protected z)"

lemma evict_one_spec:
  assumes inv: "zok C live R z" and e: "shm_evict_one C z now = Some z'"
  shows "let q = evict_from z; br = (brk_state (breaker_state_w (zbreaker z)) = BREAKER_OPEN);
      v = spec_victim z br now q
    in v \<in> set q \<and> nodes z' = (\<lambda>b. if b = v then None
         else if b \<in> spec_spared z br now q then Some ((node_at z b)\<lparr>sie_spared := True\<rparr>)
         else nodes z b) \<and> evictions z' = evictions z + 1"
proof -
  let ?q = "evict_from z"
  let ?br = "brk_state (breaker_state_w (zbreaker z)) = BREAKER_OPEN"
  have q: "?q \<noteq> []" "z' = evict_queue C z ?br now ?q"
    using e by (auto simp: shm_evict_one_def evict_from_def Let_def split: if_splits)
  have "distinct ?q" using zinvD(5) [OF inv] by (auto simp: lru_ok_def evict_from_def)
  then have d: "distinct (rev ?q)" by simp
  have v: "evict_victim z ?br now ?q = spec_victim z ?br now ?q"
    by (simp add: evict_victim_def spec_victim_def walk_search(1) [OF d])
  show ?thesis
    using evict_victim_mem [OF q(1), of z ?br now]
    unfolding q(2) evict_queue_eq v evict_take_def Let_def spec_spared_def
    by (auto simp: fun_eq_iff walk_search(2) [OF d] v)
qed

lemma evict_none_iff:
  assumes "zok C live R z"
  shows "shm_evict_one C z now = None \<longleftrightarrow> nodes z = (\<lambda>a. None)"
proof -
  have "dom (nodes z) = set (lru z) \<union> set (lru_protected z)"
    using zinvD(5) [OF assms] by (auto simp: lru_ok_def)
  then have "nodes z = (\<lambda>a. None) \<longleftrightarrow> lru z = [] \<and> lru_protected z = []"
    by (metis Un_empty dom_eq_empty_conv set_empty)
  then show ?thesis by (simp add: shm_evict_one_def Let_def)
qed

text \<open>The eviction order. Eviction does nothing only on an empty zone. Otherwise exactly one node
  leaves, from the probation queue while it has any: the first from the tail that is not a live
  stale-if-error entry under an open breaker (each such entry is passed over once, and marked), or
  the tail itself when every node is one. With the breaker closed it is the tail, and no other node
  changes.\<close>

theorem evict_order:
  assumes "zok C live R z"
  shows "(shm_evict_one C z now = None \<longleftrightarrow> nodes z = (\<lambda>a. None)) \<and>
    (\<forall>z'. shm_evict_one C z now = Some z' \<longrightarrow>
      (let q = (if lru z \<noteq> [] then lru z else lru_protected z);
           br = (brk_state (breaker_state_w (zbreaker z)) = BREAKER_OPEN);
           v = spec_victim z br now q
       in (\<not> br \<longrightarrow> v = last q \<and> nodes z' = (nodes z)(v := None)) \<and> v \<in> set q \<and>
          nodes z' = (\<lambda>b. if b = v then None
            else if b \<in> spec_spared z br now q then Some ((node_at z b)\<lparr>sie_spared := True\<rparr>)
            else nodes z b)))"
proof (intro conjI allI impI)
  show "shm_evict_one C z now = None \<longleftrightarrow> nodes z = (\<lambda>a. None)" using assms by (rule evict_none_iff)
next
  fix z' assume e: "shm_evict_one C z now = Some z'"
  have "lru z \<noteq> [] \<or> lru_protected z \<noteq> []"
    using e by (auto simp: shm_evict_one_def Let_def split: if_splits)
  then show "let q = (if lru z \<noteq> [] then lru z else lru_protected z);
           br = (brk_state (breaker_state_w (zbreaker z)) = BREAKER_OPEN);
           v = spec_victim z br now q
       in (\<not> br \<longrightarrow> v = last q \<and> nodes z' = (nodes z)(v := None)) \<and> v \<in> set q \<and>
          nodes z' = (\<lambda>b. if b = v then None
            else if b \<in> spec_spared z br now q then Some ((node_at z b)\<lparr>sie_spared := True\<rparr>)
            else nodes z b)"
    using evict_one_spec [OF assms e] closed_victim [where z = z and now = now]
      closed_spared [where z = z and now = now]
    by (cases "brk_state (breaker_state_w (zbreaker z)) = BREAKER_OPEN")
      (auto simp: Let_def evict_from_def fun_eq_iff)
qed

theorem evict_order_witness:
  "\<exists>z'. shm_evict_one (demo_core 6) demo_stored 200 = Some z' \<and>
    nodes z' = (nodes demo_stored)(1 := None)"
proof -
  have "nodes demo_stored \<noteq> (\<lambda>a. None)" using demo_stored_node by (metis option.distinct(1))
  then obtain z' where "shm_evict_one (demo_core 6) demo_stored 200 = Some z'"
    using evict_order [OF demo_stored_ok, of 200] by blast
  then show ?thesis
    using evict_order [OF demo_stored_ok, of 200] demo_stored_queues(1) demo_stored_breaker
    by (simp add: Let_def BREAKER_CLOSED_def BREAKER_OPEN_def)
qed

subsection \<open>Allocation\<close>

text \<open>C38: Allocation gives up last. \<open>shm_alloc_evict\<close> returns NULL only when the zone holds no
  node any more and the slab still refuses; otherwise the chunk is one that no node or body uses,
  it is charged to \<open>used_bytes\<close>, and when the slab had room at once nothing is evicted.\<close>

theorem alloc_evict_spec:
  assumes "zok C live R z" and "shm_alloc_evict C z now n = (r, z')"
  shows "case r of
      None \<Rightarrow> nodes z' = (\<lambda>a. None) \<and> slab_alloc C (pool z') n = None \<and> zok C live R z'
    | Some p \<Rightarrow> p \<notin> dom (nodes z') \<and> p \<notin> dom (blobs z') \<and>
        live (pool z') = insert p (dom (nodes z') \<union> dom (blobs z')) \<and> n \<le> used_bytes z' \<and>
        (slab_alloc C (pool z) n \<noteq> None \<longrightarrow> nodes z' = nodes z \<and> used_bytes z' = used_bytes z + n)"
proof (cases r)
  case None
  have fail: "slab_alloc C (pool z') n = None" if "shm_alloc_evict C z now n = (None, z')" for z z'
    using that
  proof (induction C z now n rule: shm_alloc_evict.induct)
    case (1 C z now n)
    show ?case
    proof (cases "slab_alloc C (pool z) n")
      case none: None
      show ?thesis
      proof (cases "shm_evict_one C z now")
        case None
        with "1.prems" none show ?thesis by (subst (asm) shm_alloc_evict.simps) simp
      next
        case (Some z1)
        with "1.prems" none have "shm_alloc_evict C z1 now n = (None, z')"
          by (subst (asm) shm_alloc_evict.simps) simp
        from "1.IH" [OF none Some this] show ?thesis .
      qed
    next
      case (Some x)
      with "1.prems" show ?thesis by (subst (asm) shm_alloc_evict.simps) (auto split: prod.splits)
    qed
  qed
  obtain w where w: "zok C live R w" "z' = w" "lru w = []" "lru_protected w = []"
    using zinv_alloc_evict [OF assms(1), where now = now and n = n] assms(2) None by auto
  have "dom (nodes w) = {}" using zinvD(5) [OF w(1)] w(3,4) by (simp add: lru_ok_def)
  with w fail [of z z'] assms(2) None show ?thesis by simp
next
  case (Some p)
  obtain w where w: "zok C live R w" "granted C w n p z'"
    using zinv_alloc_evict [OF assms(1), where now = now and n = n] assms(2) Some by auto
  obtain pool' where g: "slab_alloc C (pool w) n = Some (p, pool')"
    "z' = w\<lparr>pool := pool', used_bytes := used_bytes w + n\<rparr>"
    using w(2) by (auto simp: granted_def)
  have "nodes z' = nodes z \<and> used_bytes z' = used_bytes z + n" if "slab_alloc C (pool z) n \<noteq> None"
    using that assms(2) Some by (subst (asm) shm_alloc_evict.simps) auto
  with Some core_alloc [OF w(1) g(1)] zinvD(2) [OF w(1)] show ?thesis
    by (simp add: g(2) live_ok_def)
qed

theorem alloc_evict_spec_witness:
  "\<exists>p z'. shm_alloc_evict (demo_core 6) demo_stored 200 200 = (Some p, z') \<and> nodes z' = nodes demo_stored"
proof -
  obtain r z' where al: "shm_alloc_evict (demo_core 6) demo_stored 200 200 = (r, z')"
    by (cases "shm_alloc_evict (demo_core 6) demo_stored 200 200")
  have room: "slab_alloc (demo_core 6) (pool demo_stored) 200 = Some (3, [3, 2, 1])"
    unfolding demo_stored_pool by code_simp
  then have "r = Some 3" using al by (subst (asm) shm_alloc_evict.simps) auto
  with al alloc_evict_spec [OF demo_stored_ok al] room show ?thesis by simp
qed

end
