(* ===== verification/Zone_Store.thy ===== *)
theory Zone_Store
  imports Zone_Runs
begin

text \<open>
  What a store promises its caller: the stored entry is found under its key, a store that fails
  leaves the old entry in place, other keys at most lose their entry to eviction, and the
  conditional stores respect what is resident.
\<close>

text \<open>The entry of a key in \<open>z'\<close> is gone or still the one of \<open>z\<close>, body included; only the
  stale-if-error mark may have been set.\<close>

definition survives :: "'p zone \<Rightarrow> 'p zone \<Rightarrow> bytes \<Rightarrow> bool" where
  "survives z z' k \<longleftrightarrow> (case shm_lookup z' k of
      None \<Rightarrow> True
    | Some a \<Rightarrow> shm_lookup z k = Some a \<and>
        node_at z' a = (node_at z a)\<lparr>sie_spared := sie_spared (node_at z' a)\<rparr> \<and>
        (\<forall>b. data (node_at z a) = Some b \<longrightarrow> content (the (blobs z' b)) = content (the (blobs z b))))"

lemma spared_only_data: "spared_only n n' \<Longrightarrow> data n' = data n"
proof -
  assume "spared_only n n'"
  then have "data n' = data (n\<lparr>sie_spared := sie_spared n'\<rparr>)"
    unfolding spared_only_def by (rule arg_cong)
  then show ?thesis by simp
qed

text \<open>Evictions, then at most one new body: whatever else is found afterwards is what was there.\<close>

lemma kept_survives:
  assumes inv: "zok C live R z" "zok C live R' z'" and sh: "shrinks K z w"
    and look: "shm_lookup z' k = Some a" "shm_lookup z k = Some a"
    and same: "nodes z' a = nodes w a" "a \<in> dom (nodes w)"
    and kept: "\<And>c r'. data (node_at z' a) = Some c \<Longrightarrow> blobs z' c = Some r' \<Longrightarrow>
      \<exists>r. blobs w c = Some r \<and> content r' = content r"
  shows "survives z z' k"
proof -
  obtain n' where n': "nodes w a = Some n'" using same(2) by blast
  then obtain n where n: "nodes z a = Some n" "spared_only n n'" using sh unfolding shrinks_def by blast
  have "content (the (blobs z' b)) = content (the (blobs z b))" if d: "data n = Some b" for b
  proof -
    have d': "data (node_at z' a) = Some b" using spared_only_data [OF n(2)] d n' same(1)
      by (simp add: node_at_def)
    have "owned z' b" using spared_only_data [OF n(2)] d n' same(1) by (auto simp: owned_def)
    then obtain r' where r': "blobs z' b = Some r'" using blob_okD(2) [OF zinvD(6) [OF inv(2)]] by blast
    then obtain r where r: "blobs w b = Some r" "content r' = content r" using kept [OF d'] by blast
    then have "\<exists>r0. blobs z b = Some r0 \<and> content r = content r0" using sh unfolding shrinks_def by blast
    with r r' show ?thesis by auto
  qed
  with look n n' same(1) show ?thesis by (simp add: survives_def node_at_def spared_only_def)
qed

lemma shrinks_survives:
  assumes "zok C live R z" "zok C live R' w" "shrinks K z w" "length k = 32"
  shows "survives z w k"
proof (cases "shm_lookup w k")
  case (Some a)
  then have "shm_lookup z k = Some a" "a \<in> dom (nodes w)"
    using lookup_shrinks [OF assms] by blast+
  then show ?thesis
    by (intro kept_survives [OF assms(1-3) Some _ refl]) auto
qed (simp add: survives_def)

text \<open>A key other than the stored one, whose node \<open>a\<close> the store did not touch.\<close>

lemma other_survives:
  assumes inv: "zok C live R z" "zok C live R z'" "zinv C live R D X 0 w" and sh: "shrinks D z w"
    and kept: "bodies_kept w z' b" and k: "length k = 32" and look: "shm_lookup z' k = shm_lookup w k"
    and own: "data (node_at z' a0) = Some b" "a0 \<in> dom (nodes z')"
    and other: "\<And>a. shm_lookup w k = Some a \<Longrightarrow> a \<noteq> a0 \<and> nodes z' a = nodes w a"
  shows "survives z z' k"
proof (cases "shm_lookup z' k")
  case (Some a)
  then have w: "shm_lookup w k = Some a" using look by simp
  have a: "shm_lookup z k = Some a" "a \<in> dom (nodes w)"
    using lookup_shrinks [OF inv(1,3) sh k] w by blast+
  note o = other [OF w]
  have "data (node_at z' a) \<noteq> Some b"
  proof
    assume d: "data (node_at z' a) = Some b"
    have "nodes z' a = Some (node_at z' a)" using a(2) o by (auto simp: node_at_def)
    with d own nodes_node_at [OF own(2)] blob_okD(1) [OF zinvD(6) [OF inv(2)]] have "a = a0"
      unfolding own_uniq_def by metis
    with o show False by simp
  qed
  then show ?thesis
    using kept o unfolding bodies_kept_def
    by (intro kept_survives [OF inv(1,2) sh Some a(1) _ a(2)]) auto
qed (simp add: survives_def)

subsection \<open>The plain store\<close>

text \<open>What a resident entry of \<open>k\<close> looks like after a store of \<open>body\<close> at \<open>now\<close>.\<close>

definition holds_entry :: "'p zone \<Rightarrow> bytes \<Rightarrow> bytes \<Rightarrow> time_t \<Rightarrow> time_t \<Rightarrow> bool" where
  "holds_entry z k body fresh stale \<longleftrightarrow> (\<exists>a n b r. shm_lookup z k = Some a \<and> nodes z a = Some n \<and>
     kind n = NODE_ENTRY \<and> data n = Some b \<and> blobs z b = Some r \<and> content r = body \<and>
     len n = length body \<and> fresh_until n = fresh \<and> stale_until n = stale \<and> \<not> refreshing n \<and>
     seg n = SEG_PROBATION \<and> \<not> promotable n)"

lemma lookup_inj:
  assumes "zinv C live R D X M z" "length k = 32" "length k' = 32"
    and "shm_lookup z k = Some a" "shm_lookup z k' = Some a"
  shows "k' = k"
proof -
  have "(k, a) \<in> rb_entries (rbtree z)" "(k', a) \<in> rb_entries (rbtree z)"
    using iffD1 [OF lookup_iff [OF assms(1,2)] assms(4)] iffD1 [OF lookup_iff [OF assms(1,3)] assms(5)]
    by simp_all
  then show ?thesis
    using zinvD(4) [OF assms(1)] unfolding idx_ok_def by (metis inj_onD prod.inject snd_conv)
qed

lemma store_new_spec:
  assumes inv: "zok C live R z" and k: "length k = 32" and new: "shm_lookup z k = None"
    and st: "store_new C z now k hash body f s = (rc, written, z')"
  shows "(rc = NGX_OK \<longrightarrow> holds_entry z' k body (now + f) (deadline now s)) \<and>
    (rc \<noteq> NGX_OK \<longrightarrow> shm_lookup z' k = None) \<and>
    (\<forall>k'. k' \<noteq> k \<longrightarrow> length k' = 32 \<longrightarrow> survives z z' k')"
proof -
  note n = store_new_inv [OF inv k new st]
  show ?thesis
  proof (cases "rc = NGX_OK")
    case False
    then show ?thesis using n(3) shrinks_survives [OF inv n(1)] by blast
  next
    case True
    from n(4) [OF True] obtain a b w where w: "shrinks {} z w" "a \<notin> dom (nodes w)"
      "nodes z' = (nodes w)(a \<mapsto> entry_node b (length body) now f s hash)"
      "\<exists>r. blobs z' b = Some r \<and> content r = body" "bodies_kept w z' b" "zinv C live R {} {a} 0 w"
      "\<forall>k'. length k' = 32 \<longrightarrow> shm_lookup z' k' = (if k' = k then Some a else shm_lookup w k')"
      by (elim exE conjE) blast
    have "holds_entry z' k body (now + f) (deadline now s)"
      using w(3,4,7) k unfolding holds_entry_def by (auto simp: entry_node_def)
    moreover have "survives z z' k'" if k': "k' \<noteq> k" "length k' = 32" for k'
    proof (rule other_survives [OF inv n(1) w(6,1,5) k'(2)])
      show "shm_lookup z' k' = shm_lookup w k'" using w(7) k' by simp
      show "data (node_at z' a) = Some b" "a \<in> dom (nodes z')"
        by (simp_all add: w(3) node_at_def entry_node_def)
      show "a' \<noteq> a \<and> nodes z' a' = nodes w a'" if "shm_lookup w k' = Some a'" for a'
        using lookup_dom [OF w(6) k'(2) that] w(2,3) by auto
    qed
    ultimately show ?thesis using True by simp
  qed
qed

lemma store_refresh_spec:
  assumes inv: "zok C live R z" and k: "length k = 32" and old: "shm_lookup z k = Some a"
    and st: "store_refresh C z now body f s a = (rc, written, z')"
  shows "(rc = NGX_OK \<longrightarrow> holds_entry z' k body (now + f) (deadline now s)) \<and>
    shm_lookup z' k = Some a \<and> (rc \<noteq> NGX_OK \<longrightarrow> survives z z' k) \<and>
    (\<forall>k'. k' \<noteq> k \<longrightarrow> length k' = 32 \<longrightarrow> survives z z' k')"
proof -
  note a = lookup_dom [OF inv k old]
  note n = store_refresh_inv [OF inv a st]
  have z': "zok C live R z'" by (rule zinv_weaken [OF n(1)]) simp
  show ?thesis
  proof (cases "rc = NGX_OK")
    case False
    then have sh: "shrinks {a} z z'" using n(2,3) by blast
    then have "a \<in> dom (nodes z')" using a unfolding shrinks_def by auto
    then have "shm_lookup z' k = Some a" using lookup_shrinks [OF inv z' sh k] old by blast
    with False show ?thesis using shrinks_survives [OF inv z' sh] k by blast
  next
    case True
    from n(4) [OF True] obtain b w where w: "shrinks {a} z w"
      "nodes z' = (nodes w)(a \<mapsto> refreshed b (length body) now f s (node_at z a))"
      "\<exists>r. blobs z' b = Some r \<and> content r = body" "bodies_kept w z' b" "zinv C live R {a} {} 0 w"
      "rbtree z' = rbtree w"
      by (elim exE conjE) blast
    have look: "shm_lookup z' k' = shm_lookup w k'" for k' by (simp add: shm_lookup_def w(6))
    have "a \<in> dom (nodes w)" using a w(1) unfolding shrinks_def by auto
    then have la: "shm_lookup w k = Some a" using lookup_shrinks [OF inv w(5,1) k] old by blast
    then have "holds_entry z' k body (now + f) (deadline now s)"
      using w(2,3) look unfolding holds_entry_def by (auto simp: refreshed_def)
    moreover have "survives z z' k'" if k': "k' \<noteq> k" "length k' = 32" for k'
    proof (rule other_survives [OF inv z' w(5,1,4) k'(2) look])
      show "data (node_at z' a) = Some b" "a \<in> dom (nodes z')"
        by (simp_all add: w(2) node_at_def refreshed_def)
      show "a' \<noteq> a \<and> nodes z' a' = nodes w a'" if "shm_lookup w k' = Some a'" for a'
        using lookup_inj [OF w(5) k k'(2) la] that k'(1) w(2) by auto
    qed
    ultimately show ?thesis using True la look by simp
  qed
qed

lemma store_locked_spec:
  assumes inv: "zok C live R z" and k: "length k = 32"
    and ctn: "ctn = None \<or> ctn = shm_lookup z k"
    and st: "shm_store_locked C z now k hash body f s ctn = (rc, written, z')"
  shows "rc = NGX_OK \<Longrightarrow> holds_entry z' k body (now + f) (deadline now s)"
    and "rc \<noteq> NGX_OK \<Longrightarrow> shm_lookup z' k = shm_lookup z k \<and> survives z z' k"
    and "k' \<noteq> k \<Longrightarrow> length k' = 32 \<Longrightarrow> survives z z' k'"
    and "shm_lookup z k = Some a \<Longrightarrow> shm_lookup z' k = Some a"
proof -
  have key: "(case ctn of None \<Rightarrow> shm_lookup z k | Some a \<Rightarrow> Some a) = shm_lookup z k"
    using ctn by (auto split: option.split)
  have "(rc = NGX_OK \<longrightarrow> holds_entry z' k body (now + f) (deadline now s)) \<and>
    (rc \<noteq> NGX_OK \<longrightarrow> shm_lookup z' k = shm_lookup z k \<and> survives z z' k) \<and>
    (\<forall>a. shm_lookup z k = Some a \<longrightarrow> shm_lookup z' k = Some a) \<and>
    (\<forall>k'. k' \<noteq> k \<longrightarrow> length k' = 32 \<longrightarrow> survives z z' k')"
  proof (cases "shm_lookup z k")
    case None
    then show ?thesis
      using store_new_spec [OF inv k None] st key by (auto simp: shm_store_locked_def survives_def)
  next
    case (Some a)
    then show ?thesis
      using store_refresh_spec [OF inv k Some] st key by (auto simp: shm_store_locked_def)
  qed
  then show "rc = NGX_OK \<Longrightarrow> holds_entry z' k body (now + f) (deadline now s)"
    and "rc \<noteq> NGX_OK \<Longrightarrow> shm_lookup z' k = shm_lookup z k \<and> survives z z' k"
    and "k' \<noteq> k \<Longrightarrow> length k' = 32 \<Longrightarrow> survives z z' k'"
    and "shm_lookup z k = Some a \<Longrightarrow> shm_lookup z' k = Some a"
    by blast+
qed

lemma acquire_frame:
  "nodes (blob_acquire z b) = nodes z" "rbtree (blob_acquire z b) = rbtree z"
  "shm_lookup (blob_acquire z b) k = shm_lookup z k" "node_at (blob_acquire z b) a = node_at z a"
  by (simp_all add: blob_acquire_def shm_lookup_def node_at_def)

lemma acquire_content:
  "content (the (blobs (blob_acquire z b) c)) = content (the (blobs z c))"
  by (simp add: blob_acquire_def)

lemma acquire_holds:
  "holds_entry z k body f s \<Longrightarrow> holds_entry (blob_acquire z b) k body f s"
  unfolding holds_entry_def acquire_frame
  by (elim exE conjE) (auto simp: blob_acquire_def)

lemma acquire_survives: "survives z z' k \<Longrightarrow> survives z (blob_acquire z' b) k"
  unfolding survives_def acquire_frame acquire_content by assumption

text \<open>The body a store hands out is the one it stored, and it comes with a reference.\<close>

lemma hand_out_spec:
  assumes inv: "zok C live R z" and k: "length k = 32" and ctn: "ctn = None \<or> ctn = shm_lookup z k"
    and st: "hand_out want (shm_store_locked C z now k hash body f s ctn) = (rc, out, z')"
  shows "rc = NGX_OK \<longrightarrow> holds_entry z' k body (now + f) (deadline now s) \<and>
      (want \<longrightarrow> (\<exists>b. out = Some b \<and> content (the (blobs z' b)) = body))"
    and "rc \<noteq> NGX_OK \<longrightarrow> out = None \<and> shm_lookup z' k = shm_lookup z k \<and> survives z z' k"
    and "\<forall>k'. k' \<noteq> k \<longrightarrow> length k' = 32 \<longrightarrow> survives z z' k'"
    and "\<forall>a. shm_lookup z k = Some a \<longrightarrow> shm_lookup z' k = Some a"
proof -
  obtain rc1 written z1 where l: "shm_store_locked C z now k hash body f s ctn = (rc1, written, z1)"
    by (cases "shm_store_locked C z now k hash body f s ctn") auto
  note sp = store_locked_spec [OF inv k ctn l]
  note si = store_locked_inv [OF inv k ctn l]
  have frame: "rc = rc1 \<and> (z' = z1 \<and> out = None \<and> (rc = NGX_OK \<longrightarrow> \<not> want) \<or>
    (\<exists>a b. written = Some a \<and> b = the (data (node_at z1 a)) \<and> z' = blob_acquire z1 b \<and> out = Some b \<and>
      rc = NGX_OK))"
    using st l si(2) by (auto simp: hand_out_def Let_def split: option.splits if_splits)
  have cont: "content (the (blobs z1 (the (data (node_at z1 a))))) = body"
    if "rc1 = NGX_OK" "written = Some a" for a
  proof -
    from si(2) [OF that(1)] that(2) obtain n b r where
      "nodes z1 a = Some n" "data n = Some b" "blobs z1 b = Some r" "content r = body" by auto
    then show ?thesis by (simp add: node_at_def)
  qed
  show "rc = NGX_OK \<longrightarrow> holds_entry z' k body (now + f) (deadline now s) \<and>
      (want \<longrightarrow> (\<exists>b. out = Some b \<and> content (the (blobs z' b)) = body))"
    using frame sp(1) acquire_holds cont acquire_content by fastforce
  show "rc \<noteq> NGX_OK \<longrightarrow> out = None \<and> shm_lookup z' k = shm_lookup z k \<and> survives z z' k"
    using frame sp(2) by auto
  show "\<forall>k'. k' \<noteq> k \<longrightarrow> length k' = 32 \<longrightarrow> survives z z' k'"
    using frame sp(3) by (auto intro: acquire_survives)
  show "\<forall>a. shm_lookup z k = Some a \<longrightarrow> shm_lookup z' k = Some a"
    using frame sp(4) by (auto simp: acquire_frame)
qed

text \<open>C5: A store is atomic. On NGX_OK a lookup of the key finds an ENTRY with exactly this body, its
  deadlines, no lease, on probation, and a caller that asked for the body holds a reference to it.
  On any other result the key resolves as before, to the same body. Other keys keep their entry,
  body included, or lose it to eviction; no lookup ever finds another key's entry.\<close>

theorem store_then_lookup:
  assumes "zok C live R z" and "length k = 32"
    and "shm_store C z now k hash body f s want = (rc, out, z')"
  shows "(rc = NGX_OK \<longrightarrow> holds_entry z' k body (now + f) (if s \<noteq> 0 then now + s else 0) \<and>
      (want \<longrightarrow> (\<exists>b. out = Some b \<and> content (the (blobs z' b)) = body \<and>
        zok C live (R(b := R b + 1)) z'))) \<and>
    (rc \<noteq> NGX_OK \<longrightarrow> out = None \<and> shm_lookup z' k = shm_lookup z k \<and> survives z z' k) \<and>
    (\<forall>k'. k' \<noteq> k \<longrightarrow> length k' = 32 \<longrightarrow> survives z z' k')"
proof -
  have ho: "hand_out want (shm_store_locked C z now k hash body f s None) = (rc, out, z')"
    using assms(3) by (simp add: shm_store_def)
  note sp = hand_out_spec [OF assms(1,2) disjI1 [OF refl] ho, unfolded deadline_def]
  have "out = Some b \<Longrightarrow> zok C live (R(b := R b + 1)) z'" for b
    using shm_store_inv [OF assms] by simp
  then have "rc = NGX_OK \<longrightarrow> holds_entry z' k body (now + f) (if s \<noteq> 0 then now + s else 0) \<and>
      (want \<longrightarrow> (\<exists>b. out = Some b \<and> content (the (blobs z' b)) = body \<and>
        zok C live (R(b := R b + 1)) z'))"
    using sp(1) by blast
  with sp(2,3) show ?thesis by (intro conjI)
qed

theorem store_then_lookup_witness:
  "\<exists>rc z'. shm_store (demo_core 6) demo_stored 150 (demo_key 2) 8 [1, 2] 30 0 True = (rc, Some 4, z') \<and>
    holds_entry z' (demo_key 2) [1, 2] 180 0 \<and> survives demo_stored z' (demo_key 1)"
proof -
  obtain rc out z' where st:
    "shm_store (demo_core 6) demo_stored 150 (demo_key 2) 8 [1, 2] 30 0 True = (rc, out, z')"
    by (cases "shm_store (demo_core 6) demo_stored 150 (demo_key 2) 8 [1, 2] 30 0 True")
  have "fst (shm_store (demo_core 6) demo_stored 150 (demo_key 2) 8 [1, 2] 30 0 True) = NGX_OK \<and>
    fst (snd (shm_store (demo_core 6) demo_stored 150 (demo_key 2) 8 [1, 2] 30 0 True)) = Some 4"
    by code_simp
  then have rc: "rc = NGX_OK" "out = Some 4" using st by simp_all
  have "demo_key 1 \<noteq> demo_key 2" by (simp add: demo_key_def)
  with store_then_lookup [OF demo_stored_ok length_demo_key st] st rc show ?thesis by simp
qed

subsection \<open>The conditional store\<close>

text \<open>A conditional store never loses the better entry. Whatever the predicate, a refused store
  (NGX_DECLINED by the predicate) changes nothing at all; a fill of unknown age never replaces a
  resident body; a background fill only replaces an entry that is past its stale deadline; and a
  versioned fill leaves an entry under the key that is at least as fresh as the one before.\<close>

theorem store_if_keeps_better:
  assumes "zok C live R z" and "length k = 32"
    and "shm_lookup z k = Some a" and "kind (node_at z a) = NODE_ENTRY" and "0 < len (node_at z a)"
    and "shm_store_if C z now k hash body f s p want = (rc, out, z')"
  shows "shm_lookup z' k = Some a \<and>
    (case p of
       STORE_IF_UNKNOWN \<Rightarrow> rc = NGX_DECLINED \<and> z' = z
     | STORE_IF_ABSENT_OR_DEAD \<Rightarrow>
         (stale_until (node_at z a) = 0 \<or> now < stale_until (node_at z a) \<longrightarrow> rc = NGX_DECLINED \<and> z' = z)
     | STORE_IF_NEWER \<Rightarrow> fresh_until (node_at z a) \<le> fresh_until (node_at z' a) \<and>
         (now + f < fresh_until (node_at z a) \<longrightarrow> rc = NGX_DECLINED \<and> z' = z))"
proof (cases "store_if_refuse (node_at z a) now f p")
  case True
  then have "rc = NGX_DECLINED" "z' = z" using assms(3,6) by (simp_all add: shm_store_if_def)
  with assms(3) show ?thesis by (cases p) simp_all
next
  case False
  then have ho: "hand_out want (shm_store_locked C z now k hash body f s (Some a)) = (rc, out, z')"
    using assms(3,6) by (simp add: shm_store_if_def)
  note sp = hand_out_spec [OF assms(1,2) disjI2 [OF assms(3) [symmetric]] ho]
  have look: "shm_lookup z' k = Some a" using sp(4) assms(3) by blast
  have fresh: "fresh_until (node_at z' a) =
      (if rc = NGX_OK then now + f else fresh_until (node_at z a))"
  proof (cases "rc = NGX_OK")
    case True
    then show ?thesis using sp(1) look by (auto simp: holds_entry_def node_at_def)
  next
    case bad: False
    then have "node_at z' a = (node_at z a)\<lparr>sie_spared := sie_spared (node_at z' a)\<rparr>"
      using sp(2) unfolding survives_def look option.case by blast
    then have "fresh_until (node_at z' a) =
        fresh_until ((node_at z a)\<lparr>sie_spared := sie_spared (node_at z' a)\<rparr>)"
      by (rule arg_cong)
    with bad show ?thesis by simp
  qed
  show ?thesis
    using False look fresh assms(4,5) by (auto simp: store_if_refuse_def split: store_if_pred.splits)
qed

theorem store_if_keeps_better_witness:
  "\<exists>rc out z'. shm_store_if (demo_core 6) demo_stored 110 (demo_key 1) 7 [1] 20 0 STORE_IF_NEWER True =
    (rc, out, z') \<and> rc = NGX_DECLINED \<and> z' = demo_stored"
proof -
  obtain rc out z' where st:
    "shm_store_if (demo_core 6) demo_stored 110 (demo_key 1) 7 [1] 20 0 STORE_IF_NEWER True = (rc, out, z')"
    by (cases "shm_store_if (demo_core 6) demo_stored 110 (demo_key 1) 7 [1] 20 0 STORE_IF_NEWER True")
  have n: "kind (node_at demo_stored 1) = NODE_ENTRY" "0 < len (node_at demo_stored 1)"
    "fresh_until (node_at demo_stored 1) = 160"
    using demo_stored_node by (simp_all add: node_at_def entry_node_def)
  from store_if_keeps_better [OF demo_stored_ok length_demo_key demo_stored_lookup n(1,2) st] n(3) st
  show ?thesis by simp
qed

end
