(* ===== verification/Zone_Miss.thy ===== *)
theory Zone_Miss
  imports Zone_Store
begin

text \<open>
  Cold misses: the single-flight lease (\<open>claim\<close>, \<open>owns\<close>, \<open>unstub\<close>), the miss counter behind
  \<open>cache_turbo_min_uses\<close>, the merged count-and-claim path, and the negative memo of L2.
\<close>

subsection \<open>Claiming\<close>

lemma zok_owner_le: "zok C live R z \<Longrightarrow> nodes z a = Some n \<Longrightarrow> refresh_owner n \<le> owner_seq z"
  using zinvD(9) [of C live R "{}" "{}" 0 z] unfolding lease_ok_def by blast

text \<open>What holding the lease of a key means for everybody else.\<close>

lemma lease_exclusive:
  assumes "shm_lookup z k = Some a" and "refreshing (node_at z a)" and "refresh_owner (node_at z a) = owner"
    and "owner \<noteq> 0" and "refresh_lock_until (node_at z a) = now + ttl"
    and "\<not> (0 < len (node_at z a) \<and> now < fresh_until (node_at z a))"
  shows "shm_owns z k owner = NGX_OK \<and> (\<forall>o'. o' \<noteq> owner \<longrightarrow> shm_owns z k o' = NGX_DECLINED) \<and>
    (\<forall>t hash ttl'. now \<le> t \<longrightarrow> t < now + ttl \<longrightarrow> shm_claim C z t k hash ttl' = (CLAIM_LOSER, 0, z))"
  using assms by (auto simp: shm_owns_def shm_claim_def shm_claim_locked_def Let_def)

lemma claim_winner:
  assumes inv: "zok C live R z" and k: "length k = 32"
    and st: "shm_claim C z now k hash ttl = (rc, owner, z')" and o: "owner \<noteq> 0"
  shows "rc = CLAIM_WINNER \<and> owner = owner_seq z + 1 \<and> shm_owns z' k owner = NGX_OK \<and>
    (\<forall>o'. o' \<noteq> owner \<longrightarrow> shm_owns z' k o' = NGX_DECLINED) \<and>
    (\<forall>t hash' ttl'. now \<le> t \<longrightarrow> t < now + ttl \<longrightarrow> shm_claim C z' t k hash' ttl' = (CLAIM_LOSER, 0, z'))"
proof (cases "shm_lookup z k")
  case (Some a)
  let ?n = "node_at z a"
  have c: "\<not> (0 < len ?n \<and> now < fresh_until ?n)" "rc = CLAIM_WINNER" "owner = owner_seq z + 1"
    "z' = upd_node a (\<lambda>n. n\<lparr>refreshing := True, refresh_lock_until := now + ttl, refresh_owner := owner\<rparr>)
        (z\<lparr>owner_seq := owner\<rparr>)"
    using st Some o by (auto simp: shm_claim_def shm_claim_locked_def Let_def split: if_splits)
  have "node_at (z\<lparr>owner_seq := owner\<rparr>) a = ?n" by (simp add: node_at_def)
  then have "node_at z' a = ?n\<lparr>refreshing := True, refresh_lock_until := now + ttl, refresh_owner := owner\<rparr>"
    unfolding c(4) by (simp add: node_at_upd)
  moreover have "shm_lookup z' k = Some a" using Some by (simp add: c(4) shm_lookup_def)
  ultimately have "shm_owns z' k owner = NGX_OK \<and> (\<forall>o'. o' \<noteq> owner \<longrightarrow> shm_owns z' k o' = NGX_DECLINED) \<and>
    (\<forall>t hash ttl'. now \<le> t \<longrightarrow> t < now + ttl \<longrightarrow> shm_claim C z' t k hash ttl' = (CLAIM_LOSER, 0, z'))"
    using c(1) o by (intro lease_exclusive [where a = a]) simp_all
  with c(2,3) show ?thesis by blast
next
  case None
  obtain p z1 where al: "shm_alloc_evict C z now (sizeof_node C) = (p, z1)"
    by (cases "shm_alloc_evict C z now (sizeof_node C)")
  show ?thesis
  proof (cases rule: alloc_node_cases [OF inv al, case_names none some])
    case none
    then show ?thesis using st None al o by (auto simp: shm_claim_def shm_claim_locked_def)
  next
    case (some a)
    let ?n = "(counter_node 0 0 now hash)\<lparr>refreshing := True, refresh_lock_until := now + ttl,
      refresh_owner := owner\<rparr>"
    have raw: "zinv C live R {} {a} 0 z1" using some(2) by simp
    have c: "rc = CLAIM_WINNER" "owner = owner_seq z1 + 1"
      "z' = insert_node C (z1\<lparr>owner_seq := owner\<rparr>) k a ?n"
      using st None al some(1) by (auto simp: shm_claim_def shm_claim_locked_def Let_def)
    have seq: "owner_seq z1 = owner_seq z" using some(3) unfolding shrinks_def by blast
    have n: "seg ?n = SEG_PROBATION" "\<not> sie_spared ?n" "\<not> varidx_pending ?n"
      by (simp_all add: counter_node_def)
    have l1: "shm_lookup z1 k = None" by (rule lookup_shrinks_None [OF inv raw some(3) k None])
    have "shm_lookup z' k = shm_lookup (insert_node C z1 k a ?n) k"
      unfolding c(3) shm_lookup_def insert_node_simps [OF n] by simp
    then have look: "shm_lookup z' k = Some a" using lookup_insert_node [OF raw k l1 k n] by simp
    have "node_at z' a = ?n" unfolding c(3) node_at_def insert_node_simps [OF n] by simp
    with look have "shm_owns z' k owner = NGX_OK \<and> (\<forall>o'. o' \<noteq> owner \<longrightarrow> shm_owns z' k o' = NGX_DECLINED) \<and>
      (\<forall>t hash ttl'. now \<le> t \<longrightarrow> t < now + ttl \<longrightarrow> shm_claim C z' t k hash ttl' = (CLAIM_LOSER, 0, z'))"
      using o by (intro lease_exclusive [where a = a]) (simp_all add: counter_node_def)
    with c(1,2) seq show ?thesis by simp
  qed
qed

text \<open>C4: Single flight. A claim of a fresh body, or of a key whose lease is live, changes nothing
  and gets no token. Every other claim wins. A winner's token is new: ahead of every token any
  node of the zone carries, so the winner owns the key and every earlier owner of it no longer
  does; until the lease expires any other claim of the key loses. Only when the zone is drained
  and the slab still refuses does a winner get the null token.\<close>

theorem claim_single_flight:
  assumes inv: "zok C live R z" and k: "length k = 32"
    and st: "shm_claim C z now k hash ttl = (rc, owner, z')"
  shows "(case shm_lookup z k of
      Some a \<Rightarrow>
        if 0 < len (node_at z a) \<and> now < fresh_until (node_at z a)
        then rc = CLAIM_FRESH \<and> owner = 0 \<and> z' = z
        else if refreshing (node_at z a) \<and> now < refresh_lock_until (node_at z a)
        then rc = CLAIM_LOSER \<and> owner = 0 \<and> z' = z
        else rc = CLAIM_WINNER \<and> owner \<noteq> 0
    | None \<Rightarrow> rc = CLAIM_WINNER \<and> (owner = 0 \<longrightarrow> lru z' = [] \<and> lru_protected z' = [])) \<and>
    (owner \<noteq> 0 \<longrightarrow> (\<forall>a n. nodes z a = Some n \<longrightarrow> refresh_owner n < owner) \<and>
      shm_owns z' k owner = NGX_OK \<and> (\<forall>o'. o' \<noteq> owner \<longrightarrow> shm_owns z' k o' = NGX_DECLINED) \<and>
      (\<forall>t hash' ttl'. now \<le> t \<longrightarrow> t < now + ttl \<longrightarrow> shm_claim C z' t k hash' ttl' = (CLAIM_LOSER, 0, z')))"
proof (rule conjI)
  show "owner \<noteq> 0 \<longrightarrow> (\<forall>a n. nodes z a = Some n \<longrightarrow> refresh_owner n < owner) \<and>
      shm_owns z' k owner = NGX_OK \<and> (\<forall>o'. o' \<noteq> owner \<longrightarrow> shm_owns z' k o' = NGX_DECLINED) \<and>
      (\<forall>t hash' ttl'. now \<le> t \<longrightarrow> t < now + ttl \<longrightarrow> shm_claim C z' t k hash' ttl' = (CLAIM_LOSER, 0, z'))"
    using claim_winner [OF assms] zok_owner_le [OF inv] by (auto simp: less_Suc_eq_le)
  show "case shm_lookup z k of
      Some a \<Rightarrow>
        if 0 < len (node_at z a) \<and> now < fresh_until (node_at z a)
        then rc = CLAIM_FRESH \<and> owner = 0 \<and> z' = z
        else if refreshing (node_at z a) \<and> now < refresh_lock_until (node_at z a)
        then rc = CLAIM_LOSER \<and> owner = 0 \<and> z' = z
        else rc = CLAIM_WINNER \<and> owner \<noteq> 0
    | None \<Rightarrow> rc = CLAIM_WINNER \<and> (owner = 0 \<longrightarrow> lru z' = [] \<and> lru_protected z' = [])"
  proof (cases "shm_lookup z k")
    case (Some a)
    with st show ?thesis by (auto simp: shm_claim_def shm_claim_locked_def Let_def)
  next
    case None
    obtain p z1 where al: "shm_alloc_evict C z now (sizeof_node C) = (p, z1)"
      by (cases "shm_alloc_evict C z now (sizeof_node C)")
    then show ?thesis
      using st None zinv_alloc_evict [OF inv, where now = now and n = "sizeof_node C"]
      by (cases p) (auto simp: shm_claim_def shm_claim_locked_def Let_def)
  qed
qed

theorem claim_single_flight_witness:
  "\<exists>z'. shm_claim (demo_core 6) demo_stored 200 (demo_key 1) 7 5 = (CLAIM_WINNER, 1, z') \<and>
    shm_owns z' (demo_key 1) 1 = NGX_OK \<and>
    shm_claim (demo_core 6) z' 204 (demo_key 1) 7 5 = (CLAIM_LOSER, 0, z')"
proof -
  obtain rc owner z' where st: "shm_claim (demo_core 6) demo_stored 200 (demo_key 1) 7 5 = (rc, owner, z')"
    by (cases "shm_claim (demo_core 6) demo_stored 200 (demo_key 1) 7 5")
  have "rc = CLAIM_WINNER" "owner = 1"
    using st demo_stored_lookup demo_stored_node demo_stored_counts(2)
    by (simp_all add: shm_claim_def shm_claim_locked_def node_at_def entry_node_def Let_def split: if_splits)
  with claim_single_flight [OF demo_stored_ok length_demo_key st] st show ?thesis by simp
qed

subsection \<open>Releasing the lease\<close>

text \<open>A stale winner does no harm. \<open>unstub\<close> with a token that no longer owns the key (it
  expired and was re-claimed, or the key was stored or freshened meanwhile) is the identity. The
  owner's \<open>unstub\<close> ends the lease, so that the next claim of a key that is not fresh wins at once;
  it frees the node only when that is an idle stub, never one that counts misses or holds a live
  memo or a body; every other node is untouched.\<close>

theorem unstub_owner_only:
  assumes inv: "zok C live R z" and k: "length k = 32"
  shows "(shm_owns z k owner \<noteq> NGX_OK \<longrightarrow> shm_unstub C z now k owner = z) \<and>
    (\<forall>a. shm_owns z k owner = NGX_OK \<and> shm_lookup z k = Some a \<and> kind (node_at z a) \<noteq> NODE_MARKER \<longrightarrow>
      (let z' = shm_unstub C z now k owner; n = node_at z a
       in shm_owns z' k owner = NGX_DECLINED \<and>
          (if kind n = NODE_COUNTER \<and> miss_count n = 0 \<and> l2_neg_until n \<le> now
           then nodes z' = (nodes z)(a := None)
           else nodes z' = (nodes z)(a \<mapsto> n\<lparr>refreshing := False, refresh_lock_until := 0,
             refresh_owner := 0\<rparr>))))"
proof (intro conjI allI impI)
  assume "shm_owns z k owner \<noteq> NGX_OK"
  then show "shm_unstub C z now k owner = z"
    by (auto simp: shm_owns_def shm_unstub_def Let_def split: option.split if_splits)
next
  fix a
  assume h: "shm_owns z k owner = NGX_OK \<and> shm_lookup z k = Some a \<and> kind (node_at z a) \<noteq> NODE_MARKER"
  let ?z = "shm_unstub C z now k owner"
  let ?n = "node_at z a"
  have own: "owner \<noteq> 0" "refreshing ?n" "refresh_owner ?n = owner"
    and kd: "kind ?n = NODE_COUNTER \<or> kind ?n = NODE_ENTRY"
    using h by (auto simp: shm_owns_def split: if_splits intro: node_kind.exhaust)
  have nd: "if kind ?n = NODE_COUNTER \<and> miss_count ?n = 0 \<and> l2_neg_until ?n \<le> now
       then nodes ?z = (nodes z)(a := None)
       else nodes ?z = (nodes z)(a \<mapsto> ?n\<lparr>refreshing := False, refresh_lock_until := 0, refresh_owner := 0\<rparr>)"
    using h own kd by (auto simp: shm_unstub_def Let_def fun_eq_iff)
  have z': "zok C live R ?z" by (rule shm_unstub_inv [OF inv k])
  have "shm_owns ?z k owner = NGX_DECLINED"
  proof (cases "shm_lookup ?z k")
    case (Some a')
    have "a' \<in> dom (nodes ?z)" using lookup_dom [OF z' k Some] .
    then obtain n' where n': "nodes ?z a' = Some n'" by blast
    have "refresh_owner n' \<noteq> owner"
    proof (cases "a' = a")
      case True
      with n' nd own(1) show ?thesis by (auto split: if_splits)
    next
      case False
      then have "nodes z a' = Some n'" using n' nd by (auto split: if_splits)
      moreover have "nodes z a = Some ?n" using lookup_dom [OF inv k] h by (auto intro: nodes_node_at)
      ultimately show ?thesis
        using zinvD(9) [OF inv] own False unfolding lease_ok_def by metis
    qed
    with Some n' show ?thesis by (simp add: shm_owns_def node_at_def)
  qed (simp add: shm_owns_def)
  with nd show "let z' = ?z; n = ?n
       in shm_owns z' k owner = NGX_DECLINED \<and>
          (if kind n = NODE_COUNTER \<and> miss_count n = 0 \<and> l2_neg_until n \<le> now
           then nodes z' = (nodes z)(a := None)
           else nodes z' = (nodes z)(a \<mapsto> n\<lparr>refreshing := False, refresh_lock_until := 0,
             refresh_owner := 0\<rparr>))"
    unfolding Let_def by blast
qed

theorem unstub_owner_only_witness:
  "shm_unstub (demo_core 6) demo_stored 300 (demo_key 1) 9 = demo_stored"
proof -
  have "shm_owns demo_stored (demo_key 1) 9 \<noteq> NGX_OK"
    using demo_stored_lookup demo_stored_node by (simp add: shm_owns_def node_at_def entry_node_def)
  with unstub_owner_only [OF demo_stored_ok length_demo_key] show ?thesis by blast
qed

subsection \<open>Counting misses\<close>

text \<open>A cold key missed at the times \<open>ts\<close>: the verdict of each miss.\<close>

fun misses_at :: "'p ngx_core \<Rightarrow> 'p zone \<Rightarrow> bytes \<Rightarrow> u32 \<Rightarrow> int \<Rightarrow> time_t \<Rightarrow> time_t list \<Rightarrow> ngx_rc list" where
  "misses_at C z k hash mu win [] = []"
| "misses_at C z k hash mu win (t # ts) =
     (case shm_count_miss C z t k hash mu win of (rc, z') \<Rightarrow> rc # misses_at C z' k hash mu win ts)"

definition verdict_at :: "int \<Rightarrow> nat \<Rightarrow> ngx_rc" where
  "verdict_at mu c = (if mu \<le> int c then NGX_OK else NGX_DECLINED)"

text \<open>A key that resolves to an idle counter stamped \<open>t0\<close> with count \<open>c\<close>.\<close>

definition counting :: "'p zone \<Rightarrow> bytes \<Rightarrow> time_t \<Rightarrow> nat \<Rightarrow> bool" where
  "counting z k t0 c \<longleftrightarrow> (\<exists>a. shm_lookup z k = Some a \<and> kind (node_at z a) = NODE_COUNTER \<and>
     \<not> refreshing (node_at z a) \<and> last_access (node_at z a) = t0 \<and> miss_count (node_at z a) = c)"

lemma counting_step:
  assumes "counting z k t0 c" and "shm_count_miss C z t k hash mu win = (rc, z')"
  shows "rc = verdict_at mu (Suc (if win > 0 \<and> t - t0 > win then 0 else c)) \<and>
    counting z' k t0 (Suc (if win > 0 \<and> t - t0 > win then 0 else c))"
proof -
  obtain a where a: "shm_lookup z k = Some a" "kind (node_at z a) = NODE_COUNTER"
    "\<not> refreshing (node_at z a)" "last_access (node_at z a) = t0" "miss_count (node_at z a) = c"
    using assms(1) by (auto simp: counting_def)
  have r: "rc = verdict_at mu (Suc (if win > 0 \<and> t - t0 > win then 0 else c))"
    "z' = upd_node a (\<lambda>n. n\<lparr>miss_count := Suc (if win > 0 \<and> t - t0 > win then 0 else c)\<rparr>) z"
    using assms(2) a by (auto simp: shm_count_miss_def shm_count_miss_locked_def Let_def verdict_at_def)
  have "shm_lookup z' k = Some a" using a(1) by (simp add: r(2) shm_lookup_def)
  with a r show ?thesis by (auto simp: counting_def node_at_upd)
qed

lemma first_miss:
  assumes inv: "zok C live R z" and k: "length k = 32" and cold: "shm_lookup z k = None"
    and al: "shm_alloc_evict C z t0 (sizeof_node C) = (Some a, z1)"
    and st: "shm_count_miss C z t0 k hash mu win = (rc, z')"
  shows "rc = verdict_at mu 1 \<and> counting z' k t0 1"
proof -
  let ?n = "counter_node 1 0 t0 hash"
  have r: "rc = verdict_at mu 1" "z' = insert_node C z1 k a ?n"
    using st cold al by (auto simp: shm_count_miss_def shm_count_miss_locked_def verdict_at_def)
  obtain raw: "zinv C live R {} {a} 0 z1" and sh: "shrinks {} z z1"
    using alloc_node_cases [OF inv al] by auto
  have l1: "shm_lookup z1 k = None" by (rule lookup_shrinks_None [OF inv raw sh k cold])
  have n: "seg ?n = SEG_PROBATION" "\<not> sie_spared ?n" "\<not> varidx_pending ?n"
    by (simp_all add: counter_node_def)
  have "shm_lookup z' k = Some a" unfolding r(2) using lookup_insert_node [OF raw k l1 k n] by simp
  moreover have "node_at z' a = ?n" unfolding r(2) node_at_def insert_node_simps [OF n] by simp
  ultimately show ?thesis using r(1) by (simp add: counting_def counter_node_def)
qed

lemma misses_in_window:
  "counting z k t0 c \<Longrightarrow> win = 0 \<or> (\<forall>t \<in> set ts. t - t0 \<le> win) \<Longrightarrow>
    misses_at C z k hash mu win ts = map (\<lambda>i. verdict_at mu (c + Suc i)) [0..<length ts]"
proof (induction ts arbitrary: z c)
  case (Cons t ts)
  obtain rc z' where st: "shm_count_miss C z t k hash mu win = (rc, z')"
    by (cases "shm_count_miss C z t k hash mu win")
  have e: "(if win > 0 \<and> t - t0 > win then 0 else c) = c" using Cons.prems(2) by auto
  have s: "rc = verdict_at mu (Suc c)" "counting z' k t0 (Suc c)"
    using counting_step [OF Cons.prems(1) st] unfolding e by simp_all
  have "misses_at C z' k hash mu win ts = map (\<lambda>i. verdict_at mu (Suc c + Suc i)) [0..<length ts]"
    by (rule Cons.IH [OF s(2)]) (use Cons.prems(2) in auto)
  then show ?case
    using st s(1) by (simp add: upt_conv_Cons map_Suc_upt [symmetric] del: upt_Suc)
qed simp

lemma misses_past_window:
  "counting z k t0 c \<Longrightarrow> 0 < win \<Longrightarrow> 1 < mu \<Longrightarrow> \<forall>t \<in> set ts. t0 + win < t \<Longrightarrow>
    misses_at C z k hash mu win ts = replicate (length ts) NGX_DECLINED"
proof (induction ts arbitrary: z c)
  case (Cons t ts)
  obtain rc z' where st: "shm_count_miss C z t k hash mu win = (rc, z')"
    by (cases "shm_count_miss C z t k hash mu win")
  have "win > 0 \<and> t - t0 > win" using Cons.prems(2,4) by auto
  then have s: "rc = NGX_DECLINED" "counting z' k t0 1"
    using counting_step [OF Cons.prems(1) st] Cons.prems(3) by (simp_all add: verdict_at_def)
  with Cons.IH [OF s(2)] Cons.prems(2-4) st show ?case by simp
qed simp

text \<open>The admission threshold. For a cold key the zone has room for, and without a window or with
  every miss inside it, the \<open>i\<close>-th miss is declined for \<open>i < min_uses\<close> and proceeds from the
  \<open>min_uses\<close>-th on.\<close>

theorem count_miss_threshold:
  assumes "zok C live R z" and "length k = 32" and "shm_lookup z k = None"
    and "shm_alloc_evict C z t0 (sizeof_node C) = (Some a, z1)"
    and "win = 0 \<or> (\<forall>t \<in> set ts. t - t0 \<le> win)"
  shows "misses_at C z k hash mu win (t0 # ts) =
    map (\<lambda>i. if mu \<le> int i then NGX_OK else NGX_DECLINED) [1..<length ts + 2]"
proof -
  obtain rc z' where st: "shm_count_miss C z t0 k hash mu win = (rc, z')"
    by (cases "shm_count_miss C z t0 k hash mu win")
  note f = first_miss [OF assms(1-4) st]
  have "misses_at C z k hash mu win (t0 # ts) =
      verdict_at mu 1 # map (\<lambda>i. verdict_at mu (1 + Suc i)) [0..<length ts]"
    using st f misses_in_window [OF conjunct2 [OF f] assms(5)] by simp
  also have "\<dots> = map (verdict_at mu) [1..<length ts + 2]"
    by (simp add: upt_conv_Cons map_Suc_upt [symmetric] o_def del: upt_Suc)
  finally show ?thesis by (simp add: verdict_at_def [abs_def])
qed

text \<open>C40: The window never slides. The reset of a counter compares with \<open>last_access\<close>, which this path
  does not update, so once the window after the first miss has passed every further miss starts
  again at one: with \<open>min_uses\<close> above 1 the key is declined for good, however close together the
  misses come.\<close>

theorem count_miss_window_stuck:
  assumes "zok C live R z" and "length k = 32" and "shm_lookup z k = None"
    and "shm_alloc_evict C z t0 (sizeof_node C) = (Some a, z1)"
    and "0 < win" and "1 < mu" and "\<forall>t \<in> set ts. t0 + win < t"
  shows "misses_at C z k hash mu win (t0 # ts) = replicate (length ts + 1) NGX_DECLINED"
proof -
  obtain rc z' where st: "shm_count_miss C z t0 k hash mu win = (rc, z')"
    by (cases "shm_count_miss C z t0 k hash mu win")
  note f = first_miss [OF assms(1-4) st]
  show ?thesis
    using st f misses_past_window [OF conjunct2 [OF f] assms(5-7)] assms(6)
    by (simp add: verdict_at_def)
qed

lemma demo_room: "\<exists>z1. shm_alloc_evict (demo_core 6) demo_stored t (sizeof_node (demo_core 6)) = (Some 3, z1)"
proof -
  have "slab_alloc (demo_core 6) (pool demo_stored) (sizeof_node (demo_core 6)) = Some (3, [3, 2, 1])"
    unfolding demo_stored_pool by code_simp
  then show ?thesis by (subst shm_alloc_evict.simps) simp
qed

theorem count_miss_threshold_witness:
  "misses_at (demo_core 6) demo_stored (demo_key 2) 8 3 0 [100, 5000, 5001, 9000] =
    [NGX_DECLINED, NGX_DECLINED, NGX_OK, NGX_OK]"
proof -
  obtain z1 where "shm_alloc_evict (demo_core 6) demo_stored 100 (sizeof_node (demo_core 6)) = (Some 3, z1)"
    using demo_room by blast
  from count_miss_threshold [OF demo_stored_ok length_demo_key demo_stored_absent this,
      of 0 "[5000, 5001, 9000]" 8 3]
  show ?thesis by (simp add: upt_conv_Cons)
qed

theorem count_miss_window_stuck_witness:
  "misses_at (demo_core 6) demo_stored (demo_key 2) 8 2 60 [100, 161, 162, 163] =
    [NGX_DECLINED, NGX_DECLINED, NGX_DECLINED, NGX_DECLINED]"
proof -
  obtain z1 where "shm_alloc_evict (demo_core 6) demo_stored 100 (sizeof_node (demo_core 6)) = (Some 3, z1)"
    using demo_room by blast
  from count_miss_window_stuck [OF demo_stored_ok length_demo_key demo_stored_absent this,
      of 60 2 "[161, 162, 163]" 8]
  show ?thesis by simp
qed

subsection \<open>Count and claim in one\<close>

text \<open>The merged cold-miss path is the two separate calls. \<open>resolve_miss\<close>, which takes the mutex
  once and reuses the node its count found or created, gives the verdicts, the token and the zone
  of \<open>count_miss\<close> followed by \<open>claim\<close>; on FRESH it additionally holds a reference to the body it
  hands out.\<close>

theorem resolve_miss_merges:
  assumes "zok C live R z" and "length k = 32"
    and "shm_count_miss C z now k hash mu win = (c, z1)"
    and "shm_claim C z1 now k hash ttl = (rc, owner, z2)"
  shows "if c = NGX_DECLINED
    then shm_resolve_miss C z now k hash mu win ttl = (c, CLAIM_WINNER, 0, None, z1)
    else \<exists>fresh. shm_resolve_miss C z now k hash mu win ttl = (c, rc, owner, fresh,
        case fresh of None \<Rightarrow> z2 | Some (b, l) \<Rightarrow> blob_acquire z2 b) \<and> (fresh \<noteq> None \<longleftrightarrow> rc = CLAIM_FRESH)"
proof (cases "c = NGX_DECLINED")
  case True
  then show ?thesis using assms(3) by (simp add: shm_resolve_miss_def shm_count_miss_def)
next
  case False
  note cm = assms(3) [unfolded shm_count_miss_def]
  have key: "(case shm_lookup z k of None \<Rightarrow> shm_lookup z1 k | Some a \<Rightarrow> Some a) = shm_lookup z1 k"
    using count_miss_lookup [OF assms(1,2) cm] by (auto split: option.split)
  obtain rc' owner' fresh z2' where
    cl: "shm_claim_locked C z1 now hash k ttl (shm_lookup z1 k) True = (rc', owner', fresh, z2')"
    by (cases "shm_claim_locked C z1 now hash k ttl (shm_lookup z1 k) True")
  have "rc' = rc \<and> owner' = owner \<and> (fresh \<noteq> None \<longleftrightarrow> rc = CLAIM_FRESH) \<and>
      z2' = (case fresh of None \<Rightarrow> z2 | Some (b, l) \<Rightarrow> blob_acquire z2 b)"
    using cl assms(4)
    by (auto simp: shm_claim_def shm_claim_locked_def Let_def split: option.splits if_splits prod.splits)
  with False cm key cl show ?thesis by (simp add: shm_resolve_miss_def)
qed

theorem resolve_miss_merges_witness:
  "\<exists>z2. shm_resolve_miss (demo_core 6) demo_stored 120 (demo_key 1) 7 1 0 5 =
    (NGX_OK, CLAIM_FRESH, 0, Some (2, 3), blob_acquire z2 2)"
proof -
  have c: "shm_count_miss (demo_core 6) demo_stored 120 (demo_key 1) 7 1 0 = (NGX_OK, demo_stored)"
    using demo_stored_lookup demo_stored_node
    by (simp add: shm_count_miss_def shm_count_miss_locked_def node_at_def entry_node_def)
  have cl: "shm_claim (demo_core 6) demo_stored 120 (demo_key 1) 7 5 = (CLAIM_FRESH, 0, demo_stored)"
    using demo_stored_lookup demo_stored_node
    by (simp add: shm_claim_def shm_claim_locked_def node_at_def entry_node_def)
  obtain fresh where f: "shm_resolve_miss (demo_core 6) demo_stored 120 (demo_key 1) 7 1 0 5 =
      (NGX_OK, CLAIM_FRESH, 0, fresh, case fresh of None \<Rightarrow> demo_stored
        | Some (b, l) \<Rightarrow> blob_acquire demo_stored b)"
    using resolve_miss_merges [OF demo_stored_ok length_demo_key c cl] by auto
  moreover have "fresh = Some (2, 3)"
    using f demo_stored_lookup demo_stored_node
    by (simp add: shm_resolve_miss_def shm_count_miss_locked_def shm_claim_locked_def node_at_def
        entry_node_def)
  ultimately show ?thesis by auto
qed

subsection \<open>The negative memo of L2\<close>

text \<open>The memo is sound and bounded. After an L2 miss was noted for a key without a body the
  check skips L2 until exactly \<open>ttl\<close> seconds later and not beyond; noting a miss for a key with a
  body or a marker changes nothing, and such a key is never skipped.\<close>

theorem neg_memo:
  assumes inv: "zok C live R z" and k: "length k = 32"
  shows "(case shm_lookup z k of
      Some a \<Rightarrow> if kind (node_at z a) = NODE_COUNTER then True
        else shm_l2_neg_set C z now k hash ttl = z \<and> shm_l2_neg_check z t k hash' = (NGX_OK, z)
    | None \<Rightarrow> shm_l2_neg_check z t k hash' = (NGX_OK, z)) \<and>
    ((case shm_lookup z k of Some a \<Rightarrow> kind (node_at z a) = NODE_COUNTER
       | None \<Rightarrow> fst (shm_alloc_evict C z now (sizeof_node C)) \<noteq> None) \<longrightarrow>
     fst (shm_l2_neg_check (shm_l2_neg_set C z now k hash ttl) t k hash') =
       (if t < now + ttl then NGX_DECLINED else NGX_OK))"
proof (cases "shm_lookup z k")
  case (Some a)
  have "shm_lookup (upd_node a f z) k = Some a" for f using Some by (simp add: shm_lookup_def)
  with Some show ?thesis
    by (cases "kind (node_at z a)") (auto simp: shm_l2_neg_set_def shm_l2_neg_check_def node_at_upd)
next
  case None
  obtain p z1 where al: "shm_alloc_evict C z now (sizeof_node C) = (p, z1)"
    by (cases "shm_alloc_evict C z now (sizeof_node C)")
  show ?thesis
  proof (cases p)
    case none: None
    with None al show ?thesis by (simp add: shm_l2_neg_check_def)
  next
    case (Some a)
    let ?n = "counter_node 0 (now + ttl) now hash"
    let ?z = "insert_node C z1 k a ?n"
    obtain raw: "zinv C live R {} {a} 0 z1" and sh: "shrinks {} z z1"
      using alloc_node_cases [OF inv al] Some by auto
    have l1: "shm_lookup z1 k = None" by (rule lookup_shrinks_None [OF inv raw sh k None])
    have n: "seg ?n = SEG_PROBATION" "\<not> sie_spared ?n" "\<not> varidx_pending ?n"
      by (simp_all add: counter_node_def)
    have "shm_lookup ?z k = Some a" using lookup_insert_node [OF raw k l1 k n] by simp
    moreover have "node_at ?z a = ?n" unfolding node_at_def insert_node_simps [OF n] by simp
    ultimately show ?thesis
      using None al Some by (simp add: shm_l2_neg_set_def shm_l2_neg_check_def counter_node_def)
  qed
qed

theorem neg_memo_witness:
  "fst (shm_l2_neg_check (shm_l2_neg_set (demo_core 6) demo_stored 100 (demo_key 2) 8 5) 104 (demo_key 2) 8)
      = NGX_DECLINED \<and>
   fst (shm_l2_neg_check (shm_l2_neg_set (demo_core 6) demo_stored 100 (demo_key 2) 8 5) 105 (demo_key 2) 8)
      = NGX_OK"
proof -
  have "fst (shm_alloc_evict (demo_core 6) demo_stored 100 (sizeof_node (demo_core 6))) \<noteq> None"
    using demo_room [of 100] by auto
  with neg_memo [OF demo_stored_ok length_demo_key [of 2], where now = 100 and hash = 8 and ttl = 5
      and t = 104 and hash' = 8]
    neg_memo [OF demo_stored_ok length_demo_key [of 2], where now = 100 and hash = 8 and ttl = 5
      and t = 105 and hash' = 8] demo_stored_absent
  show ?thesis by simp
qed

end
