(* ===== verification/Zone_Queue.thy ===== *)
theory Zone_Queue
  imports Zone_Runs
begin

text \<open>
  The queue operations as a whole: draining the zone batch by batch while other workers run
  between the batches (\<open>purge_all\<close>), and the promotion policy of the segmented LRU
  (\<open>touch_lru\<close>, \<open>lru_enforce_cap\<close>).
\<close>

subsection \<open>Draining\<close>

lemma zok_queues:
  assumes "zok C live R z"
  shows "distinct (lru z @ lru_protected z)" "n_protected z = length (lru_protected z)"
    "n_entries z = length (lru z) + length (lru_protected z)"
    "dom (nodes z) = set (lru z) \<union> set (lru_protected z)"
proof -
  note l = zinvD(5) [OF assms, unfolded lru_ok_def]
  then have "card (set (lru z @ lru_protected z)) = length (lru z @ lru_protected z)"
    by (intro distinct_card) blast
  with l show "distinct (lru z @ lru_protected z)" "n_protected z = length (lru_protected z)"
    "n_entries z = length (lru z) + length (lru_protected z)"
    "dom (nodes z) = set (lru z) \<union> set (lru_protected z)"
    by auto
qed

lemma zok_empty: "zok C live R z \<Longrightarrow> n_entries z = 0 \<longleftrightarrow> zone_empty z"
  using zok_queues(3) [of C live R z] by (auto simp: zone_empty_def)

lemma zok_drop_hd:
  assumes inv: "zok C live R z"
  shows "lru z \<noteq> [] \<Longrightarrow> zok C live R (shm_drop_locked C z (hd (lru z)))"
    "lru_protected z \<noteq> [] \<Longrightarrow> zok C live R (shm_drop_locked C z (hd (lru_protected z)))"
  using zinv_drop [OF inv] hd_queue_dom [OF inv] by auto

lemma drain_lru_count:
  "zok C live R z \<Longrightarrow> fst (drain_lru C n z) = min n (length (lru z)) \<and>
    lru (snd (drain_lru C n z)) = drop n (lru z) \<and>
    lru_protected (snd (drain_lru C n z)) = lru_protected z"
proof (induction C n z rule: drain_lru.induct)
  case (2 C n z)
  show ?case
  proof (cases "lru z")
    case (Cons a as)
    note q = zok_queues(1) [OF "2.prems", unfolded Cons]
    have "lru (shm_drop_locked C z a) = as" "lru_protected (shm_drop_locked C z a) = lru_protected z"
      using q Cons by (auto simp: distinct_removeAll_notin)
    moreover have "zok C live R (shm_drop_locked C z a)"
      using zok_drop_hd(1) [OF "2.prems"] Cons by simp
    ultimately show ?thesis
      using "2.IH" Cons by (auto simp: case_prod_beta)
  qed simp
qed simp

lemma drain_protected_count:
  "zok C live R z \<Longrightarrow> fst (drain_protected C n z) = min n (length (lru_protected z)) \<and>
    lru_protected (snd (drain_protected C n z)) = drop n (lru_protected z) \<and>
    lru (snd (drain_protected C n z)) = lru z"
proof (induction C n z rule: drain_protected.induct)
  case (2 C n z)
  show ?case
  proof (cases "lru_protected z")
    case (Cons a as)
    note q = zok_queues(1) [OF "2.prems", unfolded Cons]
    have "lru_protected (shm_drop_locked C z a) = as" "lru (shm_drop_locked C z a) = lru z"
      using q Cons by (auto simp: distinct_removeAll_notin)
    moreover have "zok C live R (shm_drop_locked C z a)"
      using zok_drop_hd(2) [OF "2.prems"] Cons by simp
    ultimately show ?thesis
      using "2.IH" Cons by (auto simp: case_prod_beta)
  qed simp
qed simp

lemma purge_batch_count:
  assumes inv: "zok C live R z" and b: "purge_batch C n z = (batch, z')"
  shows "zok C live R z'" "batch = min (min PURGE_BATCH n) (n_entries z)"
    "n_entries z' = n_entries z - batch"
proof -
  let ?b = "min PURGE_BATCH n"
  let ?k = "fst (drain_lru C ?b z)"
  let ?z1 = "snd (drain_lru C ?b z)"
  have r: "batch = ?k + fst (drain_protected C (?b - ?k) ?z1)"
    "z' = snd (drain_protected C (?b - ?k) ?z1)"
    using b by (simp_all add: purge_batch_def Let_def case_prod_beta)
  show z': "zok C live R z'" using purge_batch_inv [OF inv, of n] b by simp
  note d1 = drain_lru_count [OF inv, of ?b]
  note d2 = drain_protected_count [OF drain_lru_inv [OF inv, of ?b], of "?b - ?k"]
  note e = zok_queues(3) [OF inv] zok_queues(3) [OF z']
  show "batch = min ?b (n_entries z)"
    using d1 d2 e(1) unfolding r(1) by (auto simp: min_def)
  then show "n_entries z' = n_entries z - batch"
    using d1 d2 e unfolding r by (auto simp: min_def)
qed

definition zone_any :: "'p ngx_core \<Rightarrow> ('p \<Rightarrow> addr set) \<Rightarrow> 'p zone \<Rightarrow> bool" where
  "zone_any C live z \<longleftrightarrow> (\<exists>R. zok C live R z)"

lemma purge_loop_step:
  assumes "0 < n" and "purge_batch C n (env i z) = (batch, z1)"
  shows "purge_loop C env i n m z =
    (let rc = (if \<not> zone_empty z1 \<and> (n - batch = 0 \<or> batch = 0) then NGX_AGAIN else NGX_OK)
     in if batch = 0 \<or> rc \<noteq> NGX_OK then (rc, m + batch, z1)
        else purge_loop C env (Suc i) (n - batch) (m + batch) z1)"
  using assms by (subst purge_loop.simps) (simp only: prod.case gr_implies_not0 if_False)

lemma purge_loop_spec:
  assumes "zone_any C live z" and "\<And>i z. zone_any C live z \<Longrightarrow> zone_any C live (env i z)"
    and "purge_loop C env i n m z = (rc, m', z')" and "0 < n"
  shows "zone_any C live z' \<and> m \<le> m' \<and> m' \<le> m + n \<and> rc \<in> {NGX_OK, NGX_AGAIN} \<and>
    (rc = NGX_OK \<longrightarrow> zone_empty z')"
  using assms
proof (induction C env i n m z rule: purge_loop.induct)
  case (1 C env i n m z)
  obtain R where R: "zok C live R (env i z)" using "1.prems"(1,2) unfolding zone_any_def by blast
  obtain batch z1 where b: "purge_batch C n (env i z) = (batch, z1)"
    by (cases "purge_batch C n (env i z)")
  note c = purge_batch_count [OF R b]
  have any: "zone_any C live z1" using c(1) by (auto simp: zone_any_def)
  let ?rc = "if \<not> zone_empty z1 \<and> (n - batch = 0 \<or> batch = 0) then NGX_AGAIN else NGX_OK"
  have run: "(if batch = 0 \<or> ?rc \<noteq> NGX_OK then (?rc, m + batch, z1)
      else purge_loop C env (Suc i) (n - batch) (m + batch) z1) = (rc, m', z')"
    using "1.prems"(3) purge_loop_step [where env = env and i = i and z = z and m = m, OF "1.prems"(4) b] by (simp only: Let_def)
  show ?case
  proof (cases "batch = 0 \<or> ?rc \<noteq> NGX_OK")
    case True
    then have "rc = ?rc" "m' = m + batch" "z' = z1" using run by auto
    with True any c(2) show ?thesis by (auto split: if_splits)
  next
    case False
    then have rec: "purge_loop C env (Suc i) (n - batch) (m + batch) z1 = (rc, m', z')"
      using run by (simp only: False if_False)
    show ?thesis
    proof (cases "n - batch = 0")
      case True
      then have "zone_empty z1" using False by (auto split: if_splits)
      then show ?thesis using rec True any c(2) by (subst (asm) purge_loop.simps) auto
    next
      case more: False
      have "zone_any C live z' \<and> m + batch \<le> m' \<and> m' \<le> m + batch + (n - batch) \<and>
          rc \<in> {NGX_OK, NGX_AGAIN} \<and> (rc = NGX_OK \<longrightarrow> zone_empty z')"
        by (rule "1.IH" [OF _ b [symmetric] refl _ any "1.prems"(2) rec])
          (use "1.prems"(4) False more in auto)
      then show ?thesis using c(2) by auto
    qed
  qed
qed

lemma purge_loop_alone:
  assumes "zok C live R z" and "n_entries z = n" and "purge_loop C env i n m z = (rc, m', z')"
    and "env = (\<lambda>i z. z)"
  shows "m' = m + n \<and> rc = NGX_OK"
  using assms
proof (induction C env i n m z rule: purge_loop.induct)
  case (1 C env i n m z)
  show ?case
  proof (cases "n = 0")
    case True
    then show ?thesis using "1.prems"(3) by (subst (asm) purge_loop.simps) simp
  next
    case n: False
    obtain batch z1 where b': "purge_batch C n z = (batch, z1)" by (cases "purge_batch C n z")
    note c = purge_batch_count [OF "1.prems"(1) b']
    have b: "purge_batch C n (env i z) = (batch, z1)" using b' "1.prems"(4) by simp
    have pos: "batch \<noteq> 0" "batch \<le> n" using c(2) n "1.prems"(2) by (auto simp: PURGE_BATCH_def)
    have em: "zone_empty z1 \<or> n - batch \<noteq> 0" using zok_empty [OF c(1)] c(3) "1.prems"(2) by auto
    then have rec: "purge_loop C env (Suc i) (n - batch) (m + batch) z1 = (rc, m', z')"
      using "1.prems"(3) purge_loop_step [where env = env and i = i and z = z and m = m, OF _ b] n pos(1)
      by (auto simp: Let_def split: if_splits)
    have "m' = m + batch + (n - batch) \<and> rc = NGX_OK"
      by (rule "1.IH" [OF n b [symmetric] refl _ c(1) _ rec "1.prems"(4)])
        (use pos em c(3) "1.prems"(2) in auto)
    with pos(2) show ?thesis by simp
  qed
qed

text \<open>A flush does bounded work and tells the truth. Whatever the other workers do to the zone
  between two batches, \<open>purge_all\<close> returns, drops at most as many nodes as were resident when it
  started (a refill cannot hold it), keeps the zone invariant, and reports NGX_OK only when the
  zone was empty as it left; undisturbed it drops exactly the resident nodes and leaves none.\<close>

theorem purge_all_bounded:
  assumes "zone_any C live z" and "\<And>i z. zone_any C live z \<Longrightarrow> zone_any C live (env i z)"
    and "shm_purge_all C env z = (rc, purged, z')"
  shows "zone_any C live z' \<and> purged \<le> n_entries z \<and> rc \<in> {NGX_OK, NGX_AGAIN} \<and>
    (rc = NGX_OK \<longrightarrow> nodes z' = (\<lambda>a. None)) \<and>
    (env = (\<lambda>i z. z) \<longrightarrow> rc = NGX_OK \<and> purged = n_entries z)"
proof -
  obtain R where R: "zok C live R z" using assms(1) by (auto simp: zone_any_def)
  have "zone_any C live z' \<and> purged \<le> n_entries z \<and> rc \<in> {NGX_OK, NGX_AGAIN} \<and>
    (rc = NGX_OK \<longrightarrow> zone_empty z') \<and> (env = (\<lambda>i z. z) \<longrightarrow> rc = NGX_OK \<and> purged = n_entries z)"
  proof (cases "n_entries z = 0")
    case True
    then show ?thesis
      using assms(1,3) zok_empty [OF R] by (auto simp: shm_purge_all_def Let_def)
  next
    case False
    then have run: "purge_loop C env 0 (n_entries z) 0 z = (rc, purged, z')"
      using assms(3) by (simp add: shm_purge_all_def Let_def)
    then show ?thesis
      using purge_loop_spec [OF assms(1) _ run] purge_loop_alone [OF R refl run] False assms(2)
      by auto
  qed
  moreover have "nodes z' = (\<lambda>a. None)" if any: "zone_any C live z'" and em: "zone_empty z'"
  proof -
    obtain R' where "zok C live R' z'" using any by (auto simp: zone_any_def)
    from zok_queues(4) [OF this] em have "dom (nodes z') = {}" by (simp add: zone_empty_def)
    then show ?thesis by simp
  qed
  ultimately show ?thesis by blast
qed

theorem purge_all_bounded_witness:
  "\<exists>z'. shm_purge_all (demo_core 6) (\<lambda>i z. z) demo_stored = (NGX_OK, 1, z') \<and> nodes z' = (\<lambda>a. None)"
proof -
  obtain rc purged z' where st: "shm_purge_all (demo_core 6) (\<lambda>i z. z) demo_stored = (rc, purged, z')"
    by (cases "shm_purge_all (demo_core 6) (\<lambda>i z. z) demo_stored")
  have "zone_any (demo_core 6) set demo_stored" using demo_stored_ok by (auto simp: zone_any_def)
  from purge_all_bounded [OF this _ st] st demo_stored_counts(1) show ?thesis by simp
qed

subsection \<open>Promotion\<close>

text \<open>What a touch may change of a node: its segment and the two LRU stamps.\<close>

definition requeued :: "node \<Rightarrow> node \<Rightarrow> bool" where
  "requeued n n' \<longleftrightarrow> n' = n\<lparr>seg := seg n', last_access := last_access n', promotable := promotable n'\<rparr>"

lemma demote_step_zok:
  assumes inv: "zok C live R z" and p: "lru_protected z \<noteq> []"
  shows "zok C live R (lru_link_head (upd_node (last (lru_protected z)) (\<lambda>n. n\<lparr>seg := SEG_PROBATION\<rparr>)
    (lru_unlink z (last (lru_protected z)))) (last (lru_protected z)))"
proof -
  have "last (lru_protected z) \<in> dom (nodes z)"
    using lru_ok_queues(2) [OF zinvD(5) [OF inv]] last_in_set [OF p] by blast
  then show ?thesis by (intro zinv_move [OF inv]) (simp_all add: soft_def)
qed

lemma lru_demote_spec:
  "zok C live R z \<Longrightarrow>
    n_protected (lru_demote k cap z) = (if n_protected z > cap then max cap (n_protected z - k) else n_protected z) \<and>
    n_entries (lru_demote k cap z) = n_entries z \<and>
    lru_protected (lru_demote k cap z) = take (n_protected (lru_demote k cap z)) (lru_protected z) \<and>
    (\<forall>a. nodes (lru_demote k cap z) a = (if a \<in> set (drop (n_protected (lru_demote k cap z)) (lru_protected z))
      then Some ((node_at z a)\<lparr>seg := SEG_PROBATION\<rparr>) else nodes z a))"
proof (induction k cap z rule: lru_demote.induct)
  case (1 cap z)
  then show ?case using zok_queues(2) [OF 1] by simp
next
  case (2 k cap z)
  note q = zok_queues(1,2) [OF "2.prems"]
  show ?case
  proof (cases "n_protected z > cap \<and> lru_protected z \<noteq> []")
    case True
    define v where "v = last (lru_protected z)"
    define w where "w = lru_link_head (upd_node v (\<lambda>n. n\<lparr>seg := SEG_PROBATION\<rparr>) (lru_unlink z v)) v"
    have step: "lru_demote (Suc k) cap z = lru_demote k cap w"
      using True by (simp add: w_def v_def Let_def)
    have w: "zok C live R w" unfolding w_def v_def by (rule demote_step_zok) (use "2.prems" True in auto)
    have v: "v \<in> set (lru_protected z)" "v \<notin> set (lru z)"
      using True q(1) by (auto simp: v_def)
    have sv: "seg (node_at z v) = SEG_PROTECTED"
      using zinvD(5) [OF "2.prems"] v(1) by (simp add: lru_ok_def)
    have lp: "lru_protected w = butlast (lru_protected z)"
      using q(1) True by (simp add: w_def v_def lru_link_head_def node_at_upd butlast_removeAll_last)
    have np: "n_protected w = n_protected z - 1" and ne: "n_entries w = n_entries z"
      using sv by (simp_all add: w_def lru_link_head_def node_at_upd)
    have nw: "nodes w a = (if a = v then Some ((node_at z v)\<lparr>seg := SEG_PROBATION\<rparr>) else nodes z a)" for a
      by (simp add: w_def lru_link_head_def node_at_upd node_at_def)
    let ?m = "n_protected (lru_demote k cap w)"
    have IH: "?m = (if n_protected w > cap then max cap (n_protected w - k) else n_protected w)"
      "n_entries (lru_demote k cap w) = n_entries w"
      "lru_protected (lru_demote k cap w) = take ?m (lru_protected w)"
      "\<And>a. nodes (lru_demote k cap w) a = (if a \<in> set (drop ?m (lru_protected w))
        then Some ((node_at w a)\<lparr>seg := SEG_PROBATION\<rparr>) else nodes w a)"
      using "2.IH" [OF True refl refl refl] w unfolding w_def v_def by blast+
    have m: "?m = (if n_protected z > cap then max cap (n_protected z - Suc k) else n_protected z)"
      using IH(1) True unfolding np by auto
    have le: "?m \<le> length (lru_protected w)" using IH(1) zok_queues(2) [OF w] by auto
    have lz: "lru_protected z = lru_protected w @ [v]" using True by (simp add: lp v_def)
    have nv: "v \<notin> set (lru_protected w)" using q(1) by (simp add: lz)
    have "nodes (lru_demote k cap w) a = (if a \<in> set (drop ?m (lru_protected z))
        then Some ((node_at z a)\<lparr>seg := SEG_PROBATION\<rparr>) else nodes z a)" for a
      using IH(4) [of a] nw [of a] le nv by (auto simp: lz node_at_def nw dest: in_set_dropD)
    then show ?thesis
      unfolding step using m IH(2,3) ne le by (simp add: lz)
  next
    case False
    then have "lru_demote (Suc k) cap z = z" "\<not> n_protected z > cap" using q(2) by auto
    then show ?thesis using q(2) by simp
  qed
qed

text \<open>A touch that is not in the same second: one re-heading, then the cap.\<close>

definition touch_seg :: "'p zone \<Rightarrow> addr \<Rightarrow> nat \<Rightarrow> segment" where
  "touch_seg z a pct = (if pct = 0 then SEG_PROBATION
     else if kind (node_at z a) = NODE_ENTRY \<and> seg (node_at z a) = SEG_PROBATION \<and> promotable (node_at z a)
     then SEG_PROTECTED else seg (node_at z a))"

definition touch_move :: "'p zone \<Rightarrow> addr \<Rightarrow> time_t \<Rightarrow> nat \<Rightarrow> u32 \<Rightarrow> 'p zone" where
  "touch_move z a now pct hash =
     lru_link_head (upd_node a (\<lambda>n. n\<lparr>seg := touch_seg z a pct, promotable := True\<rparr>)
       (lru_unlink (upd_node a (\<lambda>n. n\<lparr>last_access := now\<rparr>)
         (z\<lparr>zsketch := sketch_bump (zsketch z) (sketch_rows hash)\<rparr>)) a)) a"

lemma touch_split:
  "shm_touch_lru z a now pct hash =
    (if now - last_access (node_at z a) < 1 then z\<lparr>zsketch := sketch_bump (zsketch z) (sketch_rows hash)\<rparr>
     else if pct > 0 then lru_enforce_cap (touch_move z a now pct hash) pct else touch_move z a now pct hash)"
proof -
  have "node_at (z\<lparr>zsketch := s\<rparr>) a = node_at z a" for s by (simp add: node_at_def)
  moreover have "node_at (lru_unlink (upd_node a f (z\<lparr>zsketch := s\<rparr>)) a) a = f (node_at z a)" for f s
    by (simp add: node_at_def)
  ultimately show ?thesis
    by (simp add: shm_touch_lru_def Let_def touch_move_def touch_seg_def)
qed

lemma touch_move_zok:
  assumes inv: "zok C live R z" and a: "a \<in> dom (nodes z)"
  shows "zok C live R (touch_move z a now pct hash)"
proof -
  let ?z0 = "z\<lparr>zsketch := sketch_bump (zsketch z) (sketch_rows hash)\<rparr>"
  have z0: "zok C live R ?z0"
    by (rule zinv_sketch [OF inv sketch_bump_wf]) (rule zinvD(10) [OF inv])
  have z1: "zok C live R (upd_node a (\<lambda>n. n\<lparr>last_access := now\<rparr>) ?z0)"
    by (rule zinv_upd_soft [OF z0]) (use a in \<open>simp_all add: soft_def\<close>)
  show ?thesis unfolding touch_move_def by (rule zinv_move [OF z1]) (simp_all add: soft_def)
qed

lemma touch_move_simps:
  assumes "zok C live R z" and "a \<in> dom (nodes z)"
  shows "nodes (touch_move z a now pct hash) = (nodes z)(a \<mapsto>
      (node_at z a)\<lparr>last_access := now, seg := touch_seg z a pct, promotable := True\<rparr>)"
    and "n_entries (touch_move z a now pct hash) = n_entries z"
    and "lru_protected (touch_move z a now pct hash) =
      (if touch_seg z a pct = SEG_PROTECTED then a # removeAll a (lru_protected z) else removeAll a (lru_protected z))"
    and "n_protected (touch_move z a now pct hash) \<le> n_protected z + 1"
proof -
  have n: "node_at (upd_node a (\<lambda>n. n\<lparr>last_access := now\<rparr>) (z\<lparr>zsketch := s\<rparr>)) a =
      (node_at z a)\<lparr>last_access := now\<rparr>" for s
    by (simp add: node_at_def)
  have m: "node_at (lru_unlink (upd_node a (\<lambda>n. n\<lparr>last_access := now\<rparr>) (z\<lparr>zsketch := s\<rparr>)) a) a =
      (node_at z a)\<lparr>last_access := now\<rparr>" for s
    by (simp add: node_at_def)
  show "nodes (touch_move z a now pct hash) = (nodes z)(a \<mapsto>
      (node_at z a)\<lparr>last_access := now, seg := touch_seg z a pct, promotable := True\<rparr>)"
    by (simp add: touch_move_def link_head_simps m)
  show "n_entries (touch_move z a now pct hash) = n_entries z"
    "lru_protected (touch_move z a now pct hash) =
      (if touch_seg z a pct = SEG_PROTECTED then a # removeAll a (lru_protected z) else removeAll a (lru_protected z))"
    by (simp_all add: touch_move_def lru_link_head_def node_at_upd)
  show "n_protected (touch_move z a now pct hash) \<le> n_protected z + 1"
    by (auto simp: touch_move_def lru_link_head_def node_at_upd n)
qed

lemma cap_arith:
  "x \<le> y + 1 \<Longrightarrow> (if c < x then max c (x - 8) else x) \<le> max c (y - 7)" for x y c :: nat
  by auto

lemma requeued_refl [simp]: "requeued n n"
  by (simp add: requeued_def)

text \<open>Scan resistance. A touch within the same second only feeds the admission sketch. Otherwise
  it stamps the node and re-heads it. A node gets to the protected queue only by the second touch
  of an ENTRY with a body, with segmentation on; its first touch only makes it promotable. After
  the touch the protected queue is within its cap, or at least seven nodes shorter than before:
  the work of one touch is bounded. No other field of any node changes, and no node leaves.\<close>

theorem touch_promotes_second_hit:
  assumes inv: "zok C live R z" and a: "a \<in> dom (nodes z)"
  shows "let z' = shm_touch_lru z a now pct hash; cap = max 1 ((n_entries z * pct + 99) div 100) in
    (now - last_access (node_at z a) < 1 \<longrightarrow>
      z' = z\<lparr>zsketch := sketch_bump (zsketch z) (sketch_rows hash)\<rparr>) \<and>
    (1 \<le> now - last_access (node_at z a) \<longrightarrow>
      promotable (node_at z' a) \<and> last_access (node_at z' a) = now \<and>
      (0 < pct \<longrightarrow> n_protected z' \<le> max cap (n_protected z - 7))) \<and>
    (\<forall>b. seg (node_at z b) = SEG_PROBATION \<longrightarrow> seg (node_at z' b) = SEG_PROTECTED \<longrightarrow>
      b = a \<and> 0 < pct \<and> kind (node_at z a) = NODE_ENTRY \<and> promotable (node_at z a)) \<and>
    (1 \<le> now - last_access (node_at z a) \<and> 0 < pct \<and> kind (node_at z a) = NODE_ENTRY \<and>
      promotable (node_at z a) \<and> seg (node_at z a) = SEG_PROBATION \<and> n_protected z < cap \<longrightarrow>
      lru_protected z' = a # lru_protected z) \<and>
    dom (nodes z') = dom (nodes z) \<and> (\<forall>b. requeued (node_at z b) (node_at z' b))"
proof -
  let ?z' = "shm_touch_lru z a now pct hash"
  let ?m = "touch_move z a now pct hash"
  let ?cap = "max 1 ((n_entries z * pct + 99) div 100)"
  note ms = touch_move_simps [OF inv a, where now = now and pct = pct and hash = hash]
  note mok = touch_move_zok [OF inv a, where now = now and pct = pct and hash = hash]
  have an: "nodes z a = Some (node_at z a)" using nodes_node_at [OF a] .
  have mat: "node_at ?m b = (if b = a then (node_at z a)\<lparr>last_access := now, seg := touch_seg z a pct,
      promotable := True\<rparr> else node_at z b)" for b
    by (simp add: node_at_def ms(1))
  show ?thesis
  proof (cases "now - last_access (node_at z a) < 1")
    case True
    then have z': "?z' = z\<lparr>zsketch := sketch_bump (zsketch z) (sketch_rows hash)\<rparr>"
      by (simp add: touch_split)
    have at: "node_at ?z' b = node_at z b" for b by (simp add: z' node_at_def)
    show ?thesis unfolding Let_def at using True z' by simp
  next
    case late: False
    define k where "k = (if pct > 0 then LRU_CAP_MAX_EVICT else 0)"
    have z': "?z' = lru_demote k ?cap ?m"
      using late by (simp add: touch_split lru_enforce_cap_def Let_def k_def ms(2) max_def)
    note d = lru_demote_spec [OF mok, of k ?cap]
    let ?np = "n_protected (lru_demote k ?cap ?m)"
    have at: "\<exists>s. node_at ?z' b = (node_at ?m b)\<lparr>seg := s\<rparr> \<and> (s = SEG_PROBATION \<or> s = seg (node_at ?m b))" for b
    proof (cases "b \<in> set (drop ?np (lru_protected ?m))")
      case True
      then have "nodes ?z' b = Some ((node_at ?m b)\<lparr>seg := SEG_PROBATION\<rparr>)" using d unfolding z' by simp
      then show ?thesis by (intro exI [of _ SEG_PROBATION]) (simp add: node_at_Some)
    next
      case False
      then have "nodes ?z' b = nodes ?m b" using d unfolding z' by simp
      then show ?thesis by (intro exI [of _ "seg (node_at ?m b)"]) (simp add: node_at_def)
    qed
    have dom: "dom (nodes ?z') = dom (nodes z)"
    proof -
      have sub: "set (drop ?np (lru_protected ?m)) \<subseteq> dom (nodes ?m)"
        using zok_queues(4) [OF mok] set_drop_subset [of ?np "lru_protected ?m"] by blast
      have "nodes ?z' b = None \<longleftrightarrow> nodes ?m b = None" for b
      proof (cases "b \<in> set (drop ?np (lru_protected ?m))")
        case True
        then have "nodes ?z' b \<noteq> None" "nodes ?m b \<noteq> None" using d sub unfolding z' by auto
        then show ?thesis by blast
      next
        case False
        then have "nodes ?z' b = nodes ?m b" using d unfolding z' by (simp only: if_False)
        then show ?thesis by simp
      qed
      then have "dom (nodes ?z') = dom (nodes ?m)" by (simp add: dom_def)
      then show ?thesis using a by (auto simp: ms(1))
    qed
    have pa: "promotable (node_at ?z' a)" "last_access (node_at ?z' a) = now"
    proof -
      obtain s where "node_at ?z' a = (node_at ?m a)\<lparr>seg := s\<rparr>" using at [of a] by blast
      then show "promotable (node_at ?z' a)" "last_access (node_at ?z' a) = now" by (simp_all add: mat)
    qed
    have np: "0 < pct \<longrightarrow> n_protected ?z' \<le> max ?cap (n_protected z - 7)"
    proof
      assume "0 < pct"
      then have "k = 8" by (simp add: k_def LRU_CAP_MAX_EVICT_def)
      with d have "n_protected ?z' = (if n_protected ?m > ?cap then max ?cap (n_protected ?m - 8)
          else n_protected ?m)"
        unfolding z' by blast
      also have "\<dots> \<le> max ?cap (n_protected z - 7)" using ms(4) by (rule cap_arith)
      finally show "n_protected ?z' \<le> max ?cap (n_protected z - 7)" .
    qed
    have sg: "b = a \<and> 0 < pct \<and> kind (node_at z a) = NODE_ENTRY \<and> promotable (node_at z a)"
      if "seg (node_at z b) = SEG_PROBATION" "seg (node_at ?z' b) = SEG_PROTECTED" for b
    proof -
      obtain s where s: "node_at ?z' b = (node_at ?m b)\<lparr>seg := s\<rparr>" "s = SEG_PROBATION \<or> s = seg (node_at ?m b)"
        using at [of b] by blast
      then have "seg (node_at ?m b) = SEG_PROTECTED" using that(2) by auto
      with that(1) show ?thesis by (auto simp: mat touch_seg_def split: if_splits)
    qed
    have rq: "requeued (node_at z b) (node_at ?z' b)" for b
    proof -
      obtain s where "node_at ?z' b = (node_at ?m b)\<lparr>seg := s\<rparr>" using at [of b] by blast
      then show ?thesis by (simp add: requeued_def mat)
    qed
    have pr: "lru_protected ?z' = a # lru_protected z"
      if "0 < pct" "kind (node_at z a) = NODE_ENTRY" "promotable (node_at z a)"
        "seg (node_at z a) = SEG_PROBATION" "n_protected z < ?cap"
    proof -
      have "a \<notin> set (lru_protected z)"
        using that(4) zinvD(5) [OF inv] by (auto simp: lru_ok_def)
      then have lp: "lru_protected ?m = a # lru_protected z"
        using that by (simp add: ms(3) touch_seg_def distinct_removeAll_notin)
      have "?np = n_protected ?m" using d ms(4) that(5) by (auto split: if_splits)
      then have "lru_protected ?z' = take (n_protected ?m) (lru_protected ?m)" using d unfolding z' by metis
      then show ?thesis using zok_queues(2) [OF mok] lp by simp
    qed
    show ?thesis
      unfolding Let_def using late dom pa np sg rq pr by (intro conjI allI impI) auto
  qed
qed

theorem touch_promotes_second_hit_witness:
  "let z' = shm_touch_lru demo_stored 1 120 80 7 in promotable (node_at z' 1) \<and>
    last_access (node_at z' 1) = 120 \<and> dom (nodes z') = dom (nodes demo_stored) \<and>
    seg (node_at z' 1) \<noteq> SEG_PROTECTED"
proof -
  have "1 \<in> dom (nodes demo_stored)" using demo_stored_node by blast
  from touch_promotes_second_hit [OF demo_stored_ok this, where now = 120 and pct = 80 and hash = 7]
  show ?thesis using demo_stored_node by (auto simp: Let_def node_at_def entry_node_def)
qed

end
