(* ===== verification/Zone_Readers.thy ===== *)
theory Zone_Readers
  imports Zone_Runs
begin

text \<open>
  Zero-copy serving: a request that holds a reference to a body sends straight from the slab without
  the mutex. This theory shows that no operation of any other worker frees or rewrites a body while
  somebody holds a reference to it.
\<close>

text \<open>Every held body of \<open>z'\<close> is the one of \<open>z\<close>, byte for byte.\<close>

definition keeps_held :: "(addr \<Rightarrow> nat) \<Rightarrow> 'p zone \<Rightarrow> 'p zone \<Rightarrow> bool" where
  "keeps_held R z z' \<longleftrightarrow> (\<forall>b r'. 0 < R b \<longrightarrow> blobs z' b = Some r' \<longrightarrow>
     (\<exists>r. blobs z b = Some r \<and> content r' = content r))"

named_theorems keeps \<open>held bodies survive one operation\<close>

lemma keeps_same [keeps]: "blobs z' = blobs z \<Longrightarrow> keeps_held R z z'"
  by (simp add: keeps_held_def)

lemma keeps_trans: "keeps_held R x y \<Longrightarrow> keeps_held R y z \<Longrightarrow> keeps_held R x z"
  unfolding keeps_held_def by metis

lemma keeps_shrinks [keeps]: "shrinks D z z' \<Longrightarrow> keeps_held R z z'"
  unfolding shrinks_def keeps_held_def by blast

lemma keeps_acquire [keeps]: "b \<in> dom (blobs z) \<Longrightarrow> keeps_held R z (blob_acquire z b)"
  by (auto simp: keeps_held_def blob_acquire_def)

lemma keeps_release [keeps]: "b \<in> dom (blobs z) \<Longrightarrow> keeps_held R z (blob_release C z b)"
  by (auto simp: keeps_held_def blob_release_unref blobs_unref split: if_splits)

lemma keeps_drop [keeps]: "zok C live R z \<Longrightarrow> a \<in> dom (nodes z) \<Longrightarrow> keeps_held R z (shm_drop_locked C z a)"
  unfolding keeps_held_def using drop_content zinvD(6) by blast

text \<open>A freshly allocated body is nobody's: a held one is a different one.\<close>

lemma keeps_fresh:
  assumes "shrinks D z w" and "zinv C live R D' X M w" and "bodies_kept w z' b"
  shows "keeps_held R z z'"
proof -
  have "keeps_held R w z'"
    using assms(3) blob_okD(6) [OF zinvD(6) [OF assms(2)]]
    unfolding keeps_held_def bodies_kept_def by metis
  with keeps_shrinks [OF assms(1)] show ?thesis by (rule keeps_trans)
qed

lemma keeps_store_locked:
  assumes inv: "zok C live R z" and k: "length k = 32" and ctn: "ctn = None \<or> ctn = shm_lookup z k"
    and st: "shm_store_locked C z now k hash body f s ctn = (rc, written, z')"
  shows "keeps_held R z z'"
proof -
  have key: "(case ctn of None \<Rightarrow> shm_lookup z k | Some a \<Rightarrow> Some a) = shm_lookup z k"
    using ctn by (auto split: option.split)
  show ?thesis
  proof (cases "shm_lookup z k")
    case None
    then have "store_new C z now k hash body f s = (rc, written, z')"
      using st key by (simp add: shm_store_locked_def)
    note n = store_new_inv(3,4) [OF inv k None this]
    show ?thesis
    proof (cases "rc = NGX_OK")
      case True
      from n(2) [OF True] show ?thesis by (elim exE conjE) (rule keeps_fresh)
    next
      case False
      with n(1) show ?thesis by (auto intro: keeps_shrinks)
    qed
  next
    case (Some a)
    then have "store_refresh C z now body f s a = (rc, written, z')"
      using st key by (simp add: shm_store_locked_def)
    note n = store_refresh_inv(2-4) [OF inv lookup_dom [OF inv k Some] this]
    show ?thesis
    proof (cases "rc = NGX_OK")
      case True
      from n(3) [OF True] show ?thesis by (elim exE conjE) (rule keeps_fresh)
    next
      case False
      with n(1,2) show ?thesis by (auto intro: keeps_shrinks)
    qed
  qed
qed

lemma keeps_hand_out:
  assumes inv: "zok C live R z" and k: "length k = 32" and ctn: "ctn = None \<or> ctn = shm_lookup z k"
    and st: "hand_out want (shm_store_locked C z now k hash body f s ctn) = (rc, out, z')"
  shows "keeps_held R z z'"
proof -
  obtain rc1 written z1 where l: "shm_store_locked C z now k hash body f s ctn = (rc1, written, z1)"
    by (cases "shm_store_locked C z now k hash body f s ctn") auto
  note kl = keeps_store_locked [OF inv k ctn l]
  note si = store_locked_inv(2) [OF inv k ctn l]
  show ?thesis
  proof (cases "rc1 = NGX_OK \<and> want")
    case True
    with si obtain a b n r where w: "written = Some a" "nodes z1 a = Some n" "data n = Some b"
      "blobs z1 b = Some r" by blast
    then have "z' = blob_acquire z1 b"
      using st l True by (auto simp: hand_out_def node_at_def Let_def)
    moreover have "keeps_held R z1 (blob_acquire z1 b)" by (rule keeps_acquire) (use w in blast)
    ultimately show ?thesis using keeps_trans [OF kl] by simp
  next
    case False
    then have "z' = z1" using st l by (auto simp: hand_out_def split: option.splits)
    with kl show ?thesis by simp
  qed
qed

lemma keeps_store_marker:
  assumes inv: "zok C live R z" and k: "length k = 32"
  shows "keeps_held R z (snd (shm_store_marker C z now k hash body f s))"
proof -
  obtain rc1 written z1 where l: "shm_store_locked C z now k hash body f s (shm_lookup z k) = (rc1, written, z1)"
    by (cases "shm_store_locked C z now k hash body f s (shm_lookup z k)") auto
  have "blobs (snd (shm_store_marker C z now k hash body f s)) = blobs z1"
    using l by (simp add: shm_store_marker_def Let_def split: option.split)
  then show ?thesis
    using keeps_trans [OF keeps_store_locked [OF inv k disjI2 [OF refl] l] keeps_same] by simp
qed

lemma keeps_drain_lru: "zok C live R z \<Longrightarrow> keeps_held R z (snd (drain_lru C n z))"
proof (induction C n z rule: drain_lru.induct)
  case (2 C n z)
  show ?case
  proof (cases "lru z = []")
    case False
    note d = hd_queue_dom(1) [OF "2.prems" False]
    have "zok C live R (shm_drop_locked C z (hd (lru z)))" using zinv_drop [OF "2.prems" d] by simp
    from keeps_trans [OF keeps_drop [OF "2.prems" d] "2.IH" [OF False this]] False
    show ?thesis by (simp add: case_prod_beta)
  qed (simp add: keeps_same)
qed (simp add: keeps_same)

lemma keeps_drain_protected: "zok C live R z \<Longrightarrow> keeps_held R z (snd (drain_protected C n z))"
proof (induction C n z rule: drain_protected.induct)
  case (2 C n z)
  show ?case
  proof (cases "lru_protected z = []")
    case False
    note d = hd_queue_dom(2) [OF "2.prems" False]
    have "zok C live R (shm_drop_locked C z (hd (lru_protected z)))" using zinv_drop [OF "2.prems" d] by simp
    from keeps_trans [OF keeps_drop [OF "2.prems" d] "2.IH" [OF False this]] False
    show ?thesis by (simp add: case_prod_beta)
  qed (simp add: keeps_same)
qed (simp add: keeps_same)

lemma keeps_purge_batch: "zok C live R z \<Longrightarrow> keeps_held R z (snd (purge_batch C n z))"
  using keeps_trans [OF keeps_drain_lru keeps_drain_protected [OF drain_lru_inv]]
  by (simp add: purge_batch_def Let_def case_prod_beta)

lemma blobs_insert_node [simp]: "blobs (insert_node C z k a n) = blobs z"
  by (simp add: insert_node_def lru_insert_new_def Let_def)

lemma blobs_demote [simp]: "blobs (lru_demote k cap z) = blobs z"
  by (induction k cap z rule: lru_demote.induct) (simp_all add: Let_def lru_link_head_def)

lemma blobs_touch [simp]: "blobs (shm_touch_lru z a now pct hash) = blobs z"
  by (simp add: shm_touch_lru_def Let_def lru_enforce_cap_def lru_link_head_def)

lemma keeps_alloc:
  assumes inv: "zok C live R z" and al: "shm_alloc_evict C z now (sizeof_node C) = (r, z')"
  shows "keeps_held R z z'"
  by (cases rule: alloc_node_cases [OF inv al]) (auto intro: keeps_shrinks)

lemma keeps_claim_locked:
  assumes inv: "zok C live R z" and k: "length k = 32"
    and st: "shm_claim_locked C z now hash k ttl (shm_lookup z k) want = (rc, owner, fresh, z')"
  shows "keeps_held R z z'"
proof (cases "shm_lookup z k")
  case (Some a)
  note a = lookup_dom [OF inv k Some]
  have "b \<in> dom (blobs z)" if len: "0 < len (node_at z a)" and b: "b = the (data (node_at z a))" for b
  proof -
    have "shape_ok z (node_at z a)"
      using zinvD(7) [OF inv] nodes_node_at [OF a] by (auto simp: shapes_ok_def)
    then obtain c where "data (node_at z a) = Some c"
      using len by (cases "data (node_at z a)") (auto simp: shape_ok_def)
    then show ?thesis using node_blob(1) [OF inv a] b by simp
  qed
  then show ?thesis
    using st Some by (auto simp: shm_claim_locked_def Let_def split: if_splits intro: keeps_acquire keeps_same)
next
  case None
  obtain p z1 where al: "shm_alloc_evict C z now (sizeof_node C) = (p, z1)"
    by (cases "shm_alloc_evict C z now (sizeof_node C)")
  have "blobs z' = blobs z1"
    using st None al by (auto simp: shm_claim_locked_def Let_def split: option.splits)
  with keeps_trans [OF keeps_alloc [OF inv al] keeps_same] show ?thesis by blast
qed

lemma keeps_count_miss:
  assumes inv: "zok C live R z"
    and st: "shm_count_miss_locked C z now k hash mu win (shm_lookup z k) = (rc, z')"
  shows "keeps_held R z z'"
proof (cases "shm_lookup z k")
  case (Some a)
  then show ?thesis
    using st by (auto simp: shm_count_miss_locked_def Let_def split: if_splits intro!: keeps_same)
next
  case None
  obtain p z1 where al: "shm_alloc_evict C z now (sizeof_node C) = (p, z1)"
    by (cases "shm_alloc_evict C z now (sizeof_node C)")
  have "blobs z' = blobs z1"
    using st None al by (auto simp: shm_count_miss_locked_def split: option.splits)
  with keeps_trans [OF keeps_alloc [OF inv al] keeps_same] show ?thesis by blast
qed

lemma keeps_resolve_miss:
  assumes inv: "zok C live R z" and k: "length k = 32"
    and st: "shm_resolve_miss C z now k hash mu win ttl = (crc, rc, owner, fresh, z')"
  shows "keeps_held R z z'"
proof -
  obtain c z1 where cm: "shm_count_miss_locked C z now k hash mu win (shm_lookup z k) = (c, z1)"
    by (cases "shm_count_miss_locked C z now k hash mu win (shm_lookup z k)")
  note kc = keeps_count_miss [OF inv cm]
  show ?thesis
  proof (cases "c = NGX_DECLINED")
    case True
    then show ?thesis using st cm kc by (auto simp: shm_resolve_miss_def Let_def)
  next
    case False
    have "(case shm_lookup z k of None \<Rightarrow> shm_lookup z1 k | Some a \<Rightarrow> Some a) = shm_lookup z1 k"
      using count_miss_lookup [OF inv k cm] by (auto split: option.split)
    then have "shm_claim_locked C z1 now hash k ttl (shm_lookup z1 k) True = (rc, owner, fresh, z')"
      using st cm False
      by (cases "shm_claim_locked C z1 now hash k ttl (shm_lookup z1 k) True")
        (simp add: shm_resolve_miss_def Let_def)
    from keeps_trans [OF kc keeps_claim_locked [OF shm_count_miss_locked_inv [OF inv k refl cm] k this]]
    show ?thesis .
  qed
qed

lemma keeps_l2_neg_set:
  assumes inv: "zok C live R z"
  shows "keeps_held R z (shm_l2_neg_set C z now k hash ttl)"
proof (cases "shm_lookup z k")
  case None
  obtain p z1 where al: "shm_alloc_evict C z now (sizeof_node C) = (p, z1)"
    by (cases "shm_alloc_evict C z now (sizeof_node C)")
  have "blobs (shm_l2_neg_set C z now k hash ttl) = blobs z1"
    using None al by (simp add: shm_l2_neg_set_def split: option.split)
  with keeps_trans [OF keeps_alloc [OF inv al] keeps_same] show ?thesis by blast
qed (simp add: shm_l2_neg_set_def keeps_same)

lemma keeps_step:
  assumes inv: "zok C live R z" and ok: "event_ok (z, R) e" and st: "zone_step C (z, R) e = (z', R')"
  shows "keeps_held R z z'"
proof (cases e)
  case (EStore now k h body f s want)
  with ok st keeps_hand_out [OF inv _ disjI1 [OF refl]] show ?thesis
    by (cases "shm_store C z now k h body f s want") (auto simp: shm_store_def)
next
  case (EStoreMarker now k h body f s)
  with ok st keeps_store_marker [OF inv, of k now h body f s] show ?thesis by simp
next
  case (EStoreIf now k h body f s p want)
  with ok st keeps_hand_out [OF inv _ disjI2 [OF refl]] show ?thesis
    by (cases "shm_store_if C z now k h body f s p want")
      (auto simp: shm_store_if_def Let_def split: if_splits intro: keeps_same)
next
  case (EFreshen now k f s)
  with st show ?thesis by (auto simp: shm_freshen_def intro!: keeps_same split: option.splits if_splits)
next
  case (EPurgeKey k)
  with ok st keeps_drop [OF inv] lookup_dom [OF inv] show ?thesis
    by (auto simp: shm_purge_key_def intro: keeps_same split: option.splits)
next
  case (EPurgeIf k b)
  with ok st keeps_drop [OF inv] lookup_dom [OF inv] show ?thesis
    by (auto simp: shm_purge_if_blob_def intro: keeps_same split: option.splits if_splits)
next
  case (EPurgeBatch n)
  with st keeps_purge_batch [OF inv, of n] show ?thesis by simp
next
  case (EClaim now k h ttl)
  with ok st keeps_claim_locked [OF inv] show ?thesis
    by (cases "shm_claim_locked C z now h k ttl (shm_lookup z k) False") (auto simp: shm_claim_def)
next
  case (EResolve now k h mu win ttl)
  with ok st keeps_resolve_miss [OF inv] show ?thesis
    by (cases "shm_resolve_miss C z now k h mu win ttl") auto
next
  case (EUnstub now k owner)
  with st show ?thesis
    by (auto simp: shm_unstub_def Let_def intro!: keeps_same split: option.splits)
next
  case (ECountMiss now k h mu win)
  with st keeps_count_miss [OF inv] show ?thesis
    by (cases "shm_count_miss C z now k h mu win") (auto simp: shm_count_miss_def)
next
  case (ENegCheck now k h)
  with st show ?thesis
    by (auto simp: shm_l2_neg_check_def intro!: keeps_same split: option.splits if_splits)
next
  case (ENegSet now k h ttl)
  with st keeps_l2_neg_set [OF inv] show ?thesis by auto
next
  case (EVaridx k p)
  with st show ?thesis
    by (auto simp: shm_varidx_pending_set_def intro!: keeps_same split: option.splits if_splits)
next
  case (ETouch now k pct h)
  with st show ?thesis by (auto intro!: keeps_same split: option.splits)
next
  case (EClaimRefresh k until)
  with st show ?thesis by (auto simp: claim_refresh_def intro!: keeps_same split: option.splits if_splits)
next
  case (EAcquire k)
  with ok st lookup_dom [OF inv] node_blob(1) [OF inv] show ?thesis
    by (auto intro!: keeps_acquire intro: keeps_same split: option.splits) (metis domD)
next
  case (ERelease b)
  then have "b \<in> dom (blobs z)" using ok blob_okD(6) [OF zinvD(6) [OF inv]] by simp
  from keeps_release [OF this] ERelease st show ?thesis by auto
next
  case (EReload adm)
  with st show ?thesis by (auto simp: shm_reload_zone_def intro!: keeps_same)
qed

subsection \<open>Over whole runs\<close>

text \<open>A request holds body \<open>b\<close> at every moment of a run.\<close>

fun held_throughout :: "'p ngx_core \<Rightarrow> addr \<Rightarrow> 'p zstate \<Rightarrow> zevent list \<Rightarrow> bool" where
  "held_throughout C b zr [] = (0 < snd zr b)"
| "held_throughout C b zr (e # es) = (0 < snd zr b \<and> held_throughout C b (zone_step C zr e) es)"

text \<open>C3: Zero-copy serving is safe. As long as some request holds a reference to a body, whatever
  the workers do meanwhile (evict its entry, overwrite it, purge the zone, drop other references),
  the body stays allocated, is not handed to anybody else by the slab, and keeps its bytes.\<close>

theorem held_body_stable:
  assumes "zok C live R z" and "zone_permits C (z, R) es" and "held_throughout C b (z, R) es"
  shows "let z' = fst (zone_run C (z, R) es) in b \<in> live (pool z') \<and> b \<notin> dom (nodes z') \<and>
    (\<exists>r r'. blobs z b = Some r \<and> blobs z' b = Some r' \<and> content r' = content r)"
  using assms
proof (induction es arbitrary: z R)
  case Nil
  have "b \<in> dom (blobs z)" using blob_okD(6) [OF zinvD(6) [OF Nil(1)]] Nil(3) by simp
  then show ?case
    using zinvD(2) [OF Nil(1)] by (auto simp: zone_run_def live_ok_def)
next
  case (Cons e es)
  obtain z1 R1 where st: "zone_step C (z, R) e = (z1, R1)" by (cases "zone_step C (z, R) e")
  have ok: "event_ok (z, R) e" and per: "zone_permits C (z1, R1) es"
    using Cons.prems(2) st by (simp_all add: zone_permits_def)
  have z1: "zok C live R1 z1"
    using zone_step_ok [of C live "(z, R)" e] Cons.prems(1) ok st by (simp add: zone_ok_def)
  have hb: "0 < R b" and held: "held_throughout C b (z1, R1) es" using Cons.prems(3) st by simp_all
  have run: "zone_run C (z, R) (e # es) = zone_run C (z1, R1) es" by (simp add: zone_run_def st)
  from Cons.IH [OF z1 per held] obtain r1 r' where r: "blobs z1 b = Some r1"
    "blobs (fst (zone_run C (z1, R1) es)) b = Some r'" "content r' = content r1"
    and l: "b \<in> live (pool (fst (zone_run C (z1, R1) es)))" "b \<notin> dom (nodes (fst (zone_run C (z1, R1) es)))"
    by (auto simp: Let_def)
  from keeps_step [OF Cons.prems(1) ok st] r(1) hb obtain r where
    "blobs z b = Some r" "content r1 = content r" unfolding keeps_held_def by blast
  with r l show ?case unfolding run Let_def by auto
qed

text \<open>A reader of the demo entry; meanwhile its entry is overwritten and the zone flushed.\<close>

lemma demo_reader_ok: "zok (demo_core 6) set ((\<lambda>b. 0)(2 := 1)) (blob_acquire demo_stored 2)"
proof -
  have "2 \<in> dom (blobs demo_stored)" by (simp add: demo_stored_def)
  from zinv_blob_acquire [OF demo_stored_ok this] show ?thesis by simp
qed

theorem held_body_stable_witness:
  "let z' = fst (zone_run (demo_core 6) (blob_acquire demo_stored 2, (\<lambda>b. 0)(2 := 1))
      [EStore 200 (demo_key 1) 7 [99] 60 0 False, EPurgeBatch 10])
   in 2 \<in> set (pool z') \<and> (\<exists>r'. blobs z' 2 = Some r' \<and> content r' = [10, 20, 30])"
proof -
  have h: "held_throughout (demo_core 6) 2 (blob_acquire demo_stored 2, (\<lambda>b. 0)(2 := 1))
      [EStore 200 (demo_key 1) 7 [99] 60 0 False, EPurgeBatch 10]"
    by code_simp
  have p: "zone_permits (demo_core 6) (blob_acquire demo_stored 2, (\<lambda>b. 0)(2 := 1))
      [EStore 200 (demo_key 1) 7 [99] 60 0 False, EPurgeBatch 10]"
    by (simp add: zone_permits_def)
  show ?thesis
    using held_body_stable [OF demo_reader_ok p h]
    by (auto simp: Let_def blob_acquire_def demo_stored_def)
qed

end
