(* ===== verification/Headers.thy ===== *)
theory Headers
  imports Prelude
begin

text \<open>
  Which response headers may cross into or out of the cache
  (\<^verbatim>\<open>module.c\<close>: \<open>header_skip\<close>, \<open>header_admissible\<close> and its two phases; \<^verbatim>\<open>filters.c\<close>:
  \<open>header_role\<close>). The gate is asked on the way in by the body filter and on the way out by the
  restore path; everything downstream relies on what an admissible pair cannot contain.

  The location configuration appears here with the two fields the gate reads; later theories
  extend the record. nginx's own case-insensitive compare is the one the repository mirrors
  byte for byte in \<^verbatim>\<open>ci/fuzz/ngx_shim_blob.h\<close>.
\<close>

subsection \<open>Bytes and ASCII\<close>

definition ascii :: "string \<Rightarrow> bytes" where
  "ascii s = map of_char s"

abbreviation CR :: u8 where "CR \<equiv> 13"
abbreviation LF :: u8 where "LF \<equiv> 10"

definition lc_byte :: "u8 \<Rightarrow> u8" where
  "lc_byte c = (if 0x41 \<le> c \<and> c \<le> 0x5A then c OR 0x20 else c)"

definition cur_byte :: "bytes \<Rightarrow> u8" where
  "cur_byte s = (case s of [] \<Rightarrow> 0 | c # _ \<Rightarrow> c)"

fun ngx_strncasecmp :: "bytes \<Rightarrow> bytes \<Rightarrow> nat \<Rightarrow> int" where
  "ngx_strncasecmp s1 s2 0 = 0"
| "ngx_strncasecmp s1 s2 (Suc n) =
    (let c1 = lc_byte (cur_byte s1); c2 = lc_byte (cur_byte s2)
     in if c1 = c2 then (if c1 \<noteq> 0 then ngx_strncasecmp (tl s1) (tl s2) n else 0)
        else uint c1 - uint c2)"

definition name_is :: "bytes \<Rightarrow> bytes \<Rightarrow> bool" where
  "name_is name lit \<longleftrightarrow> length name = length lit \<and> ngx_strncasecmp name lit (length lit) = 0"

subsection \<open>The gate\<close>

record hdr_conf =
  surrogate_key :: bool
  require_header :: bytes

definition header_skip_table :: "bytes list" where
  "header_skip_table = map ascii
    [''Connection'', ''Keep-Alive'', ''Proxy-Authenticate'', ''Proxy-Authorization'',
     ''TE'', ''Trailer'', ''Transfer-Encoding'', ''Upgrade'',
     ''Content-Length'', ''Content-Encoding'', ''Set-Cookie'', ''Date'', ''Server'',
     ''Age'', ''X-Cache'', ''X-Cache-Status'', ''CDN-Cache-Control'', ''Surrogate-Control'']"

definition header_skip :: "'a hdr_conf_scheme \<Rightarrow> bytes \<Rightarrow> bool" where
  "header_skip clcf name =
    (if surrogate_key clcf \<and> name_is name (ascii ''Surrogate-Key'') then True
     else if list_ex (name_is name) header_skip_table then True
     else require_header clcf \<noteq> [] \<and> name_is name (require_header clcf))"

definition is_tchar :: "u8 \<Rightarrow> bool" where
  "is_tchar c \<longleftrightarrow>
    (0x61 \<le> c \<and> c \<le> 0x7A) \<or> (0x41 \<le> c \<and> c \<le> 0x5A) \<or> (0x30 \<le> c \<and> c \<le> 0x39) \<or>
    c \<in> set (ascii ''!#$%&'' @ [0x27] @ ascii ''*+-.^_'' @ [0x60] @ ascii ''|~'')"

fun tchar_scan :: "bytes \<Rightarrow> ngx_rc" where
  "tchar_scan [] = NGX_OK"
| "tchar_scan (c # cs) = (if is_tchar c then tchar_scan cs else NGX_DECLINED)"

definition header_admissible_name :: "bytes \<Rightarrow> ngx_rc" where
  "header_admissible_name name = (if length name = 0 then NGX_DECLINED else tchar_scan name)"

fun header_admissible_value :: "bytes \<Rightarrow> ngx_rc" where
  "header_admissible_value [] = NGX_OK"
| "header_admissible_value (c # cs) =
    (if c = CR \<or> c = LF \<or> c = 0 then NGX_DECLINED else header_admissible_value cs)"

definition header_admissible :: "'a hdr_conf_scheme \<Rightarrow> bytes \<Rightarrow> bytes \<Rightarrow> bool" where
  "header_admissible clcf name val =
    (if header_admissible_name name \<noteq> NGX_OK then False
     else if header_admissible_value val \<noteq> NGX_OK then False
     else if header_skip clcf name then False
     else True)"

subsection \<open>The role of a stored header\<close>

definition HROLE_OTHER :: u8 where "HROLE_OTHER = 0"
definition HROLE_CONTENT_TYPE :: u8 where "HROLE_CONTENT_TYPE = 1"
definition HROLE_ETAG :: u8 where "HROLE_ETAG = 2"
definition HROLE_LAST_MODIFIED :: u8 where "HROLE_LAST_MODIFIED = 3"
definition HROLE_MAX :: u8 where "HROLE_MAX = 3"

lemmas hrole_defs = HROLE_OTHER_def HROLE_CONTENT_TYPE_def HROLE_ETAG_def
  HROLE_LAST_MODIFIED_def HROLE_MAX_def

definition header_role :: "bytes \<Rightarrow> u8" where
  "header_role nm =
    (if length nm = length (ascii ''Content-Type'') \<and> cur_byte nm OR 0x20 = of_char CHR ''c''
        \<and> ngx_strncasecmp nm (ascii ''Content-Type'') (length nm) = 0
     then HROLE_CONTENT_TYPE
     else if length nm = length (ascii ''ETag'') \<and> cur_byte nm OR 0x20 = of_char CHR ''e''
        \<and> ngx_strncasecmp nm (ascii ''ETag'') (length nm) = 0
     then HROLE_ETAG
     else if length nm = length (ascii ''Last-Modified'') \<and> cur_byte nm OR 0x20 = of_char CHR ''l''
        \<and> ngx_strncasecmp nm (ascii ''Last-Modified'') (length nm) = 0
     then HROLE_LAST_MODIFIED
     else HROLE_OTHER)"

subsection \<open>What the compares decide\<close>

lemma length_ascii [simp]: "length (ascii s) = length s"
  by (simp add: ascii_def)

lemma lc_byte_zero: "lc_byte c = 0 \<longleftrightarrow> c = 0"
proof -
  have "bit (c OR 0x20) 5" by (simp add: bit_simps)
  then have "c OR 0x20 \<noteq> 0" by auto
  then show ?thesis by (auto simp: lc_byte_def)
qed

lemma strncasecmp_zero_iff:
  assumes "length s1 = n" and "length s2 = n" and "0 \<notin> set s2"
  shows "ngx_strncasecmp s1 s2 n = 0 \<longleftrightarrow> map lc_byte s1 = map lc_byte s2"
  using assms
proof (induction n arbitrary: s1 s2)
  case (Suc n)
  then obtain a as b bs where s: "s1 = a # as" "s2 = b # bs"
    by (metis length_Suc_conv)
  have "lc_byte b \<noteq> 0" using Suc.prems s by (auto simp: lc_byte_zero)
  with Suc s show ?case
    by (auto simp: Let_def cur_byte_def word_uint_eq_iff)
qed simp

declare ngx_strncasecmp.simps [simp del]

lemma name_is_iff:
  assumes "0 \<notin> set lit"
  shows "name_is name lit \<longleftrightarrow> map lc_byte name = map lc_byte lit"
proof (cases "length name = length lit")
  case True
  then show ?thesis using assms by (simp add: name_is_def strncasecmp_zero_iff)
next
  case False
  then show ?thesis by (auto simp: name_is_def dest: map_eq_imp_length_eq)
qed

lemma skip_table_nul_free: "lit \<in> set header_skip_table \<Longrightarrow> 0 \<notin> set lit"
proof -
  have "list_all (\<lambda>lit. 0 \<notin> set lit) header_skip_table"
    by code_simp
  then show "lit \<in> set header_skip_table \<Longrightarrow> 0 \<notin> set lit"
    by (auto simp: list_all_iff)
qed

lemma header_skip_table_member:
  assumes "lit \<in> set header_skip_table" and "map lc_byte name = map lc_byte lit"
  shows "header_skip clcf name"
  using assms by (auto simp: header_skip_def list_ex_iff name_is_iff skip_table_nul_free)

lemma tchar_scan_ok: "tchar_scan cs = NGX_OK \<longleftrightarrow> list_all is_tchar cs"
  by (induction cs) auto

lemma admissible_value_ok:
  "header_admissible_value cs = NGX_OK \<longleftrightarrow> CR \<notin> set cs \<and> LF \<notin> set cs \<and> 0 \<notin> set cs"
  by (induction cs) auto

lemma header_admissibleD:
  assumes "header_admissible clcf name val"
  shows "name \<noteq> []" "list_all is_tchar name" "CR \<notin> set val" "LF \<notin> set val" "0 \<notin> set val"
    "\<not> header_skip clcf name"
  using assms
  by (auto simp: header_admissible_def header_admissible_name_def tchar_scan_ok
      admissible_value_ok split: if_splits)

lemma tchar_safe: "is_tchar c \<Longrightarrow> c \<noteq> CR \<and> c \<noteq> LF \<and> c \<noteq> 0 \<and> c \<noteq> 0x3A \<and> c \<noteq> 0x20"
proof -
  have "\<not> is_tchar CR" "\<not> is_tchar LF" "\<not> is_tchar 0" "\<not> is_tchar 0x3A" "\<not> is_tchar 0x20"
    by code_simp+
  then show "is_tchar c \<Longrightarrow> c \<noteq> CR \<and> c \<noteq> LF \<and> c \<noteq> 0 \<and> c \<noteq> 0x3A \<and> c \<noteq> 0x20"
    by auto
qed

lemma header_role_le: "header_role nm \<le> HROLE_MAX"
  by (simp add: header_role_def hrole_defs)

lemma header_role_content_type: "header_role (ascii ''Content-Type'') = HROLE_CONTENT_TYPE"
  by code_simp

end
