(* ===== verification/Blob.thy ===== *)
theory Blob
  imports Headers "HOL-Library.Monad_Syntax"
begin

text \<open>
  The wire format of a cached object (\<^verbatim>\<open>blob.c\<close>): the fixed-endian getters and setters, the
  76-byte header writer, the validator with its single walk over the stored headers, and the
  trust bit that is cleared on everything that arrives from L2.

  A buffer is a list of bytes and a pointer into it an offset. Every access is checked: a read or
  write outside the buffer makes the whole function \<open>None\<close>, which no branch of the code returns.
  That the code never gets there is therefore a theorem (\<open>blob_validate_total\<close>), not a premise.
  The inner option of the validator is \<open>None\<close> where the code returns \<open>NGX_ERROR\<close>.
\<close>

subsection \<open>Checked access to a buffer\<close>

definition rd :: "bytes \<Rightarrow> nat \<Rightarrow> u8 option" where
  "rd b i = (if i < length b then Some (b ! i) else None)"

definition wr :: "bytes \<Rightarrow> nat \<Rightarrow> bytes \<Rightarrow> bytes option" where
  "wr b off bs = (if off + length bs \<le> length b
    then Some (take off b @ bs @ drop (off + length bs) b) else None)"

definition bslice :: "bytes \<Rightarrow> nat \<Rightarrow> nat \<Rightarrow> bytes" where
  "bslice b off n = take n (drop off b)"

subsection \<open>Little-endian integers\<close>

definition put_u16 :: "u16 \<Rightarrow> bytes" where
  "put_u16 v = [ucast (v AND 0xff), ucast (drop_bit 8 v AND 0xff)]"

definition put_u32 :: "u32 \<Rightarrow> bytes" where
  "put_u32 v = [ucast (v AND 0xff), ucast (drop_bit 8 v AND 0xff),
    ucast (drop_bit 16 v AND 0xff), ucast (drop_bit 24 v AND 0xff)]"

definition put_u64 :: "u64 \<Rightarrow> bytes" where
  "put_u64 v = put_u32 (ucast (v AND 0xffffffff)) @ put_u32 (ucast (drop_bit 32 v AND 0xffffffff))"

definition get_u16 :: "bytes \<Rightarrow> nat \<Rightarrow> u16 option" where
  "get_u16 b p = do {
    b0 \<leftarrow> rd b p; b1 \<leftarrow> rd b (p + 1);
    Some (ucast b0 OR push_bit 8 (ucast b1)) }"

definition get_u32 :: "bytes \<Rightarrow> nat \<Rightarrow> u32 option" where
  "get_u32 b p = do {
    b0 \<leftarrow> rd b p; b1 \<leftarrow> rd b (p + 1); b2 \<leftarrow> rd b (p + 2); b3 \<leftarrow> rd b (p + 3);
    Some (ucast b0 OR push_bit 8 (ucast b1) OR push_bit 16 (ucast b2) OR push_bit 24 (ucast b3)) }"

definition get_u64 :: "bytes \<Rightarrow> nat \<Rightarrow> u64 option" where
  "get_u64 b p = do {
    lo \<leftarrow> get_u32 b p; hi \<leftarrow> get_u32 b (p + 4);
    Some (ucast lo OR push_bit 32 (ucast hi)) }"

lemma rd_append: "rd (xs @ ys) n = (if n < length xs then rd xs n else rd ys (n - length xs))"
  by (auto simp: rd_def nth_append)

lemma rd_Cons: "rd (x # xs) n = (case n of 0 \<Rightarrow> Some x | Suc m \<Rightarrow> rd xs m)"
  by (cases n) (auto simp: rd_def)

lemma rd_in: "i < length b \<Longrightarrow> rd b i = Some (b ! i)"
  by (simp add: rd_def)

lemma wr_eq: "length pre = off \<Longrightarrow> length bs \<le> length rest \<Longrightarrow>
  wr (pre @ rest) off bs = Some (pre @ bs @ drop (length bs) rest)"
  by (simp add: wr_def)

lemma wr_length: "wr b off bs = Some d \<Longrightarrow> length d = length b"
  by (auto simp: wr_def split: if_splits)

lemma wr_fits: "off + length bs \<le> length b \<longleftrightarrow> wr b off bs \<noteq> None"
  by (simp add: wr_def)

text \<open>What every reader and writer of an integer field relies on, at any width.\<close>

locale byte_codec =
  fixes put :: "'v \<Rightarrow> bytes" and get :: "bytes \<Rightarrow> nat \<Rightarrow> 'v option" and width :: nat
  assumes put_width: "length (put v) = width"
    and get_put: "get (put v @ ys) 0 = Some v"
    and get_skip: "get (xs @ ys) (length xs + n) = get ys n"
    and get_local: "n + width \<le> length xs \<Longrightarrow> get (xs @ ys) n = get xs n"
    and get_in: "n + width \<le> length b \<Longrightarrow> get b n \<noteq> None"
begin

lemma get_append: "length xs \<le> n \<Longrightarrow> get (xs @ ys) n = get ys (n - length xs)"
  using get_skip [of xs ys "n - length xs"] by simp

lemma get_at: "n = length xs \<Longrightarrow> get (xs @ put v @ ys) n = Some v"
  using get_skip [of xs "put v @ ys" 0] by (simp add: get_put)

lemma get_wr: "wr b off (put v) = Some d \<Longrightarrow> get d off = Some v"
  by (auto simp: wr_def put_width intro!: get_at split: if_splits)

lemma get_wr_other:
  assumes "wr b off bs = Some d" and "n + width \<le> off \<or> off + length bs \<le> n"
  shows "get d n = get b n"
proof -
  have d: "d = take off b @ bs @ drop (off + length bs) b" and le: "off + length bs \<le> length b"
    using assms(1) by (auto simp: wr_def split: if_splits)
  show ?thesis using assms(2)
  proof
    assume n: "n + width \<le> off"
    have "get d n = get (take off b) n" unfolding d using n le by (intro get_local) simp
    also have "\<dots> = get (take off b @ drop off b) n"
      using n le by (intro get_local [symmetric]) simp
    finally show ?thesis by simp
  next
    assume n: "off + length bs \<le> n"
    have "get d n = get ((take off b @ bs) @ drop (off + length bs) b) n" by (simp add: d)
    also have "\<dots> = get (drop (off + length bs) b) (n - (off + length bs))"
      using n le by (subst get_append) auto
    also have "\<dots> = get (take (off + length bs) b @ drop (off + length bs) b) n"
      using n le by (subst get_append) auto
    finally show ?thesis by simp
  qed
qed

lemma get_inD: "n + width \<le> length b \<Longrightarrow> \<exists>v. get b n = Some v"
  using get_in by auto

end

lemma ff_mask: "(0xff :: 'a::len word) = mask 8" "(0xffffffff :: 'a::len word) = mask 32"
  by (simp_all add: mask_eq_exp_minus_1)

lemma u16_join: "(ucast (ucast (v AND 0xff) :: u8) :: u16)
    OR push_bit 8 (ucast (ucast (drop_bit 8 v AND 0xff) :: u8)) = v"
  unfolding ff_mask by (rule bit_word_eqI) (auto simp: bit_simps)

lemma u32_join: "(ucast (ucast (v AND 0xff) :: u8) :: u32)
    OR push_bit 8 (ucast (ucast (drop_bit 8 v AND 0xff) :: u8))
    OR push_bit 16 (ucast (ucast (drop_bit 16 v AND 0xff) :: u8))
    OR push_bit 24 (ucast (ucast (drop_bit 24 v AND 0xff) :: u8)) = v"
  unfolding ff_mask
proof (rule bit_word_eqI)
  fix n assume n: "n < LENGTH(32)"
  then consider "n < 8" | "8 \<le> n" "n < 16" | "16 \<le> n" "n < 24" | "24 \<le> n" "n < 32"
    by fastforce
  then show "bit ((ucast (ucast (v AND mask 8) :: u8) :: u32)
    OR push_bit 8 (ucast (ucast (drop_bit 8 v AND mask 8) :: u8))
    OR push_bit 16 (ucast (ucast (drop_bit 16 v AND mask 8) :: u8))
    OR push_bit 24 (ucast (ucast (drop_bit 24 v AND mask 8) :: u8))) n = bit v n"
    by cases (simp_all add: bit_simps, linarith+)
qed

lemma u64_join: "(ucast (ucast (v AND 0xffffffff) :: u32) :: u64)
    OR push_bit 32 (ucast (ucast (drop_bit 32 v AND 0xffffffff) :: u32)) = v"
  unfolding ff_mask by (rule bit_word_eqI) (auto simp: bit_simps)

interpretation u16: byte_codec put_u16 get_u16 2
proof
  fix v :: u16 and ys :: bytes
  show "get_u16 (put_u16 v @ ys) 0 = Some v"
    by (simp add: get_u16_def put_u16_def rd_def u16_join)
qed (auto simp: put_u16_def get_u16_def rd_def nth_append)

interpretation u32: byte_codec put_u32 get_u32 4
proof
  fix v :: u32 and ys :: bytes
  show "get_u32 (put_u32 v @ ys) 0 = Some v"
    by (simp add: get_u32_def put_u32_def rd_def u32_join)
next
  fix b :: bytes and n :: nat
  show "n + 4 \<le> length b \<Longrightarrow> get_u32 b n \<noteq> None"
    by (simp add: get_u32_def rd_def)
qed (auto simp: put_u32_def get_u32_def rd_append rd_in nth_append)

interpretation u64: byte_codec put_u64 get_u64 8
proof
  fix v :: u64 and xs ys :: bytes and n :: nat
  have "get_u32 (put_u32 a @ put_u32 c @ ys) 4 = Some c" for a c
    by (rule u32.get_at) (simp add: u32.put_width)
  then show "get_u64 (put_u64 v @ ys) 0 = Some v"
    by (simp add: get_u64_def put_u64_def u32.get_put u64_join)
  show "get_u64 (xs @ ys) (length xs + n) = get_u64 ys n"
    by (simp add: get_u64_def u32.get_skip add.assoc)
  show "n + 8 \<le> length xs \<Longrightarrow> get_u64 (xs @ ys) n = get_u64 xs n"
    by (simp add: get_u64_def u32.get_local)
next
  fix b :: bytes and n :: nat
  assume "n + 8 \<le> length b"
  then obtain lo hi where "get_u32 b n = Some lo" "get_u32 b (n + 4) = Some hi"
    using u32.get_inD [of n b] u32.get_inD [of "n + 4" b] by auto
  then show "get_u64 b n \<noteq> None" by (simp add: get_u64_def)
qed (simp add: put_u64_def u32.put_width)

lemmas [wire_simps] = u16.put_width u32.put_width u64.put_width
  u16.get_put u32.get_put u64.get_put u16.get_append u32.get_append u64.get_append

subsection \<open>The header\<close>

definition BLOB_MAGIC :: u32 where "BLOB_MAGIC = 0x43544235"
definition BLOB_VERSION :: u16 where "BLOB_VERSION = 5"
definition BLOB_HDR_WIRE :: nat where "BLOB_HDR_WIRE = 76"
definition BLOB_DATE_LEN :: nat where "BLOB_DATE_LEN = 29"
definition BLOB_DATE_OFF :: nat where "BLOB_DATE_OFF = 45"
definition BLOB_CREATED_MIN :: int where "BLOB_CREATED_MIN = 0"
definition FOREVER_TTL :: time_t where "FOREVER_TTL = 315360000"

definition BLOBF_BREAKER_ONLY :: u32 where "BLOBF_BREAKER_ONLY = 0x0001"
definition BLOBF_ORIGIN_ENCODED :: u32 where "BLOBF_ORIGIN_ENCODED = 0x0002"
definition BLOBF_AE_CLASS_SHIFT :: nat where "BLOBF_AE_CLASS_SHIFT = 2"
definition BLOBF_AE_CLASS_MASK :: u32 where "BLOBF_AE_CLASS_MASK = 0x000C"
definition BLOBF_AUTH_SHAREABLE :: u32 where "BLOBF_AUTH_SHAREABLE = 0x0010"
definition BLOBF_HDRS_VETTED :: u32 where "BLOBF_HDRS_VETTED = 0x0020"
definition BLOBF_HEAD_DERIVED :: u32 where "BLOBF_HEAD_DERIVED = 0x0040"

definition AE_CLASS_IDENTITY :: u32 where "AE_CLASS_IDENTITY = 0"
definition AE_CLASS_GZIP :: u32 where "AE_CLASS_GZIP = 1"
definition AE_CLASS_BR :: u32 where "AE_CLASS_BR = 2"
definition AE_CLASS_ZSTD :: u32 where "AE_CLASS_ZSTD = 3"

lemmas blob_consts = BLOB_HDR_WIRE_def BLOB_DATE_LEN_def BLOB_DATE_OFF_def
lemmas blobf_defs = BLOBF_BREAKER_ONLY_def BLOBF_ORIGIN_ENCODED_def BLOBF_AE_CLASS_SHIFT_def
  BLOBF_AE_CLASS_MASK_def BLOBF_AUTH_SHAREABLE_def BLOBF_HDRS_VETTED_def BLOBF_HEAD_DERIVED_def
lemmas ae_class_defs = AE_CLASS_IDENTITY_def AE_CLASS_GZIP_def AE_CLASS_BR_def AE_CLASS_ZSTD_def

record blob_hdr =
  bh_magic :: u32
  bh_version :: u32
  bh_nheaders :: u32
  bh_headers_len :: u32
  bh_body_len :: u32
  bh_status :: u32
  bh_created :: int
  bh_fresh :: u32
  bh_stale :: u32
  bh_sie :: u32
  bh_flags :: u32
  bh_date :: nat

definition flag_set :: "u32 \<Rightarrow> u32 \<Rightarrow> bool" where
  "flag_set flags bit_mask \<longleftrightarrow> flags AND bit_mask \<noteq> 0"

definition blob_ae_class :: "u32 \<Rightarrow> u32" where
  "blob_ae_class flags = drop_bit BLOBF_AE_CLASS_SHIFT (flags AND BLOBF_AE_CLASS_MASK)"

text \<open>
  \<open>ht\<close> is nginx's \<open>ngx_http_time\<close>: the bytes it renders a time as. A rendering of the wrong
  width leaves the length byte at a value that the validator rejects.
\<close>

definition blob_hdr_write :: "(time_t \<Rightarrow> bytes) \<Rightarrow> bytes \<Rightarrow> blob_hdr \<Rightarrow> bytes option" where
  "blob_hdr_write ht dst h = do {
    d \<leftarrow> wr dst 0 (put_u32 BLOB_MAGIC);
    d \<leftarrow> wr d 4 (put_u16 BLOB_VERSION);
    d \<leftarrow> wr d 6 (put_u16 (ucast (bh_flags h)));
    d \<leftarrow> wr d 8 (put_u32 (bh_status h));
    d \<leftarrow> wr d 12 (put_u32 (bh_nheaders h));
    d \<leftarrow> wr d 16 (put_u32 (bh_headers_len h));
    d \<leftarrow> wr d 20 (put_u32 (bh_body_len h));
    d \<leftarrow> wr d 24 (put_u64 (word_of_int (bh_created h)));
    d \<leftarrow> wr d 32 (put_u32 (bh_fresh h));
    d \<leftarrow> wr d 36 (put_u32 (bh_stale h));
    d \<leftarrow> wr d 40 (put_u32 (bh_sie h));
    d \<leftarrow> wr d BLOB_DATE_OFF (ht (bh_created h));
    d \<leftarrow> wr d 44 [if length (ht (bh_created h)) = BLOB_DATE_LEN then of_nat BLOB_DATE_LEN else 0];
    d \<leftarrow> wr d 74 [0];
    wr d 75 [0] }"

definition blob_clear_vetted :: "bytes \<Rightarrow> bytes option" where
  "blob_clear_vetted blob =
    (if length blob < BLOB_HDR_WIRE then Some blob
     else do {
       flags \<leftarrow> get_u16 blob 6;
       wr blob 6 (put_u16 (flags AND NOT (ucast BLOBF_HDRS_VETTED))) })"

subsection \<open>Validation\<close>

definition blob_read_hdr :: "bytes \<Rightarrow> blob_hdr option" where
  "blob_read_hdr blob = do {
    status \<leftarrow> get_u32 blob 8;
    nheaders \<leftarrow> get_u32 blob 12;
    headers_len \<leftarrow> get_u32 blob 16;
    body_len \<leftarrow> get_u32 blob 20;
    created \<leftarrow> get_u64 blob 24;
    fresh \<leftarrow> get_u32 blob 32;
    stale \<leftarrow> get_u32 blob 36;
    sie \<leftarrow> get_u32 blob 40;
    flags \<leftarrow> get_u16 blob 6;
    Some \<lparr>bh_magic = BLOB_MAGIC, bh_version = ucast BLOB_VERSION, bh_nheaders = nheaders,
      bh_headers_len = headers_len, bh_body_len = body_len, bh_status = status,
      bh_created = sint created, bh_fresh = fresh, bh_stale = stale, bh_sie = sie,
      bh_flags = ucast flags, bh_date = BLOB_DATE_OFF\<rparr> }"

definition blob_ranges_ok :: "time_t \<Rightarrow> blob_hdr \<Rightarrow> bool" where
  "blob_ranges_ok now h =
    (if bh_status h < 100 \<or> bh_status h > 599 then False
     else if bh_stale h < bh_fresh h then False
     else if flag_set (bh_flags h) BLOBF_ORIGIN_ENCODED
              \<noteq> (blob_ae_class (bh_flags h) \<noteq> AE_CLASS_IDENTITY) then False
     else if bh_created h < BLOB_CREATED_MIN \<or> bh_created h > now + FOREVER_TTL then False
     else True)"

fun date_scan :: "bytes \<Rightarrow> nat \<Rightarrow> nat \<Rightarrow> bool option" where
  "date_scan blob di 0 = Some True"
| "date_scan blob di (Suc n) = do {
    c \<leftarrow> rd blob (BLOB_DATE_OFF + di);
    if c < 0x20 \<or> c > 0x7E then Some False else date_scan blob (di + 1) n }"

record href =
  hr_name :: nat
  hr_nlen :: u32
  hr_val :: nat
  hr_vlen :: u32
  hr_role :: u32

definition blob_next_header :: "bytes \<Rightarrow> nat \<Rightarrow> nat \<Rightarrow> (href \<times> nat) option option" where
  "blob_next_header b p lim =
    (if lim - p < 9 then Some None
     else do {
       rl \<leftarrow> rd b p;
       if rl > HROLE_MAX then Some None
       else do {
         nl \<leftarrow> get_u32 b (p + 1);
         let name = p + 5;
         if lim - name < unat nl then Some None
         else do {
           let q = name + unat nl;
           if lim - q < 4 then Some None
           else do {
             vl \<leftarrow> get_u32 b q;
             let val = q + 4;
             if lim - val < unat vl then Some None
             else Some (Some (\<lparr>hr_name = name, hr_nlen = nl, hr_val = val, hr_vlen = vl,
               hr_role = ucast rl\<rparr>, val + unat vl)) } } } })"

fun blob_walk :: "bytes \<Rightarrow> nat \<Rightarrow> nat \<Rightarrow> nat \<Rightarrow> href list option option" where
  "blob_walk b 0 p lim = Some (Some [])"
| "blob_walk b (Suc n) p lim = do {
    step \<leftarrow> blob_next_header b p lim;
    (case step of
       None \<Rightarrow> Some None
     | Some (r, p') \<Rightarrow> do {
         rest \<leftarrow> blob_walk b n p' lim;
         Some (map_option ((#) r) rest) }) }"

text \<open>
  Where the decoded entries go: nowhere, into the caller's array when it is large enough, or into
  a pool allocation (\<open>Some False\<close>: it fails; \<open>None\<close>: no pool was passed).
\<close>

record refs_dest =
  rd_wanted :: bool
  rd_buf_cap :: "nat option"
  rd_pool :: "bool option"

definition refs_place :: "refs_dest \<Rightarrow> nat \<Rightarrow> bool option" where
  "refs_place dst n =
    (if rd_wanted dst \<and> n > 0
     then (case rd_buf_cap dst of
         Some cap \<Rightarrow> if n \<le> cap then Some True
           else (case rd_pool dst of Some ok \<Rightarrow> if ok then Some True else None | None \<Rightarrow> Some False)
       | None \<Rightarrow> (case rd_pool dst of Some ok \<Rightarrow> if ok then Some True else None | None \<Rightarrow> Some False))
     else Some False)"

definition blob_validate ::
  "time_t \<Rightarrow> refs_dest \<Rightarrow> bytes \<Rightarrow> (blob_hdr \<times> nat \<times> href list) option option" where
  "blob_validate now dst blob =
    (if length blob < BLOB_HDR_WIRE then Some None
     else do {
       magic \<leftarrow> get_u32 blob 0;
       version \<leftarrow> (if magic \<noteq> BLOB_MAGIC then Some 0 else get_u16 blob 4);
       if magic \<noteq> BLOB_MAGIC \<or> version \<noteq> BLOB_VERSION then Some None
       else do {
         h \<leftarrow> blob_read_hdr blob;
         if \<not> blob_ranges_ok now h then Some None
         else do {
           dl \<leftarrow> rd blob 44;
           if dl \<noteq> of_nat BLOB_DATE_LEN then Some None
           else do {
             printable \<leftarrow> date_scan blob 0 BLOB_DATE_LEN;
             if \<not> printable then Some None
             else if unat (bh_headers_len h) > length blob - BLOB_HDR_WIRE
                 \<or> unat (bh_body_len h) > length blob - BLOB_HDR_WIRE - unat (bh_headers_len h)
               then Some None
             else if unat (bh_nheaders h) > unat (bh_headers_len h) div 9 then Some None
             else (case refs_place dst (unat (bh_nheaders h)) of
                 None \<Rightarrow> Some None
               | Some keep \<Rightarrow> do {
                   let lim = BLOB_HDR_WIRE + unat (bh_headers_len h);
                   refs \<leftarrow> blob_walk blob (unat (bh_nheaders h)) BLOB_HDR_WIRE lim;
                   Some (map_option (\<lambda>rs. (h, lim, if keep then rs else [])) refs) }) } } } })"

subsection \<open>The validator reads only its buffer\<close>

definition printable :: "u8 \<Rightarrow> bool" where
  "printable c \<longleftrightarrow> 0x20 \<le> c \<and> c \<le> 0x7E"

lemma printable_iff: "c < 0x20 \<or> c > 0x7E \<longleftrightarrow> \<not> printable c"
  by (auto simp: printable_def)

lemma bslice_Suc: "i < length b \<Longrightarrow> bslice b i (Suc n) = b ! i # bslice b (Suc i) n"
  by (simp add: bslice_def Cons_nth_drop_Suc [symmetric])

lemma date_scan_in:
  "BLOB_DATE_OFF + di + n \<le> length b \<Longrightarrow>
    date_scan b di n = Some (list_all printable (bslice b (BLOB_DATE_OFF + di) n))"
proof (induction n arbitrary: di)
  case (Suc n)
  then have "date_scan b (di + 1) n =
      Some (list_all printable (bslice b (Suc (BLOB_DATE_OFF + di)) n))"
    by simp
  with Suc.prems show ?case
    by (simp add: rd_in bslice_Suc printable_iff)
qed (simp add: bslice_def)

text \<open>Entries laid end to end: each name and value between where the last one stopped and \<open>lim\<close>.\<close>

fun refs_laid :: "nat \<Rightarrow> nat \<Rightarrow> href list \<Rightarrow> bool" where
  "refs_laid p lim [] \<longleftrightarrow> p \<le> lim"
| "refs_laid p lim (r # rs) \<longleftrightarrow> hr_name r = p + 5 \<and> hr_val r = hr_name r + unat (hr_nlen r) + 4
    \<and> hr_role r \<le> ucast HROLE_MAX \<and> refs_laid (hr_val r + unat (hr_vlen r)) lim rs"

lemma refs_laid_le: "refs_laid p lim rs \<Longrightarrow> p \<le> lim"
  by (induction rs arbitrary: p) fastforce+

lemma refs_laid_each:
  assumes "refs_laid p lim rs" and "r \<in> set rs"
  shows "p \<le> hr_name r" "hr_name r + unat (hr_nlen r) \<le> lim" "hr_val r + unat (hr_vlen r) \<le> lim"
    "hr_role r \<le> ucast HROLE_MAX"
proof -
  have "p \<le> hr_name r \<and> hr_name r + unat (hr_nlen r) \<le> lim \<and> hr_val r + unat (hr_vlen r) \<le> lim
      \<and> hr_role r \<le> ucast HROLE_MAX"
    using assms
  proof (induction rs arbitrary: p)
    case (Cons a rs)
    let ?p = "hr_val a + unat (hr_vlen a)"
    have rest: "refs_laid ?p lim rs" and le: "?p \<le> lim"
      using Cons.prems refs_laid_le by auto
    show ?case
    proof (cases "r = a")
      case False
      then show ?thesis using Cons.IH [OF rest] Cons.prems by auto
    qed (use Cons.prems le in auto)
  qed simp
  then show "p \<le> hr_name r" "hr_name r + unat (hr_nlen r) \<le> lim" "hr_val r + unat (hr_vlen r) \<le> lim"
    "hr_role r \<le> ucast HROLE_MAX"
    by auto
qed

lemma refs_laid_val: "refs_laid p lim rs \<Longrightarrow> r \<in> set rs \<Longrightarrow> p \<le> hr_val r"
  by (induction rs arbitrary: p) fastforce+

lemma next_header_total:
  assumes "p \<le> lim" and "lim \<le> length b"
  shows "blob_next_header b p lim \<noteq> None"
proof (cases "lim - p < 9")
  case False
  have r: "rd b p = Some (b ! p)" using False assms by (simp add: rd_in)
  have "p + 1 + 4 \<le> length b" using False assms by simp
  then obtain nl where nl: "get_u32 b (p + 1) = Some nl"
    using u32.get_inD by blast
  show ?thesis
  proof (cases "lim - (p + 5) < unat nl \<or> lim - (p + 5 + unat nl) < 4")
    case True
    then show ?thesis using False r nl by (auto simp: blob_next_header_def Let_def)
  next
    case bad: False
    then have "p + 5 + unat nl + 4 \<le> length b" using False assms by linarith
    then obtain vl where "get_u32 b (p + 5 + unat nl) = Some vl"
      using u32.get_inD by blast
    then show ?thesis using False r nl bad by (auto simp: blob_next_header_def Let_def)
  qed
qed (simp add: blob_next_header_def)

lemma next_header_some:
  assumes "blob_next_header b p lim = Some (Some (r, p'))" and "p \<le> lim"
  shows "hr_name r = p + 5" "hr_val r = hr_name r + unat (hr_nlen r) + 4"
    "p' = hr_val r + unat (hr_vlen r)" "p' \<le> lim" "hr_role r \<le> ucast HROLE_MAX"
  using assms
  by (auto simp: blob_next_header_def Let_def hrole_defs word_le_nat_alt unat_ucast_u8 not_less
      split: if_splits bind_splits)

lemma walk_total: "p \<le> lim \<Longrightarrow> lim \<le> length b \<Longrightarrow> blob_walk b n p lim \<noteq> None"
proof (induction n arbitrary: p)
  case (Suc n)
  obtain x where x: "blob_next_header b p lim = Some x"
    using next_header_total [OF Suc.prems] by auto
  show ?case
  proof (cases x)
    case (Some rp)
    then obtain r p' where "rp = (r, p')" by force
    with Some x have "blob_next_header b p lim = Some (Some (r, p'))" by simp
    moreover from next_header_some(4) [OF this Suc.prems(1)] Suc
    obtain y where "blob_walk b n p' lim = Some y" by auto
    ultimately show ?thesis by simp
  qed (simp add: x)
qed simp

lemma walk_some:
  "blob_walk b n p lim = Some (Some rs) \<Longrightarrow> p \<le> lim \<Longrightarrow> length rs = n \<and> refs_laid p lim rs"
proof (induction n arbitrary: p rs)
  case (Suc n)
  then obtain r p' rest where *: "blob_next_header b p lim = Some (Some (r, p'))"
    "blob_walk b n p' lim = Some (Some rest)" "rs = r # rest"
    by (auto split: bind_splits option.splits)
  with next_header_some [OF *(1) Suc.prems(2)] Suc.IH [OF *(2)] show ?case by simp
qed simp

lemma read_hdr_total:
  assumes "BLOB_HDR_WIRE \<le> length b"
  shows "blob_read_hdr b \<noteq> None"
proof -
  have "get_u32 b n \<noteq> None" if "n + 4 \<le> 76" for n
    using u32.get_in [of n b] that assms by (simp add: blob_consts)
  moreover have "get_u64 b 24 \<noteq> None" and "get_u16 b 6 \<noteq> None"
    using u64.get_in [of 24 b] u16.get_in [of 6 b] assms by (simp_all add: blob_consts)
  ultimately show ?thesis
    by (simp add: blob_read_hdr_def bind_eq_None_conv del: not_None_eq)
qed

lemma date_scan_total: "BLOB_HDR_WIRE \<le> length b \<Longrightarrow> date_scan b 0 BLOB_DATE_LEN \<noteq> None"
  by (simp add: date_scan_in blob_consts)

lemma validate_total: "blob_validate now dst b \<noteq> None"
proof (cases "length b < BLOB_HDR_WIRE")
  case False
  then have len: "BLOB_HDR_WIRE \<le> length b" by simp
  obtain magic where magic: "get_u32 b 0 = Some magic"
    using u32.get_inD [of 0 b] len by (auto simp: blob_consts)
  obtain version where version: "get_u16 b 4 = Some version"
    using u16.get_inD [of 4 b] len by (auto simp: blob_consts)
  obtain h where h: "blob_read_hdr b = Some h" using read_hdr_total [OF len] by auto
  have dl: "rd b 44 = Some (b ! 44)" using len by (simp add: rd_in blob_consts)
  obtain pr where pr: "date_scan b 0 BLOB_DATE_LEN = Some pr" using date_scan_total [OF len] by auto
  show ?thesis
  proof (cases "unat (bh_headers_len h) \<le> length b - BLOB_HDR_WIRE")
    case True
    with len have "blob_walk b (unat (bh_nheaders h)) BLOB_HDR_WIRE
        (BLOB_HDR_WIRE + unat (bh_headers_len h)) \<noteq> None"
      by (intro walk_total) auto
    then obtain r where "blob_walk b (unat (bh_nheaders h)) BLOB_HDR_WIRE
        (BLOB_HDR_WIRE + unat (bh_headers_len h)) = Some r"
      by auto
    then show ?thesis
      using magic version h dl pr
      by (auto simp: blob_validate_def Let_def bind_eq_None_conv split: option.splits)
  qed (use magic version h dl pr in \<open>auto simp: blob_validate_def Let_def bind_eq_None_conv\<close>)
qed (simp add: blob_validate_def)


subsection \<open>What an accepted blob promises\<close>

lemma read_hdr_date: "blob_read_hdr b = Some h \<Longrightarrow> bh_date h = BLOB_DATE_OFF"
  by (auto simp: blob_read_hdr_def split: bind_splits)

lemma blob_validate_some:
  assumes "blob_validate now dst b = Some (Some (h, body, refs))"
  shows "BLOB_HDR_WIRE \<le> length b" "blob_read_hdr b = Some h" "blob_ranges_ok now h"
    "date_scan b 0 BLOB_DATE_LEN = Some True" "body = BLOB_HDR_WIRE + unat (bh_headers_len h)"
    "body + unat (bh_body_len h) \<le> length b" "unat (bh_nheaders h) \<le> unat (bh_headers_len h) div 9"
    "\<exists>rs. blob_walk b (unat (bh_nheaders h)) BLOB_HDR_WIRE body = Some (Some rs)
       \<and> refs = (if refs_place dst (unat (bh_nheaders h)) = Some True then rs else [])"
  using assms
  by (auto simp: blob_validate_def Let_def split: if_splits bind_splits option.splits)

lemma blob_accept_sound_facts:
  assumes "blob_validate now dst b = Some (Some (h, body, refs))"
  shows "100 \<le> bh_status h" "bh_status h \<le> 599" "bh_fresh h \<le> bh_stale h"
    "flag_set (bh_flags h) BLOBF_ORIGIN_ENCODED \<longleftrightarrow> blob_ae_class (bh_flags h) \<noteq> AE_CLASS_IDENTITY"
    "0 \<le> bh_created h" "bh_created h \<le> now + FOREVER_TTL"
    "length (bslice b (bh_date h) BLOB_DATE_LEN) = BLOB_DATE_LEN"
    "list_all printable (bslice b (bh_date h) BLOB_DATE_LEN)"
    "body = BLOB_HDR_WIRE + unat (bh_headers_len h)" "body + unat (bh_body_len h) \<le> length b"
    "refs \<noteq> [] \<longrightarrow> length refs = unat (bh_nheaders h) \<and> refs_laid BLOB_HDR_WIRE body refs"
proof -
  note v = blob_validate_some [OF assms]
  have ranges: "\<not> (bh_status h < 100 \<or> bh_status h > 599)" "\<not> bh_stale h < bh_fresh h"
    "flag_set (bh_flags h) BLOBF_ORIGIN_ENCODED = (blob_ae_class (bh_flags h) \<noteq> AE_CLASS_IDENTITY)"
    "\<not> (bh_created h < BLOB_CREATED_MIN \<or> bh_created h > now + FOREVER_TTL)"
    using v(3) by (auto simp: blob_ranges_ok_def split: if_splits)
  then show "100 \<le> bh_status h" "bh_status h \<le> 599" "bh_fresh h \<le> bh_stale h"
    "flag_set (bh_flags h) BLOBF_ORIGIN_ENCODED \<longleftrightarrow> blob_ae_class (bh_flags h) \<noteq> AE_CLASS_IDENTITY"
    "0 \<le> bh_created h" "bh_created h \<le> now + FOREVER_TTL"
    by (auto simp: BLOB_CREATED_MIN_def)
  show "length (bslice b (bh_date h) BLOB_DATE_LEN) = BLOB_DATE_LEN"
    using v(1) read_hdr_date [OF v(2)] by (simp add: bslice_def blob_consts)
  show "list_all printable (bslice b (bh_date h) BLOB_DATE_LEN)"
    using v(1,4) read_hdr_date [OF v(2)] date_scan_in [of 0 BLOB_DATE_LEN b] by (simp add: blob_consts)
  show "body = BLOB_HDR_WIRE + unat (bh_headers_len h)" "body + unat (bh_body_len h) \<le> length b"
    by (rule v)+
  show "refs \<noteq> [] \<longrightarrow> length refs = unat (bh_nheaders h) \<and> refs_laid BLOB_HDR_WIRE body refs"
    using v(5,8) walk_some [of b "unat (bh_nheaders h)" BLOB_HDR_WIRE body] by (auto split: if_splits)
qed


subsection \<open>Dropping the trust bit\<close>

lemma get_u16_cong: "(\<And>i. p \<le> i \<Longrightarrow> i < p + 2 \<Longrightarrow> rd a i = rd b i) \<Longrightarrow> get_u16 a p = get_u16 b p"
  by (simp add: get_u16_def)

lemma get_u32_cong: "(\<And>i. p \<le> i \<Longrightarrow> i < p + 4 \<Longrightarrow> rd a i = rd b i) \<Longrightarrow> get_u32 a p = get_u32 b p"
  by (simp add: get_u32_def)

lemma get_u64_cong: "(\<And>i. p \<le> i \<Longrightarrow> i < p + 8 \<Longrightarrow> rd a i = rd b i) \<Longrightarrow> get_u64 a p = get_u64 b p"
  using get_u32_cong [of p a b] get_u32_cong [of "p + 4" a b] by (simp add: get_u64_def)

lemma next_header_cong:
  assumes "\<And>i. p \<le> i \<Longrightarrow> rd a i = rd b i"
  shows "blob_next_header a p lim = blob_next_header b p lim"
proof -
  have g: "get_u32 a q = get_u32 b q" if "p \<le> q" for q
    using that assms by (intro get_u32_cong) simp
  show ?thesis
    by (simp add: blob_next_header_def assms g Let_def cong: if_cong bind_option_cong)
qed

lemma walk_cong:
  assumes "\<And>i. p \<le> i \<Longrightarrow> rd a i = rd b i" and "p \<le> lim"
  shows "blob_walk a n p lim = blob_walk b n p lim"
  using assms
proof (induction n arbitrary: p)
  case (Suc n)
  have "blob_walk a n p' lim = blob_walk b n p' lim"
    if "blob_next_header b p lim = Some (Some (r, p'))" for r p'
    using next_header_some [OF that Suc.prems(2)] by (intro Suc.IH Suc.prems(1)) auto
  then show ?case
    using next_header_cong [of p a b lim] Suc.prems(1)
    by (auto split: option.splits intro!: bind_option_cong)
qed simp

lemma date_scan_cong:
  "(\<And>i. BLOB_DATE_OFF \<le> i \<Longrightarrow> rd a i = rd b i) \<Longrightarrow> date_scan a di n = date_scan b di n"
  by (induction n arbitrary: di) (auto intro!: bind_option_cong)

lemma clear_vetted_cases:
  assumes "blob_clear_vetted b = Some d"
  obtains "length b < BLOB_HDR_WIRE" "d = b"
  | flags where "BLOB_HDR_WIRE \<le> length b" "get_u16 b 6 = Some flags"
      "wr b 6 (put_u16 (flags AND NOT (ucast BLOBF_HDRS_VETTED))) = Some d"
  using assms by (auto simp: blob_clear_vetted_def split: if_splits bind_splits)

lemma clear_vetted_total: "blob_clear_vetted b \<noteq> None"
proof (cases "length b < BLOB_HDR_WIRE")
  case False
  then obtain flags where "get_u16 b 6 = Some flags"
    using u16.get_inD [of 6 b] by (auto simp: blob_consts)
  with False show ?thesis
    by (auto simp: blob_clear_vetted_def wr_def put_u16_def blob_consts)
qed (simp add: blob_clear_vetted_def)

lemma wr_rd_other: "wr b off bs = Some d \<Longrightarrow> i < off \<or> off + length bs \<le> i \<Longrightarrow> rd d i = rd b i"
  by (auto simp: wr_def rd_def nth_append split: if_splits)

lemma ucast_clear_vetted:
  "(ucast (f AND NOT (ucast BLOBF_HDRS_VETTED) :: u16) :: u32) = ucast f AND NOT BLOBF_HDRS_VETTED"
  unfolding blobf_defs by (rule bit_word_eqI) (auto simp: bit_simps dest: bit_imp_le_length)

lemma flag_set_clear_vetted:
  "flag_set (f AND NOT BLOBF_HDRS_VETTED) BLOBF_ORIGIN_ENCODED = flag_set f BLOBF_ORIGIN_ENCODED"
  "blob_ae_class (f AND NOT BLOBF_HDRS_VETTED) = blob_ae_class f"
  "\<not> flag_set (f AND NOT BLOBF_HDRS_VETTED) BLOBF_HDRS_VETTED"
  by (simp_all add: flag_set_def blob_ae_class_def blobf_defs and.assoc)

definition hdr_unvetted :: "blob_hdr \<Rightarrow> blob_hdr" where
  "hdr_unvetted h = h\<lparr>bh_flags := bh_flags h AND NOT BLOBF_HDRS_VETTED\<rparr>"

lemma read_hdr_clear_vetted:
  assumes "get_u16 b 6 = Some flags"
    and "wr b 6 (put_u16 (flags AND NOT (ucast BLOBF_HDRS_VETTED))) = Some d"
  shows "blob_read_hdr d = map_option hdr_unvetted (blob_read_hdr b)"
proof -
  have w: "length (put_u16 v) = 2" for v by (rule u16.put_width)
  have "get_u32 d n = get_u32 b n" if "8 \<le> n" for n
    using u32.get_wr_other [OF assms(2)] that by (simp add: w)
  moreover have "get_u64 d 24 = get_u64 b 24"
    using u64.get_wr_other [OF assms(2)] by (simp add: w)
  moreover have "get_u16 d 6 = Some (flags AND NOT (ucast BLOBF_HDRS_VETTED))"
    by (rule u16.get_wr [OF assms(2)])
  ultimately show ?thesis
    using assms(1)
    by (auto simp: blob_read_hdr_def hdr_unvetted_def ucast_clear_vetted map_option_bind
        intro!: bind_option_cong)
qed

lemma clear_vetted_validate_len:
  assumes d: "blob_clear_vetted b = Some d"
  shows "length d = length b \<and> blob_validate now dst d = map_option (map_option
      (\<lambda>(h, body, refs). (hdr_unvetted h, body, refs))) (blob_validate now dst b)"
  using d
proof (cases rule: clear_vetted_cases)
  case 1
  then show ?thesis by (simp add: blob_validate_def)
next
  case (2 flags)
  note w = 2(3)
  have len: "length d = length b" by (rule wr_length [OF w])
  have rd: "rd d i = rd b i" if "8 \<le> i" for i
    using wr_rd_other [OF w] that by (simp add: put_u16_def)
  have rd4: "get_u32 d 0 = get_u32 b 0" "get_u16 d 4 = get_u16 b 4"
    using u32.get_wr_other [OF w] u16.get_wr_other [OF w] by (simp_all add: u16.put_width)
  have h: "blob_read_hdr d = map_option hdr_unvetted (blob_read_hdr b)"
    by (rule read_hdr_clear_vetted [OF 2(2) w])
  have walk: "blob_walk d n BLOB_HDR_WIRE (BLOB_HDR_WIRE + m) = blob_walk b n BLOB_HDR_WIRE (BLOB_HDR_WIRE + m)"
    for n m by (rule walk_cong) (auto simp: rd blob_consts)
  have scan: "date_scan d 0 BLOB_DATE_LEN = date_scan b 0 BLOB_DATE_LEN"
    by (rule date_scan_cong) (auto simp: rd blob_consts)
  have ranges: "blob_ranges_ok now (hdr_unvetted x) = blob_ranges_ok now x" for x
    by (simp add: blob_ranges_ok_def hdr_unvetted_def flag_set_clear_vetted)
  have same: "bh_headers_len (hdr_unvetted x) = bh_headers_len x"
    "bh_body_len (hdr_unvetted x) = bh_body_len x"
    "bh_nheaders (hdr_unvetted x) = bh_nheaders x" for x
    by (simp_all add: hdr_unvetted_def)
  show ?thesis
    using 2(1)
    by (auto simp: blob_validate_def len rd4 h walk scan ranges same rd Let_def
        map_option_bind bind_map_option option.map_comp comp_def
        intro!: bind_option_cong split: option.splits)
qed

lemmas clear_vetted_validate = clear_vetted_validate_len [THEN conjunct2]

text \<open>
  Clearing the trust bit on a blob from L2 changes nothing else: it cannot fail, keeps the
  length, leaves the bit off, and the validator then accepts exactly the blobs it accepted before,
  with the same header apart from that bit, the same body and the same entries.
\<close>

theorem blob_clear_vetted_exact:
  "\<exists>d. blob_clear_vetted b = Some d \<and> length d = length b \<and>
    blob_validate now dst d = map_option (map_option
      (\<lambda>(h, body, refs). (hdr_unvetted h, body, refs))) (blob_validate now dst b)"
  using clear_vetted_total [of b] clear_vetted_validate_len [of b] by blast

end
