(* ===== verification/Swr.thy ===== *)
theory Swr
  imports Prelude
begin

text \<open>
  Stale-while-revalidate arithmetic: \<^verbatim>\<open>src/ngx_http_cache_turbo_swr.c\<close>. The wall clock
  (\<open>ngx_time\<close>) and the random number (\<open>ngx_random\<close>) are arguments. TTLs are \<open>int\<close>; the dice
  is computed on \<open>u64\<close>, where the source's casts put it, so its wrap-around is the code's.
\<close>

definition TTL_MAX :: time_t where "TTL_MAX = 0xFFFFFFFF"
definition STALE_MULTIPLIER :: int where "STALE_MULTIPLIER = 4"

text \<open>\<open>ngx_http_cache_turbo_stale_ttl\<close>.\<close>

definition stale_ttl :: "time_t \<Rightarrow> int \<Rightarrow> time_t" where
  "stale_ttl fresh_ttl stale_mult =
     (if fresh_ttl \<le> 0 then 0
      else let m = (if stale_mult \<le> 0 then STALE_MULTIPLIER else stale_mult)
           in if fresh_ttl > TTL_MAX div m then TTL_MAX else fresh_ttl * m)"

text \<open>\<open>ngx_http_cache_turbo_add_ttl_clamped\<close>.\<close>

definition add_ttl_clamped :: "time_t \<Rightarrow> time_t \<Rightarrow> time_t" where
  "add_ttl_clamped base delta =
     (let d0 = (if delta < 0 then 0 else delta);
          d = (if d0 > TTL_MAX then TTL_MAX else d0)
      in if base > TTL_MAX - d then TTL_MAX else base + d)"

text \<open>
  \<open>ngx_http_cache_turbo_should_refresh\<close>. \<open>refresh_threshold\<close> is the fixed-point threshold
  on the \<open>2^20\<close> scale, \<open>refresh_dice\<close> the per-reader roll.
\<close>

definition DICE_SCALE :: u64 where "DICE_SCALE = 2 ^ 20"

definition refresh_threshold :: "int \<Rightarrow> int \<Rightarrow> int \<Rightarrow> u64" where
  "refresh_threshold elapsed window beta_milli =
     (push_bit 20 (word_of_int elapsed) div word_of_int window)
       * word_of_int (if beta_milli < 10 then 10 else beta_milli) div 1000"

definition refresh_dice :: "time_t \<Rightarrow> u64 \<Rightarrow> u64" where
  "refresh_dice now rnd = (rnd XOR (word_of_int now * 2654435761)) AND (DICE_SCALE - 1)"

definition should_refresh :: "time_t \<Rightarrow> u64 \<Rightarrow> time_t \<Rightarrow> time_t \<Rightarrow> int \<Rightarrow> ngx_rc" where
  "should_refresh now rnd fresh_until stale_window beta_milli =
     (if now < fresh_until then NGX_DECLINED
      else let window = (if stale_window > 0 then stale_window else 1);
               elapsed = now - fresh_until
           in if elapsed \<ge> window then NGX_OK
              else let threshold = refresh_threshold elapsed window beta_milli
                   in if threshold \<ge> DICE_SCALE then NGX_OK
                      else if refresh_dice now rnd < threshold then NGX_OK
                      else NGX_DECLINED)"

subsection \<open>The stale window\<close>

text \<open>The multiplier the product is taken with.\<close>

definition eff_mult :: "int \<Rightarrow> int" where
  "eff_mult m = (if m \<le> 0 then STALE_MULTIPLIER else m)"

lemma eff_mult_pos: "0 < eff_mult m"
  by (simp add: eff_mult_def STALE_MULTIPLIER_def)

text \<open>The guard on the quotient is exactly the test that the product would overshoot.\<close>

lemma le_div_iff_mult_le:
  fixes f m M :: int
  assumes m: "0 < m"
  shows "(f \<le> M div m) = (f * m \<le> M)"
proof
  assume "f \<le> M div m"
  then have "f * m \<le> (M div m) * m"
    using m by (simp add: mult_right_mono)
  also have "\<dots> \<le> M"
    using m by (simp add: minus_mod_eq_div_mult [symmetric])
  finally show "f * m \<le> M" .
next
  assume "f * m \<le> M"
  then have "f * m div m \<le> M div m"
    using m by (rule zdiv_mono1)
  then show "f \<le> M div m"
    using m by simp
qed

lemma stale_ttl_eq:
  "stale_ttl f m = (if f \<le> 0 then 0 else min TTL_MAX (f * eff_mult m))"
proof -
  have "(TTL_MAX div eff_mult m < f) = (TTL_MAX < f * eff_mult m)"
    using le_div_iff_mult_le [OF eff_mult_pos, of f TTL_MAX m] by linarith
  then show ?thesis
    by (auto simp: stale_ttl_def Let_def eff_mult_def [symmetric] min_def)
qed

text \<open>
  The total window never shrinks below the fresh one: this is the relation the blob validator
  demands of every stored object (\<open>stale_ttl \<ge> fresh_ttl\<close>).
\<close>

lemma stale_ttl_ge_fresh: "f \<le> TTL_MAX \<Longrightarrow> f \<le> stale_ttl f m"
  using mult_left_mono [of 1 "eff_mult m" f] eff_mult_pos [of m]
  by (auto simp: stale_ttl_eq)

lemma stale_ttl_range: "0 \<le> stale_ttl f m \<and> stale_ttl f m \<le> TTL_MAX"
  using eff_mult_pos [of m] by (auto simp: stale_ttl_eq TTL_MAX_def)

text \<open>
  the stale window is the fresh TTL times the effective multiplier, clamped to the largest
  value the wire's u32 holds; it is never shorter than a (clamped) fresh TTL, and the product
  is only ever formed when it fits.
\<close>

theorem stale_ttl_spec:
  "stale_ttl f m = (if f \<le> 0 then 0 else min TTL_MAX (f * eff_mult m)) \<and>
   0 \<le> stale_ttl f m \<and> stale_ttl f m \<le> TTL_MAX \<and> min f TTL_MAX \<le> stale_ttl f m"
proof (intro conjI)
  show "min f TTL_MAX \<le> stale_ttl f m"
  proof (cases "f \<le> TTL_MAX")
    case True
    then show ?thesis using stale_ttl_ge_fresh by simp
  next
    case False
    then have "f * 1 \<le> f * eff_mult m"
      using eff_mult_pos [of m] by (intro mult_left_mono) (auto simp: TTL_MAX_def)
    with False have "TTL_MAX \<le> f * eff_mult m" by linarith
    with False show ?thesis by (auto simp: stale_ttl_eq TTL_MAX_def)
  qed
qed (use stale_ttl_eq stale_ttl_range in auto)

subsection \<open>Adding a response-declared delta\<close>

lemma add_ttl_clamped_eq:
  "0 \<le> base \<Longrightarrow> add_ttl_clamped base delta = min TTL_MAX (base + max 0 delta)"
  by (auto simp: add_ttl_clamped_def Let_def TTL_MAX_def)

text \<open>
  whatever delta the origin declares, adding it to a clamped TTL neither overflows a 64-bit
  \<open>time_t\<close> in any intermediate result nor leaves the clamp; within it the sum is exact and a
  negative delta counts as zero.
\<close>

theorem add_ttl_clamped_spec:
  assumes "0 \<le> base" and "base \<le> TTL_MAX"
  shows "add_ttl_clamped base delta = min TTL_MAX (base + max 0 delta) \<and>
    base \<le> add_ttl_clamped base delta \<and> add_ttl_clamped base delta \<le> TTL_MAX \<and>
    fits_int64 (TTL_MAX - min (max 0 delta) TTL_MAX) \<and>
    fits_int64 (base + min (max 0 delta) TTL_MAX)"
  using assms by (auto simp: add_ttl_clamped_eq int64_defs TTL_MAX_def min_def max_def)

theorem add_ttl_clamped_spec_witness:
  "add_ttl_clamped 60 INT64_MAX = TTL_MAX \<and> add_ttl_clamped 60 (- 5) = 60"
  using add_ttl_clamped_spec [of 60 INT64_MAX] add_ttl_clamped_spec [of 60 "- 5"]
  by (auto simp: TTL_MAX_def INT64_MAX_def)

subsection \<open>The refresh dice\<close>

lemma and_mask20_of_less: "(r :: u64) < DICE_SCALE \<Longrightarrow> r AND (DICE_SCALE - 1) = r"
  using less_mask_eq [of r 20] by (simp only: mask_eq_decr_exp DICE_SCALE_def)

lemma and_mask20_less: "(r :: u64) AND (DICE_SCALE - 1) < DICE_SCALE"
  using and_mask_less' [of 20 r] by (simp only: mask_eq_decr_exp DICE_SCALE_def) simp

text \<open>Only the low twenty bits of the random number matter, and they are permuted.\<close>

lemma refresh_dice_xor:
  assumes "r < DICE_SCALE"
  shows "refresh_dice now r = r XOR ((word_of_int now * 2654435761) AND (DICE_SCALE - 1))"
  by (simp add: refresh_dice_def bit.conj_xor_distrib2 and_mask20_of_less [OF assms])

lemma refresh_dice_less: "refresh_dice now r < DICE_SCALE"
  by (simp only: refresh_dice_def and_mask20_less)

lemma refresh_dice_involution:
  assumes "r < DICE_SCALE"
  shows "refresh_dice now (refresh_dice now r) = r"
  using assms refresh_dice_less [of now r]
  by (simp add: refresh_dice_xor xor.assoc)

lemma refresh_dice_card:
  assumes "t \<le> DICE_SCALE"
  shows "card {r :: u64. r < DICE_SCALE \<and> refresh_dice now r < t} = unat t"
proof -
  let ?A = "{x :: u64. x < t}"
  have "{r :: u64. r < DICE_SCALE \<and> refresh_dice now r < t} = refresh_dice now ` ?A"
  proof (intro equalityI subsetI)
    fix r assume "r \<in> {r :: u64. r < DICE_SCALE \<and> refresh_dice now r < t}"
    then show "r \<in> refresh_dice now ` ?A"
      by (metis (mono_tags, lifting) image_eqI mem_Collect_eq refresh_dice_involution)
  next
    fix r assume "r \<in> refresh_dice now ` ?A"
    then obtain x where "x < t" and r: "r = refresh_dice now x" by auto
    with assms have "x < DICE_SCALE" by (metis order_less_le_trans)
    with \<open>x < t\<close> show "r \<in> {r :: u64. r < DICE_SCALE \<and> refresh_dice now r < t}"
      by (simp add: r refresh_dice_involution refresh_dice_less)
  qed
  moreover have "inj_on (refresh_dice now) ?A"
    using assms by (intro inj_onI) (metis mem_Collect_eq order_less_le_trans refresh_dice_involution)
  ultimately show ?thesis
    by (simp add: card_image card_word_less)
qed

text \<open>
  For every window and multiplier a configuration can hold the fixed-point computation stays
  below \<open>2^64\<close>, so the word expression is the intended rational, rounded down twice.
\<close>

lemma unat_word_of_int_small:
  "0 \<le> i \<Longrightarrow> i < 2 ^ 63 \<Longrightarrow> unat (word_of_int i :: u64) = nat i"
  by (simp add: unsigned_of_int nat_take_bit_eq take_bit_nat_eq_self_iff nat_less_iff)

definition refresh_share :: "int \<Rightarrow> int \<Rightarrow> int \<Rightarrow> nat" where
  "refresh_share elapsed window beta_milli =
     (nat elapsed * 2 ^ 20 div nat window) * nat (max 10 beta_milli) div 1000"

lemma unat_refresh_threshold:
  assumes e: "0 \<le> e" "e < w" and w: "w < 2 ^ 43" and b: "b < 2 ^ 43"
  shows "unat (refresh_threshold e w b) = refresh_share e w b"
proof -
  let ?b = "if b < 10 then 10 else b"
  let ?q = "push_bit 20 (word_of_int e) div word_of_int w :: u64"
  have ne: "nat e < nat w" and nw: "nat w < 2 ^ 43" and nb: "nat ?b < 2 ^ 43"
    using e w b by (auto simp: nat_less_iff)
  have ue: "unat (word_of_int e :: u64) = nat e" and uw: "unat (word_of_int w :: u64) = nat w"
    and ub: "unat (word_of_int ?b :: u64) = nat ?b"
    using e w b by (auto intro!: unat_word_of_int_small)
  have "nat e * 2 ^ 20 < 2 ^ 43 * 2 ^ 20"
    using ne nw by (intro mult_strict_right_mono) auto
  then have "unat (push_bit 20 (word_of_int e) :: u64) = nat e * 2 ^ 20"
    using unat_mult_no_overflow [of "word_of_int e :: u64" "2 ^ 20"]
    by (simp add: push_bit_eq_mult ue)
  then have q: "unat ?q = nat e * 2 ^ 20 div nat w"
    by (simp add: unat_div uw)
  have "nat e * 2 ^ 20 div nat w < 2 ^ 20"
    using ne by (simp add: div_less_iff_less_mult)
  then have "unat ?q * unat (word_of_int ?b :: u64) < 2 ^ 20 * 2 ^ 43"
    unfolding q ub using nb by (intro mult_strict_mono') auto
  then have "unat (?q * word_of_int ?b) = unat ?q * unat (word_of_int ?b :: u64)"
    by (intro unat_mult_no_overflow) simp
  also have "\<dots> = nat e * 2 ^ 20 div nat w * nat ?b"
    by (simp only: q ub)
  also have "nat ?b = nat (max 10 b)" by auto
  finally have p: "unat (?q * word_of_int ?b) = nat e * 2 ^ 20 div nat w * nat (max 10 b)" .
  have "unat (refresh_threshold e w b) = unat (?q * word_of_int ?b) div unat (1000 :: u64)"
    by (simp only: refresh_threshold_def unat_div)
  then show ?thesis
    by (simp only: p refresh_share_def) simp
qed

lemma should_refresh_in_window:
  assumes "0 \<le> e" and "e < w"
  shows "should_refresh (fu + e) r fu w b = NGX_OK \<longleftrightarrow>
    refresh_threshold e w b \<ge> DICE_SCALE \<or> refresh_dice (fu + e) r < refresh_threshold e w b"
  using assms by (simp add: should_refresh_def Let_def)

text \<open>
  \<open>e\<close> seconds into a stale window of \<open>w\<close> seconds, exactly
  \<open>min 2^20 (\<lfloor>\<lfloor>e * 2^20 / w\<rfloor> * beta / 1000\<rfloor>)\<close> of the \<open>2^20\<close> values of the random number's low bits
  make a reader regenerate: the dice is fair whatever the clock it is mixed with, and the
  probability rises linearly with the elapsed fraction, scaled by beta (floored at 0.01).
\<close>

theorem refresh_dice_fair:
  assumes "0 \<le> e" and "e < w" and "w < 2 ^ 43" and "b < 2 ^ 43"
  shows "card {r. r < DICE_SCALE \<and> should_refresh (fu + e) r fu w b = NGX_OK} =
    min (2 ^ 20) (refresh_share e w b)"
proof -
  let ?t = "refresh_threshold e w b"
  have t: "unat ?t = refresh_share e w b"
    using assms by (rule unat_refresh_threshold)
  have one: "unat DICE_SCALE = 2 ^ 20" by (simp add: DICE_SCALE_def)
  show ?thesis
  proof (cases "?t \<ge> DICE_SCALE")
    case True
    then have "{r. r < DICE_SCALE \<and> should_refresh (fu + e) r fu w b = NGX_OK} = {r. r < DICE_SCALE}"
      using assms by (simp add: should_refresh_in_window)
    moreover have "2 ^ 20 \<le> refresh_share e w b"
      using True one t by (metis word_le_nat_alt)
    ultimately show ?thesis by (simp add: card_word_less one)
  next
    case False
    then have "{r. r < DICE_SCALE \<and> should_refresh (fu + e) r fu w b = NGX_OK} =
        {r. r < DICE_SCALE \<and> refresh_dice (fu + e) r < ?t}"
      using assms by (simp add: should_refresh_in_window)
    moreover have "refresh_share e w b \<le> 2 ^ 20"
      using False one t by (metis less_imp_le_nat linorder_not_le word_less_nat_alt)
    ultimately show ?thesis
      using False t by (simp add: refresh_dice_card)
  qed
qed

theorem refresh_dice_fair_witness:
  "card {r. r < DICE_SCALE \<and> should_refresh (1000 + 90) r 1000 180 1000 = NGX_OK} = 2 ^ 19"
  using refresh_dice_fair [of 90 180 1000 1000] by (simp add: refresh_share_def)

text \<open>The edges: a fresh object is never regenerated, one past its window always is.\<close>

lemma should_refresh_fresh: "now < fu \<Longrightarrow> should_refresh now r fu w b = NGX_DECLINED"
  by (simp add: should_refresh_def)

lemma should_refresh_past: "fu + max 1 w \<le> now \<Longrightarrow> should_refresh now r fu w b = NGX_OK"
  by (auto simp: should_refresh_def Let_def)

end
