(* ===== verification/Blob_Store.thy ===== *)
theory Blob_Store
  imports Blob Swr
begin

text \<open>
  From a finished response to the bytes that are stored (\<^verbatim>\<open>filters.c\<close>):
  \<open>body_filter_windows\<close> computes the three lifetimes, \<open>measure_headers\<close> sizes the header block and
  records one verdict per header, \<open>body_filter_blob_write\<close> emits header, entries and body
  into the buffer the sizes were computed for. Writes are checked as in \<open>Blob\<close>, so that the
  second pass fills exactly the buffer the first one sized is a theorem.

  The response header list is the list of its elements in the order \<open>ngx_list_t\<close> is walked.
\<close>

subsection \<open>The response and the configuration\<close>

record tbl_elt =
  te_hash :: nat
  te_key :: bytes
  te_value :: bytes

record store_conf = hdr_conf +
  ignore_cc :: bool
  honor_cc :: bool
  stale_mult :: int
  keep_stale :: time_t
  conf_valid :: time_t
  valid_status :: "(nat \<times> time_t) list"
  max_size :: nat

record response_policy =
  upstream_ttl :: time_t
  swr :: time_t
  sie :: time_t
  must_revalidate :: bool

record capture_ctx =
  capture_status :: nat
  brk_only :: bool
  origin_encoded_capture :: bool
  origin_encoded_class :: "2 word"
  auth_shareable :: bool
  head_derived :: bool
  cap_body :: "bytes list"
  cap_body_len :: nat

subsection \<open>Lifetimes\<close>

function status_search :: "(nat \<times> time_t) list \<Rightarrow> nat \<Rightarrow> nat \<Rightarrow> nat \<Rightarrow> time_t" where
  "status_search v status lo hi =
    (if lo < hi
     then let mid = lo + (hi - lo) div 2
          in if fst (v ! mid) = status then snd (v ! mid)
             else if fst (v ! mid) < status then status_search v status (mid + 1) hi
             else status_search v status lo mid
     else - 1)"
  by pat_completeness auto
termination by (relation "measure (\<lambda>(v, status, lo, hi). hi - lo)") auto

declare status_search.simps [simp del]

definition status_ttl :: "'a store_conf_scheme \<Rightarrow> nat \<Rightarrow> time_t" where
  "status_ttl clcf status =
    (if status = 206 then - 1
     else if status = 200 then conf_valid clcf
     else status_search (valid_status clcf) status 0 (length (valid_status clcf)))"

definition no_policy :: response_policy where
  "no_policy = \<lparr>upstream_ttl = - 1, swr = - 1, sie = - 1, must_revalidate = False\<rparr>"

text \<open>
  \<open>parsed\<close> is what \<open>response_policy\<close> reads off the captured headers; it is consulted only
  when Cache-Control is not ignored. \<open>None\<close> stands for \<open>NGX_DECLINED\<close>.
\<close>

definition body_filter_windows ::
  "'a store_conf_scheme \<Rightarrow> response_policy \<Rightarrow> nat \<Rightarrow> (time_t \<times> time_t \<times> time_t) option" where
  "body_filter_windows clcf parsed status =
    (let ttl0 = status_ttl clcf status
     in if ttl0 < 0 then None
        else
          let policy = (if \<not> ignore_cc clcf then parsed else no_policy);
              ttl1 = (if honor_cc clcf \<and> \<not> ignore_cc clcf \<and> upstream_ttl policy \<ge> 0
                      then upstream_ttl policy else ttl0);
              ttl = (if ttl1 > TTL_MAX then TTL_MAX else ttl1);
              stale0 = stale_ttl ttl (stale_mult clcf);
              stale1 = (if ttl > 0 \<and> \<not> ignore_cc clcf \<and> swr policy \<ge> 0
                        then add_ttl_clamped ttl (swr policy) else stale0);
              kept = (if ttl + keep_stale clcf > TTL_MAX then TTL_MAX else ttl + keep_stale clcf)
          in if ttl > 0 \<and> \<not> ignore_cc clcf \<and> must_revalidate policy then Some (ttl, ttl, 0)
             else if ttl > 0 \<and> \<not> ignore_cc clcf then
               (if sie policy \<ge> 0 then Some (ttl, stale1, add_ttl_clamped ttl (sie policy))
                else if ttl > 0 \<and> keep_stale clcf > 0 then Some (ttl, stale1, kept)
                else Some (ttl, stale1, 0))
             else if ttl > 0 \<and> ignore_cc clcf \<and> keep_stale clcf > 0 then Some (ttl, stale1, kept)
             else Some (ttl, stale1, 0))"

subsection \<open>Verdicts\<close>

record hdr_verdicts =
  hv_bits :: "bytes option"
  hv_nvisited :: nat
  hv_ct_admissible :: bool

definition verdict_set :: "hdr_verdicts \<Rightarrow> nat \<Rightarrow> hdr_verdicts option" where
  "verdict_set v idx =
    (case hv_bits v of
       None \<Rightarrow> Some v
     | Some bits \<Rightarrow> do {
         b \<leftarrow> rd bits (idx div 8);
         bits' \<leftarrow> wr bits (idx div 8) [b OR push_bit (idx mod 8) 1];
         Some (v\<lparr>hv_bits := Some bits'\<rparr>) })"

definition verdict_get ::
  "'a hdr_conf_scheme \<Rightarrow> hdr_verdicts \<Rightarrow> nat \<Rightarrow> tbl_elt \<Rightarrow> bool option" where
  "verdict_get clcf v idx h =
    (case hv_bits v of
       None \<Rightarrow> Some (te_hash h \<noteq> 0 \<and> header_admissible clcf (te_key h) (te_value h))
     | Some bits \<Rightarrow>
         if idx \<ge> hv_nvisited v
         then Some (te_hash h \<noteq> 0 \<and> header_admissible clcf (te_key h) (te_value h))
         else do {
           b \<leftarrow> rd bits (idx div 8);
           Some (drop_bit (idx mod 8) b AND 1 \<noteq> 0) })"

subsection \<open>The two passes over the headers\<close>

abbreviation content_type_name :: bytes where
  "content_type_name \<equiv> ascii ''Content-Type''"

definition tlv_size :: "bytes \<Rightarrow> bytes \<Rightarrow> nat" where
  "tlv_size name val = 1 + 4 + length name + 4 + length val"

fun measure_loop :: "'a hdr_conf_scheme \<Rightarrow> nat \<Rightarrow> tbl_elt list \<Rightarrow> nat \<Rightarrow> hdr_verdicts \<Rightarrow> nat \<Rightarrow> u32
    \<Rightarrow> (nat \<times> hdr_verdicts \<times> nat \<times> u32) option" where
  "measure_loop clcf nelts [] idx v hb n = Some (idx, v, hb, n)"
| "measure_loop clcf nelts (h # hs) idx v hb n =
    (if idx \<ge> nelts then Some (idx, v, hb, n)
     else if te_hash h = 0 \<or> \<not> header_admissible clcf (te_key h) (te_value h)
       then measure_loop clcf nelts hs (idx + 1) v hb n
     else do {
       v' \<leftarrow> verdict_set v idx;
       measure_loop clcf nelts hs (idx + 1) v' (hb + tlv_size (te_key h) (te_value h)) (n + 1) })"

definition measure_headers :: "'a hdr_conf_scheme \<Rightarrow> bool \<Rightarrow> tbl_elt list \<Rightarrow> bytes
    \<Rightarrow> (nat \<times> u32 \<times> hdr_verdicts) option" where
  "measure_headers clcf alloc_ok hs ct =
    (let nelts = length hs;
         bits = (if nelts > 0 \<and> alloc_ok then Some (replicate ((nelts + 7) div 8) 0) else None);
         ctok = ct \<noteq> [] \<and> header_admissible clcf content_type_name ct;
         v = \<lparr>hv_bits = bits, hv_nvisited = 0, hv_ct_admissible = ctok\<rparr>
     in do {
       (idx, v', hb, n) \<leftarrow> measure_loop clcf nelts hs 0 v
         (if ctok then tlv_size content_type_name ct else 0) (if ctok then 1 else 0);
       Some (hb, n, v'\<lparr>hv_nvisited := idx\<rparr>) })"

definition ct_put :: "bytes \<Rightarrow> bytes \<Rightarrow> nat \<times> bytes \<Rightarrow> (nat \<times> bytes) option" where
  "ct_put np vp s = do {
    let w = fst s;
    d \<leftarrow> wr (snd s) w [header_role np];
    d \<leftarrow> wr d (w + 1) (put_u32 (of_nat (length np)));
    d \<leftarrow> wr d (w + 5) np;
    d \<leftarrow> wr d (w + 5 + length np) (put_u32 (of_nat (length vp)));
    d \<leftarrow> wr d (w + 9 + length np) vp;
    Some (w + 9 + length np + length vp, d) }"

fun emit_loop :: "'a hdr_conf_scheme \<Rightarrow> hdr_verdicts \<Rightarrow> tbl_elt list \<Rightarrow> nat
    \<Rightarrow> nat \<times> bytes \<Rightarrow> (nat \<times> bytes) option" where
  "emit_loop clcf v [] idx s = Some s"
| "emit_loop clcf v (h # hs) idx s = do {
    ok \<leftarrow> verdict_get clcf v idx h;
    s' \<leftarrow> (if \<not> ok then Some s else ct_put (te_key h) (te_value h) s);
    emit_loop clcf v hs (idx + 1) s' }"

fun body_copy :: "bytes list \<Rightarrow> nat \<times> bytes \<Rightarrow> (nat \<times> bytes) option" where
  "body_copy [] s = Some s"
| "body_copy (b # bs) s = do {
    d \<leftarrow> wr (snd s) (fst s) b;
    body_copy bs (fst s + length b, d) }"

definition blob_flags :: "capture_ctx \<Rightarrow> u32" where
  "blob_flags ctx =
    (let f = (if brk_only ctx then BLOBF_BREAKER_ONLY else 0);
         f = (if origin_encoded_capture ctx
              then f OR BLOBF_ORIGIN_ENCODED
                   OR (push_bit BLOBF_AE_CLASS_SHIFT (ucast (origin_encoded_class ctx))
                       AND BLOBF_AE_CLASS_MASK)
              else f);
         f = (if auth_shareable ctx then f OR BLOBF_AUTH_SHAREABLE else f);
         f = (if head_derived ctx then f OR BLOBF_HEAD_DERIVED else f)
     in f OR BLOBF_HDRS_VETTED)"

definition blob_hdr_of ::
  "time_t \<Rightarrow> capture_ctx \<Rightarrow> nat \<Rightarrow> u32 \<Rightarrow> time_t \<times> time_t \<times> time_t \<Rightarrow> blob_hdr" where
  "blob_hdr_of now ctx hdr_bytes nheaders win = (case win of (ttl, stale_window, sie_window) \<Rightarrow>
    \<lparr>bh_magic = 0, bh_version = 0, bh_nheaders = nheaders, bh_headers_len = of_nat hdr_bytes,
     bh_body_len = of_nat (cap_body_len ctx), bh_status = of_nat (capture_status ctx),
     bh_created = now, bh_fresh = word_of_int (if ttl > 0 then ttl else 0),
     bh_stale = word_of_int stale_window, bh_sie = word_of_int sie_window,
     bh_flags = blob_flags ctx, bh_date = 0\<rparr>)"

definition blob_write :: "(time_t \<Rightarrow> bytes) \<Rightarrow> time_t \<Rightarrow> 'a hdr_conf_scheme \<Rightarrow> capture_ctx
    \<Rightarrow> tbl_elt list \<Rightarrow> bytes \<Rightarrow> bytes \<Rightarrow> nat \<Rightarrow> u32 \<Rightarrow> time_t \<times> time_t \<times> time_t \<Rightarrow> hdr_verdicts
    \<Rightarrow> bytes option" where
  "blob_write ht now clcf ctx hs blob ct hdr_bytes nheaders win v = do {
    d \<leftarrow> blob_hdr_write ht blob (blob_hdr_of now ctx hdr_bytes nheaders win);
    s \<leftarrow> (if ct \<noteq> [] \<and> hv_ct_admissible v then ct_put content_type_name ct (BLOB_HDR_WIRE, d)
          else Some (BLOB_HDR_WIRE, d));
    s \<leftarrow> emit_loop clcf v hs 0 s;
    s \<leftarrow> body_copy (cap_body ctx) s;
    Some (snd s) }"

text \<open>
  \<open>body_filter_store_tail\<close> up to the store: windows, sizes, the two limits, the allocation
  (\<open>alloc n\<close> is the pool's answer to a request of \<open>n\<close> bytes), serialisation, and the retention of
  the L2 copy. Outside an access error the result is one of the code's three outcomes.
\<close>

datatype tail_blob = Tail_declined | Tail_not_stored | Tail_blob bytes "time_t \<times> time_t \<times> time_t" time_t

definition store_tail_blob :: "(time_t \<Rightarrow> bytes) \<Rightarrow> time_t \<Rightarrow> 'a store_conf_scheme
    \<Rightarrow> (nat \<Rightarrow> bytes option) \<Rightarrow> bool \<Rightarrow> response_policy \<Rightarrow> capture_ctx \<Rightarrow> tbl_elt list \<Rightarrow> bytes
    \<Rightarrow> tail_blob option" where
  "store_tail_blob ht now clcf alloc bits_ok parsed ctx hs ct =
    (case body_filter_windows clcf parsed (capture_status ctx) of
       None \<Rightarrow> Some Tail_declined
     | Some (ttl, stale_window, sie_window) \<Rightarrow> do {
         (hdr_bytes, nheaders, v) \<leftarrow> measure_headers clcf bits_ok hs ct;
         let blob_len = BLOB_HDR_WIRE + hdr_bytes + cap_body_len ctx;
         if hdr_bytes > 0xFFFFFFFF \<or> cap_body_len ctx > 0xFFFFFFFF then Some Tail_not_stored
         else if max_size clcf > 0 \<and> blob_len > max_size clcf then Some Tail_not_stored
         else (case alloc blob_len of
             None \<Rightarrow> Some Tail_not_stored
           | Some blob \<Rightarrow> do {
               d \<leftarrow> blob_write ht now clcf ctx hs blob ct hdr_bytes nheaders
                 (ttl, stale_window, sie_window) v;
               Some (Tail_blob d (ttl, stale_window, sie_window)
                 (if sie_window > stale_window then sie_window else stale_window)) }) })"

subsection \<open>The windows agree with the wire format\<close>

lemma TTL_MAX_pos: "0 < TTL_MAX"
  by (simp add: TTL_MAX_def)

lemma windows_order:
  assumes "body_filter_windows clcf parsed status = Some (ttl, stale_w, sie_w)"
  shows "0 \<le> ttl" "ttl \<le> stale_w" "stale_w \<le> TTL_MAX" "0 \<le> sie_w" "sie_w \<le> TTL_MAX"
    "sie_w \<noteq> 0 \<longrightarrow> ttl \<le> sie_w"
proof -
  have ttl: "0 \<le> ttl \<and> ttl \<le> TTL_MAX"
    using assms by (auto simp: body_filter_windows_def Let_def TTL_MAX_def split: if_splits)
  have add: "ttl \<le> add_ttl_clamped ttl d \<and> add_ttl_clamped ttl d \<le> TTL_MAX" if "0 \<le> d" for d
    using ttl that by (auto simp: add_ttl_clamped_eq)
  have "ttl \<le> stale_w \<and> stale_w \<le> TTL_MAX \<and> 0 \<le> sie_w \<and> sie_w \<le> TTL_MAX \<and> (sie_w \<noteq> 0 \<longrightarrow> ttl \<le> sie_w)"
    using assms ttl TTL_MAX_pos stale_ttl_range [of ttl "stale_mult clcf"] stale_ttl_ge_fresh [of ttl "stale_mult clcf"]
      add [of "swr parsed"] add [of "sie parsed"]
    by (auto simp: body_filter_windows_def Let_def split: if_splits)
  with ttl show "0 \<le> ttl" "ttl \<le> stale_w" "stale_w \<le> TTL_MAX" "0 \<le> sie_w" "sie_w \<le> TTL_MAX"
    "sie_w \<noteq> 0 \<longrightarrow> ttl \<le> sie_w"
    by auto
qed

lemma body_filter_windows_spec_facts:
  assumes "body_filter_windows clcf parsed status = Some (ttl, stale_w, sie_w)"
  shows "0 \<le> ttl \<and> ttl \<le> stale_w \<and> stale_w \<le> TTL_MAX \<and> 0 \<le> sie_w \<and> sie_w \<le> TTL_MAX"
    "sie_w \<noteq> 0 \<longrightarrow> ttl \<le> sie_w"
    "0 < ttl \<and> \<not> ignore_cc clcf \<and> must_revalidate parsed \<longrightarrow> stale_w = ttl \<and> sie_w = 0"
    "0 < ttl \<and> \<not> ignore_cc clcf \<and> \<not> must_revalidate parsed \<and> 0 \<le> swr parsed \<longrightarrow>
      stale_w = min TTL_MAX (ttl + swr parsed)"
    "0 < ttl \<and> \<not> ignore_cc clcf \<and> \<not> must_revalidate parsed \<and> 0 \<le> sie parsed \<longrightarrow>
      sie_w = min TTL_MAX (ttl + sie parsed)"
    "ignore_cc clcf \<longrightarrow> body_filter_windows clcf other status = Some (ttl, stale_w, sie_w)"
proof -
  note order = windows_order [OF assms]
  from order show "0 \<le> ttl \<and> ttl \<le> stale_w \<and> stale_w \<le> TTL_MAX \<and> 0 \<le> sie_w \<and> sie_w \<le> TTL_MAX"
    "sie_w \<noteq> 0 \<longrightarrow> ttl \<le> sie_w"
    by auto
  show "0 < ttl \<and> \<not> ignore_cc clcf \<and> must_revalidate parsed \<longrightarrow> stale_w = ttl \<and> sie_w = 0"
    using assms by (auto simp: body_filter_windows_def Let_def split: if_splits)
  show "0 < ttl \<and> \<not> ignore_cc clcf \<and> \<not> must_revalidate parsed \<and> 0 \<le> swr parsed \<longrightarrow>
      stale_w = min TTL_MAX (ttl + swr parsed)"
    using assms TTL_MAX_pos
    by (auto simp: body_filter_windows_def Let_def add_ttl_clamped_eq split: if_splits)
  show "0 < ttl \<and> \<not> ignore_cc clcf \<and> \<not> must_revalidate parsed \<and> 0 \<le> sie parsed \<longrightarrow>
      sie_w = min TTL_MAX (ttl + sie parsed)"
    using assms TTL_MAX_pos
    by (auto simp: body_filter_windows_def Let_def add_ttl_clamped_eq split: if_splits)
  show "ignore_cc clcf \<longrightarrow> body_filter_windows clcf other status = Some (ttl, stale_w, sie_w)"
    using assms by (auto simp: body_filter_windows_def Let_def split: if_splits)
qed

text \<open>
  The three lifetimes of a stored response: whatever the origin's headers and the configuration
  say, \<open>fresh \<le> stale \<le> TTL_MAX\<close> and a serve-on-error window never ends before the fresh one, so
  none of the wire's 32-bit fields truncates; must-revalidate leaves no stale and no
  serve-on-error window; a declared stale-while-revalidate extends the fresh TTL by exactly that
  much; and when Cache-Control is ignored nothing the origin declared matters.
\<close>

theorem body_filter_windows_spec:
  assumes "body_filter_windows clcf parsed status = Some (ttl, stale_w, sie_w)"
  shows "0 \<le> ttl \<and> ttl \<le> stale_w \<and> stale_w \<le> TTL_MAX \<and> 0 \<le> sie_w \<and> sie_w \<le> TTL_MAX \<and>
    (sie_w \<noteq> 0 \<longrightarrow> ttl \<le> sie_w) \<and>
    (0 < ttl \<and> \<not> ignore_cc clcf \<and> must_revalidate parsed \<longrightarrow> stale_w = ttl \<and> sie_w = 0) \<and>
    (0 < ttl \<and> \<not> ignore_cc clcf \<and> \<not> must_revalidate parsed \<and> 0 \<le> swr parsed \<longrightarrow>
      stale_w = min TTL_MAX (ttl + swr parsed)) \<and>
    (0 < ttl \<and> \<not> ignore_cc clcf \<and> \<not> must_revalidate parsed \<and> 0 \<le> sie parsed \<longrightarrow>
      sie_w = min TTL_MAX (ttl + sie parsed)) \<and>
    (ignore_cc clcf \<longrightarrow> body_filter_windows clcf other status = Some (ttl, stale_w, sie_w))"
  using body_filter_windows_spec_facts [OF assms] by blast

definition demo_conf :: store_conf where
  "demo_conf = \<lparr>surrogate_key = False, require_header = [], ignore_cc = False, honor_cc = True,
    stale_mult = 4, keep_stale = 0, conf_valid = 60, valid_status = [(301, 600), (404, 30)],
    max_size = 0\<rparr>"

theorem body_filter_windows_spec_witness:
  "body_filter_windows demo_conf \<lparr>upstream_ttl = 120, swr = 30, sie = 600, must_revalidate = False\<rparr> 200
     = Some (120, 150, 720) \<and> (150 :: int) = min TTL_MAX (120 + 30)"
proof -
  let ?p = "\<lparr>upstream_ttl = 120, swr = 30, sie = 600, must_revalidate = False\<rparr>"
  have w: "body_filter_windows demo_conf ?p 200 = Some (120, 150, 720)" by code_simp
  from body_filter_windows_spec [OF w, of no_policy] show ?thesis
    using w by (simp add: demo_conf_def)
qed

text \<open>
  A response that is already expired when it arrives (a past \<open>Expires\<close>, honoured) gets a fresh
  TTL of zero, and then every window is zero, must-revalidate or not: the store site's rule for a
  deadline reads a zero window as no deadline at all.
\<close>

theorem windows_expired_upstream:
  assumes "honor_cc clcf" and "\<not> ignore_cc clcf" and "upstream_ttl parsed = 0"
    and "0 \<le> status_ttl clcf status"
  shows "body_filter_windows clcf parsed status = Some (0, 0, 0)"
  using assms by (simp add: body_filter_windows_def Let_def stale_ttl_eq TTL_MAX_def)

theorem windows_expired_upstream_witness:
  "body_filter_windows demo_conf \<lparr>upstream_ttl = 0, swr = 30, sie = 600, must_revalidate = True\<rparr> 200
    = Some (0, 0, 0)"
  by (rule windows_expired_upstream; code_simp)

end
