(* ===== verification/Blob_Roundtrip.thy ===== *)
theory Blob_Roundtrip
  imports Blob_Store
begin

text \<open>
  What is written is what is read: the measuring and the emitting pass agree, the emitted buffer
  is filled exactly, and the validator reads back the header, the admissible headers in order
  with their roles, and the body.
\<close>

subsection \<open>The verdict bitmap\<close>

definition storable :: "'a hdr_conf_scheme \<Rightarrow> tbl_elt \<Rightarrow> bool" where
  "storable clcf h \<longleftrightarrow> te_hash h \<noteq> 0 \<and> header_admissible clcf (te_key h) (te_value h)"

definition stored_pairs :: "'a hdr_conf_scheme \<Rightarrow> tbl_elt list \<Rightarrow> (bytes \<times> bytes) list" where
  "stored_pairs clcf hs = map (\<lambda>h. (te_key h, te_value h)) (filter (storable clcf) hs)"

definition pair_size :: "bytes \<times> bytes \<Rightarrow> nat" where
  "pair_size p = tlv_size (fst p) (snd p)"

definition pairs_size :: "(bytes \<times> bytes) list \<Rightarrow> nat" where
  "pairs_size ps = sum_list (map pair_size ps)"

lemma pairs_size_simps [simp]:
  "pairs_size [] = 0" "pairs_size (p # ps) = pair_size p + pairs_size ps"
  "pairs_size (ps @ qs) = pairs_size ps + pairs_size qs"
  by (simp_all add: pairs_size_def)

lemma stored_pairs_simps [simp]:
  "stored_pairs clcf [] = []"
  "stored_pairs clcf (h # hs) =
    (if storable clcf h then [(te_key h, te_value h)] else []) @ stored_pairs clcf hs"
  by (simp_all add: stored_pairs_def)

lemma verdict_set_some:
  assumes "hv_bits v = Some bs" and "idx div 8 < length bs"
  shows "verdict_set v idx =
    Some (v\<lparr>hv_bits := Some (bs[idx div 8 := bs ! (idx div 8) OR push_bit (idx mod 8) 1])\<rparr>)"
  using assms by (simp add: verdict_set_def rd_in wr_def upd_conv_take_nth_drop)

lemma verdict_get_bit:
  assumes "hv_bits v = Some bs" and "idx < hv_nvisited v" and "idx div 8 < length bs"
  shows "verdict_get clcf v idx h = Some (vbit bs idx)"
proof -
  have "(drop_bit n b AND 1 \<noteq> 0) = bit b n" for n and b :: u8
    by (simp add: and_one_eq mod2_eq_if even_drop_bit_iff_not_bit)
  then show ?thesis using assms by (simp add: verdict_get_def rd_in vbit_def)
qed

text \<open>The measuring pass, without and with a bitmap.\<close>

lemma measure_loop_nobits:
  assumes "hv_bits v = None" and "idx + length hs \<le> nelts"
  shows "measure_loop clcf nelts hs idx v hb n =
    Some (idx + length hs, v, hb + pairs_size (stored_pairs clcf hs),
      n + of_nat (length (stored_pairs clcf hs)))"
  using assms
proof (induction hs arbitrary: idx hb n)
  case (Cons h hs)
  then show ?case
    by (simp add: verdict_set_def storable_def pair_size_def)
qed simp

lemma measure_loop_bits:
  assumes "hv_bits v = Some bs" and "idx + length hs \<le> nelts" and "nelts \<le> 8 * length bs"
  shows "\<exists>bs'. measure_loop clcf nelts hs idx v hb n =
      Some (idx + length hs, v\<lparr>hv_bits := Some bs'\<rparr>, hb + pairs_size (stored_pairs clcf hs),
        n + of_nat (length (stored_pairs clcf hs))) \<and> length bs' = length bs \<and>
      (\<forall>j < 8 * length bs. vbit bs' j \<longleftrightarrow>
        vbit bs j \<or> (idx \<le> j \<and> j < idx + length hs \<and> storable clcf (hs ! (j - idx))))"
  using assms
proof (induction hs arbitrary: idx hb n v bs)
  case Nil
  then show ?case by (auto intro!: exI [of _ bs])
next
  case (Cons h hs)
  have div: "j div 8 < length bs" if "j < 8 * length bs" for j
    using that by (simp add: less_mult_imp_div_less mult.commute)
  have i: "idx < nelts" "idx + 1 + length hs \<le> nelts" "idx < 8 * length bs"
    using Cons.prems by auto
  have nth: "(h # hs) ! (j - idx) = (if j = idx then h else hs ! (j - (idx + 1)))" if "idx \<le> j" for j
    using that by (auto simp: nth_Cons')
  show ?case
  proof (cases "storable clcf h")
    case True
    let ?bs = "bs[idx div 8 := bs ! (idx div 8) OR push_bit (idx mod 8) 1]"
    let ?v = "v\<lparr>hv_bits := Some ?bs\<rparr>"
    have set: "verdict_set v idx = Some ?v"
      by (rule verdict_set_some [OF Cons.prems(1) div [OF i(3)]])
    obtain bs' where bs': "measure_loop clcf nelts hs (idx + 1) ?v
        (hb + tlv_size (te_key h) (te_value h)) (n + 1) =
      Some (idx + 1 + length hs, ?v\<lparr>hv_bits := Some bs'\<rparr>,
        hb + tlv_size (te_key h) (te_value h) + pairs_size (stored_pairs clcf hs),
        n + 1 + of_nat (length (stored_pairs clcf hs)))" "length bs' = length bs"
      "\<forall>j < 8 * length bs. vbit bs' j \<longleftrightarrow> vbit ?bs j \<or>
        (idx + 1 \<le> j \<and> j < idx + 1 + length hs \<and> storable clcf (hs ! (j - (idx + 1))))"
      using Cons.IH [of ?v ?bs "idx + 1" "hb + tlv_size (te_key h) (te_value h)" "n + 1"]
        i Cons.prems(3) by auto
    have "vbit bs' j \<longleftrightarrow> vbit bs j \<or>
        (idx \<le> j \<and> j < idx + length (h # hs) \<and> storable clcf ((h # hs) ! (j - idx)))"
      if "j < 8 * length bs" for j
      using bs'(3) vbit_set [OF div [OF i(3)] div [OF that]] that True nth [of j]
      by (cases "j = idx") (auto simp: Suc_le_eq)
    with bs' True i(1) set show ?thesis
      by (auto simp: storable_def pair_size_def intro!: exI [of _ bs'])
  next
    case False
    obtain bs' where bs': "measure_loop clcf nelts hs (idx + 1) v hb n =
      Some (idx + 1 + length hs, v\<lparr>hv_bits := Some bs'\<rparr>, hb + pairs_size (stored_pairs clcf hs),
        n + of_nat (length (stored_pairs clcf hs)))" "length bs' = length bs"
      "\<forall>j < 8 * length bs. vbit bs' j \<longleftrightarrow> vbit bs j \<or>
        (idx + 1 \<le> j \<and> j < idx + 1 + length hs \<and> storable clcf (hs ! (j - (idx + 1))))"
      using Cons.IH [of v bs "idx + 1" hb n] i Cons.prems by auto
    have "vbit bs' j \<longleftrightarrow> vbit bs j \<or>
        (idx \<le> j \<and> j < idx + length (h # hs) \<and> storable clcf ((h # hs) ! (j - idx)))"
      if "j < 8 * length bs" for j
      using bs'(3) that False nth [of j] by (cases "j = idx") (auto simp: Suc_le_eq)
    with bs' False i(1) show ?thesis
      by (auto simp: storable_def intro!: exI [of _ bs'])
  qed
qed

definition blob_entries :: "'a hdr_conf_scheme \<Rightarrow> tbl_elt list \<Rightarrow> bytes \<Rightarrow> (bytes \<times> bytes) list" where
  "blob_entries clcf hs ct =
    (if ct \<noteq> [] \<and> header_admissible clcf content_type_name ct then [(content_type_name, ct)] else [])
    @ stored_pairs clcf hs"

lemma measure_headers_spec:
  "\<exists>v. measure_headers clcf ok hs ct =
      Some (pairs_size (blob_entries clcf hs ct), of_nat (length (blob_entries clcf hs ct)), v)
    \<and> hv_ct_admissible v = (ct \<noteq> [] \<and> header_admissible clcf content_type_name ct)
    \<and> (\<forall>k < length hs. verdict_get clcf v k (hs ! k) = Some (storable clcf (hs ! k)))"
proof -
  let ?ctok = "ct \<noteq> [] \<and> header_admissible clcf content_type_name ct"
  let ?hb = "if ?ctok then tlv_size content_type_name ct else 0"
  let ?n = "if ?ctok then 1 else 0 :: u32"
  show ?thesis
  proof (cases "length hs > 0 \<and> ok")
    case True
    let ?bs = "replicate ((length hs + 7) div 8) (0 :: u8)"
    let ?v = "\<lparr>hv_bits = Some ?bs, hv_nvisited = 0, hv_ct_admissible = ?ctok\<rparr>"
    have cap: "length hs \<le> 8 * length ?bs" by simp
    obtain bs' where bs': "measure_loop clcf (length hs) hs 0 ?v ?hb ?n =
        Some (length hs, ?v\<lparr>hv_bits := Some bs'\<rparr>, ?hb + pairs_size (stored_pairs clcf hs),
          ?n + of_nat (length (stored_pairs clcf hs)))" "length bs' = length ?bs"
      "\<forall>j < 8 * length ?bs. vbit bs' j \<longleftrightarrow> vbit ?bs j \<or> (j < length hs \<and> storable clcf (hs ! j))"
      using measure_loop_bits [of ?v ?bs 0 hs "length hs" clcf ?hb ?n] cap by auto
    have "\<not> vbit ?bs j" if "j < length hs" for j
      using that cap by (simp add: vbit_def less_mult_imp_div_less nth_replicate del: length_replicate)
    then have "vbit bs' k = storable clcf (hs ! k)" if "k < length hs" for k
      using bs'(3) that cap by auto
    moreover have "k div 8 < length bs'" if "k < length hs" for k
      using that cap bs'(2) by (simp add: less_mult_imp_div_less)
    ultimately show ?thesis
      using True bs'(1)
      by (auto simp: measure_headers_def Let_def blob_entries_def pair_size_def verdict_get_bit)
  next
    case False
    then show ?thesis
      by (auto simp: measure_headers_def Let_def blob_entries_def pair_size_def
          measure_loop_nobits verdict_get_def storable_def)
  qed
qed

subsection \<open>The emitting pass\<close>

definition tlv_bytes :: "bytes \<times> bytes \<Rightarrow> bytes" where
  "tlv_bytes p = header_role (fst p) # put_u32 (of_nat (length (fst p))) @ fst p
    @ put_u32 (of_nat (length (snd p))) @ snd p"

lemma length_tlv_bytes [simp]: "length (tlv_bytes p) = pair_size p"
  by (simp add: tlv_bytes_def pair_size_def tlv_size_def u32.put_width)

lemma length_tlv_concat [simp]: "length (concat (map tlv_bytes ps)) = pairs_size ps"
  by (induction ps) auto

lemma wr_next:
  "off = length pre \<Longrightarrow> length bs \<le> length rest \<Longrightarrow>
    wr (pre @ rest) off bs = Some ((pre @ bs) @ drop (length bs) rest)"
  by (simp add: wr_def)

lemma ct_put_eq:
  assumes "tlv_size np vp \<le> length rest"
  shows "ct_put np vp (length pre, pre @ rest) =
    Some (length pre + tlv_size np vp, pre @ tlv_bytes (np, vp) @ drop (tlv_size np vp) rest)"
proof -
  let ?nl = "put_u32 (of_nat (length np))" and ?vl = "put_u32 (of_nat (length vp))"
  have len: "length ?nl = 4" "length ?vl = 4" by (rule u32.put_width)+
  have le: "9 + length np + length vp \<le> length rest" using assms by (simp add: tlv_size_def)
  have "wr (pre @ rest) (length pre) [header_role np] =
      Some ((pre @ [header_role np]) @ drop 1 rest)"
    using wr_next [of "length pre" pre "[header_role np]" rest] le by simp
  moreover have "wr ((pre @ [header_role np]) @ drop 1 rest) (length pre + 1) ?nl =
      Some ((pre @ [header_role np] @ ?nl) @ drop 5 rest)"
    by (subst wr_next) (use le len in auto)
  moreover have "wr ((pre @ [header_role np] @ ?nl) @ drop 5 rest) (length pre + 5) np =
      Some ((pre @ [header_role np] @ ?nl @ np) @ drop (5 + length np) rest)"
    by (subst wr_next) (use le len in \<open>auto simp: add.commute\<close>)
  moreover have "wr ((pre @ [header_role np] @ ?nl @ np) @ drop (5 + length np) rest)
      (length pre + 5 + length np) ?vl =
      Some ((pre @ [header_role np] @ ?nl @ np @ ?vl) @ drop (9 + length np) rest)"
    by (subst wr_next) (use le len in \<open>auto simp: add.commute\<close>)
  moreover have "wr ((pre @ [header_role np] @ ?nl @ np @ ?vl) @ drop (9 + length np) rest)
      (length pre + 9 + length np) vp =
      Some ((pre @ [header_role np] @ ?nl @ np @ ?vl @ vp) @ drop (9 + length np + length vp) rest)"
    by (subst wr_next) (use le len in \<open>auto simp: ac_simps\<close>)
  ultimately show ?thesis
    by (simp add: ct_put_def Let_def tlv_bytes_def tlv_size_def add.assoc)
qed

lemma emit_loop_eq:
  assumes "\<And>k. k < length hs \<Longrightarrow> verdict_get clcf v (idx + k) (hs ! k) = Some (storable clcf (hs ! k))"
    and "pairs_size (stored_pairs clcf hs) \<le> length rest"
  shows "emit_loop clcf v hs idx (length pre, pre @ rest) =
    Some (length pre + pairs_size (stored_pairs clcf hs),
      pre @ concat (map tlv_bytes (stored_pairs clcf hs))
        @ drop (pairs_size (stored_pairs clcf hs)) rest)"
  using assms
proof (induction hs arbitrary: idx pre rest)
  case (Cons h hs)
  have get: "verdict_get clcf v idx h = Some (storable clcf h)"
    using Cons.prems(1) [of 0] by simp
  have rest: "verdict_get clcf v (idx + 1 + k) (hs ! k) = Some (storable clcf (hs ! k))"
    if "k < length hs" for k
    using Cons.prems(1) [of "Suc k"] that by simp
  show ?case
  proof (cases "storable clcf h")
    case True
    let ?p = "(te_key h, te_value h)"
    have le: "pair_size ?p + pairs_size (stored_pairs clcf hs) \<le> length rest"
      using Cons.prems(2) True by simp
    have put: "ct_put (te_key h) (te_value h) (length pre, pre @ rest) =
      Some (length (pre @ tlv_bytes ?p), (pre @ tlv_bytes ?p) @ drop (pair_size ?p) rest)"
      using ct_put_eq [of "te_key h" "te_value h" rest pre] le by (simp add: pair_size_def)
    show ?thesis
      using get put True le
        Cons.IH [OF rest, of "drop (pair_size ?p) rest" "pre @ tlv_bytes ?p"]
      by (simp add: add.assoc add.commute)
  next
    case False
    then show ?thesis using get Cons.IH [OF rest, of rest pre] Cons.prems(2) by simp
  qed
qed simp

lemma body_copy_eq:
  assumes "length (concat bs) \<le> length rest"
  shows "body_copy bs (length pre, pre @ rest) =
    Some (length pre + length (concat bs), pre @ concat bs @ drop (length (concat bs)) rest)"
  using assms
proof (induction bs arbitrary: pre rest)
  case (Cons b bs)
  have "wr (pre @ rest) (length pre) b = Some ((pre @ b) @ drop (length b) rest)"
    by (rule wr_next) (use Cons.prems in auto)
  then show ?case
    using Cons.IH [of "drop (length b) rest" "pre @ b"] Cons.prems by (simp add: add.assoc add.commute)
qed simp

subsection \<open>The whole blob\<close>

definition wire_hdr :: "(time_t \<Rightarrow> bytes) \<Rightarrow> blob_hdr \<Rightarrow> bytes" where
  "wire_hdr ht h = put_u32 BLOB_MAGIC @ put_u16 BLOB_VERSION @ put_u16 (ucast (bh_flags h))
    @ put_u32 (bh_status h) @ put_u32 (bh_nheaders h) @ put_u32 (bh_headers_len h)
    @ put_u32 (bh_body_len h) @ put_u64 (word_of_int (bh_created h)) @ put_u32 (bh_fresh h)
    @ put_u32 (bh_stale h) @ put_u32 (bh_sie h) @ [29] @ ht (bh_created h) @ [0, 0]"

lemma length_wire_hdr:
  "length (ht (bh_created h)) = BLOB_DATE_LEN \<Longrightarrow> length (wire_hdr ht h) = BLOB_HDR_WIRE"
  by (simp add: wire_hdr_def wire_simps blob_consts)

lemma hdr_write_eq:
  assumes "length (ht (bh_created h)) = BLOB_DATE_LEN" and "BLOB_HDR_WIRE \<le> length dst"
  shows "blob_hdr_write ht dst h = Some (wire_hdr ht h @ drop BLOB_HDR_WIRE dst)"
  using assms
  by (simp add: blob_hdr_write_def wire_hdr_def wr_def wire_simps blob_consts, arith)

lemma read_wire_hdr:
  assumes "length (ht (bh_created h)) = BLOB_DATE_LEN" and "fits_int64 (bh_created h)"
  shows "blob_read_hdr (wire_hdr ht h @ rest) = Some (h\<lparr>bh_magic := BLOB_MAGIC,
    bh_version := ucast BLOB_VERSION, bh_flags := ucast (ucast (bh_flags h) :: u16),
    bh_date := BLOB_DATE_OFF\<rparr>)"
proof -
  have "sint (word_of_int (bh_created h) :: u64) = bh_created h"
    using assms(2) by (simp add: int64_defs signed_of_int signed_take_bit_int_eq_self)
  with assms(1) show ?thesis
    by (simp add: blob_read_hdr_def wire_hdr_def wire_simps)
qed

text \<open>The walk over what was emitted finds every pair where it was put.\<close>

fun pair_refs :: "nat \<Rightarrow> (bytes \<times> bytes) list \<Rightarrow> href list" where
  "pair_refs p [] = []"
| "pair_refs p (q # ps) = \<lparr>hr_name = p + 5, hr_nlen = of_nat (length (fst q)),
      hr_val = p + 9 + length (fst q), hr_vlen = of_nat (length (snd q)),
      hr_role = ucast (header_role (fst q))\<rparr> # pair_refs (p + pair_size q) ps"

definition pair_small :: "bytes \<times> bytes \<Rightarrow> bool" where
  "pair_small p \<longleftrightarrow> length (fst p) < 2 ^ 32 \<and> length (snd p) < 2 ^ 32"

lemma unat_of_nat_u32: "n < 2 ^ 32 \<Longrightarrow> unat (of_nat n :: u32) = n"
  by (simp add: unat_of_nat)

lemma next_header_tlv:
  assumes "pair_small q" and "p = length pre" and "p + pair_size q \<le> lim"
  shows "blob_next_header (pre @ tlv_bytes q @ post) p lim =
    Some (Some (hd (pair_refs p (q # ps)), p + pair_size q))"
proof -
  obtain n v where q: "q = (n, v)" by force
  let ?b = "pre @ tlv_bytes q @ post"
  have role: "rd ?b p = Some (header_role n)"
    using assms(2) by (simp add: q tlv_bytes_def rd_append rd_Cons)
  have "get_u32 ((pre @ [header_role n]) @ put_u32 (of_nat (length n)) @
      (n @ put_u32 (of_nat (length v)) @ v @ post)) (p + 1) = Some (of_nat (length n))"
    by (rule u32.get_at) (simp add: assms(2))
  then have nl: "get_u32 ?b (p + 1) = Some (of_nat (length n))"
    by (simp add: q tlv_bytes_def)
  have "get_u32 ((pre @ [header_role n] @ put_u32 (of_nat (length n)) @ n) @
      put_u32 (of_nat (length v)) @ (v @ post)) (p + 5 + length n) = Some (of_nat (length v))"
    by (rule u32.get_at) (simp add: assms(2) u32.put_width)
  then have vl: "get_u32 ?b (p + 5 + length n) = Some (of_nat (length v))"
    by (simp add: q tlv_bytes_def)
  have small: "unat (of_nat (length n) :: u32) = length n" "unat (of_nat (length v) :: u32) = length v"
    using assms(1) by (simp_all add: q pair_small_def unat_of_nat_u32)
  have lim: "p + 9 + length n + length v \<le> lim"
    using assms(3) by (simp add: q pair_size_def tlv_size_def)
  show ?thesis
    using lim role nl vl small header_role_le [of n]
    by (simp add: blob_next_header_def Let_def q pair_size_def tlv_size_def not_less, arith)
qed

lemma walk_tlv:
  assumes "list_all pair_small ps" and "p = length pre" and "p + pairs_size ps \<le> lim"
  shows "blob_walk (pre @ concat (map tlv_bytes ps) @ post) (length ps) p lim =
    Some (Some (pair_refs p ps))"
  using assms
proof (induction ps arbitrary: pre p)
  case (Cons q ps)
  let ?b = "pre @ tlv_bytes q @ concat (map tlv_bytes ps) @ post"
  have "blob_next_header ?b p lim = Some (Some (hd (pair_refs p (q # ps)), p + pair_size q))"
    using Cons.prems by (intro next_header_tlv) auto
  moreover have "blob_walk ((pre @ tlv_bytes q) @ concat (map tlv_bytes ps) @ post) (length ps)
      (p + pair_size q) lim = Some (Some (pair_refs (p + pair_size q) ps))"
    using Cons.prems by (intro Cons.IH) auto
  ultimately show ?case by simp
qed simp

definition href_pair :: "bytes \<Rightarrow> href \<Rightarrow> bytes \<times> bytes" where
  "href_pair b r = (bslice b (hr_name r) (unat (hr_nlen r)), bslice b (hr_val r) (unat (hr_vlen r)))"

lemma href_pair_fields:
  "href_pair b \<lparr>hr_name = x, hr_nlen = nl, hr_val = y, hr_vlen = vl, hr_role = r\<rparr> =
    (bslice b x (unat nl), bslice b y (unat vl))"
  by (simp add: href_pair_def)

lemma tlv_bytes_pair: "tlv_bytes (n, v) = header_role n # put_u32 (of_nat (length n)) @ n
    @ put_u32 (of_nat (length v)) @ v"
  by (simp add: tlv_bytes_def)

lemma bslice_at: "n = length x \<Longrightarrow> p = length pre \<Longrightarrow> bslice (pre @ x @ post) p n = x"
  by (simp add: bslice_def)

lemma pair_refs_pairs:
  assumes "list_all pair_small ps" and "p = length pre"
  shows "map (href_pair (pre @ concat (map tlv_bytes ps) @ post)) (pair_refs p ps) = ps"
  using assms
proof (induction ps arbitrary: pre p)
  case (Cons q ps)
  obtain n v where q: "q = (n, v)" by force
  let ?b = "pre @ tlv_bytes q @ concat (map tlv_bytes ps) @ post"
  have "bslice ((pre @ [header_role n] @ put_u32 (of_nat (length n))) @ n @
      (put_u32 (of_nat (length v)) @ v @ concat (map tlv_bytes ps) @ post)) (p + 5) (length n) = n"
    by (rule bslice_at) (simp_all add: Cons.prems u32.put_width)
  moreover have "bslice ((pre @ [header_role n] @ put_u32 (of_nat (length n)) @ n @
      put_u32 (of_nat (length v))) @ v @ (concat (map tlv_bytes ps) @ post))
      (p + 9 + length n) (length v) = v"
    by (rule bslice_at) (simp_all add: Cons.prems u32.put_width)
  moreover have "map (href_pair ((pre @ tlv_bytes q) @ concat (map tlv_bytes ps) @ post))
      (pair_refs (p + pair_size q) ps) = ps"
    using Cons.prems by (intro Cons.IH) auto
  moreover have "unat (of_nat (length n) :: u32) = length n"
    "unat (of_nat (length v) :: u32) = length v"
    using Cons.prems(1) by (simp_all add: q pair_small_def unat_of_nat_u32)
  ultimately show ?case by (simp add: q href_pair_fields tlv_bytes_pair)
qed simp

lemma blob_write_eq:
  assumes "measure_headers clcf ok hs ct = Some (hb, n, v)" and "length (ht now) = BLOB_DATE_LEN"
    and "cap_body_len ctx = length (concat (cap_body ctx))"
    and "length blob = BLOB_HDR_WIRE + hb + cap_body_len ctx"
  shows "blob_write ht now clcf ctx hs blob ct hb n win v =
    Some (wire_hdr ht (blob_hdr_of now ctx hb n win)
      @ concat (map tlv_bytes (blob_entries clcf hs ct)) @ concat (cap_body ctx))"
proof -
  let ?h = "blob_hdr_of now ctx hb n win" and ?E = "blob_entries clcf hs ct"
  let ?ctok = "ct \<noteq> [] \<and> header_admissible clcf content_type_name ct"
  have m: "hb = pairs_size ?E" "hv_ct_admissible v = ?ctok"
    "\<And>k. k < length hs \<Longrightarrow> verdict_get clcf v (0 + k) (hs ! k) = Some (storable clcf (hs ! k))"
    using measure_headers_spec [of clcf ok hs ct] assms(1) by auto
  have date: "length (ht (bh_created ?h)) = BLOB_DATE_LEN"
    using assms(2) by (simp add: blob_hdr_of_def split: prod.split)
  let ?W = "wire_hdr ht ?h" and ?rest = "drop BLOB_HDR_WIRE blob"
  have W: "length ?W = BLOB_HDR_WIRE" by (rule length_wire_hdr, rule date)
  have hdr: "blob_hdr_write ht blob ?h = Some (?W @ ?rest)"
    by (rule hdr_write_eq, rule date, simp add: assms(4))
  let ?C = "if ?ctok then [(content_type_name, ct)] else []"
  have E: "?E = ?C @ stored_pairs clcf hs" by (simp add: blob_entries_def)
  let ?c = "concat (map tlv_bytes ?C)"
  have sizes: "pairs_size ?C + pairs_size (stored_pairs clcf hs) + length (concat (cap_body ctx)) = length ?rest"
    using m(1) assms(3,4) by (simp add: E)
  have s1: "(if ct \<noteq> [] \<and> hv_ct_admissible v then ct_put content_type_name ct (BLOB_HDR_WIRE, ?W @ ?rest)
      else Some (BLOB_HDR_WIRE, ?W @ ?rest)) =
    Some (length (?W @ ?c), (?W @ ?c) @ drop (pairs_size ?C) ?rest)"
    using ct_put_eq [of content_type_name ct ?rest ?W] sizes m(2) W
    by (auto simp: pair_size_def)
  have s2: "emit_loop clcf v hs 0 (length (?W @ ?c), (?W @ ?c) @ drop (pairs_size ?C) ?rest) =
    Some (length (?W @ ?c) + pairs_size (stored_pairs clcf hs),
      (?W @ ?c) @ concat (map tlv_bytes (stored_pairs clcf hs))
        @ drop (pairs_size (stored_pairs clcf hs)) (drop (pairs_size ?C) ?rest))"
    using sizes by (intro emit_loop_eq m(3)) auto
  let ?pre = "(?W @ ?c) @ concat (map tlv_bytes (stored_pairs clcf hs))"
  let ?tail = "drop (pairs_size (stored_pairs clcf hs)) (drop (pairs_size ?C) ?rest)"
  have "body_copy (cap_body ctx) (length ?pre, ?pre @ ?tail) =
    Some (length ?pre + length (concat (cap_body ctx)),
      ?pre @ concat (cap_body ctx) @ drop (length (concat (cap_body ctx))) ?tail)"
    using sizes by (intro body_copy_eq) auto
  moreover have "drop (length (concat (cap_body ctx))) ?tail = []"
    using sizes by simp
  ultimately have s3: "body_copy (cap_body ctx) (length ?pre, ?pre @ ?tail) =
    Some (length ?pre + length (concat (cap_body ctx)), ?pre @ concat (cap_body ctx))"
    by (simp only: append_Nil2)
  have "length ?pre = length (?W @ ?c) + pairs_size (stored_pairs clcf hs)"
    by (simp only: length_append length_tlv_concat)
  with s2 s3 have "emit_loop clcf v hs 0 (length (?W @ ?c), (?W @ ?c) @ drop (pairs_size ?C) ?rest) =
      Some (length ?pre, ?pre @ ?tail)"
    by (simp only: append_assoc)
  then show ?thesis
    unfolding blob_write_def hdr Option.bind.bind_lunit s1 s3
    by (simp only: Option.bind.bind_lunit s3 snd_conv) (simp only: E map_append concat_append append_assoc)
qed

lemma two_bit_cases: obtains "c = (0 :: 2 word)" | "c = 1" | "c = 2" | "c = 3"
proof -
  have "unat c < 4" using unsigned_less [of c] by simp
  then consider "unat c = 0" | "unat c = 1" | "unat c = 2" | "unat c = 3" by linarith
  then show thesis
    using that by cases (auto simp: word_unat_eq_iff)
qed

lemma blob_flags_narrow: "ucast (ucast (blob_flags ctx) :: u16) = blob_flags ctx"
  by (rule two_bit_cases [of "origin_encoded_class ctx"])
    (simp_all add: blob_flags_def blobf_defs Let_def)

lemma blob_flags_class:
  "flag_set (blob_flags ctx) BLOBF_ORIGIN_ENCODED = origin_encoded_capture ctx"
  "blob_ae_class (blob_flags ctx) =
    (if origin_encoded_capture ctx then ucast (origin_encoded_class ctx) else AE_CLASS_IDENTITY)"
  by (rule two_bit_cases [of "origin_encoded_class ctx"],
      simp_all add: blob_flags_def blobf_defs ae_class_defs blob_ae_class_def flag_set_def Let_def)+

lemma blob_flags_vetted: "flag_set (blob_flags ctx) BLOBF_HDRS_VETTED"
  by (rule two_bit_cases [of "origin_encoded_class ctx"])
    (simp_all add: blob_flags_def blobf_defs flag_set_def Let_def)

lemma uint_u32_of_ttl: "0 \<le> x \<Longrightarrow> x \<le> TTL_MAX \<Longrightarrow> uint (word_of_int x :: u32) = x"
  by (simp add: uint_word_of_int_eq TTL_MAX_def take_bit_int_eq_self)

lemma pairs_size_each: "p \<in> set ps \<Longrightarrow> pair_size p \<le> pairs_size ps"
  by (induction ps) auto

lemma pairs_size_count: "9 * length ps \<le> pairs_size ps"
  by (induction ps) (auto simp: pair_size_def tlv_size_def)

lemma pairs_small: "pairs_size ps \<le> 0xFFFFFFFF \<Longrightarrow> list_all pair_small ps"
  by (auto simp: list_all_iff pair_small_def pair_size_def tlv_size_def dest!: pairs_size_each)

lemma get_magic_version:
  "get_u32 (wire_hdr ht h @ rest) 0 = Some BLOB_MAGIC"
  "get_u16 (wire_hdr ht h @ rest) 4 = Some BLOB_VERSION"
  by (simp_all add: wire_hdr_def wire_simps)

lemma wire_hdr_date:
  assumes "length (ht (bh_created h)) = BLOB_DATE_LEN"
  shows "rd (wire_hdr ht h @ rest) 44 = Some (of_nat BLOB_DATE_LEN)"
    "bslice (wire_hdr ht h @ rest) BLOB_DATE_OFF BLOB_DATE_LEN = ht (bh_created h)"
  using assms
  by (simp_all add: wire_hdr_def wire_simps nth_append bslice_def blob_consts rd_def)

text \<open>The validator on a buffer of the emitted shape.\<close>

lemma validate_emitted:
  assumes date: "length (ht (bh_created h)) = BLOB_DATE_LEN" "list_all printable (ht (bh_created h))"
    and int64: "fits_int64 (bh_created h)"
    and small: "pairs_size ps \<le> 0xFFFFFFFF" "length body \<le> 0xFFFFFFFF"
    and h: "bh_headers_len h = of_nat (pairs_size ps)" "bh_nheaders h = of_nat (length ps)"
      "bh_body_len h = of_nat (length body)" "ucast (ucast (bh_flags h) :: u16) = bh_flags h"
    and ranges: "blob_ranges_ok now h"
    and keep: "rd_wanted dst" "rd_pool dst = Some True"
  shows "blob_validate now dst (wire_hdr ht h @ concat (map tlv_bytes ps) @ body) =
    Some (Some (h\<lparr>bh_magic := BLOB_MAGIC, bh_version := ucast BLOB_VERSION, bh_date := BLOB_DATE_OFF\<rparr>,
      BLOB_HDR_WIRE + pairs_size ps, pair_refs BLOB_HDR_WIRE ps))"
proof -
  let ?rest = "concat (map tlv_bytes ps) @ body"
  let ?b = "wire_hdr ht h @ ?rest"
  let ?h = "h\<lparr>bh_magic := BLOB_MAGIC, bh_version := ucast BLOB_VERSION, bh_date := BLOB_DATE_OFF\<rparr>"
  have len: "length (wire_hdr ht h) = BLOB_HDR_WIRE" by (rule length_wire_hdr, rule date)
  have u: "unat (bh_headers_len h) = pairs_size ps" "unat (bh_body_len h) = length body"
    using small by (simp_all add: h unat_of_nat_u32)
  have n: "unat (bh_nheaders h) = length ps"
    using small(1) pairs_size_count [of ps] by (simp add: h unat_of_nat_u32)
  have hdr: "blob_read_hdr ?b = Some ?h"
    using read_wire_hdr [where ht = ht and h = h and rest = ?rest, OF date(1) int64] h(4) by simp
  have rng: "blob_ranges_ok now ?h" using ranges by (auto simp: blob_ranges_ok_def split: if_splits)
  have scan: "date_scan ?b 0 BLOB_DATE_LEN = Some True"
    using date_scan_in [of 0 BLOB_DATE_LEN ?b] wire_hdr_date(2) [where ht = ht and h = h and rest = ?rest, OF date(1)] date(2) len
    by (simp add: blob_consts)
  have walk: "blob_walk ?b (length ps) BLOB_HDR_WIRE (BLOB_HDR_WIRE + pairs_size ps) =
      Some (Some (pair_refs BLOB_HDR_WIRE ps))"
    by (rule walk_tlv [OF pairs_small [OF small(1)] len [symmetric]]) simp
  have place: "refs_place dst (length ps) = Some (ps \<noteq> [])"
    using keep by (simp add: refs_place_def split: option.split)
  have cap: "length ps \<le> pairs_size ps div 9" using pairs_size_count [of ps] by simp
  show ?thesis
    using hdr rng scan walk place cap len wire_hdr_date(1) [where ht = ht and h = h and rest = ?rest, OF date(1)]
    by (auto simp: blob_validate_def get_magic_version Let_def u n)
qed

subsection \<open>The store path\<close>

lemma measure_headers_total: "measure_headers clcf ok hs ct \<noteq> None"
  using measure_headers_spec [of clcf ok hs ct] by auto

text \<open>The environment the store path runs in: the pool hands out buffers of the asked size.\<close>

definition alloc_ok :: "(nat \<Rightarrow> bytes option) \<Rightarrow> bool" where
  "alloc_ok alloc \<longleftrightarrow> (\<forall>n b. alloc n = Some b \<longrightarrow> length b = n)"

definition renders_date :: "(time_t \<Rightarrow> bytes) \<Rightarrow> time_t \<Rightarrow> bool" where
  "renders_date ht t \<longleftrightarrow> length (ht t) = BLOB_DATE_LEN \<and> list_all printable (ht t)"

definition body_counted :: "capture_ctx \<Rightarrow> bool" where
  "body_counted ctx \<longleftrightarrow> cap_body_len ctx = length (concat (cap_body ctx))"

lemma store_tail_blob_cases:
  assumes "store_tail_blob ht now clcf alloc ok parsed ctx hs ct = Some (Tail_blob d win retain)"
  obtains hb n v blob where "body_filter_windows clcf parsed (capture_status ctx) = Some win"
    "measure_headers clcf ok hs ct = Some (hb, n, v)" "hb \<le> 0xFFFFFFFF"
    "cap_body_len ctx \<le> 0xFFFFFFFF" "alloc (BLOB_HDR_WIRE + hb + cap_body_len ctx) = Some blob"
    "blob_write ht now clcf ctx hs blob ct hb n win v = Some d"
    "max_size clcf > 0 \<Longrightarrow> BLOB_HDR_WIRE + hb + cap_body_len ctx \<le> max_size clcf"
  using assms
  by (auto simp: store_tail_blob_def Let_def
      split: option.splits prod.splits bind_splits if_splits)

text \<open>
  The two passes over the headers agree. Whatever the captured headers are, and whether or not
  the verdict bitmap could be allocated, the emitting pass writes exactly the bytes the measuring
  pass counted: the store path never writes outside the buffer it sized, and what it writes is
  the header, the admissible pairs in order, and the body, with not a byte left over.
\<close>

theorem store_passes_agree:
  assumes "alloc_ok alloc" and "renders_date ht now" and "body_counted ctx"
  shows "store_tail_blob ht now clcf alloc ok parsed ctx hs ct \<noteq> None \<and>
    (store_tail_blob ht now clcf alloc ok parsed ctx hs ct = Some (Tail_blob d win retain) \<longrightarrow>
      (\<exists>W. length W = BLOB_HDR_WIRE \<and>
        d = W @ concat (map tlv_bytes (blob_entries clcf hs ct)) @ concat (cap_body ctx)))"
proof -
  obtain hb n v where m: "measure_headers clcf ok hs ct = Some (hb, n, v)"
    using measure_headers_total [of clcf ok hs ct] by (cases "measure_headers clcf ok hs ct") auto
  have date: "length (ht now) = BLOB_DATE_LEN" using assms(2) by (simp add: renders_date_def)
  let ?W = "\<lambda>win. wire_hdr ht (blob_hdr_of now ctx hb n win)"
  have emitted: "blob_write ht now clcf ctx hs blob ct hb n win v =
      Some (?W win @ concat (map tlv_bytes (blob_entries clcf hs ct)) @ concat (cap_body ctx))"
    if "alloc (BLOB_HDR_WIRE + hb + cap_body_len ctx) = Some blob" for blob win
    using assms(1,3) that
    by (intro blob_write_eq [OF m] date) (auto simp: alloc_ok_def body_counted_def)
  have "length (?W win) = BLOB_HDR_WIRE" for win
    by (rule length_wire_hdr) (simp add: blob_hdr_of_def date split: prod.split)
  with emitted m show ?thesis
    by (auto simp: store_tail_blob_def Let_def split: option.splits)
qed

lemma store_roundtrip_facts:
  assumes env: "alloc_ok alloc" "renders_date ht now" "body_counted ctx"
    and status: "100 \<le> capture_status ctx" "capture_status ctx \<le> 599"
    and coded: "origin_encoded_capture ctx \<longrightarrow> origin_encoded_class ctx \<noteq> 0"
    and clock: "0 \<le> now" "now \<le> INT64_MAX" "now \<le> later + FOREVER_TTL"
    and keep: "rd_wanted dst" "rd_pool dst = Some True"
    and stored: "store_tail_blob ht now clcf alloc ok parsed ctx hs ct =
      Some (Tail_blob d (ttl, stale_w, sie_w) retain)"
  shows "\<exists>h body refs. blob_validate later dst d = Some (Some (h, body, refs)) \<and>
    unat (bh_status h) = capture_status ctx \<and> bh_created h = now \<and>
    uint (bh_fresh h) = ttl \<and> uint (bh_stale h) = stale_w \<and> uint (bh_sie h) = sie_w \<and>
    bh_flags h = blob_flags ctx \<and> bslice d (bh_date h) BLOB_DATE_LEN = ht now \<and>
    map (href_pair d) refs = blob_entries clcf hs ct \<and>
    map hr_role refs = map (\<lambda>p. ucast (header_role (fst p))) (blob_entries clcf hs ct) \<and>
    bslice d body (unat (bh_body_len h)) = concat (cap_body ctx)"
proof -
  obtain hb n v blob where s: "body_filter_windows clcf parsed (capture_status ctx) = Some (ttl, stale_w, sie_w)"
    "measure_headers clcf ok hs ct = Some (hb, n, v)" "hb \<le> 0xFFFFFFFF" "cap_body_len ctx \<le> 0xFFFFFFFF"
    "alloc (BLOB_HDR_WIRE + hb + cap_body_len ctx) = Some blob"
    "blob_write ht now clcf ctx hs blob ct hb n (ttl, stale_w, sie_w) v = Some d"
    by (rule store_tail_blob_cases [OF stored])
  let ?E = "blob_entries clcf hs ct" and ?h = "blob_hdr_of now ctx hb n (ttl, stale_w, sie_w)"
  note order = windows_order [OF s(1)]
  have hb: "hb = pairs_size ?E" and n: "n = of_nat (length ?E)"
    using measure_headers_spec [of clcf ok hs ct] s(2) by auto
  have h: "bh_created ?h = now" "bh_status ?h = of_nat (capture_status ctx)"
    "bh_fresh ?h = word_of_int ttl" "bh_stale ?h = word_of_int stale_w" "bh_sie ?h = word_of_int sie_w"
    "bh_flags ?h = blob_flags ctx" "bh_headers_len ?h = of_nat (pairs_size ?E)"
    "bh_nheaders ?h = of_nat (length ?E)" "bh_body_len ?h = of_nat (length (concat (cap_body ctx)))"
    using order(1) env(3) by (auto simp: blob_hdr_of_def hb n body_counted_def)
  have ttls: "uint (bh_fresh ?h) = ttl" "uint (bh_stale ?h) = stale_w" "uint (bh_sie ?h) = sie_w"
    using order by (auto simp: h uint_u32_of_ttl)
  have st: "unat (bh_status ?h) = capture_status ctx"
    using status by (simp add: h unat_of_nat_u32)
  have cls: "ucast (origin_encoded_class ctx) \<noteq> AE_CLASS_IDENTITY" if "origin_encoded_class ctx \<noteq> 0"
    using that by (cases rule: two_bit_cases [of "origin_encoded_class ctx"]) (simp_all add: ae_class_defs)
  have "\<not> bh_stale ?h < bh_fresh ?h"
    using ttls order by (simp add: word_less_def)
  moreover have "\<not> (bh_status ?h < 100 \<or> bh_status ?h > 599)"
    using st status by (simp add: word_less_nat_alt)
  ultimately have ranges: "blob_ranges_ok later ?h"
    using clock coded cls by (auto simp: blob_ranges_ok_def h(1,6) blob_flags_class BLOB_CREATED_MIN_def)
  have d: "d = wire_hdr ht ?h @ concat (map tlv_bytes ?E) @ concat (cap_body ctx)"
    using blob_write_eq [OF s(2), of ht now ctx blob "(ttl, stale_w, sie_w)"] env s(5,6)
    by (simp add: renders_date_def body_counted_def alloc_ok_def)
  have date: "length (ht (bh_created ?h)) = BLOB_DATE_LEN" "list_all printable (ht (bh_created ?h))"
    using env(2) by (simp_all add: h renders_date_def)
  have small: "pairs_size ?E \<le> 0xFFFFFFFF" "length (concat (cap_body ctx)) \<le> 0xFFFFFFFF"
    using s(3,4) env(3) by (simp_all add: hb body_counted_def)
  let ?h' = "?h\<lparr>bh_magic := BLOB_MAGIC, bh_version := ucast BLOB_VERSION, bh_date := BLOB_DATE_OFF\<rparr>"
  have valid: "blob_validate later dst d =
      Some (Some (?h', BLOB_HDR_WIRE + pairs_size ?E, pair_refs BLOB_HDR_WIRE ?E))"
    unfolding d
    by (rule validate_emitted [where ht = ht and h = ?h, OF date _ small h(7,8,9) _ ranges keep])
      (use clock in \<open>simp_all add: h blob_flags_narrow int64_defs\<close>)
  have len: "length (wire_hdr ht ?h) = BLOB_HDR_WIRE" by (rule length_wire_hdr, rule date(1))
  have "map (href_pair d) (pair_refs BLOB_HDR_WIRE ?E) = ?E"
    unfolding d by (rule pair_refs_pairs [OF pairs_small [OF small(1)] len [symmetric]])
  moreover have "map hr_role (pair_refs p ps) = map (\<lambda>p. ucast (header_role (fst p))) ps" for p ps
    by (induction ps arbitrary: p) auto
  moreover have "bslice d (BLOB_HDR_WIRE + pairs_size ?E) (unat (bh_body_len ?h')) = concat (cap_body ctx)"
    using bslice_at [of "length (concat (cap_body ctx))" "concat (cap_body ctx)"
        "BLOB_HDR_WIRE + pairs_size ?E" "wire_hdr ht ?h @ concat (map tlv_bytes ?E)" "[]"] len small(2)
    by (simp add: d h unat_of_nat_u32)
  moreover have "bslice d (bh_date ?h') BLOB_DATE_LEN = ht now"
    unfolding d using wire_hdr_date(2) [where ht = ht and h = ?h, OF date(1)] by (simp add: h)
  ultimately show ?thesis
    using valid ttls st by (simp add: h(1,6))
qed

text \<open>
  C7: The round trip of the wire format. A response that the store path serialises is accepted by the
  validator (at any later time, and on a clock set back by up to ten years), and what is read back is
  what was stored: status, creation time, the three lifetimes, the coding class, the date, every
  admissible header in order with the role of its name, and the body.
\<close>

theorem store_validate_roundtrip:
  assumes env: "alloc_ok alloc" "renders_date ht now" "body_counted ctx"
    and status: "100 \<le> capture_status ctx" "capture_status ctx \<le> 599"
    and coded: "origin_encoded_capture ctx \<longrightarrow> origin_encoded_class ctx \<noteq> 0"
    and clock: "0 \<le> now" "now \<le> INT64_MAX" "now \<le> later + FOREVER_TTL"
    and keep: "rd_wanted dst" "rd_pool dst = Some True"
    and stored: "store_tail_blob ht now clcf alloc ok parsed ctx hs ct =
      Some (Tail_blob d (ttl, stale_w, sie_w) retain)"
  shows "\<exists>h body refs. blob_validate later dst d = Some (Some (h, body, refs)) \<and>
    unat (bh_status h) = capture_status ctx \<and> bh_created h = now \<and>
    uint (bh_fresh h) = ttl \<and> uint (bh_stale h) = stale_w \<and> uint (bh_sie h) = sie_w \<and>
    bh_flags h = blob_flags ctx \<and> bslice d (bh_date h) BLOB_DATE_LEN = ht now \<and>
    map (href_pair d) refs = blob_entries clcf hs ct \<and>
    map hr_role refs = map (\<lambda>p. ucast (header_role (fst p))) (blob_entries clcf hs ct) \<and>
    bslice d body (unat (bh_body_len h)) = concat (cap_body ctx)"
  by (rule store_roundtrip_facts [OF assms])

subsection \<open>A concrete response\<close>

definition demo_date :: "time_t \<Rightarrow> bytes" where
  "demo_date t = ascii ''Mon, 28 Sep 1970 06:00:00 GMT''"

definition demo_alloc :: "nat \<Rightarrow> bytes option" where
  "demo_alloc n = Some (replicate n 0xAA)"

definition demo_ctx :: capture_ctx where
  "demo_ctx = \<lparr>capture_status = 200, brk_only = False, origin_encoded_capture = True,
    origin_encoded_class = 2, auth_shareable = False, head_derived = False,
    cap_body = [ascii ''hel'', ascii ''lo''], cap_body_len = 5\<rparr>"

definition demo_headers :: "tbl_elt list" where
  "demo_headers =
    [\<lparr>te_hash = 1, te_key = ascii ''ETag'', te_value = ascii ''x1''\<rparr>,
     \<lparr>te_hash = 1, te_key = ascii ''set-cookie'', te_value = ascii ''sid=1''\<rparr>,
     \<lparr>te_hash = 0, te_key = ascii ''X-Gone'', te_value = ascii ''1''\<rparr>,
     \<lparr>te_hash = 1, te_key = ascii ''X-Foo'', te_value = [0x61, CR, LF, 0x62]\<rparr>,
     \<lparr>te_hash = 1, te_key = ascii ''X-Bar'', te_value = ascii ''ok''\<rparr>]"

definition demo_policy :: response_policy where
  "demo_policy = \<lparr>upstream_ttl = 120, swr = 30, sie = 600, must_revalidate = False\<rparr>"

definition demo_refs :: refs_dest where
  "demo_refs = \<lparr>rd_wanted = True, rd_buf_cap = Some 32, rd_pool = Some True\<rparr>"

definition demo_tail :: "tail_blob option" where
  "demo_tail = store_tail_blob demo_date 1700000000 demo_conf demo_alloc True demo_policy demo_ctx
    demo_headers (ascii ''text/html'')"

lemma demo_env: "alloc_ok demo_alloc" "renders_date demo_date t" "body_counted demo_ctx"
proof -
  show "alloc_ok demo_alloc" by (simp add: alloc_ok_def demo_alloc_def)
  have "length (demo_date 0) = BLOB_DATE_LEN \<and> list_all printable (demo_date 0)" by code_simp
  then show "renders_date demo_date t" by (simp add: renders_date_def demo_date_def)
  show "body_counted demo_ctx" by code_simp
qed

lemma demo_status: "capture_status demo_ctx = 200"
  by (simp add: demo_ctx_def)

lemma demo_body: "concat (cap_body demo_ctx) = ascii ''hello''"
  by code_simp

lemma demo_windows: "body_filter_windows demo_conf demo_policy (capture_status demo_ctx) = Some (120, 150, 720)"
  by code_simp

lemma demo_entries: "blob_entries demo_conf demo_headers (ascii ''text/html'') =
    [(content_type_name, ascii ''text/html''), (ascii ''ETag'', ascii ''x1''), (ascii ''X-Bar'', ascii ''ok'')]"
  by code_simp

lemma demo_tail_some: "\<exists>d. demo_tail = Some (Tail_blob d (120, 150, 720) 720)"
proof -
  obtain hb n v where m: "measure_headers demo_conf True demo_headers (ascii ''text/html'') = Some (hb, n, v)"
    and hb: "hb = pairs_size (blob_entries demo_conf demo_headers (ascii ''text/html''))"
    using measure_headers_spec [of demo_conf True demo_headers "ascii ''text/html''"] by auto
  have small: "hb = 61" unfolding hb demo_entries by (simp add: pair_size_def tlv_size_def)
  have sel: "cap_body_len demo_ctx = 5" "max_size demo_conf = 0" "demo_alloc k = Some (replicate k 0xAA)" for k
    by (simp_all add: demo_ctx_def demo_conf_def demo_alloc_def)
  have "blob_write demo_date 1700000000 demo_conf demo_ctx demo_headers (replicate 142 0xAA)
      (ascii ''text/html'') hb n (120, 150, 720) v \<noteq> None"
    using blob_write_eq [OF m, of demo_date 1700000000 demo_ctx "replicate 142 0xAA" "(120, 150, 720)"]
      demo_env small sel
    by (simp add: renders_date_def body_counted_def blob_consts)
  then show ?thesis
    unfolding demo_tail_def store_tail_blob_def demo_windows
    by (auto simp: m small sel Let_def blob_consts)
qed

theorem store_passes_agree_witness:
  "demo_tail \<noteq> None \<and> (\<exists>d W. demo_tail = Some (Tail_blob d (120, 150, 720) 720) \<and>
    length W = BLOB_HDR_WIRE \<and> d = W @
      tlv_bytes (content_type_name, ascii ''text/html'') @ tlv_bytes (ascii ''ETag'', ascii ''x1'')
      @ tlv_bytes (ascii ''X-Bar'', ascii ''ok'') @ ascii ''hello'')"
proof -
  obtain d where d: "demo_tail = Some (Tail_blob d (120, 150, 720) 720)" using demo_tail_some by blast
  from store_passes_agree [OF demo_env, of 1700000000 demo_conf True demo_policy demo_headers
      "ascii ''text/html''" d "(120, 150, 720)" 720] d
  obtain W where "length W = BLOB_HDR_WIRE" "d = W @ concat (map tlv_bytes
      (blob_entries demo_conf demo_headers (ascii ''text/html''))) @ concat (cap_body demo_ctx)"
    unfolding demo_tail_def by blast
  with d have "demo_tail = Some (Tail_blob d (120, 150, 720) 720)" "length W = BLOB_HDR_WIRE" "d = W @
      tlv_bytes (content_type_name, ascii ''text/html'') @ tlv_bytes (ascii ''ETag'', ascii ''x1'')
      @ tlv_bytes (ascii ''X-Bar'', ascii ''ok'') @ ascii ''hello''"
    by (simp_all add: demo_entries demo_body)
  moreover have "demo_tail \<noteq> None" using d by (metis option.distinct(1))
  ultimately show ?thesis by blast
qed

theorem store_validate_roundtrip_witness:
  "\<exists>d h body refs. demo_tail = Some (Tail_blob d (120, 150, 720) 720) \<and>
    blob_validate 1700000050 demo_refs d = Some (Some (h, body, refs)) \<and>
    unat (bh_status h) = 200 \<and> uint (bh_stale h) = 150 \<and> blob_ae_class (bh_flags h) = AE_CLASS_BR \<and>
    map (href_pair d) refs =
      [(content_type_name, ascii ''text/html''), (ascii ''ETag'', ascii ''x1''), (ascii ''X-Bar'', ascii ''ok'')] \<and>
    map hr_role refs = [1, 2, 0] \<and> bslice d body (unat (bh_body_len h)) = ascii ''hello''"
proof -
  obtain d where d: "demo_tail = Some (Tail_blob d (120, 150, 720) 720)" using demo_tail_some by blast
  have "\<exists>h body refs. blob_validate 1700000050 demo_refs d = Some (Some (h, body, refs)) \<and>
    unat (bh_status h) = capture_status demo_ctx \<and> bh_created h = 1700000000 \<and>
    uint (bh_fresh h) = 120 \<and> uint (bh_stale h) = 150 \<and> uint (bh_sie h) = 720 \<and>
    bh_flags h = blob_flags demo_ctx \<and> bslice d (bh_date h) BLOB_DATE_LEN = demo_date 1700000000 \<and>
    map (href_pair d) refs = blob_entries demo_conf demo_headers (ascii ''text/html'') \<and>
    map hr_role refs = map (\<lambda>p. ucast (header_role (fst p)))
      (blob_entries demo_conf demo_headers (ascii ''text/html'')) \<and>
    bslice d body (unat (bh_body_len h)) = concat (cap_body demo_ctx)"
    by (rule store_validate_roundtrip [OF demo_env _ _ _ _ _ _ _ _ d [unfolded demo_tail_def]])
      (simp_all add: demo_ctx_def INT64_MAX_def FOREVER_TTL_def demo_refs_def)
  moreover have "map (\<lambda>p. ucast (header_role (fst p)) :: u32)
      [(content_type_name, ascii ''text/html''), (ascii ''ETag'', ascii ''x1''), (ascii ''X-Bar'', ascii ''ok'')]
      = [1, 2, 0]"
    by code_simp
  moreover have "blob_ae_class (blob_flags demo_ctx) = AE_CLASS_BR" by code_simp
  ultimately show ?thesis
    using d by (fastforce simp: demo_entries demo_body demo_status)
qed


end
