(* ===== verification/Encoding.thy ===== *)
theory Encoding
  imports Headers
begin

text \<open>
  Content codings (\<^verbatim>\<open>vary.c\<close>: \<open>ae_q_ok\<close>, \<open>ae_class\<close> and its two phases,
  \<open>ae_class_accepted\<close>): the client's Accept-Encoding is collapsed to one class for the variant
  key, and asked once more, coding by coding, before an entry that the origin compressed is
  served. The pointer pair of a scan is the list of the bytes between the two pointers.
\<close>

abbreviation COMMA :: u8 where "COMMA \<equiv> 0x2C"
abbreviation SEMICOLON :: u8 where "SEMICOLON \<equiv> 0x3B"
abbreviation SP :: u8 where "SP \<equiv> 0x20"
abbreviation HTAB :: u8 where "HTAB \<equiv> 0x09"

definition is_ows :: "u8 \<Rightarrow> bool" where
  "is_ows c \<longleftrightarrow> c = SP \<or> c = HTAB"

definition trim_ows :: "bytes \<Rightarrow> bytes" where
  "trim_ows s = rev (dropWhile is_ows (rev (dropWhile is_ows s)))"

subsection \<open>Quality values\<close>

function ae_q_ok :: "bytes \<Rightarrow> bool" where
  "ae_q_ok [] = True"
| "ae_q_ok (c # cs) =
    (if c \<noteq> SEMICOLON then ae_q_ok cs
     else let p = dropWhile is_ows cs
          in if 2 \<le> length p \<and> (p ! 0 = 0x71 \<or> p ! 0 = 0x51) \<and> p ! 1 = 0x3D
             then list_ex (\<lambda>d. 0x31 \<le> d \<and> d \<le> 0x39)
               (takeWhile (\<lambda>d. d \<noteq> SEMICOLON \<and> d \<noteq> SP \<and> d \<noteq> HTAB) (drop 2 p))
             else ae_q_ok p)"
  by pat_completeness auto
termination
  by (relation "measure length") (auto simp: less_Suc_eq_le length_dropWhile_le)

subsection \<open>The list of codings\<close>

function comma_items :: "bytes \<Rightarrow> bytes list" where
  "comma_items [] = []"
| "comma_items (c # cs) = takeWhile (\<lambda>d. d \<noteq> COMMA) (c # cs)
    # comma_items (drop (Suc (length (takeWhile (\<lambda>d. d \<noteq> COMMA) (c # cs)))) (c # cs))"
  by pat_completeness auto
termination by (relation "measure length") auto

definition coding_name :: "bytes \<Rightarrow> bytes" where
  "coding_name item = trim_ows (takeWhile (\<lambda>d. d \<noteq> SEMICOLON) item)"

definition coding_params :: "bytes \<Rightarrow> bytes" where
  "coding_params item = dropWhile (\<lambda>d. d \<noteq> SEMICOLON) item"

record ae_flags =
  ae_zstd :: bool
  ae_br :: bool
  ae_gzip :: bool

definition ae_class_match_coding :: "bytes \<Rightarrow> ae_flags \<Rightarrow> ae_flags" where
  "ae_class_match_coding tok f =
    (if length tok = 4 \<and> ngx_strncasecmp tok (ascii ''zstd'') 4 = 0 then f\<lparr>ae_zstd := True\<rparr>
     else if length tok = 2 \<and> ngx_strncasecmp tok (ascii ''br'') 2 = 0 then f\<lparr>ae_br := True\<rparr>
     else if length tok = 4 \<and> ngx_strncasecmp tok (ascii ''gzip'') 4 = 0 then f\<lparr>ae_gzip := True\<rparr>
     else f)"

datatype ae_name = AE_zstd | AE_br | AE_gzip | AE_identity

definition ae_class_dispatch :: "ae_flags \<Rightarrow> ae_name" where
  "ae_class_dispatch f =
    (if ae_zstd f then AE_zstd else if ae_br f then AE_br else if ae_gzip f then AE_gzip
     else AE_identity)"

definition no_codings :: ae_flags where
  "no_codings = \<lparr>ae_zstd = False, ae_br = False, ae_gzip = False\<rparr>"

fun ae_scan :: "bytes list \<Rightarrow> ae_flags \<Rightarrow> ae_flags" where
  "ae_scan [] f = f"
| "ae_scan (item # items) f =
    (if length (coding_name item) > 0 \<and> ae_q_ok (coding_params item)
     then let f' = ae_class_match_coding (coding_name item) f
          in if ae_zstd f' then f' else ae_scan items f'
     else ae_scan items f)"

definition ae_class :: "bytes option \<Rightarrow> ae_name" where
  "ae_class ae =
    (case ae of
       None \<Rightarrow> ae_class_dispatch no_codings
     | Some v \<Rightarrow> if length v = 0 then ae_class_dispatch no_codings
                 else ae_class_dispatch (ae_scan (comma_items v) no_codings))"

subsection \<open>The guard at serve time\<close>

definition ae_wire_name :: "nat \<Rightarrow> bytes option" where
  "ae_wire_name cls =
    (if cls = 3 then Some (ascii ''zstd'') else if cls = 2 then Some (ascii ''br'')
     else if cls = 1 then Some (ascii ''gzip'') else None)"

definition ae_item_accepts :: "bytes \<Rightarrow> bytes \<Rightarrow> bool" where
  "ae_item_accepts name item \<longleftrightarrow> length (coding_name item) = length name
    \<and> ngx_strncasecmp (coding_name item) name (length name) = 0 \<and> ae_q_ok (coding_params item)"

definition ae_class_accepted :: "bytes option \<Rightarrow> nat \<Rightarrow> bool" where
  "ae_class_accepted ae cls =
    (if cls = 0 then True
     else case ae_wire_name cls of
       None \<Rightarrow> False
     | Some name \<Rightarrow>
         (case ae of
            None \<Rightarrow> False
          | Some v \<Rightarrow> if length v = 0 then False
                      else list_ex (ae_item_accepts name) (comma_items v)))"

definition ae_name_class :: "ae_name \<Rightarrow> nat" where
  "ae_name_class n = (case n of AE_zstd \<Rightarrow> 3 | AE_br \<Rightarrow> 2 | AE_gzip \<Rightarrow> 1 | AE_identity \<Rightarrow> 0)"

subsection \<open>Both readings of the header agree\<close>

definition accepts :: "bytes list \<Rightarrow> string \<Rightarrow> bool" where
  "accepts items name \<longleftrightarrow> list_ex (ae_item_accepts (ascii name)) items"

lemma accepts_simps [simp]:
  "\<not> accepts [] name"
  "accepts (item # items) name \<longleftrightarrow> ae_item_accepts (ascii name) item \<or> accepts items name"
  by (simp_all add: accepts_def)

lemma codings_nul_free: "0 \<notin> set (ascii ''zstd'')" "0 \<notin> set (ascii ''br'')" "0 \<notin> set (ascii ''gzip'')"
  by code_simp+

lemma ae_item_accepts_iff:
  "ae_item_accepts name item \<longleftrightarrow> name_is (coding_name item) name \<and> ae_q_ok (coding_params item)"
  by (simp add: ae_item_accepts_def name_is_def)

lemma match_coding_iff:
  "ae_class_match_coding tok f =
    (if name_is tok (ascii ''zstd'') then f\<lparr>ae_zstd := True\<rparr>
     else if name_is tok (ascii ''br'') then f\<lparr>ae_br := True\<rparr>
     else if name_is tok (ascii ''gzip'') then f\<lparr>ae_gzip := True\<rparr>
     else f)"
proof -
  have len: "length (ascii ''zstd'') = 4" "length (ascii ''br'') = 2" "length (ascii ''gzip'') = 4"
    by simp_all
  show ?thesis unfolding ae_class_match_coding_def name_is_def len by (rule refl)
qed

lemma codings_exclusive:
  "name_is tok (ascii ''zstd'') \<Longrightarrow> \<not> name_is tok (ascii ''br'') \<and> \<not> name_is tok (ascii ''gzip'')"
  "name_is tok (ascii ''br'') \<Longrightarrow> \<not> name_is tok (ascii ''gzip'')"
proof -
  have "map lc_byte (ascii ''zstd'') \<noteq> map lc_byte (ascii ''br'')"
    "map lc_byte (ascii ''zstd'') \<noteq> map lc_byte (ascii ''gzip'')"
    "map lc_byte (ascii ''br'') \<noteq> map lc_byte (ascii ''gzip'')"
    by code_simp+
  then show "name_is tok (ascii ''zstd'') \<Longrightarrow> \<not> name_is tok (ascii ''br'') \<and> \<not> name_is tok (ascii ''gzip'')"
    "name_is tok (ascii ''br'') \<Longrightarrow> \<not> name_is tok (ascii ''gzip'')"
    by (auto simp: name_is_iff codings_nul_free)
qed

lemma name_is_nonempty: "name_is tok lit \<Longrightarrow> lit \<noteq> [] \<Longrightarrow> tok \<noteq> []"
  by (auto simp: name_is_def)

lemma ae_scan_dispatch:
  assumes "\<not> ae_zstd f"
  shows "ae_class_dispatch (ae_scan items f) =
    (if accepts items ''zstd'' then AE_zstd
     else if ae_br f \<or> accepts items ''br'' then AE_br
     else if ae_gzip f \<or> accepts items ''gzip'' then AE_gzip
     else AE_identity)"
  using assms
proof (induction items arbitrary: f)
  case Nil
  then show ?case by (simp add: ae_class_dispatch_def)
next
  case (Cons item items)
  let ?n = "coding_name item"
  show ?case
  proof (cases "?n \<noteq> [] \<and> ae_q_ok (coding_params item)")
    case True
    consider "name_is ?n (ascii ''zstd'')" | "name_is ?n (ascii ''br'')" | "name_is ?n (ascii ''gzip'')"
      | "\<not> name_is ?n (ascii ''zstd'')" "\<not> name_is ?n (ascii ''br'')" "\<not> name_is ?n (ascii ''gzip'')"
      by blast
    then show ?thesis
    proof cases
      case 1
      then show ?thesis using True
        by (simp add: Let_def match_coding_iff ae_item_accepts_iff ae_class_dispatch_def)
    next
      case 2
      then have "\<not> name_is ?n (ascii ''zstd'')" using codings_exclusive(1) by blast
      with 2 show ?thesis using True Cons.prems
        by (simp add: Let_def match_coding_iff ae_item_accepts_iff Cons.IH)
    next
      case 3
      then have "\<not> name_is ?n (ascii ''zstd'')" "\<not> name_is ?n (ascii ''br'')"
        using codings_exclusive by blast+
      with 3 show ?thesis using True Cons.prems
        by (simp add: Let_def match_coding_iff ae_item_accepts_iff Cons.IH)
    next
      case 4
      then show ?thesis using True Cons.prems
        by (simp add: Let_def match_coding_iff ae_item_accepts_iff Cons.IH)
    qed
  next
    case False
    then have "\<not> ae_item_accepts (ascii l) item" if "l \<noteq> []" for l
      using that name_is_nonempty [of ?n "ascii l"] by (auto simp: ae_item_accepts_iff ascii_def)
    with False Cons show ?thesis by (auto simp: ae_item_accepts_iff)
  qed
qed

text \<open>
  Both readings of Accept-Encoding agree. The class the variant key is built from is the
  best coding (zstd, br, gzip in that order) that the serve-time guard accepts for the same
  header, and identity exactly when the guard accepts none of the three; so an entry stored
  under a client's own class is never refused to that client, and the early exit at zstd changes
  nothing.
\<close>

theorem ae_class_is_best_accepted:
  "ae_class ae =
    (if ae_class_accepted ae 3 then AE_zstd
     else if ae_class_accepted ae 2 then AE_br
     else if ae_class_accepted ae 1 then AE_gzip
     else AE_identity) \<and> ae_class_accepted ae (ae_name_class (ae_class ae))"
proof -
  have "ae_class ae =
    (if ae_class_accepted ae 3 then AE_zstd
     else if ae_class_accepted ae 2 then AE_br
     else if ae_class_accepted ae 1 then AE_gzip
     else AE_identity)"
  proof (cases "ae = None \<or> ae = Some []")
    case True
    then show ?thesis
      by (auto simp: ae_class_def ae_class_accepted_def ae_wire_name_def no_codings_def ae_class_dispatch_def)
  next
    case False
    then obtain v where v: "ae = Some v" "v \<noteq> []" by auto
    then have "ae_class_accepted ae 3 = accepts (comma_items v) ''zstd''"
      "ae_class_accepted ae 2 = accepts (comma_items v) ''br''"
      "ae_class_accepted ae 1 = accepts (comma_items v) ''gzip''"
      by (simp_all add: ae_class_accepted_def ae_wire_name_def accepts_def)
    moreover have "\<not> ae_zstd no_codings" "\<not> ae_br no_codings" "\<not> ae_gzip no_codings"
      by (simp_all add: no_codings_def)
    ultimately show ?thesis
      using v by (simp add: ae_class_def ae_scan_dispatch)
  qed
  then show ?thesis
    by (auto simp: ae_name_class_def ae_class_accepted_def [of ae 0])
qed

end
