(* ===== verification/Restore.thy ===== *)
theory Restore
  imports Blob_Roundtrip Encoding
begin

text \<open>
  Rebuilding a response from a blob (\<^verbatim>\<open>module.c\<close>: \<open>restore_response\<close> with its three phases,
  \<open>restore_content_type\<close>, \<open>restore_content_encoding\<close>, \<open>not_modified\<close>, \<open>emit_surrogate_key\<close>).

  nginx itself enters as \<open>restore_env\<close>: whether its next allocation succeeds, the clock, how it
  renders a number of seconds and parses an HTTP date (\<open>-1\<close> is its \<open>NGX_ERROR\<close>), and what the
  tag expression evaluates to. \<open>None\<close> as a result is \<open>NGX_ERROR\<close>.
\<close>

subsection \<open>Request, response, environment\<close>

datatype http_method = GET | HEAD | OTHER_METHOD

record request =
  rq_method :: http_method
  rq_main :: bool
  rq_authorization :: bool
  rq_accept_encoding :: "bytes option"
  rq_if_none_match :: "bytes option"
  rq_if_modified_since :: "bytes option"

record resp =
  rs_status :: nat
  rs_content_length :: int
  rs_content_type :: bytes
  rs_content_type_len :: nat
  rs_charset :: bytes
  rs_headers :: "(bytes \<times> bytes) list"
  rs_content_encoding :: "bytes option"
  rs_date :: "bytes option"
  rs_header_only :: bool
  rs_allow_ranges :: bool
  rs_ctx_status :: nat
  rs_ctx_reason :: nat
  rs_allocs :: nat

record restore_env =
  ev_alloc :: "nat \<Rightarrow> bool"
  ev_refs_pool :: bool
  ev_now :: time_t
  ev_print_time :: "time_t \<Rightarrow> bytes"
  ev_parse_time :: "bytes \<Rightarrow> time_t"
  ev_tag :: "bytes option"

definition take_alloc :: "restore_env \<Rightarrow> resp \<Rightarrow> resp option" where
  "take_alloc env r =
    (if ev_alloc env (rs_allocs r) then Some (r\<lparr>rs_allocs := Suc (rs_allocs r)\<rparr>) else None)"

definition add_header :: "restore_env \<Rightarrow> bytes \<Rightarrow> bytes \<Rightarrow> resp \<Rightarrow> resp option" where
  "add_header env name val r = do {
    r \<leftarrow> take_alloc env r;
    Some (r\<lparr>rs_headers := rs_headers r @ [(name, val)]\<rparr>) }"

subsection \<open>Content-Type\<close>

abbreviation DQUOTE :: u8 where "DQUOTE \<equiv> 0x22"

function charset_param :: "nat \<Rightarrow> bytes \<Rightarrow> (nat \<times> bytes) option" where
  "charset_param off [] = None"
| "charset_param off (c # cs) =
    (if c \<noteq> SEMICOLON then charset_param (Suc off) cs
     else let p = dropWhile (\<lambda>d. d = SP) cs;
              n = length cs - length p
          in if length p < length (ascii ''charset='')
                \<or> ngx_strncasecmp p (ascii ''charset='') (length (ascii ''charset='')) \<noteq> 0
             then (if p = [] then None else charset_param (off + 1 + n) p)
             else let q = drop (length (ascii ''charset='')) p;
                      q = (if q \<noteq> [] \<and> hd q = DQUOTE then tl q else q);
                      q = (if q \<noteq> [] \<and> last q = DQUOTE then butlast q else q)
                  in Some (off, q))"
  by pat_completeness auto
termination
  by (relation "measure (\<lambda>(off, s). length s)") (auto simp: less_Suc_eq_le length_dropWhile_le)

definition restore_content_type :: "bytes \<Rightarrow> resp \<Rightarrow> resp" where
  "restore_content_type val r =
    (let r = r\<lparr>rs_content_type := val, rs_content_type_len := length val, rs_charset := []\<rparr>
     in case charset_param 0 val of
          None \<Rightarrow> r
        | Some (type_len, charset) \<Rightarrow> r\<lparr>rs_content_type_len := type_len, rs_charset := charset\<rparr>)"

subsection \<open>Replaying the stored headers\<close>

record replay =
  rp_resp :: resp
  rp_etag :: bytes
  rp_lastmod :: bytes
  rp_dropped :: nat

fun restore_headers_loop :: "restore_env \<Rightarrow> 'a hdr_conf_scheme \<Rightarrow> bool \<Rightarrow> bytes \<Rightarrow> href list
    \<Rightarrow> replay \<Rightarrow> replay option" where
  "restore_headers_loop env clcf vetted blob [] s = Some s"
| "restore_headers_loop env clcf vetted blob (ref # refs) s =
    (let nm = fst (href_pair blob ref); vv = snd (href_pair blob ref)
     in if \<not> vetted \<and> \<not> header_admissible clcf nm vv
        then restore_headers_loop env clcf vetted blob refs (s\<lparr>rp_dropped := Suc (rp_dropped s)\<rparr>)
        else if hr_role ref = ucast HROLE_CONTENT_TYPE
        then restore_headers_loop env clcf vetted blob refs
          (s\<lparr>rp_resp := restore_content_type vv (rp_resp s)\<rparr>)
        else do {
          let s = (if hr_role ref = ucast HROLE_ETAG then s\<lparr>rp_etag := vv\<rparr>
                   else if hr_role ref = ucast HROLE_LAST_MODIFIED then s\<lparr>rp_lastmod := vv\<rparr>
                   else s);
          r \<leftarrow> add_header env nm vv (rp_resp s);
          restore_headers_loop env clcf vetted blob refs (s\<lparr>rp_resp := r\<rparr>) })"

definition restore_response_headers :: "restore_env \<Rightarrow> 'a hdr_conf_scheme \<Rightarrow> blob_hdr \<Rightarrow> bytes
    \<Rightarrow> href list \<Rightarrow> resp \<Rightarrow> replay option" where
  "restore_response_headers env clcf bh blob refs r =
    restore_headers_loop env clcf (flag_set (bh_flags bh) BLOBF_HDRS_VETTED) blob refs
      \<lparr>rp_resp = r, rp_etag = [], rp_lastmod = [], rp_dropped = 0\<rparr>"

definition restore_content_encoding :: "restore_env \<Rightarrow> blob_hdr \<Rightarrow> resp \<Rightarrow> resp option" where
  "restore_content_encoding env bh r =
    (if \<not> flag_set (bh_flags bh) BLOBF_ORIGIN_ENCODED then Some r
     else case (if blob_ae_class (bh_flags bh) = AE_CLASS_GZIP then Some (ascii ''gzip'')
                else if blob_ae_class (bh_flags bh) = AE_CLASS_BR then Some (ascii ''br'')
                else if blob_ae_class (bh_flags bh) = AE_CLASS_ZSTD then Some (ascii ''zstd'')
                else None) of
         None \<Rightarrow> None
       | Some coding \<Rightarrow> do {
           r \<leftarrow> add_header env (ascii ''Content-Encoding'') coding r;
           Some (r\<lparr>rs_content_encoding := Some coding\<rparr>) })"

subsection \<open>Conditional requests\<close>

fun c_strncmp :: "bytes \<Rightarrow> bytes \<Rightarrow> nat \<Rightarrow> int" where
  "c_strncmp s1 s2 0 = 0"
| "c_strncmp s1 s2 (Suc n) =
    (let c1 = cur_byte s1; c2 = cur_byte s2
     in if c1 = c2 then (if c1 = 0 then 0 else c_strncmp (tl s1) (tl s2) n) else uint c1 - uint c2)"

definition strip_weak :: "bytes \<Rightarrow> bytes" where
  "strip_weak s = (if 2 < length s \<and> s ! 0 = 0x57 \<and> s ! 1 = 0x2F then drop 2 s else s)"

definition inm_skip :: "bytes \<Rightarrow> bytes" where
  "inm_skip s = dropWhile (\<lambda>c. is_ows c \<or> c = COMMA) (dropWhile (\<lambda>c. c \<noteq> COMMA) s)"

lemma inm_skip_shorter: "s \<noteq> [] \<Longrightarrow> length (inm_skip s) < length s"
proof -
  assume "s \<noteq> []"
  then obtain c cs where s: "s = c # cs" by (cases s) auto
  have le: "length (dropWhile P xs) \<le> length xs" for P and xs :: bytes
    by (rule length_dropWhile_le)
  show "length (inm_skip s) < length s"
  proof (cases "c = COMMA")
    case True
    then show ?thesis using le [of _ cs] by (auto simp: inm_skip_def s less_Suc_eq_le)
  next
    case False
    have "length (inm_skip s) \<le> length (dropWhile (\<lambda>c. c \<noteq> COMMA) s)"
      unfolding inm_skip_def by (rule le)
    also have "\<dots> \<le> length cs" using False le [of "\<lambda>c. c \<noteq> COMMA" cs] by (simp add: s)
    finally show ?thesis by (simp add: s)
  qed
qed

lemma strip_weak_le: "length (strip_weak s) \<le> length s" "strip_weak s = [] \<longleftrightarrow> s = []"
  by (auto simp: strip_weak_def)

function inm_walk :: "bytes \<Rightarrow> bytes \<Rightarrow> bool" where
  "inm_walk etag start =
    (if start = [] then False
     else let s = strip_weak start
          in if length etag > length s then False
             else if c_strncmp s etag (length etag) \<noteq> 0 then inm_walk etag (inm_skip s)
             else let t = dropWhile is_ows (drop (length etag) s)
                  in if t = [] \<or> hd t = COMMA then True else inm_walk etag (inm_skip t))"
  by pat_completeness auto
termination
proof (relation "measure (\<lambda>(etag, start). length start)", goal_cases)
  case (2 etag start s)
  then show ?case
    using inm_skip_shorter [of s] strip_weak_le [of start] by (auto intro: less_le_trans)
next
  case (3 etag start s t)
  have "length t \<le> length s"
    using 3 length_dropWhile_le [of is_ows "drop (length etag) s"] by simp
  then show ?case
    using 3 inm_skip_shorter [of t] strip_weak_le [of start] by (auto intro: less_le_trans)
qed auto

declare inm_walk.simps [simp del]

definition not_modified_etag :: "request \<Rightarrow> bytes \<Rightarrow> bool" where
  "not_modified_etag rq etag =
    (case rq_if_none_match rq of
       None \<Rightarrow> False
     | Some inm \<Rightarrow>
         if length inm = 1 \<and> inm ! 0 = 0x2A then True
         else if length etag = 0 then False
         else inm_walk (strip_weak etag) inm)"

definition not_modified_time :: "restore_env \<Rightarrow> request \<Rightarrow> bytes \<Rightarrow> bool" where
  "not_modified_time env rq lm =
    (case rq_if_modified_since rq of
       None \<Rightarrow> False
     | Some ims \<Rightarrow>
         if length lm = 0 then False
         else let ims_t = ev_parse_time env ims; lm_t = ev_parse_time env lm
              in ims_t \<noteq> - 1 \<and> lm_t \<noteq> - 1 \<and> lm_t \<le> ims_t)"

definition not_modified :: "restore_env \<Rightarrow> request \<Rightarrow> bytes \<Rightarrow> bytes \<Rightarrow> bool" where
  "not_modified env rq etag lm = (if not_modified_etag rq etag then True else not_modified_time env rq lm)"

subsection \<open>The surrogate key\<close>

definition MAX_TAGS :: nat where "MAX_TAGS = 16"
definition MAX_TAG_LEN :: nat where "MAX_TAG_LEN = 128"

definition is_tag_sep :: "u8 \<Rightarrow> bool" where
  "is_tag_sep c \<longleftrightarrow> c = SP \<or> c = HTAB \<or> c = COMMA \<or> c = CR \<or> c = LF"

function surrogate_key_parse :: "bytes \<Rightarrow> bytes list \<Rightarrow> bytes list" where
  "surrogate_key_parse s seen =
    (if s = [] \<or> length seen \<ge> MAX_TAGS then seen
     else let t = dropWhile is_tag_sep s;
              tok = takeWhile (\<lambda>c. \<not> is_tag_sep c) t;
              rest = drop (length tok) t
          in if length tok = 0 \<or> length tok > MAX_TAG_LEN then surrogate_key_parse rest seen
             else if tok \<in> set seen then surrogate_key_parse rest seen
             else surrogate_key_parse rest (seen @ [tok]))"
  by pat_completeness auto
termination
proof -
  have dec: "length (drop (length (takeWhile (\<lambda>c. \<not> is_tag_sep c) (dropWhile is_tag_sep s)))
      (dropWhile is_tag_sep s)) < length s" if "s \<noteq> []" for s
  proof (cases "dropWhile is_tag_sep s")
    case Nil
    show ?thesis unfolding Nil using that by simp
  next
    case (Cons c cs)
    then have "\<not> is_tag_sep c" using hd_dropWhile [of is_tag_sep s] by auto
    then show ?thesis
      using length_dropWhile_le [of is_tag_sep s] by (simp add: Cons)
  qed
  show ?thesis
    by (relation "measure (\<lambda>(s, seen). length s)") (use dec in auto)
qed

declare surrogate_key_parse.simps [simp del]

fun join_sp :: "bytes list \<Rightarrow> bytes" where
  "join_sp [] = []"
| "join_sp [t] = t"
| "join_sp (t # ts) = t @ SP # join_sp ts"

definition surrogate_key_format :: "restore_env \<Rightarrow> bytes list \<Rightarrow> resp \<Rightarrow> resp" where
  "surrogate_key_format env tags r =
    (case take_alloc env r of
       None \<Rightarrow> r
     | Some r' \<Rightarrow>
         (case add_header env (ascii ''Surrogate-Key'') (join_sp tags) r' of
            None \<Rightarrow> r' | Some r'' \<Rightarrow> r''))"

definition emit_surrogate_key :: "restore_env \<Rightarrow> resp \<Rightarrow> resp" where
  "emit_surrogate_key env r =
    (case ev_tag env of
       None \<Rightarrow> r
     | Some tagval \<Rightarrow>
         if length tagval = 0 then r
         else let tags = surrogate_key_parse tagval []
              in if length tags = 0 then r else surrogate_key_format env tags r)"

subsection \<open>The whole restore\<close>

definition SR_NONE :: nat where "SR_NONE = 0"
definition SR_FRESH :: nat where "SR_FRESH = 1"
definition SR_STALE :: nat where "SR_STALE = 2"
definition SR_STALE_IF_ERROR :: nat where "SR_STALE_IF_ERROR = 3"
definition SR_STALE_BREAKER :: nat where "SR_STALE_BREAKER = 4"
definition ST_HIT :: nat where "ST_HIT = 1"
definition ST_STALE :: nat where "ST_STALE = 2"

lemmas sr_defs = SR_NONE_def SR_FRESH_def SR_STALE_def SR_STALE_IF_ERROR_def SR_STALE_BREAKER_def
  ST_HIT_def ST_STALE_def

definition xcache_str :: "nat \<Rightarrow> bytes" where
  "xcache_str sr =
    (if sr = SR_STALE then ascii ''STALE''
     else if sr = SR_STALE_IF_ERROR then ascii ''STALE-IF-ERROR''
     else if sr = SR_STALE_BREAKER then ascii ''STALE-BREAKER''
     else ascii ''HIT'')"

definition answers_304 :: "restore_env \<Rightarrow> request \<Rightarrow> blob_hdr \<Rightarrow> bool \<Rightarrow> bytes \<Rightarrow> bytes \<Rightarrow> bool" where
  "answers_304 env rq bh stale etag lastmod \<longleftrightarrow> \<not> stale \<and> unat (bh_status bh) = 200
    \<and> (rq_method rq = GET \<or> rq_method rq = HEAD) \<and> not_modified env rq etag lastmod"

definition restore_date :: "restore_env \<Rightarrow> bytes \<Rightarrow> resp \<Rightarrow> resp option" where
  "restore_date env date r = do {
    r \<leftarrow> take_alloc env r;
    r \<leftarrow> add_header env (ascii ''Date'') date r;
    Some (r\<lparr>rs_date := Some date\<rparr>) }"

definition restore_age :: "restore_env \<Rightarrow> blob_hdr \<Rightarrow> resp \<Rightarrow> resp option" where
  "restore_age env bh r = do {
    let age = ev_now env - bh_created bh;
    let age = (if age < 0 then 0 else age);
    r \<leftarrow> take_alloc env r;
    add_header env (ascii ''Age'') (ev_print_time env age) r }"

definition restore_xcache :: "restore_env \<Rightarrow> nat \<Rightarrow> resp \<Rightarrow> resp option" where
  "restore_xcache env xcache r = do {
    r \<leftarrow> add_header env (ascii ''X-Cache'') (xcache_str xcache) r;
    Some (r\<lparr>rs_ctx_status := (if xcache = SR_FRESH then ST_HIT else ST_STALE),
      rs_ctx_reason := xcache\<rparr>) }"

definition restore_response_finalize :: "restore_env \<Rightarrow> 'a hdr_conf_scheme \<Rightarrow> request \<Rightarrow> blob_hdr
    \<Rightarrow> bytes \<Rightarrow> bool \<Rightarrow> nat \<Rightarrow> bytes \<Rightarrow> bytes \<Rightarrow> nat \<Rightarrow> resp \<Rightarrow> (resp \<times> nat) option" where
  "restore_response_finalize env clcf rq bh date stale xcache etag lastmod body_len r = do {
    let r = (if surrogate_key clcf then emit_surrogate_key env r else r);
    let c304 = answers_304 env rq bh stale etag lastmod;
    let r = (if c304 then r\<lparr>rs_status := 304, rs_content_length := - 1, rs_content_type := [],
               rs_header_only := True\<rparr> else r);
    let body_len = (if c304 then 0 else body_len);
    let r = (if rs_status r = 200 \<and> 0 \<le> rs_content_length r then r\<lparr>rs_allow_ranges := True\<rparr> else r);
    r \<leftarrow> restore_date env date r;
    r \<leftarrow> restore_age env bh r;
    r \<leftarrow> restore_xcache env xcache r;
    Some (r, body_len) }"

definition restore_refs_dest :: "restore_env \<Rightarrow> refs_dest" where
  "restore_refs_dest env = \<lparr>rd_wanted = True, rd_buf_cap = Some 24, rd_pool = Some (ev_refs_pool env)\<rparr>"

definition restore_parsed :: "restore_env \<Rightarrow> 'a hdr_conf_scheme \<Rightarrow> request \<Rightarrow> bytes \<Rightarrow> bool \<Rightarrow> nat
    \<Rightarrow> blob_hdr \<Rightarrow> href list \<Rightarrow> resp \<Rightarrow> (resp \<times> nat) option" where
  "restore_parsed env clcf rq blob stale xcache bh refs r = do {
    let r = r\<lparr>rs_status := unat (bh_status bh), rs_content_length := int (unat (bh_body_len bh))\<rparr>;
    s \<leftarrow> restore_response_headers env clcf bh blob refs r;
    r \<leftarrow> restore_content_encoding env bh (rp_resp s);
    restore_response_finalize env clcf rq bh (bslice blob (bh_date bh) BLOB_DATE_LEN) stale xcache
      (rp_etag s) (rp_lastmod s) (unat (bh_body_len bh)) r }"

definition restore_response :: "restore_env \<Rightarrow> 'a hdr_conf_scheme \<Rightarrow> request \<Rightarrow> bytes \<Rightarrow> bool \<Rightarrow> nat
    \<Rightarrow> resp \<Rightarrow> (resp \<times> nat \<times> nat) option option" where
  "restore_response env clcf rq blob stale xcache r = do {
    v \<leftarrow> blob_validate (ev_now env) (restore_refs_dest env) blob;
    (case v of
       None \<Rightarrow> Some None
     | Some (bh, body, refs) \<Rightarrow>
         Some (map_option (\<lambda>(r, body_len). (r, body, body_len))
           (restore_parsed env clcf rq blob stale xcache bh refs r))) }"

end
