(* ===== verification/Restore_Safe.thy ===== *)
theory Restore_Safe
  imports Restore
begin

text \<open>
  What a restored response can contain. The gate of \<open>Headers\<close> runs over every pair of a blob
  that came from L2, and over none of a blob that this process serialised; both are safe.
\<close>

subsection \<open>What the replay loop adds\<close>

definition line_safe :: "bytes \<Rightarrow> bool" where
  "line_safe s \<longleftrightarrow> CR \<notin> set s \<and> LF \<notin> set s"

definition pair_gated :: "'a hdr_conf_scheme \<Rightarrow> bool \<Rightarrow> bytes \<times> bytes \<Rightarrow> bool" where
  "pair_gated clcf vetted p \<longleftrightarrow> vetted \<or> header_admissible clcf (fst p) (snd p)"

lemma take_alloc_some:
  "take_alloc env r = Some r' \<Longrightarrow> r' = r\<lparr>rs_allocs := Suc (rs_allocs r)\<rparr>"
  by (auto simp: take_alloc_def split: if_splits)

lemma add_header_some:
  assumes "add_header env n v r = Some r'"
  shows "r' = r\<lparr>rs_allocs := Suc (rs_allocs r), rs_headers := rs_headers r @ [(n, v)]\<rparr>"
  using assms by (auto simp: add_header_def dest!: take_alloc_some split: bind_splits)

lemma content_type_fields [simp]:
  "rs_headers (restore_content_type v r) = rs_headers r"
  "rs_content_type (restore_content_type v r) = v"
  "rs_status (restore_content_type v r) = rs_status r"
  "rs_content_length (restore_content_type v r) = rs_content_length r"
  "rs_allocs (restore_content_type v r) = rs_allocs r"
  by (simp_all add: restore_content_type_def Let_def split: option.split prod.split)

lemma headers_loop_adds:
  assumes "restore_headers_loop env clcf vetted blob refs s = Some s'"
    and "list_all (pair_gated clcf vetted) (map (href_pair blob) refs) \<or> \<not> vetted"
  shows "\<exists>new. rs_headers (rp_resp s') = rs_headers (rp_resp s) @ new \<and>
      list_all (pair_gated clcf vetted) new \<and>
      set new \<subseteq> href_pair blob ` set refs \<and>
      (rs_content_type (rp_resp s') = rs_content_type (rp_resp s) \<or>
        (\<exists>p \<in> href_pair blob ` set refs. pair_gated clcf vetted p \<and> rs_content_type (rp_resp s') = snd p)) \<and>
      rs_status (rp_resp s') = rs_status (rp_resp s) \<and>
      rs_content_length (rp_resp s') = rs_content_length (rp_resp s)"
  using assms
proof (induction refs arbitrary: s)
  case Nil
  then show ?case by simp
next
  case (Cons ref refs)
  let ?p = "href_pair blob ref"
  have rest: "list_all (pair_gated clcf vetted) (map (href_pair blob) refs) \<or> \<not> vetted"
    using Cons.prems(2) by auto
  consider (drop) "\<not> vetted" "\<not> header_admissible clcf (fst ?p) (snd ?p)"
    | (ctype) "pair_gated clcf vetted ?p" "hr_role ref = ucast HROLE_CONTENT_TYPE"
    | (other) "pair_gated clcf vetted ?p" "hr_role ref \<noteq> ucast HROLE_CONTENT_TYPE"
    by (auto simp: pair_gated_def)
  then show ?case
  proof cases
    case drop
    with Cons.prems(1) have
      "restore_headers_loop env clcf vetted blob refs (s\<lparr>rp_dropped := Suc (rp_dropped s)\<rparr>) = Some s'"
      by (simp add: Let_def)
    from Cons.IH [OF this rest] show ?thesis by auto
  next
    case ctype
    with Cons.prems(1) have
      "restore_headers_loop env clcf vetted blob refs
        (s\<lparr>rp_resp := restore_content_type (snd ?p) (rp_resp s)\<rparr>) = Some s'"
      by (auto simp: Let_def pair_gated_def)
    from Cons.IH [OF this rest] ctype(1) show ?thesis by auto
  next
    case other
    let ?s = "if hr_role ref = ucast HROLE_ETAG then s\<lparr>rp_etag := snd ?p\<rparr>
      else if hr_role ref = ucast HROLE_LAST_MODIFIED then s\<lparr>rp_lastmod := snd ?p\<rparr> else s"
    obtain r where r: "add_header env (fst ?p) (snd ?p) (rp_resp ?s) = Some r"
      "restore_headers_loop env clcf vetted blob refs (?s\<lparr>rp_resp := r\<rparr>) = Some s'"
      using Cons.prems(1) other by (auto simp: Let_def pair_gated_def split: bind_splits if_splits)
    have "rp_resp ?s = rp_resp s" by simp
    then have "r = (rp_resp s)\<lparr>rs_allocs := Suc (rs_allocs (rp_resp s)),
        rs_headers := rs_headers (rp_resp s) @ [?p]\<rparr>"
      using add_header_some [OF r(1)] by simp
    with Cons.IH [OF r(2) rest] other(1) show ?thesis by auto
  qed
qed

lemma admissible_line_safe: "header_admissible clcf n v \<Longrightarrow> line_safe n \<and> line_safe v"
proof -
  assume *: "header_admissible clcf n v"
  have "c \<noteq> CR \<and> c \<noteq> LF" if "c \<in> set n" for c
    using header_admissibleD(2) [OF *] tchar_safe [of c] that by (auto simp: list_all_iff)
  then show "line_safe n \<and> line_safe v"
    using header_admissibleD(3,4) [OF *] by (auto simp: line_safe_def)
qed

text \<open>Over an unvetted blob a replayed pair and a replayed Content-Type are admissible.\<close>

lemma replay_unvetted:
  assumes "restore_response_headers env clcf bh blob refs r = Some s"
    and "\<not> flag_set (bh_flags bh) BLOBF_HDRS_VETTED"
  shows "\<exists>new. rs_headers (rp_resp s) = rs_headers r @ new \<and>
      (\<forall>p \<in> set new. header_admissible clcf (fst p) (snd p)) \<and>
      (rs_content_type (rp_resp s) = rs_content_type r \<or> line_safe (rs_content_type (rp_resp s)))"
proof -
  have "restore_headers_loop env clcf False blob refs
      \<lparr>rp_resp = r, rp_etag = [], rp_lastmod = [], rp_dropped = 0\<rparr> = Some s"
    using assms by (simp add: restore_response_headers_def)
  from headers_loop_adds [OF this] show ?thesis
    by (auto simp: pair_gated_def list_all_iff dest: admissible_line_safe)
qed

subsection \<open>What the last phase adds\<close>

lemma parse_tags_safe:
  "list_all line_safe seen \<Longrightarrow> list_all line_safe (surrogate_key_parse s seen)"
proof (induction s seen rule: surrogate_key_parse.induct)
  case (1 s seen)
  let ?t = "dropWhile is_tag_sep s"
  let ?tok = "takeWhile (\<lambda>c. \<not> is_tag_sep c) ?t"
  have "line_safe ?tok"
    by (auto simp: line_safe_def is_tag_sep_def dest: set_takeWhileD)
  then show ?case
    using 1 by (subst surrogate_key_parse.simps) (auto simp: Let_def)
qed

lemma join_sp_safe: "list_all line_safe ts \<Longrightarrow> line_safe (join_sp ts)"
  by (induction ts rule: join_sp.induct) (auto simp: line_safe_def)

lemma emit_surrogate_key_adds:
  "\<exists>sk. rs_headers (emit_surrogate_key env r) = rs_headers r @ sk \<and>
    (sk = [] \<or> (\<exists>v. sk = [(ascii ''Surrogate-Key'', v)] \<and> line_safe v)) \<and>
    rs_content_type (emit_surrogate_key env r) = rs_content_type r \<and>
    rs_status (emit_surrogate_key env r) = rs_status r \<and>
    rs_content_length (emit_surrogate_key env r) = rs_content_length r"
  using join_sp_safe [OF parse_tags_safe [of "[]" "the (ev_tag env)"]]
  by (auto simp: emit_surrogate_key_def surrogate_key_format_def Let_def
      dest!: take_alloc_some add_header_some split: option.split)

lemma restore_date_adds:
  assumes "restore_date env date r = Some r'"
  shows "rs_headers r' = rs_headers r @ [(ascii ''Date'', date)]"
    "rs_content_type r' = rs_content_type r" "rs_status r' = rs_status r"
  using assms by (auto simp: restore_date_def dest!: take_alloc_some add_header_some split: bind_splits)

lemma restore_age_adds:
  assumes "restore_age env bh r = Some r'"
  shows "rs_headers r' = rs_headers r
      @ [(ascii ''Age'', ev_print_time env (max 0 (ev_now env - bh_created bh)))]"
    "rs_content_type r' = rs_content_type r" "rs_status r' = rs_status r"
proof -
  have "(if t < 0 then 0 else t) = max 0 t" for t :: int by simp
  then show "rs_headers r' = rs_headers r
      @ [(ascii ''Age'', ev_print_time env (max 0 (ev_now env - bh_created bh)))]"
    "rs_content_type r' = rs_content_type r" "rs_status r' = rs_status r"
    using assms
    by (auto simp only: restore_age_def Let_def dest!: take_alloc_some add_header_some split: bind_splits)
      auto
qed

lemma restore_xcache_adds:
  assumes "restore_xcache env xcache r = Some r'"
  shows "rs_headers r' = rs_headers r @ [(ascii ''X-Cache'', xcache_str xcache)]"
    "rs_content_type r' = rs_content_type r" "rs_status r' = rs_status r"
  using assms by (auto simp: restore_xcache_def dest!: add_header_some split: bind_splits)

lemma finalize_adds:
  assumes "restore_response_finalize env clcf rq bh date stale xcache etag lastmod body_len r = Some (r', bl)"
  shows "\<exists>sk. rs_headers r' = rs_headers r @ sk @ [(ascii ''Date'', date),
        (ascii ''Age'', ev_print_time env (max 0 (ev_now env - bh_created bh))),
        (ascii ''X-Cache'', xcache_str xcache)] \<and>
      (sk = [] \<or> surrogate_key clcf \<and> (\<exists>v. sk = [(ascii ''Surrogate-Key'', v)] \<and> line_safe v))"
    "rs_content_type r' = (if answers_304 env rq bh stale etag lastmod then [] else rs_content_type r)"
    "rs_status r' = (if answers_304 env rq bh stale etag lastmod then 304 else rs_status r)"
    "bl = (if answers_304 env rq bh stale etag lastmod then 0 else body_len)"
proof -
  let ?c = "answers_304 env rq bh stale etag lastmod"
  let ?r1 = "if surrogate_key clcf then emit_surrogate_key env r else r"
  let ?r2 = "if ?c then ?r1\<lparr>rs_status := 304, rs_content_length := - 1, rs_content_type := [],
               rs_header_only := True\<rparr> else ?r1"
  let ?r3 = "if rs_status ?r2 = 200 \<and> 0 \<le> rs_content_length ?r2 then ?r2\<lparr>rs_allow_ranges := True\<rparr> else ?r2"
  obtain sk where sk: "rs_headers ?r1 = rs_headers r @ sk"
    "sk = [] \<or> surrogate_key clcf \<and> (\<exists>v. sk = [(ascii ''Surrogate-Key'', v)] \<and> line_safe v)"
    "rs_content_type ?r1 = rs_content_type r" "rs_status ?r1 = rs_status r"
    using emit_surrogate_key_adds [of env r] by (cases "surrogate_key clcf") auto
  obtain r4 r5 where steps: "restore_date env date ?r3 = Some r4" "restore_age env bh r4 = Some r5"
    "restore_xcache env xcache r5 = Some r'" "bl = (if ?c then 0 else body_len)"
    using assms unfolding restore_response_finalize_def Let_def by (auto split: bind_splits)
  have r3: "rs_headers ?r3 = rs_headers ?r1"
    "rs_content_type ?r3 = (if ?c then [] else rs_content_type ?r1)"
    "rs_status ?r3 = (if ?c then 304 else rs_status ?r1)"
    by simp_all
  note adds = restore_date_adds [OF steps(1)] restore_age_adds [OF steps(2)] restore_xcache_adds [OF steps(3)]
  show "\<exists>sk. rs_headers r' = rs_headers r @ sk @ [(ascii ''Date'', date),
        (ascii ''Age'', ev_print_time env (max 0 (ev_now env - bh_created bh))),
        (ascii ''X-Cache'', xcache_str xcache)] \<and>
      (sk = [] \<or> surrogate_key clcf \<and> (\<exists>v. sk = [(ascii ''Surrogate-Key'', v)] \<and> line_safe v))"
    using sk(2) by (intro exI [of _ sk] conjI) (simp_all only: adds r3 sk(1) append_assoc append.simps)
  show "rs_content_type r' = (if ?c then [] else rs_content_type r)"
    by (simp only: adds r3 sk(3))
  show "rs_status r' = (if ?c then 304 else rs_status r)"
    by (simp only: adds r3 sk(4))
  show "bl = (if ?c then 0 else body_len)" by (rule steps(4))
qed

lemma content_encoding_adds:
  assumes "restore_content_encoding env bh r = Some r'"
  shows "\<exists>ce. rs_headers r' = rs_headers r @ ce \<and>
      (ce = [] \<or> (\<exists>v. ce = [(ascii ''Content-Encoding'', v)] \<and> line_safe v))"
    "rs_content_type r' = rs_content_type r" "rs_status r' = rs_status r"
    "rs_content_length r' = rs_content_length r"
proof -
  have "line_safe (ascii ''gzip'')" "line_safe (ascii ''br'')" "line_safe (ascii ''zstd'')"
    unfolding line_safe_def by code_simp+
  then show "\<exists>ce. rs_headers r' = rs_headers r @ ce \<and>
      (ce = [] \<or> (\<exists>v. ce = [(ascii ''Content-Encoding'', v)] \<and> line_safe v))"
    "rs_content_type r' = rs_content_type r" "rs_status r' = rs_status r"
    "rs_content_length r' = rs_content_length r"
    using assms
    by (auto simp: restore_content_encoding_def dest!: add_header_some split: bind_splits if_splits)
qed

subsection \<open>No response splitting from L2\<close>

definition module_headers :: "bytes list" where
  "module_headers = map ascii [''Content-Encoding'', ''Surrogate-Key'', ''Date'', ''Age'', ''X-Cache'']"

definition header_line_ok :: "'a hdr_conf_scheme \<Rightarrow> bytes \<times> bytes \<Rightarrow> bool" where
  "header_line_ok clcf p \<longleftrightarrow> line_safe (fst p) \<and> line_safe (snd p)
    \<and> (fst p \<in> set module_headers \<or> header_admissible clcf (fst p) (snd p))"

lemma module_headers_safe: "n \<in> set module_headers \<Longrightarrow> line_safe n"
proof -
  have "list_all (\<lambda>n. CR \<notin> set n \<and> LF \<notin> set n) module_headers" by code_simp
  then show "n \<in> set module_headers \<Longrightarrow> line_safe n"
    by (auto simp: list_all_iff line_safe_def)
qed

lemma xcache_safe: "line_safe (xcache_str xcache)"
proof -
  have "list_all (\<lambda>s. CR \<notin> set s \<and> LF \<notin> set s)
    (map ascii [''STALE'', ''STALE-IF-ERROR'', ''STALE-BREAKER'', ''HIT''])" by code_simp
  then show ?thesis by (simp add: xcache_str_def line_safe_def)
qed

lemma printable_line_safe: "list_all printable s \<Longrightarrow> line_safe s"
  by (force simp: line_safe_def list_all_iff printable_def)

lemma module_header_ok: "n \<in> set module_headers \<Longrightarrow> line_safe v \<Longrightarrow> header_line_ok clcf (n, v)"
  by (simp add: header_line_ok_def module_headers_safe)

lemma restore_response_cases:
  assumes "restore_response env clcf rq d stale xcache r0 = Some (Some (r, body, blen))"
  obtains bh refs s r1 where
    "blob_validate (ev_now env) (restore_refs_dest env) d = Some (Some (bh, body, refs))"
    "restore_response_headers env clcf bh d refs (r0\<lparr>rs_status := unat (bh_status bh),
      rs_content_length := int (unat (bh_body_len bh))\<rparr>) = Some s"
    "restore_content_encoding env bh (rp_resp s) = Some r1"
    "restore_response_finalize env clcf rq bh (bslice d (bh_date bh) BLOB_DATE_LEN) stale xcache
      (rp_etag s) (rp_lastmod s) (unat (bh_body_len bh)) r1 = Some (r, blen)"
  using assms
  by (auto simp: restore_response_def restore_parsed_def Let_def split: bind_splits option.splits)

lemma restored_lines_ok:
  assumes restored: "restore_response env clcf rq d stale xcache r0 = Some (Some (r, body, blen))"
    and unvetted: "\<And>bh body refs. blob_validate (ev_now env) (restore_refs_dest env) d =
      Some (Some (bh, body, refs)) \<Longrightarrow> \<not> flag_set (bh_flags bh) BLOBF_HDRS_VETTED"
    and start: "rs_headers r0 = []" "line_safe (rs_content_type r0)"
    and digits: "\<And>t. line_safe (ev_print_time env t)"
  shows "list_all (header_line_ok clcf) (rs_headers r)" "line_safe (rs_content_type r)"
proof -
  obtain bh refs s r1 where steps:
    "blob_validate (ev_now env) (restore_refs_dest env) d = Some (Some (bh, body, refs))"
    "restore_response_headers env clcf bh d refs (r0\<lparr>rs_status := unat (bh_status bh),
      rs_content_length := int (unat (bh_body_len bh))\<rparr>) = Some s"
    "restore_content_encoding env bh (rp_resp s) = Some r1"
    "restore_response_finalize env clcf rq bh (bslice d (bh_date bh) BLOB_DATE_LEN) stale xcache
      (rp_etag s) (rp_lastmod s) (unat (bh_body_len bh)) r1 = Some (r, blen)"
    by (rule restore_response_cases [OF restored])
  obtain new where new: "rs_headers (rp_resp s) = new"
    "\<forall>p \<in> set new. header_admissible clcf (fst p) (snd p)"
    "line_safe (rs_content_type (rp_resp s))"
    using replay_unvetted [OF steps(2) unvetted [OF steps(1)]] start by auto
  obtain ce where ce: "rs_headers r1 = new @ ce"
    "ce = [] \<or> (\<exists>v. ce = [(ascii ''Content-Encoding'', v)] \<and> line_safe v)"
    using content_encoding_adds(1) [OF steps(3)] new(1) by auto
  obtain sk where sk: "rs_headers r = rs_headers r1 @ sk @
      [(ascii ''Date'', bslice d (bh_date bh) BLOB_DATE_LEN),
       (ascii ''Age'', ev_print_time env (max 0 (ev_now env - bh_created bh))),
       (ascii ''X-Cache'', xcache_str xcache)]"
    "sk = [] \<or> surrogate_key clcf \<and> (\<exists>v. sk = [(ascii ''Surrogate-Key'', v)] \<and> line_safe v)"
    using finalize_adds(1) [OF steps(4)] by auto
  have members: "ascii ''Content-Encoding'' \<in> set module_headers" "ascii ''Surrogate-Key'' \<in> set module_headers"
    "ascii ''Date'' \<in> set module_headers" "ascii ''Age'' \<in> set module_headers"
    "ascii ''X-Cache'' \<in> set module_headers"
    by (simp_all add: module_headers_def)
  have "line_safe (bslice d (bh_date bh) BLOB_DATE_LEN)"
    by (rule printable_line_safe, rule blob_accept_sound_facts(8) [OF steps(1)])
  moreover have "list_all (header_line_ok clcf) new"
    using new(2) admissible_line_safe by (auto simp: list_all_iff header_line_ok_def)
  moreover have "list_all (header_line_ok clcf) ce" "list_all (header_line_ok clcf) sk"
    using ce(2) sk(2) module_header_ok [OF members(1)] module_header_ok [OF members(2)] by auto
  ultimately show "list_all (header_line_ok clcf) (rs_headers r)"
    unfolding sk(1) ce(1)
    by (simp add: module_header_ok [OF members(3)] module_header_ok [OF members(4) digits]
        module_header_ok [OF members(5) xcache_safe])
  show "line_safe (rs_content_type r)"
    using finalize_adds(2) [OF steps(4)] content_encoding_adds(2) [OF steps(3)] new(3)
    by (simp add: line_safe_def)
qed

text \<open>
  C6: No response splitting from L2. Take any bytes at all from Redis or memcached, clear the trust
  bit as both backends do, and serve them: every header line that is replayed has neither CR nor
  LF in its name or value, and is either one of the five the module writes itself or passes the
  gate, so no Set-Cookie, Transfer-Encoding or second Content-Length comes out of a blob; the
  typed Content-Type is a single line as well.
\<close>

theorem restore_l2_safe:
  assumes "blob_clear_vetted b = Some d"
    and "restore_response env clcf rq d stale xcache r0 = Some (Some (r, body, blen))"
    and "rs_headers r0 = []" and "line_safe (rs_content_type r0)"
    and "\<And>t. line_safe (ev_print_time env t)"
  shows "list_all (header_line_ok clcf) (rs_headers r) \<and> line_safe (rs_content_type r)"
proof -
  have unvetted: "\<not> flag_set (bh_flags bh) BLOBF_HDRS_VETTED"
    if v: "blob_validate (ev_now env) (restore_refs_dest env) d = Some (Some (bh, body', refs))" for bh body' refs
  proof -
    obtain h where "bh = hdr_unvetted h"
      using clear_vetted_validate [OF assms(1), of "ev_now env" "restore_refs_dest env"] v
      by (cases "blob_validate (ev_now env) (restore_refs_dest env) b") (auto simp: map_option_case split: option.splits)
    then show ?thesis by (simp add: hdr_unvetted_def flag_set_clear_vetted)
  qed
  show ?thesis
    by (intro conjI restored_lines_ok [OF assms(2) _ assms(3,4,5)]) (rule unvetted, assumption)+
qed

subsection \<open>Restoring what this process stored\<close>

lemma loop_gate_free:
  assumes "\<And>p. p \<in> set (map (href_pair blob) refs) \<Longrightarrow> header_admissible clcf (fst p) (snd p)"
  shows "restore_headers_loop env clcf True blob refs s = restore_headers_loop env clcf False blob refs s"
  using assms
proof (induction refs arbitrary: s)
  case (Cons ref refs)
  have adm: "header_admissible clcf (fst (href_pair blob ref)) (snd (href_pair blob ref))"
    using Cons.prems by simp
  have rest: "restore_headers_loop env clcf True blob refs t = restore_headers_loop env clcf False blob refs t" for t
    using Cons.prems by (intro Cons.IH) simp
  show ?case by (simp add: adm rest Let_def cong: if_cong)
qed simp

lemma blob_entries_admissible: "p \<in> set (blob_entries clcf hs ct) \<Longrightarrow> header_admissible clcf (fst p) (snd p)"
  by (auto simp: blob_entries_def stored_pairs_def storable_def split: if_splits)

lemma loop_cong:
  assumes "\<And>ref. ref \<in> set refs \<Longrightarrow> href_pair a ref = href_pair b ref"
  shows "restore_headers_loop env clcf v a refs s = restore_headers_loop env clcf v b refs s"
  using assms
proof (induction refs arbitrary: s)
  case (Cons ref refs)
  have pair: "href_pair a ref = href_pair b ref" using Cons.prems by simp
  have rest: "restore_headers_loop env clcf v a refs t = restore_headers_loop env clcf v b refs t" for t
    using Cons.prems by (intro Cons.IH) simp
  show ?case using rest by (cases v) (simp_all add: pair Let_def cong: if_cong)
qed simp

lemma clear_vetted_bslice:
  assumes "blob_clear_vetted b = Some d" and "8 \<le> off"
  shows "bslice d off n = bslice b off n"
  using assms(1)
proof (cases rule: clear_vetted_cases)
  case (2 flags)
  then show ?thesis
    using assms(2) by (auto simp: wr_def bslice_def put_u16_def drop_Cons' split: if_splits)
qed simp

text \<open>
  Skipping the gate is free. For a blob that this process serialised itself, serving it with the
  trust bit set (no per-header gate) and serving it with the bit cleared (the full gate) produce
  the same response, for every request, clock, allocation outcome and serve reason, as long as the
  serving location has the configuration of the storing one.
\<close>

theorem restore_vetted_free:
  assumes env: "alloc_ok alloc" "renders_date ht now" "body_counted ctx"
    and status: "100 \<le> capture_status ctx" "capture_status ctx \<le> 599"
    and coded: "origin_encoded_capture ctx \<longrightarrow> origin_encoded_class ctx \<noteq> 0"
    and clock: "0 \<le> now" "now \<le> INT64_MAX" "now \<le> ev_now env + FOREVER_TTL"
    and pool: "ev_refs_pool env"
    and stored: "store_tail_blob ht now clcf alloc ok parsed ctx hs ct =
      Some (Tail_blob d (ttl, stale_w, sie_w) retain)"
    and cleared: "blob_clear_vetted d = Some d'"
  shows "restore_response env clcf rq d stale xcache r0 = restore_response env clcf rq d' stale xcache r0"
proof -
  let ?E = "blob_entries clcf hs ct"
  have keep: "rd_wanted (restore_refs_dest env)" "rd_pool (restore_refs_dest env) = Some True"
    using pool by (simp_all add: restore_refs_dest_def)
  obtain h body refs where v: "blob_validate (ev_now env) (restore_refs_dest env) d = Some (Some (h, body, refs))"
    "bh_flags h = blob_flags ctx" "map (href_pair d) refs = ?E"
    using store_roundtrip_facts [OF env status coded clock keep stored] by blast
  have v': "blob_validate (ev_now env) (restore_refs_dest env) d' = Some (Some (hdr_unvetted h, body, refs))"
    using clear_vetted_validate [OF cleared, of "ev_now env" "restore_refs_dest env"] v(1) by simp
  have laid: "refs = [] \<or> refs_laid BLOB_HDR_WIRE body refs" and date: "bh_date h = BLOB_DATE_OFF"
    using blob_accept_sound_facts(11) [OF v(1)] read_hdr_date [OF blob_validate_some(2) [OF v(1)]] by auto
  have same: "href_pair d' ref = href_pair d ref" if "ref \<in> set refs" for ref
  proof -
    from laid that have "refs_laid BLOB_HDR_WIRE body refs" by auto
    from refs_laid_each(1) [OF this that] refs_laid_val [OF this that]
    have "8 \<le> hr_name ref" "8 \<le> hr_val ref" by (auto simp: blob_consts)
    then show ?thesis
      by (simp add: href_pair_def clear_vetted_bslice [OF cleared])
  qed
  have loop: "restore_headers_loop env clcf True d refs s = restore_headers_loop env clcf False d' refs s" for s
  proof -
    have "restore_headers_loop env clcf True d refs s = restore_headers_loop env clcf False d refs s"
      by (rule loop_gate_free) (simp only: v(3) blob_entries_admissible)
    also have "\<dots> = restore_headers_loop env clcf False d' refs s"
      by (rule loop_cong) (simp add: same)
    finally show ?thesis .
  qed
  have flags: "flag_set (bh_flags h) BLOBF_HDRS_VETTED"
    "\<not> flag_set (bh_flags (hdr_unvetted h)) BLOBF_HDRS_VETTED"
    by (simp_all add: v(2) blob_flags_vetted hdr_unvetted_def flag_set_clear_vetted)
  have hdr: "restore_response_headers env clcf h d refs s =
      restore_response_headers env clcf (hdr_unvetted h) d' refs s" for s
    using flags loop by (simp add: restore_response_headers_def)
  have date': "bslice d' (bh_date h) BLOB_DATE_LEN = bslice d (bh_date h) BLOB_DATE_LEN"
    by (rule clear_vetted_bslice [OF cleared]) (simp add: date blob_consts)
  have same_hdr: "bh_status (hdr_unvetted h) = bh_status h" "bh_body_len (hdr_unvetted h) = bh_body_len h"
    "bh_date (hdr_unvetted h) = bh_date h" "bh_created (hdr_unvetted h) = bh_created h"
    by (simp_all add: hdr_unvetted_def)
  have ce: "restore_content_encoding env (hdr_unvetted h) = restore_content_encoding env h"
    by (rule ext) (simp add: restore_content_encoding_def hdr_unvetted_def flag_set_clear_vetted)
  have fin1: "restore_response_finalize env clcf rq (hdr_unvetted h) = restore_response_finalize env clcf rq h"
    by (intro ext) (simp only: restore_response_finalize_def restore_age_def answers_304_def same_hdr)
  have fin: "restore_parsed env clcf rq d' stale xcache (hdr_unvetted h) refs r0 =
      restore_parsed env clcf rq d stale xcache h refs r0"
    by (simp only: restore_parsed_def same_hdr hdr ce fin1 date')
  show ?thesis by (simp add: restore_response_def v(1) v' fin)
qed

text \<open>The response a stored object comes back as, pair by pair.\<close>

definition is_ctype :: "bytes \<times> bytes \<Rightarrow> bool" where
  "is_ctype p \<longleftrightarrow> header_role (fst p) = HROLE_CONTENT_TYPE"

definition last_value :: "(bytes \<times> bytes \<Rightarrow> bool) \<Rightarrow> bytes \<Rightarrow> (bytes \<times> bytes) list \<Rightarrow> bytes" where
  "last_value P start ps = foldl (\<lambda>acc p. if P p then snd p else acc) start ps"

lemma last_value_simps [simp]:
  "last_value P start [] = start"
  "last_value P start (p # ps) = last_value P (if P p then snd p else start) ps"
  by (simp_all add: last_value_def)

lemma take_alloc_all: "\<forall>n. ev_alloc env n \<Longrightarrow> take_alloc env r = Some (r\<lparr>rs_allocs := Suc (rs_allocs r)\<rparr>)"
  by (simp add: take_alloc_def)

lemma add_header_all:
  "\<forall>n. ev_alloc env n \<Longrightarrow> add_header env n v r =
    Some (r\<lparr>rs_allocs := Suc (rs_allocs r), rs_headers := rs_headers r @ [(n, v)]\<rparr>)"
  by (simp add: add_header_def take_alloc_all)

lemma ucast_role_inj: "(ucast (a :: u8) :: u32) = ucast b \<longleftrightarrow> a = b"
proof
  assume "(ucast a :: u32) = ucast b"
  then have "unat (ucast a :: u32) = unat (ucast b :: u32)" by simp
  then show "a = b" by (simp add: unat_ucast_u8 word_unat_eq_iff)
qed simp

lemma headers_loop_all:
  assumes "\<forall>n. ev_alloc env n"
    and "map hr_role refs = map (\<lambda>p. ucast (header_role (fst p))) ps" and "map (href_pair blob) refs = ps"
  shows "\<exists>s'. restore_headers_loop env clcf True blob refs s = Some s' \<and>
      rs_headers (rp_resp s') = rs_headers (rp_resp s) @ filter (\<lambda>p. \<not> is_ctype p) ps \<and>
      rs_content_type (rp_resp s') = last_value is_ctype (rs_content_type (rp_resp s)) ps \<and>
      rs_status (rp_resp s') = rs_status (rp_resp s) \<and>
      rs_content_length (rp_resp s') = rs_content_length (rp_resp s) \<and>
      rp_etag s' = last_value (\<lambda>p. header_role (fst p) = HROLE_ETAG) (rp_etag s) ps \<and>
      rp_lastmod s' = last_value (\<lambda>p. header_role (fst p) = HROLE_LAST_MODIFIED) (rp_lastmod s) ps"
  using assms(2,3)
proof (induction refs arbitrary: ps s)
  case (Cons ref refs)
  let ?p = "href_pair blob ref"
  obtain qs where ps: "ps = ?p # qs" "map hr_role refs = map (\<lambda>p. ucast (header_role (fst p))) qs"
    "map (href_pair blob) refs = qs" "hr_role ref = ucast (header_role (fst ?p))"
    using Cons.prems by (cases ps) auto
  have roles: "(hr_role ref = ucast HROLE_CONTENT_TYPE) = is_ctype ?p"
    "(hr_role ref = ucast HROLE_ETAG) = (header_role (fst ?p) = HROLE_ETAG)"
    "(hr_role ref = ucast HROLE_LAST_MODIFIED) = (header_role (fst ?p) = HROLE_LAST_MODIFIED)"
    by (simp_all only: ps(4) ucast_role_inj is_ctype_def)
  have apart: "is_ctype ?p \<Longrightarrow> header_role (fst ?p) \<noteq> HROLE_ETAG \<and> header_role (fst ?p) \<noteq> HROLE_LAST_MODIFIED"
    "header_role (fst ?p) = HROLE_ETAG \<Longrightarrow> header_role (fst ?p) \<noteq> HROLE_LAST_MODIFIED"
    by (auto simp: is_ctype_def hrole_defs)
  let ?s0 = "if header_role (fst ?p) = HROLE_ETAG then s\<lparr>rp_etag := snd ?p\<rparr>
    else if header_role (fst ?p) = HROLE_LAST_MODIFIED then s\<lparr>rp_lastmod := snd ?p\<rparr> else s"
  let ?s = "if is_ctype ?p then s\<lparr>rp_resp := restore_content_type (snd ?p) (rp_resp s)\<rparr>
    else ?s0\<lparr>rp_resp := (rp_resp s)\<lparr>rs_allocs := Suc (rs_allocs (rp_resp s)),
      rs_headers := rs_headers (rp_resp s) @ [?p]\<rparr>\<rparr>"
  have "restore_headers_loop env clcf True blob (ref # refs) s = restore_headers_loop env clcf True blob refs ?s"
    by (simp add: Let_def roles add_header_all [OF assms(1)])
  with Cons.IH [OF ps(2,3), of ?s] apart show ?case
    by (auto simp: ps(1))
qed simp

definition coding_lines :: "capture_ctx \<Rightarrow> (bytes \<times> bytes) list" where
  "coding_lines ctx =
    (if \<not> origin_encoded_capture ctx then []
     else [(ascii ''Content-Encoding'',
       if origin_encoded_class ctx = 1 then ascii ''gzip''
       else if origin_encoded_class ctx = 2 then ascii ''br'' else ascii ''zstd'')])"

lemma content_encoding_all:
  assumes "\<forall>n. ev_alloc env n" and "bh_flags bh = blob_flags ctx"
    and "origin_encoded_capture ctx \<longrightarrow> origin_encoded_class ctx \<noteq> 0"
  shows "\<exists>r'. restore_content_encoding env bh r = Some r' \<and> rs_headers r' = rs_headers r @ coding_lines ctx"
  using assms(2,3)
  by (cases rule: two_bit_cases [of "origin_encoded_class ctx"])
    (simp_all add: restore_content_encoding_def blob_flags_class add_header_all [OF assms(1)]
      coding_lines_def ae_class_defs)

lemma finalize_all:
  assumes "\<forall>n. ev_alloc env n"
  shows "\<exists>r' bl. restore_response_finalize env clcf rq bh date stale xcache etag lastmod body_len r = Some (r', bl)"
  by (simp add: restore_response_finalize_def Let_def restore_date_def restore_age_def restore_xcache_def
      take_alloc_all [OF assms] add_header_all [OF assms])


subsection \<open>A concrete hit\<close>

definition demo_request :: request where
  "demo_request = \<lparr>rq_method = GET, rq_main = True, rq_authorization = False,
    rq_accept_encoding = Some (ascii ''gzip, br;q=0.8''), rq_if_none_match = None,
    rq_if_modified_since = None\<rparr>"

definition demo_resp :: resp where
  "demo_resp = \<lparr>rs_status = 0, rs_content_length = - 1, rs_content_type = [], rs_content_type_len = 0,
    rs_charset = [], rs_headers = [], rs_content_encoding = None, rs_date = None, rs_header_only = False,
    rs_allow_ranges = False, rs_ctx_status = 0, rs_ctx_reason = 0, rs_allocs = 0\<rparr>"

definition demo_env_at :: "time_t \<Rightarrow> restore_env" where
  "demo_env_at t = \<lparr>ev_alloc = (\<lambda>_. True), ev_refs_pool = True, ev_now = t,
    ev_print_time = (\<lambda>_. ascii ''50''), ev_parse_time = (\<lambda>_. - 1), ev_tag = None\<rparr>"

lemma demo_env_facts: "\<forall>n. ev_alloc (demo_env_at t) n" "ev_refs_pool (demo_env_at t)"
  "ev_now (demo_env_at t) = t" "line_safe (ev_print_time (demo_env_at t) u)"
  by (simp_all add: demo_env_at_def line_safe_def ascii_def)

lemma demo_restored_store: "\<exists>d. store_tail_blob demo_date 1700000000 demo_conf demo_alloc True demo_policy demo_ctx
    demo_headers (ascii ''text/html'') = Some (Tail_blob d (120, 150, 720) 720)"
  using demo_tail_some by (simp add: demo_tail_def)

lemma demo_ctx_facts: "100 \<le> capture_status demo_ctx" "capture_status demo_ctx \<le> 599"
  "origin_encoded_capture demo_ctx \<longrightarrow> origin_encoded_class demo_ctx \<noteq> 0"
  by (simp_all add: demo_ctx_def)

lemma demo_clock: "(0 :: int) \<le> 1700000000" "(1700000000 :: int) \<le> INT64_MAX"
  "(1700000000 :: int) \<le> ev_now (demo_env_at 1700000050) + FOREVER_TTL"
  by (simp_all add: INT64_MAX_def FOREVER_TTL_def demo_env_at_def)


theorem restore_vetted_free_witness:
  "\<exists>d d'. demo_tail = Some (Tail_blob d (120, 150, 720) 720) \<and> blob_clear_vetted d = Some d' \<and>
    restore_response (demo_env_at 1700000050) demo_conf demo_request d False SR_FRESH demo_resp =
    restore_response (demo_env_at 1700000050) demo_conf demo_request d' False SR_FRESH demo_resp"
proof -
  obtain d where d: "store_tail_blob demo_date 1700000000 demo_conf demo_alloc True demo_policy demo_ctx
    demo_headers (ascii ''text/html'') = Some (Tail_blob d (120, 150, 720) 720)"
    using demo_restored_store by blast
  obtain d' where d': "blob_clear_vetted d = Some d'" using clear_vetted_total by blast
  from restore_vetted_free [OF demo_env demo_ctx_facts demo_clock demo_env_facts(2) d d',
      of demo_request False SR_FRESH demo_resp] d d'
  show ?thesis unfolding demo_tail_def by blast
qed

text \<open>An L2 writer sets the trust bit and smuggles a header through a value.\<close>

definition evil_blob :: bytes where
  "evil_blob = wire_hdr demo_date \<lparr>bh_magic = 0, bh_version = 0, bh_nheaders = 2, bh_headers_len = 44,
      bh_body_len = 2, bh_status = 200, bh_created = 1700000000, bh_fresh = 60, bh_stale = 60, bh_sie = 0,
      bh_flags = BLOBF_HDRS_VETTED, bh_date = 0\<rparr>
    @ tlv_bytes (ascii ''X-A'', ascii ''a'' @ [CR, LF] @ ascii ''Set-Cookie: s'') @ tlv_bytes (ascii ''X-B'', ascii ''ok!!'')
    @ ascii ''ok''"

theorem restore_l2_safe_witness:
  "\<exists>d r body blen. blob_clear_vetted evil_blob = Some d \<and>
    restore_response (demo_env_at 1700000050) demo_conf demo_request d False SR_FRESH demo_resp
      = Some (Some (r, body, blen)) \<and> list_all (header_line_ok demo_conf) (rs_headers r)"
proof -
  obtain d where d: "blob_clear_vetted evil_blob = Some d" using clear_vetted_total by blast
  have "(case blob_clear_vetted evil_blob of None \<Rightarrow> False
      | Some d \<Rightarrow> (case restore_response (demo_env_at 1700000050) demo_conf demo_request d False SR_FRESH demo_resp of
          Some (Some _) \<Rightarrow> True | _ \<Rightarrow> False))"
    by code_simp
  with d obtain r body blen where
    r: "restore_response (demo_env_at 1700000050) demo_conf demo_request d False SR_FRESH demo_resp
      = Some (Some (r, body, blen))"
    by (auto split: option.splits)
  have "rs_headers demo_resp = []" "line_safe (rs_content_type demo_resp)"
    by (simp_all add: demo_resp_def line_safe_def)
  from restore_l2_safe [OF d r this demo_env_facts(4)] d r show ?thesis by blast
qed

end
