(* ===== verification/Serve.thy ===== *)
theory Serve
  imports Restore_Safe
begin

text \<open>
  The chokepoint of every live serve (\<^verbatim>\<open>module.c\<close>: \<open>serve\<close>): the four guards on the blob's own
  flags, the ownership of the body reference on every exit, and the chain of buffers a body leaves
  in. The reference is counted where it goes: \<open>so_released\<close> of them are dropped in the call,
  \<open>so_armed\<close> says that the request pool's cleanup still holds one.
\<close>

subsection \<open>The guards\<close>

definition guard_breaker_only :: "u16 \<Rightarrow> nat \<Rightarrow> bool" where
  "guard_breaker_only bflags xcache \<longleftrightarrow>
    bflags AND ucast BLOBF_BREAKER_ONLY \<noteq> 0 \<and> xcache \<noteq> SR_STALE_BREAKER"

definition guard_authorization :: "u16 \<Rightarrow> request \<Rightarrow> bool" where
  "guard_authorization bflags rq \<longleftrightarrow>
    rq_authorization rq \<and> \<not> bflags AND ucast BLOBF_AUTH_SHAREABLE \<noteq> 0"

definition guard_head_derived :: "u16 \<Rightarrow> request \<Rightarrow> bool" where
  "guard_head_derived bflags rq \<longleftrightarrow>
    bflags AND ucast BLOBF_HEAD_DERIVED \<noteq> 0 \<and> rq_method rq \<noteq> HEAD"

definition guard_encoded :: "u16 \<Rightarrow> request \<Rightarrow> bool" where
  "guard_encoded bflags rq \<longleftrightarrow> bflags AND ucast BLOBF_ORIGIN_ENCODED \<noteq> 0 \<and>
    (let cls = unat (drop_bit BLOBF_AE_CLASS_SHIFT (bflags AND ucast BLOBF_AE_CLASS_MASK))
     in cls = 0 \<or> \<not> ae_class_accepted (rq_accept_encoding rq) cls)"

definition serve_refused :: "u16 \<Rightarrow> request \<Rightarrow> nat \<Rightarrow> bool" where
  "serve_refused bflags rq xcache =
    (if guard_breaker_only bflags xcache then True
     else if guard_authorization bflags rq then True
     else if guard_head_derived bflags rq then True
     else if guard_encoded bflags rq then True
     else False)"

subsection \<open>The body as a chain\<close>

definition SERVE_CHUNK :: nat where "SERVE_CHUNK = 32768"

definition serve_nbufs :: "nat \<Rightarrow> nat" where
  "serve_nbufs body_len = (body_len + SERVE_CHUNK - 1) div SERVE_CHUNK"

function serve_bufs :: "bytes \<Rightarrow> nat \<Rightarrow> nat \<Rightarrow> nat \<Rightarrow> bytes list" where
  "serve_bufs body nbufs off idx =
    (if idx < nbufs
     then let n = length body - off;
              n = (if n > SERVE_CHUNK then SERVE_CHUNK else n)
          in bslice body off n # serve_bufs body nbufs (off + SERVE_CHUNK) (Suc idx)
     else [])"
  by pat_completeness auto
termination by (relation "measure (\<lambda>(body, nbufs, off, idx). nbufs - idx)") auto

declare serve_bufs.simps [simp del]

definition serve_chain :: "bytes \<Rightarrow> bytes list" where
  "serve_chain body =
    (if length body = 0 then [[]] else serve_bufs body (serve_nbufs (length body)) 0 0)"

subsection \<open>Serving\<close>

record serve_out =
  so_rc :: ngx_rc
  so_released :: nat
  so_armed :: bool
  so_resp :: "resp option"
  so_chain :: "bytes list option"

text \<open>
  \<open>copy\<close> is \<open>None\<close> for a null pointer; \<open>ref\<close> says whether a reference on the slab's body came
  with it; \<open>cleanup_ok\<close> and \<open>chain_ok\<close> are the pool's answers for the cleanup and the buffers;
  \<open>send\<close> is the rest of nginx's header filter chain, which may answer with an error or a status.
\<close>

definition serve :: "restore_env \<Rightarrow> 'a hdr_conf_scheme \<Rightarrow> request \<Rightarrow> bytes option \<Rightarrow> bool \<Rightarrow> bool
    \<Rightarrow> bool \<Rightarrow> (resp \<Rightarrow> int) \<Rightarrow> bool \<Rightarrow> nat \<Rightarrow> resp \<Rightarrow> serve_out option" where
  "serve env clcf rq copy ref cleanup_ok chain_ok send stale xcache r0 =
    (if ref \<and> \<not> cleanup_ok
     then Some \<lparr>so_rc = NGX_ERROR, so_released = 1, so_armed = False, so_resp = None, so_chain = None\<rparr>
     else do {
       bflags \<leftarrow> (case copy of
           Some blob \<Rightarrow> if BLOB_HDR_WIRE \<le> length blob
             then map_option Some (get_u16 blob 6) else Some None
         | None \<Rightarrow> Some None);
       if (case bflags of Some f \<Rightarrow> serve_refused f rq xcache | None \<Rightarrow> False)
       then Some \<lparr>so_rc = NGX_DECLINED, so_released = (if ref then 1 else 0), so_armed = False,
              so_resp = None, so_chain = None\<rparr>
       else do {
         let fail = \<lparr>so_rc = NGX_ERROR, so_released = 0, so_armed = ref, so_resp = None, so_chain = None\<rparr>;
         let reason = (if xcache \<noteq> SR_NONE then xcache else if stale then SR_STALE else SR_FRESH);
         restored \<leftarrow> (case copy of
             None \<Rightarrow> Some None
           | Some blob \<Rightarrow> restore_response env clcf rq blob stale reason r0);
         Some (case restored of
             None \<Rightarrow> fail
           | Some (r, body, body_len) \<Rightarrow>
               let rc = send r;
                   sent = \<lparr>so_rc = NGX_DONE, so_released = 0, so_armed = ref, so_resp = Some r, so_chain = None\<rparr>
               in if rc = - 1 \<or> rc > 0 then sent
                  else if rs_header_only r then sent
                  else if \<not> chain_ok then fail\<lparr>so_resp := Some r\<rparr>
                  else sent\<lparr>so_chain := Some (serve_chain (bslice (the copy) body body_len))\<rparr>) } })"

subsection \<open>The chain is the body\<close>

lemma serve_bufs_concat:
  "nbufs = idx + serve_nbufs (length body - off) \<Longrightarrow> off \<le> length body \<Longrightarrow>
    concat (serve_bufs body nbufs off idx) = drop off body \<and>
    list_all (\<lambda>b. 0 < length b \<and> length b \<le> SERVE_CHUNK) (serve_bufs body nbufs off idx) \<and>
    length (serve_bufs body nbufs off idx) = nbufs - idx"
proof (induction "nbufs - idx" arbitrary: off idx rule: less_induct)
  case less
  have pos: "0 < SERVE_CHUNK" by (simp add: SERVE_CHUNK_def)
  show ?case
  proof (cases "idx < nbufs")
    case False
    then have "serve_nbufs (length body - off) = 0" using less.prems by simp
    then have "length body - off = 0"
      by (simp add: serve_nbufs_def SERVE_CHUNK_def div_eq_0_iff)
    then show ?thesis using False less.prems(2) by (simp add: serve_bufs.simps)
  next
    case True
    let ?m = "length body - off"
    have m: "0 < ?m"
      using True less.prems by (cases "?m = 0") (auto simp: serve_nbufs_def SERVE_CHUNK_def)
    show ?thesis
    proof (cases "?m > SERVE_CHUNK")
      case big: True
      have "serve_nbufs ?m = Suc (serve_nbufs (?m - SERVE_CHUNK))"
      proof -
        have "?m + SERVE_CHUNK - 1 = (?m - SERVE_CHUNK + SERVE_CHUNK - 1) + SERVE_CHUNK"
          using big pos by simp
        then show ?thesis using pos by (simp only: serve_nbufs_def div_add_self2)
      qed
      then have n: "nbufs = Suc idx + serve_nbufs (length body - (off + SERVE_CHUNK))"
        using less.prems(1) by simp
      have IH: "concat (serve_bufs body nbufs (off + SERVE_CHUNK) (Suc idx)) = drop (off + SERVE_CHUNK) body \<and>
        list_all (\<lambda>b. 0 < length b \<and> length b \<le> SERVE_CHUNK) (serve_bufs body nbufs (off + SERVE_CHUNK) (Suc idx)) \<and>
        length (serve_bufs body nbufs (off + SERVE_CHUNK) (Suc idx)) = nbufs - Suc idx"
        using less.hyps [of "Suc idx" "off + SERVE_CHUNK"] True n big by simp
      have "bslice body off SERVE_CHUNK @ drop (off + SERVE_CHUNK) body = drop off body"
        using append_take_drop_id [of SERVE_CHUNK "drop off body"] by (simp add: bslice_def add.commute)
      moreover have "length (bslice body off SERVE_CHUNK) = SERVE_CHUNK"
        using big by (simp add: bslice_def)
      moreover have "serve_bufs body nbufs off idx =
          bslice body off SERVE_CHUNK # serve_bufs body nbufs (off + SERVE_CHUNK) (Suc idx)"
        using True big by (subst serve_bufs.simps) (simp add: Let_def)
      moreover have "bslice body off SERVE_CHUNK \<noteq> []" "Suc (nbufs - Suc idx) = nbufs - idx"
        using big pos True by (auto simp: bslice_def)
      ultimately show ?thesis
        using IH by simp
    next
      case small: False
      have "serve_nbufs ?m = 1"
      proof -
        have "?m + SERVE_CHUNK - 1 = (?m - 1) + SERVE_CHUNK" using m by simp
        moreover have "(?m - 1) div SERVE_CHUNK = 0" using small m by (simp add: div_eq_0_iff)
        ultimately show ?thesis using pos by (simp only: serve_nbufs_def div_add_self2)
      qed
      then have "nbufs = Suc idx" using less.prems(1) by simp
      then show ?thesis
        using small m by (simp add: serve_bufs.simps Let_def bslice_def)
    qed
  qed
qed

text \<open>
  The chain of buffers a body leaves in is the body: nothing lost, repeated or reordered, no
  buffer longer than the chunk, none empty except the single control buffer of an empty body,
  and as many of them as were allocated.
\<close>

theorem serve_chain_is_body:
  "concat (serve_chain body) = body \<and> list_all (\<lambda>b. length b \<le> SERVE_CHUNK) (serve_chain body) \<and>
    (if body = [] then serve_chain body = [[]]
     else list_all (\<lambda>b. b \<noteq> []) (serve_chain body) \<and>
          length (serve_chain body) = serve_nbufs (length body))"
  using serve_bufs_concat [of "serve_nbufs (length body)" 0 body 0]
  by (auto simp: serve_chain_def list_all_iff)

subsection \<open>References and guards\<close>

lemma restore_response_total: "restore_response env clcf rq blob stale xcache r \<noteq> None"
  using validate_total [of "ev_now env" "restore_refs_dest env" blob]
  by (auto simp: restore_response_def split: option.splits)

lemma flags_total: "BLOB_HDR_WIRE \<le> length blob \<Longrightarrow> \<exists>f. get_u16 blob 6 = Some f"
  by (rule u16.get_inD) (simp add: blob_consts)


lemma serve_passed:
  assumes "serve env clcf rq (Some blob) ref cleanup_ok chain_ok send stale xcache r0 = Some out"
    and "so_resp out = Some r"
  obtains f bh body refs where "get_u16 blob 6 = Some f" "\<not> serve_refused f rq xcache"
    "blob_validate (ev_now env) (restore_refs_dest env) blob = Some (Some (bh, body, refs))"
proof -
  let ?reason = "if xcache \<noteq> SR_NONE then xcache else if stale then SR_STALE else SR_FRESH"
  have restored: "\<exists>x. restore_response env clcf rq blob stale ?reason r0 = Some (Some x)"
    using assms
    by (auto simp: serve_def Let_def split: if_splits bind_splits option.splits prod.splits)
  then obtain bh body refs where v: "blob_validate (ev_now env) (restore_refs_dest env) blob = Some (Some (bh, body, refs))"
    by (auto simp: restore_response_def split: bind_splits option.splits)
  then have len: "BLOB_HDR_WIRE \<le> length blob" by (rule blob_validate_some(1))
  then obtain f where f: "get_u16 blob 6 = Some f" using flags_total by blast
  have "\<not> serve_refused f rq xcache"
    using assms len f by (auto simp: serve_def Let_def split: if_splits)
  with that f v show thesis by blast
qed

text \<open>
  C9: Whatever leaves the cache has passed the guards on its own flags: a breaker-only entry only as
  the breaker's fallback, an entry without reuse authorisation never to a request with
  credentials, a HEAD-derived entry only to a HEAD, and an origin-encoded entry only to a client
  whose Accept-Encoding accepts the coding it is stored in.
\<close>

theorem serve_guards_hold:
  assumes "serve env clcf rq (Some blob) ref cleanup_ok chain_ok send stale xcache r0 = Some out"
    and "so_resp out = Some r" and "get_u16 blob 6 = Some f"
  shows "(f AND ucast BLOBF_BREAKER_ONLY \<noteq> 0 \<longrightarrow> xcache = SR_STALE_BREAKER) \<and>
    (rq_authorization rq \<longrightarrow> f AND ucast BLOBF_AUTH_SHAREABLE \<noteq> 0) \<and>
    (f AND ucast BLOBF_HEAD_DERIVED \<noteq> 0 \<longrightarrow> rq_method rq = HEAD) \<and>
    (f AND ucast BLOBF_ORIGIN_ENCODED \<noteq> 0 \<longrightarrow>
      ae_class_accepted (rq_accept_encoding rq)
        (unat (drop_bit BLOBF_AE_CLASS_SHIFT (f AND ucast BLOBF_AE_CLASS_MASK))))"
proof -
  obtain f' where "get_u16 blob 6 = Some f'" "\<not> serve_refused f' rq xcache"
    by (rule serve_passed [OF assms(1,2)])
  with assms(3) have "\<not> serve_refused f rq xcache" by simp
  then show ?thesis
    by (auto simp: serve_refused_def guard_breaker_only_def guard_authorization_def
        guard_head_derived_def guard_encoded_def Let_def split: if_splits)
qed

definition br_blob :: bytes where
  "br_blob = wire_hdr demo_date \<lparr>bh_magic = 0, bh_version = 0, bh_nheaders = 1, bh_headers_len = 14,
      bh_body_len = 2, bh_status = 200, bh_created = 1700000000, bh_fresh = 60, bh_stale = 60, bh_sie = 0,
      bh_flags = BLOBF_ORIGIN_ENCODED OR 8 OR BLOBF_HEAD_DERIVED, bh_date = 0\<rparr>
    @ tlv_bytes (ascii ''X-A'', ascii ''ok'') @ ascii ''zz''"

theorem serve_guards_hold_witness:
  "\<exists>out r. serve (demo_env_at 1700000050) demo_conf (demo_request\<lparr>rq_method := HEAD\<rparr>) (Some br_blob)
      True True True (\<lambda>_. 0) False SR_NONE demo_resp = Some out \<and> so_resp out = Some r \<and>
    ae_class_accepted (rq_accept_encoding demo_request) 2"
proof -
  let ?rq = "demo_request\<lparr>rq_method := HEAD\<rparr>"
  let ?s = "serve (demo_env_at 1700000050) demo_conf ?rq (Some br_blob) True True True (\<lambda>_. 0) False SR_NONE demo_resp"
  have "(case restore_response (demo_env_at 1700000050) demo_conf ?rq br_blob False SR_FRESH demo_resp of
      Some (Some _) \<Rightarrow> True | _ \<Rightarrow> False)"
    by code_simp
  then obtain r body blen where
    "restore_response (demo_env_at 1700000050) demo_conf ?rq br_blob False SR_FRESH demo_resp
      = Some (Some (r, body, blen))"
    by (auto split: option.splits)
  moreover have "get_u16 br_blob 6 = Some 0x4A" "\<not> serve_refused 0x4A ?rq SR_NONE"
    "BLOB_HDR_WIRE \<le> length br_blob"
    by code_simp+
  ultimately obtain out r where o: "?s = Some out" "so_resp out = Some r"
    by (auto simp: serve_def Let_def)
  have f: "get_u16 br_blob 6 = Some 0x4A" by code_simp
  from serve_guards_hold [OF o f] have "ae_class_accepted (rq_accept_encoding ?rq) 2"
    by (simp add: blobf_defs)
  with o show ?thesis by (simp add: demo_request_def)
qed


end
