(* ===== verification/Cache_Control.thy ===== *)
theory Cache_Control
  imports Blob_Store Encoding
begin

text \<open>
  Cache-Control on both sides (\<^verbatim>\<open>module.c\<close>): the tokenizer \<open>cc_token\<close> with its quoted strings, the
  delta-seconds parser, the request bounds \<open>resolve_req_cc\<close> merges from every field line, the
  verdict \<open>req_serve_verdict\<close> draws from them, the reference ladder \<open>upstream_ttl\<close>, and the one-pass
  decision \<open>response_policy\<close> with its helpers.

  The pointer pair of a scan is the list of bytes between the pointers; a directive found is its
  value (\<open>None\<close> for a bare one) with the advanced cursor. A header list is the list of its
  elements. nginx's \<open>ngx_parse_http_time\<close> is a parameter whose \<open>-1\<close> is \<open>NGX_ERROR\<close>.
\<close>

subsection \<open>Tokens\<close>

abbreviation EQUALS :: u8 where "EQUALS \<equiv> 0x3D"
abbreviation QUOTE :: u8 where "QUOTE \<equiv> 0x22"
abbreviation BACKSLASH :: u8 where "BACKSLASH \<equiv> 0x5C"

fun strlchr :: "bytes \<Rightarrow> u8 \<Rightarrow> nat option" where
  "strlchr [] c = None"
| "strlchr (d # ds) c = (if d = c then Some 0 else map_option Suc (strlchr ds c))"

text \<open>One token: the bytes up to a comma outside a quoted string, and the rest from that comma on.\<close>

fun cc_span :: "bool \<Rightarrow> bool \<Rightarrow> bytes \<Rightarrow> bytes \<times> bytes" where
  "cc_span quoted escaped [] = ([], [])"
| "cc_span quoted escaped (c # cs) =
    (if quoted
     then (if escaped then apfst (Cons c) (cc_span True False cs)
           else if c = BACKSLASH then apfst (Cons c) (cc_span True True cs)
           else if c = QUOTE then apfst (Cons c) (cc_span False False cs)
           else apfst (Cons c) (cc_span True False cs))
     else if c = QUOTE then apfst (Cons c) (cc_span True escaped cs)
     else if c = COMMA then ([], c # cs)
     else apfst (Cons c) (cc_span False escaped cs))"

definition rtrim_ows :: "bytes \<Rightarrow> bytes" where
  "rtrim_ows s = rev (dropWhile is_ows (rev s))"

definition cc_split :: "bytes \<Rightarrow> bytes \<times> bytes option" where
  "cc_split tok =
    (let e = rtrim_ows tok
     in case strlchr e EQUALS of
          Some i \<Rightarrow> (take i e, Some (drop (Suc i) e))
        | None \<Rightarrow> (e, None))"

definition cc_skip :: "bytes \<Rightarrow> bytes" where
  "cc_skip s = dropWhile (\<lambda>c. is_ows c \<or> c = COMMA) s"

lemma cc_span_append: "fst (cc_span q e s) @ snd (cc_span q e s) = s"
  by (induction q e s rule: cc_span.induct) auto

lemma cc_span_shorter:
  assumes "s \<noteq> []"
  shows "length (snd (cc_span False False (cc_skip s))) < length s"
proof (cases "cc_skip s")
  case Nil
  with assms show ?thesis by simp
next
  case (Cons c cs)
  then have c: "c \<noteq> COMMA" using hd_dropWhile [of "\<lambda>c. is_ows c \<or> c = COMMA" s]
    by (auto simp: cc_skip_def)
  have le: "length (snd (cc_span q e cs)) \<le> length cs" for q e
    using arg_cong [OF cc_span_append [of q e cs], of length] by simp
  have "length (snd (cc_span False False (c # cs))) \<le> length cs"
    using c le by simp
  also have "\<dots> < length s"
    using length_dropWhile_le [of "\<lambda>c. is_ows c \<or> c = COMMA" s] Cons by (simp add: cc_skip_def)
  finally show ?thesis using Cons by simp
qed

function cc_token :: "bytes \<Rightarrow> bytes \<Rightarrow> (bytes option \<times> bytes) option" where
  "cc_token s name =
    (if s = [] then None
     else let (tok, rest) = cc_span False False (cc_skip s);
              (nm, val) = cc_split tok
          in if length nm = length name \<and> ngx_strncasecmp nm name (length name) = 0
             then Some (val, tl rest)
             else cc_token rest name)"
  by pat_completeness auto
termination
proof (relation "measure (\<lambda>(s, name). length s)", goal_cases)
  case (2 s name x tok rest y nm val)
  then have "rest = snd (cc_span False False (cc_skip s))" by (metis snd_conv)
  with 2(1) show ?case by (simp add: cc_span_shorter)
qed simp

declare cc_token.simps [simp del]

definition cc_has :: "bytes \<Rightarrow> string \<Rightarrow> bool" where
  "cc_has v name \<longleftrightarrow> cc_token v (ascii name) \<noteq> None"

subsection \<open>Delta-seconds\<close>

fun cc_digits :: "bytes \<Rightarrow> time_t \<Rightarrow> time_t" where
  "cc_digits [] n = n"
| "cc_digits (c # cs) n =
    (if c < 0x30 \<or> c > 0x39 then - 1
     else let d = uint (c - 0x30)
          in if n \<ge> INT64_MAX div 10 \<and> (n > INT64_MAX div 10 \<or> d > INT64_MAX mod 10)
             then cc_digits cs INT64_MAX
             else cc_digits cs (n * 10 + d))"

definition cc_unquote :: "bytes \<Rightarrow> bytes" where
  "cc_unquote p = (if 2 \<le> length p \<and> hd p = QUOTE \<and> last p = QUOTE then butlast (tl p) else p)"

definition cc_parse_delta :: "bytes \<Rightarrow> time_t" where
  "cc_parse_delta p = (let p = cc_unquote p in if p = [] then - 1 else cc_digits p 0)"

definition cc_delta :: "bytes \<Rightarrow> string \<Rightarrow> time_t" where
  "cc_delta p name =
    (case cc_token p (ascii name) of
       None \<Rightarrow> - 1
     | Some (None, _) \<Rightarrow> - 1
     | Some (Some q, _) \<Rightarrow> if q = [] then - 1 else cc_parse_delta q)"

subsection \<open>Header lists\<close>

fun header_find :: "tbl_elt list \<Rightarrow> string \<Rightarrow> bytes option" where
  "header_find [] name = None"
| "header_find (h # hs) name =
    (if te_hash h = 0 \<or> length (te_key h) \<noteq> length (ascii name) then header_find hs name
     else if ngx_strncasecmp (te_key h) (ascii name) (length (ascii name)) = 0 then Some (te_value h)
     else header_find hs name)"

fun cc_delta_all :: "tbl_elt list \<Rightarrow> string \<Rightarrow> string \<Rightarrow> time_t" where
  "cc_delta_all [] hname name = - 1"
| "cc_delta_all (h # hs) hname name =
    (if te_hash h = 0 \<or> length (te_key h) \<noteq> length (ascii hname) then cc_delta_all hs hname name
     else if ngx_strncasecmp (te_key h) (ascii hname) (length (ascii hname)) \<noteq> 0
     then cc_delta_all hs hname name
     else let t = cc_delta (te_value h) name
          in if t \<ge> 0 then t else cc_delta_all hs hname name)"

definition ttl_of_expires :: "(bytes \<Rightarrow> time_t) \<Rightarrow> time_t \<Rightarrow> bytes option \<Rightarrow> time_t" where
  "ttl_of_expires parse_time now expires =
    (case expires of
       None \<Rightarrow> - 1
     | Some v \<Rightarrow>
         if v = [] then - 1
         else let ex = parse_time v
              in if ex \<noteq> - 1 then (if ex - now > 0 then ex - now else 0) else - 1)"

definition find_upstream_ttl :: "(bytes \<Rightarrow> time_t) \<Rightarrow> time_t \<Rightarrow> tbl_elt list \<Rightarrow> time_t" where
  "find_upstream_ttl parse_time now hs =
    (let expires = header_find hs ''Expires'';
         t = cc_delta_all hs ''Surrogate-Control'' ''max-age''
     in if t \<ge> 0 then t
        else let t = cc_delta_all hs ''CDN-Cache-Control'' ''s-maxage'';
                 t = (if t < 0 then cc_delta_all hs ''CDN-Cache-Control'' ''max-age'' else t)
             in if t \<ge> 0 then t
                else let t = cc_delta_all hs ''Cache-Control'' ''s-maxage'';
                         t = (if t < 0 then cc_delta_all hs ''Cache-Control'' ''max-age'' else t)
                     in if t \<ge> 0 then t else ttl_of_expires parse_time now expires)"

subsection \<open>The request's own bounds\<close>

record req_cc_st =
  req_cc_resolved :: bool
  req_cc :: "bytes option"
  req_pragma :: "bytes option"
  req_no_cache :: bool
  req_no_store :: bool
  req_only_if_cached :: bool
  req_max_age :: time_t
  req_min_fresh :: time_t
  req_max_stale :: time_t
  req_max_stale_set :: bool
  req_max_stale_any :: bool
  has_req_bounds :: bool

text \<open>The value a loop computes from a found directive: \<open>-1\<close> for a bare one.\<close>

definition valued_delta :: "bytes option \<Rightarrow> time_t" where
  "valued_delta val = (case val of Some q \<Rightarrow> cc_parse_delta q | None \<Rightarrow> - 1)"

lemma cc_token_shorter: "cc_token s name = Some (val, cursor) \<Longrightarrow> length cursor < length s"
proof (induction s name arbitrary: val cursor rule: cc_token.induct)
  case (1 s name)
  obtain tok rest where sp: "cc_span False False (cc_skip s) = (tok, rest)" by (cases "cc_span False False (cc_skip s)")
  obtain nm v where ct: "cc_split tok = (nm, v)" by (cases "cc_split tok")
  have ne: "s \<noteq> []" using "1.prems" by (auto simp: cc_token.simps)
  have lt: "length rest < length s" using cc_span_shorter [OF ne] sp by simp
  show ?case
  proof (cases "length nm = length name \<and> ngx_strncasecmp nm name (length name) = 0")
    case True
    then have "cursor = tl rest" using "1.prems" ne sp ct by (simp add: cc_token.simps [of s])
    then show ?thesis using lt by simp
  next
    case False
    then have "cc_token rest name = Some (val, cursor)"
      using "1.prems" ne sp ct by (auto simp: cc_token.simps [of s] split: if_splits)
    from "1.IH" [OF ne sp [symmetric] _ ct [symmetric] _ False this] show ?thesis using lt by simp
  qed
qed

function max_age_loop :: "bytes \<Rightarrow> req_cc_st \<Rightarrow> req_cc_st" where
  "max_age_loop cursor ctx =
    (case cc_token cursor (ascii ''max-age'') of
       None \<Rightarrow> ctx
     | Some (val, cursor) \<Rightarrow>
         let d = valued_delta val
         in max_age_loop cursor
              (if d \<ge> 0 \<and> (req_max_age ctx < 0 \<or> d < req_max_age ctx)
               then ctx\<lparr>req_max_age := d, has_req_bounds := True\<rparr> else ctx))"
  by pat_completeness auto
termination by (relation "measure (\<lambda>(s, ctx). length s)") (auto dest: cc_token_shorter)

function min_fresh_loop :: "bytes \<Rightarrow> req_cc_st \<Rightarrow> req_cc_st" where
  "min_fresh_loop cursor ctx =
    (case cc_token cursor (ascii ''min-fresh'') of
       None \<Rightarrow> ctx
     | Some (val, cursor) \<Rightarrow>
         let d = valued_delta val
         in min_fresh_loop cursor
              (if d \<ge> 0 \<and> d > req_min_fresh ctx
               then ctx\<lparr>req_min_fresh := d, has_req_bounds := True\<rparr> else ctx))"
  by pat_completeness auto
termination by (relation "measure (\<lambda>(s, ctx). length s)") (auto dest: cc_token_shorter)

definition max_stale_one :: "bytes option \<Rightarrow> req_cc_st \<Rightarrow> req_cc_st" where
  "max_stale_one val ctx =
    (let ctx = ctx\<lparr>req_max_stale_set := True, has_req_bounds := True\<rparr>
     in case val of
          None \<Rightarrow> if req_max_stale ctx < 0 then ctx\<lparr>req_max_stale_any := True\<rparr> else ctx
        | Some q \<Rightarrow>
            let d = cc_parse_delta q
            in if d \<ge> 0
               then let ctx = (if req_max_stale ctx < 0 \<or> d < req_max_stale ctx
                               then ctx\<lparr>req_max_stale := d\<rparr> else ctx)
                    in ctx\<lparr>req_max_stale_any := False\<rparr>
               else ctx)"

function max_stale_loop :: "bytes \<Rightarrow> req_cc_st \<Rightarrow> req_cc_st" where
  "max_stale_loop cursor ctx =
    (case cc_token cursor (ascii ''max-stale'') of
       None \<Rightarrow> ctx
     | Some (val, cursor) \<Rightarrow> max_stale_loop cursor (max_stale_one val ctx))"
  by pat_completeness auto
termination by (relation "measure (\<lambda>(s, ctx). length s)") (auto dest: cc_token_shorter)

declare max_age_loop.simps [simp del] min_fresh_loop.simps [simp del] max_stale_loop.simps [simp del]

definition req_cc_line :: "bytes \<Rightarrow> req_cc_st \<Rightarrow> req_cc_st" where
  "req_cc_line v ctx =
    (let ctx = (if req_cc ctx = None then ctx\<lparr>req_cc := Some v\<rparr> else ctx);
         ctx = (if cc_has v ''no-cache'' then ctx\<lparr>req_no_cache := True\<rparr> else ctx);
         ctx = (if cc_has v ''no-store'' then ctx\<lparr>req_no_store := True\<rparr> else ctx);
         ctx = (if cc_has v ''only-if-cached'' then ctx\<lparr>req_only_if_cached := True\<rparr> else ctx)
     in max_stale_loop v (min_fresh_loop v (max_age_loop v ctx)))"

fun req_cc_walk :: "tbl_elt list \<Rightarrow> req_cc_st \<Rightarrow> req_cc_st" where
  "req_cc_walk [] ctx = ctx"
| "req_cc_walk (h # hs) ctx =
    (if te_hash h = 0 then req_cc_walk hs ctx
     else if name_is (te_key h) (ascii ''Cache-Control'') then req_cc_walk hs (req_cc_line (te_value h) ctx)
     else if req_pragma ctx = None \<and> name_is (te_key h) (ascii ''Pragma'')
     then req_cc_walk hs (ctx\<lparr>req_pragma := Some (te_value h)\<rparr>)
     else req_cc_walk hs ctx)"

definition resolve_req_cc :: "tbl_elt list \<Rightarrow> req_cc_st \<Rightarrow> req_cc_st" where
  "resolve_req_cc hs ctx =
    (if req_cc_resolved ctx then ctx
     else req_cc_walk hs (ctx\<lparr>req_cc := None, req_pragma := None, req_max_age := - 1, req_min_fresh := - 1,
            req_max_stale := - 1, req_cc_resolved := True\<rparr>))"

definition request_revalidate :: "tbl_elt list \<Rightarrow> req_cc_st \<Rightarrow> bool \<times> req_cc_st" where
  "request_revalidate hs ctx =
    (let ctx = resolve_req_cc hs ctx
     in if req_no_cache ctx \<or> req_max_age ctx = 0 then (True, ctx)
        else case req_pragma ctx of
               Some v \<Rightarrow> (cc_has v ''no-cache'', ctx)
             | None \<Rightarrow> (False, ctx))"

definition request_only_if_cached :: "tbl_elt list \<Rightarrow> req_cc_st \<Rightarrow> bool \<times> req_cc_st" where
  "request_only_if_cached hs ctx = (let ctx = resolve_req_cc hs ctx in (req_only_if_cached ctx, ctx))"

definition request_no_store :: "tbl_elt list \<Rightarrow> req_cc_st \<Rightarrow> bool \<times> req_cc_st" where
  "request_no_store hs ctx = (let ctx = resolve_req_cc hs ctx in (req_no_store ctx, ctx))"

definition req_serve_verdict :: "'a req_cc_st_scheme \<Rightarrow> time_t \<Rightarrow> time_t \<Rightarrow> time_t \<Rightarrow> bool \<times> bool" where
  "req_serve_verdict ctx created now fresh_until =
    (let age = (if now - created < 0 then 0 else now - created);
         fresh_ok = True;
         fresh_ok = (if req_max_age ctx \<ge> 0 \<and> age > req_max_age ctx then False else fresh_ok);
         fresh_ok = (if req_min_fresh ctx \<ge> 0 \<and> fresh_until - now < req_min_fresh ctx then False else fresh_ok);
         stale_ok =
           (if req_max_stale_set ctx
            then let staleness = now - fresh_until;
                     staleness = (if staleness < 0 then 0 else staleness)
                 in req_max_stale_any ctx \<or> staleness \<le> req_max_stale ctx
            else if req_max_age ctx \<ge> 0 \<or> req_min_fresh ctx \<ge> 0 then False
            else True)
     in (fresh_ok, stale_ok))"

subsection \<open>Set-Cookie\<close>

definition is_cookie_name_byte :: "u8 \<Rightarrow> bool" where
  "is_cookie_name_byte c =
    (if c \<le> 0x20 \<or> c \<ge> 0x7F then False
     else c \<notin> set (ascii ''=;,()<>@:/[]?{}'' @ [QUOTE, BACKSLASH, HTAB]))"

record policy_conf = store_conf +
  ignore_set_cookie :: "bytes list"
  key_cookies :: "bytes list"
  backend_presets :: u64

definition BACKEND_NONE :: u64 where "BACKEND_NONE = 0x8000000000000000"

definition has_backend :: "u64 \<Rightarrow> bool" where
  "has_backend m \<longleftrightarrow> m AND NOT BACKEND_NONE \<noteq> 0"

definition set_cookie_name :: "bytes \<Rightarrow> bytes option" where
  "set_cookie_name v =
    (if v = [] then None
     else let p = dropWhile is_ows v
          in case strlchr p EQUALS of
               None \<Rightarrow> None
             | Some i \<Rightarrow> if i = 0 then None
                         else if list_all is_cookie_name_byte (take i p) then Some (take i p) else None)"

fun c_strncmp_eq :: "bytes \<Rightarrow> bytes \<Rightarrow> nat \<Rightarrow> bool" where
  "c_strncmp_eq s1 s2 0 \<longleftrightarrow> True"
| "c_strncmp_eq s1 s2 (Suc n) \<longleftrightarrow> cur_byte s1 = cur_byte s2
    \<and> (cur_byte s1 = 0 \<or> c_strncmp_eq (tl s1) (tl s2) n)"

definition set_cookie_ignorable :: "'a policy_conf_scheme \<Rightarrow> tbl_elt \<Rightarrow> bool" where
  "set_cookie_ignorable clcf h =
    (if ignore_set_cookie clcf = [] then False
     else case set_cookie_name (te_value h) of
            None \<Rightarrow> False
          | Some name \<Rightarrow> list_ex (\<lambda>nm. length name = length nm \<and> c_strncmp_eq name nm (length name))
              (ignore_set_cookie clcf))"

definition set_cookie_relax_allowed :: "'a policy_conf_scheme \<Rightarrow> bool" where
  "set_cookie_relax_allowed clcf =
    (if ignore_set_cookie clcf = [] then False
     else if key_cookies clcf \<noteq> [] then False
     else if has_backend (backend_presets clcf) then False
     else True)"

subsection \<open>The response policy, in one pass\<close>

definition REFUSE_NONE :: nat where "REFUSE_NONE = 0"
definition REFUSE_SET_COOKIE :: nat where "REFUSE_SET_COOKIE = 1"
definition REFUSE_AUTHORIZATION :: nat where "REFUSE_AUTHORIZATION = 2"
definition REFUSE_CACHE_CONTROL :: nat where "REFUSE_CACHE_CONTROL = 3"

record full_policy = response_policy +
  auth_share :: bool
  require_hdr_ok :: bool
  cacheable :: bool
  cacheable_reason :: nat

record policy_ctx =
  sc_max :: time_t
  cdn_smax :: time_t
  cdn_max :: time_t
  cc_smax :: time_t
  cc_max :: time_t
  pc_expires :: "bytes option"
  require_found :: bool

type_synonym policy_st = "full_policy \<times> policy_ctx"

definition response_policy_init :: "bool \<Rightarrow> 'a policy_conf_scheme \<Rightarrow> policy_st" where
  "response_policy_init authorization clcf =
    (\<lparr>upstream_ttl = - 1, swr = - 1, sie = - 1, must_revalidate = False, auth_share = False,
       require_hdr_ok = (require_header clcf = []), cacheable = \<not> authorization,
       cacheable_reason = (if authorization then REFUSE_AUTHORIZATION else REFUSE_NONE)\<rparr>,
     \<lparr>sc_max = - 1, cdn_smax = - 1, cdn_max = - 1, cc_smax = - 1, cc_max = - 1, pc_expires = None,
       require_found = False\<rparr>)"

definition require_value_ok :: "bytes \<Rightarrow> bool" where
  "require_value_ok v \<longleftrightarrow> length v = 3 \<and> ngx_strncasecmp v (ascii ''yes'') 3 = 0
    \<or> length v = 2 \<and> ngx_strncasecmp v (ascii ''on'') 2 = 0
    \<or> length v = 1 \<and> v ! 0 = 0x31"

definition response_require_header :: "'a policy_conf_scheme \<Rightarrow> tbl_elt \<Rightarrow> policy_st \<Rightarrow> policy_st option" where
  "response_require_header clcf h st =
    (if require_header clcf = [] \<or> \<not> name_is (te_key h) (require_header clcf) then None
     else let (p, c) = st;
              p = (if \<not> require_value_ok (te_value h) then p\<lparr>require_hdr_ok := False\<rparr>
                   else if \<not> require_found c then p\<lparr>require_hdr_ok := True\<rparr> else p)
          in Some (p, c\<lparr>require_found := True\<rparr>))"

definition cc_forbids :: "bytes \<Rightarrow> bool" where
  "cc_forbids v \<longleftrightarrow> cc_has v ''no-store'' \<or> cc_has v ''no-cache'' \<or> cc_has v ''private''
    \<or> cc_delta v ''max-age'' = 0 \<or> cc_delta v ''s-maxage'' = 0"

definition response_cc_refuse :: "bytes \<Rightarrow> full_policy \<Rightarrow> full_policy" where
  "response_cc_refuse v p =
    (if cacheable p \<and> cc_forbids v
     then p\<lparr>cacheable := False, cacheable_reason := REFUSE_CACHE_CONTROL\<rparr> else p)"

definition response_surrogate_control :: "bytes \<Rightarrow> policy_st \<Rightarrow> policy_st" where
  "response_surrogate_control v st =
    (let (p, c) = st
     in (response_cc_refuse v p, if sc_max c < 0 then c\<lparr>sc_max := cc_delta v ''max-age''\<rparr> else c))"

definition response_cdn_control :: "bytes \<Rightarrow> policy_st \<Rightarrow> policy_st" where
  "response_cdn_control v st =
    (let (p, c) = st;
         c = (if cdn_smax c < 0 then c\<lparr>cdn_smax := cc_delta v ''s-maxage''\<rparr> else c);
         c = (if cdn_max c < 0 then c\<lparr>cdn_max := cc_delta v ''max-age''\<rparr> else c)
     in (response_cc_refuse v p, c))"

definition response_cache_control :: "bytes \<Rightarrow> policy_st \<Rightarrow> policy_st" where
  "response_cache_control v st =
    (let (p, c) = st;
         p = response_cc_refuse v p;
         c = (if cc_smax c < 0 then c\<lparr>cc_smax := cc_delta v ''s-maxage''\<rparr> else c);
         c = (if cc_max c < 0 then c\<lparr>cc_max := cc_delta v ''max-age''\<rparr> else c);
         p = (if swr p < 0 then p\<lparr>swr := cc_delta v ''stale-while-revalidate''\<rparr> else p);
         p = (if sie p < 0 then p\<lparr>sie := cc_delta v ''stale-if-error''\<rparr> else p);
         p = (if cc_has v ''must-revalidate'' \<or> cc_has v ''proxy-revalidate''
              then p\<lparr>must_revalidate := True, auth_share := True\<rparr> else p);
         p = (if cc_has v ''public'' \<or> cc_smax c \<ge> 0 then p\<lparr>auth_share := True\<rparr> else p)
     in (p, c))"

definition response_policy_line :: "'a policy_conf_scheme \<Rightarrow> tbl_elt \<Rightarrow> policy_st \<Rightarrow> policy_st" where
  "response_policy_line clcf h st =
    (if te_hash h = 0 \<or> te_key h = [] then st
     else let (p, c) = st;
              c = (if (case pc_expires c of None \<Rightarrow> True | Some v \<Rightarrow> v = []) \<and> name_is (te_key h) (ascii ''Expires'')
                   then c\<lparr>pc_expires := Some (te_value h)\<rparr> else c)
          in case response_require_header clcf h (p, c) of
               Some st \<Rightarrow> st
             | None \<Rightarrow>
                 if name_is (te_key h) (ascii ''Set-Cookie'')
                 then (if cacheable p \<and> \<not> (set_cookie_relax_allowed clcf \<and> set_cookie_ignorable clcf h)
                       then (p\<lparr>cacheable := False, cacheable_reason := REFUSE_SET_COOKIE\<rparr>, c)
                       else (p, c))
                 else if ignore_cc clcf then (p, c)
                 else if name_is (te_key h) (ascii ''Surrogate-Control'')
                 then response_surrogate_control (te_value h) (p, c)
                 else if name_is (te_key h) (ascii ''CDN-Cache-Control'')
                 then response_cdn_control (te_value h) (p, c)
                 else if name_is (te_key h) (ascii ''Cache-Control'')
                 then response_cache_control (te_value h) (p, c)
                 else (p, c))"

definition response_policy_finish :: "(bytes \<Rightarrow> time_t) \<Rightarrow> time_t \<Rightarrow> 'a policy_conf_scheme \<Rightarrow> policy_st
    \<Rightarrow> full_policy" where
  "response_policy_finish parse_time now clcf st =
    (let (p, c) = st;
         p = (if require_header clcf \<noteq> [] \<and> \<not> require_found c then p\<lparr>require_hdr_ok := False\<rparr> else p)
     in if sc_max c \<ge> 0 then p\<lparr>upstream_ttl := sc_max c\<rparr>
        else if cdn_smax c \<ge> 0 then p\<lparr>upstream_ttl := cdn_smax c\<rparr>
        else if cdn_max c \<ge> 0 then p\<lparr>upstream_ttl := cdn_max c\<rparr>
        else if cc_smax c \<ge> 0 then p\<lparr>upstream_ttl := cc_smax c\<rparr>
        else if cc_max c \<ge> 0 then p\<lparr>upstream_ttl := cc_max c\<rparr>
        else case pc_expires c of
               Some v \<Rightarrow>
                 if v = [] then p
                 else let ex = parse_time v
                      in if ex \<noteq> - 1 then p\<lparr>upstream_ttl := (if ex - now > 0 then ex - now else 0)\<rparr> else p
             | None \<Rightarrow> p)"

definition decide_policy :: "(bytes \<Rightarrow> time_t) \<Rightarrow> time_t \<Rightarrow> bool \<Rightarrow> 'a policy_conf_scheme \<Rightarrow> tbl_elt list
    \<Rightarrow> full_policy" where
  "decide_policy parse_time now authorization clcf hs =
    response_policy_finish parse_time now clcf
      (fold (response_policy_line clcf) hs (response_policy_init authorization clcf))"

end
