(* ===== verification/Freshness.thy ===== *)
theory Freshness
  imports Cache_Control
begin

text \<open>
  What the Cache-Control code of \<open>Cache_Control\<close> computes: the delta parser against the decimal
  value, the tokenizer against printed directive lists, the merged request bounds against the
  strictest of all field lines, and the one-pass response policy against the floor it stands for
  and against the reference ladder.
\<close>

subsection \<open>Delta-seconds\<close>

definition is_digit :: "u8 \<Rightarrow> bool" where
  "is_digit c \<longleftrightarrow> 0x30 \<le> c \<and> c \<le> 0x39"

definition dec_val :: "bytes \<Rightarrow> int" where
  "dec_val p = foldl (\<lambda>n c. n * 10 + uint (c - 0x30)) 0 p"

lemma delta_digit: "is_digit c \<Longrightarrow> 0 \<le> uint (c - 0x30) \<and> uint (c - 0x30) \<le> 9"
proof -
  assume c: "is_digit c"
  then have "uint (c - 0x30) = uint c - 0x30" by (simp add: is_digit_def uint_minus_simple_alt)
  moreover have "uint c \<le> 0x39" using c by (simp add: is_digit_def word_le_def)
  ultimately show ?thesis using uint_nonnegative [of "c - 0x30"] by linarith
qed

lemma foldl_digits_mono:
  "list_all is_digit p \<Longrightarrow> 0 \<le> n \<Longrightarrow> n \<le> foldl (\<lambda>n c. n * 10 + uint (c - 0x30)) n p"
proof (induction p arbitrary: n)
  case (Cons c p)
  then have "n \<le> n * 10 + uint (c - 0x30)" using delta_digit [of c] by simp
  also have "\<dots> \<le> foldl (\<lambda>n c. n * 10 + uint (c - 0x30)) (n * 10 + uint (c - 0x30)) p"
    using Cons.prems delta_digit [of c] by (intro Cons.IH) auto
  finally show ?case by simp
qed simp

lemma cc_digits_bad: "\<not> list_all is_digit p \<Longrightarrow> cc_digits p n = - 1"
proof (induction p arbitrary: n)
  case (Cons c p)
  then show ?case by (cases "is_digit c") (auto simp: Let_def is_digit_def not_le)
qed simp

lemma cc_digits_max: "list_all is_digit p \<Longrightarrow> cc_digits p INT64_MAX = INT64_MAX"
proof (induction p)
  case (Cons c p)
  have "INT64_MAX > INT64_MAX div 10" by (simp add: INT64_MAX_def)
  with Cons show ?case by (auto simp: Let_def is_digit_def not_le)
qed simp

lemma cc_digits_value:
  "list_all is_digit p \<Longrightarrow> 0 \<le> n \<Longrightarrow> n \<le> INT64_MAX \<Longrightarrow>
    cc_digits p n = min (foldl (\<lambda>n c. n * 10 + uint (c - 0x30)) n p) INT64_MAX"
proof (induction p arbitrary: n)
  case (Cons c p)
  then have d: "0 \<le> uint (c - 0x30)" "uint (c - 0x30) \<le> 9" and c: "is_digit c" "\<not> (c < 0x30 \<or> c > 0x39)"
    using delta_digit [of c] by (auto simp: is_digit_def)
  let ?m = "n * 10 + uint (c - 0x30)"
  show ?case
  proof (cases "n \<ge> INT64_MAX div 10 \<and> (n > INT64_MAX div 10 \<or> uint (c - 0x30) > INT64_MAX mod 10)")
    case True
    then have "INT64_MAX \<le> ?m" using d unfolding INT64_MAX_def by (simp, linarith)
    moreover have "?m \<le> foldl (\<lambda>n c. n * 10 + uint (c - 0x30)) ?m p"
      using Cons.prems d by (intro foldl_digits_mono) auto
    ultimately show ?thesis
      using True c Cons.prems by (simp add: Let_def cc_digits_max)
  next
    case False
    then have "?m \<le> INT64_MAX" using d by (auto simp: INT64_MAX_def not_le)
    with Cons d have "cc_digits p ?m = min (foldl (\<lambda>n c. n * 10 + uint (c - 0x30)) ?m p) INT64_MAX"
      by auto
    with False c show ?thesis by (auto simp: Let_def)
  qed
qed simp

lemma cc_parse_delta_value:
  "cc_parse_delta p =
    (if cc_unquote p \<noteq> [] \<and> list_all is_digit (cc_unquote p)
     then min (dec_val (cc_unquote p)) INT64_MAX else - 1)"
  by (auto simp: cc_parse_delta_def Let_def cc_digits_bad dec_val_def cc_digits_value INT64_MAX_def)

lemma cc_parse_delta_ge: "- 1 \<le> cc_parse_delta p"
proof -
  have "list_all is_digit q \<Longrightarrow> 0 \<le> dec_val q" for q
    using foldl_digits_mono [of q 0] by (simp add: dec_val_def)
  then show ?thesis by (fastforce simp: cc_parse_delta_value INT64_MAX_def min_def intro: order_trans)
qed

lemma cc_delta_ge: "- 1 \<le> cc_delta v name"
  by (auto simp: cc_delta_def cc_parse_delta_ge split: option.splits)

subsection \<open>The response policy\<close>

definition live_line :: "tbl_elt \<Rightarrow> bool" where
  "live_line h \<longleftrightarrow> te_hash h \<noteq> 0 \<and> te_key h \<noteq> []"

definition taken_by_require :: "'a policy_conf_scheme \<Rightarrow> tbl_elt \<Rightarrow> bool" where
  "taken_by_require clcf h \<longleftrightarrow> require_header clcf \<noteq> [] \<and> name_is (te_key h) (require_header clcf)"

definition cc_names :: "string list" where
  "cc_names = [''Surrogate-Control'', ''CDN-Cache-Control'', ''Cache-Control'']"

definition line_permits :: "'a policy_conf_scheme \<Rightarrow> tbl_elt \<Rightarrow> bool" where
  "line_permits clcf h \<longleftrightarrow> \<not> live_line h \<or> taken_by_require clcf h \<or>
    (if name_is (te_key h) (ascii ''Set-Cookie'')
     then set_cookie_relax_allowed clcf \<and> set_cookie_ignorable clcf h
     else ignore_cc clcf \<or> (\<forall>n \<in> set cc_names. name_is (te_key h) (ascii n) \<longrightarrow> \<not> cc_forbids (te_value h)))"

lemma names_nul_free:
  "0 \<notin> set (ascii ''Surrogate-Control'')" "0 \<notin> set (ascii ''CDN-Cache-Control'')"
  "0 \<notin> set (ascii ''Cache-Control'')" "0 \<notin> set (ascii ''Set-Cookie'')" "0 \<notin> set (ascii ''Expires'')"
  by code_simp+

lemma freshness_line_cases:
  obtains (surrogate) "name_is k (ascii ''Surrogate-Control'')" "\<not> name_is k (ascii ''CDN-Cache-Control'')"
      "\<not> name_is k (ascii ''Cache-Control'')" "\<not> name_is k (ascii ''Set-Cookie'')"
    | (cdn) "\<not> name_is k (ascii ''Surrogate-Control'')" "name_is k (ascii ''CDN-Cache-Control'')"
      "\<not> name_is k (ascii ''Cache-Control'')" "\<not> name_is k (ascii ''Set-Cookie'')"
    | (plain) "\<not> name_is k (ascii ''Surrogate-Control'')" "\<not> name_is k (ascii ''CDN-Cache-Control'')"
      "name_is k (ascii ''Cache-Control'')" "\<not> name_is k (ascii ''Set-Cookie'')"
    | (other) "\<not> name_is k (ascii ''Surrogate-Control'')" "\<not> name_is k (ascii ''CDN-Cache-Control'')"
      "\<not> name_is k (ascii ''Cache-Control'')"
proof -
  have d: "distinct (map (map lc_byte) [ascii ''Surrogate-Control'', ascii ''CDN-Cache-Control'',
      ascii ''Cache-Control'', ascii ''Set-Cookie''])"
    by code_simp
  show thesis
    using d unfolding name_is_iff [OF names_nul_free(1)] name_is_iff [OF names_nul_free(2)]
      name_is_iff [OF names_nul_free(3)] name_is_iff [OF names_nul_free(4)]
    by (cases "map lc_byte k = map lc_byte (ascii ''Surrogate-Control'')";
        cases "map lc_byte k = map lc_byte (ascii ''CDN-Cache-Control'')";
        cases "map lc_byte k = map lc_byte (ascii ''Cache-Control'')")
      (simp_all add: that name_is_iff names_nul_free)
qed

lemma cacheable_refuse: "cacheable (response_cc_refuse v p) \<longleftrightarrow> cacheable p \<and> \<not> cc_forbids v"
  by (auto simp: response_cc_refuse_def)

lemma cacheable_lines:
  "cacheable (fst (response_surrogate_control v st)) \<longleftrightarrow> cacheable (fst st) \<and> \<not> cc_forbids v"
  "cacheable (fst (response_cdn_control v st)) \<longleftrightarrow> cacheable (fst st) \<and> \<not> cc_forbids v"
  "cacheable (fst (response_cache_control v st)) \<longleftrightarrow> cacheable (fst st) \<and> \<not> cc_forbids v"
  by (auto simp: response_surrogate_control_def response_cdn_control_def response_cache_control_def
      Let_def split_def cacheable_refuse)

abbreviation expires_seen :: "tbl_elt \<Rightarrow> policy_ctx \<Rightarrow> policy_ctx" where
  "expires_seen h c \<equiv>
    (if (case pc_expires c of None \<Rightarrow> True | Some v \<Rightarrow> v = []) \<and> name_is (te_key h) (ascii ''Expires'')
     then c\<lparr>pc_expires := Some (te_value h)\<rparr> else c)"

lemma policy_line_through:
  assumes "\<not> (te_hash h = 0 \<or> te_key h = [])"
    and "response_require_header clcf h (p, expires_seen h c) = None"
  shows "response_policy_line clcf h (p, c) =
    (if name_is (te_key h) (ascii ''Set-Cookie'')
     then (if cacheable p \<and> \<not> (set_cookie_relax_allowed clcf \<and> set_cookie_ignorable clcf h)
           then (p\<lparr>cacheable := False, cacheable_reason := REFUSE_SET_COOKIE\<rparr>, expires_seen h c)
           else (p, expires_seen h c))
     else if ignore_cc clcf then (p, expires_seen h c)
     else if name_is (te_key h) (ascii ''Surrogate-Control'')
     then response_surrogate_control (te_value h) (p, expires_seen h c)
     else if name_is (te_key h) (ascii ''CDN-Cache-Control'')
     then response_cdn_control (te_value h) (p, expires_seen h c)
     else if name_is (te_key h) (ascii ''Cache-Control'')
     then response_cache_control (te_value h) (p, expires_seen h c) else (p, expires_seen h c))"
  unfolding response_policy_line_def Let_def prod.case assms(2) option.case
  using assms(1) by (simp only: if_False)

lemma cacheable_line:
  "cacheable (fst (response_policy_line clcf h st)) \<longleftrightarrow> cacheable (fst st) \<and> line_permits clcf h"
proof (cases "te_hash h = 0 \<or> te_key h = []")
  case True
  then show ?thesis by (auto simp: response_policy_line_def line_permits_def live_line_def)
next
  case False
  then have live: "live_line h" by (simp add: live_line_def)
  obtain p c where st: "st = (p, c)" by (cases st)
  show ?thesis
  proof (cases "response_require_header clcf h (p, expires_seen h c)")
    case (Some st')
    then have "cacheable (fst st') = cacheable p" "taken_by_require clcf h"
      by (auto simp: response_require_header_def taken_by_require_def Let_def split: if_splits)
    with False Some st show ?thesis
      by (simp add: response_policy_line_def line_permits_def)
  next
    case None
    then have "\<not> taken_by_require clcf h"
      by (auto simp: response_require_header_def taken_by_require_def Let_def split: if_splits)
    with live show ?thesis unfolding st policy_line_through [OF False None]
      by (cases "te_key h" rule: freshness_line_cases)
        (auto simp: line_permits_def cacheable_lines cc_names_def)
  qed
qed

lemma cacheable_fold:
  "cacheable (fst (fold (response_policy_line clcf) hs st)) \<longleftrightarrow> cacheable (fst st) \<and> list_all (line_permits clcf) hs"
  by (induction hs arbitrary: st) (auto simp: cacheable_line)

lemma cacheable_finish: "cacheable (response_policy_finish pt now clcf st) = cacheable (fst st)"
  by (auto simp: response_policy_finish_def Let_def split_def split: option.splits)


subsection \<open>The lifetime ladder\<close>

definition hit :: "tbl_elt \<Rightarrow> string \<Rightarrow> bool" where
  "hit h n \<longleftrightarrow> te_hash h \<noteq> 0 \<and> name_is (te_key h) (ascii n)"

lemma cc_delta_all_Cons:
  "cc_delta_all (h # hs) hname name =
    (if hit h hname \<and> cc_delta (te_value h) name \<ge> 0 then cc_delta (te_value h) name
     else cc_delta_all hs hname name)"
  by (auto simp: hit_def name_is_def Let_def)

lemma header_find_Cons:
  "header_find (h # hs) name = (if hit h name then Some (te_value h) else header_find hs name)"
  by (auto simp: hit_def name_is_def)

declare cc_delta_all.simps(2) [simp del] header_find.simps(2) [simp del]

text \<open>A field that each matching line fills once, while it is still negative.\<close>

lemma first_delta:
  assumes "\<And>h st. h \<in> set hs \<Longrightarrow> f (line h st) =
      (if hit h hname \<and> f st < 0 then cc_delta (te_value h) name else f st)"
    and "f st = - 1 \<or> 0 \<le> f st"
  shows "f (fold line hs st) = (if 0 \<le> f st then f st else cc_delta_all hs hname name)"
  using assms
proof (induction hs arbitrary: st)
  case (Cons h hs)
  have h: "f (line h st) = (if hit h hname \<and> f st < 0 then cc_delta (te_value h) name else f st)"
    using Cons.prems(1) by simp
  then have "f (line h st) = - 1 \<or> 0 \<le> f (line h st)"
    using Cons.prems(2) cc_delta_ge [of "te_value h" name] by (auto split: if_splits)
  with Cons.IH [of "line h st"] Cons.prems h show ?case
    by (auto simp: cc_delta_all_Cons)
qed auto

definition requires_other :: "'a policy_conf_scheme \<Rightarrow> tbl_elt \<Rightarrow> bool" where
  "requires_other clcf h \<longleftrightarrow>
    (taken_by_require clcf h \<longrightarrow> (\<forall>n \<in> set cc_names. \<not> name_is (te_key h) (ascii n)))"

lemma name_is_live: "name_is k (ascii n) \<Longrightarrow> n \<noteq> [] \<Longrightarrow> k \<noteq> []"
  by (auto simp: name_is_def ascii_def)

lemma require_header_frame:
  "response_require_header clcf h (p, c) = None \<longleftrightarrow> \<not> taken_by_require clcf h"
  "response_require_header clcf h (p, c) = Some st \<Longrightarrow>
    sc_max (snd st) = sc_max c \<and> cdn_smax (snd st) = cdn_smax c \<and> cdn_max (snd st) = cdn_max c
    \<and> cc_smax (snd st) = cc_smax c \<and> cc_max (snd st) = cc_max c \<and> pc_expires (snd st) = pc_expires c
    \<and> upstream_ttl (fst st) = upstream_ttl p"
  by (auto simp: response_require_header_def taken_by_require_def Let_def split: if_splits)

lemma policy_line_fields:
  assumes "\<not> ignore_cc clcf" and "requires_other clcf h"
  shows "sc_max (snd (response_policy_line clcf h st)) =
      (if hit h ''Surrogate-Control'' \<and> sc_max (snd st) < 0 then cc_delta (te_value h) ''max-age'' else sc_max (snd st))"
    and "cdn_smax (snd (response_policy_line clcf h st)) =
      (if hit h ''CDN-Cache-Control'' \<and> cdn_smax (snd st) < 0 then cc_delta (te_value h) ''s-maxage'' else cdn_smax (snd st))"
    and "cdn_max (snd (response_policy_line clcf h st)) =
      (if hit h ''CDN-Cache-Control'' \<and> cdn_max (snd st) < 0 then cc_delta (te_value h) ''max-age'' else cdn_max (snd st))"
    and "cc_smax (snd (response_policy_line clcf h st)) =
      (if hit h ''Cache-Control'' \<and> cc_smax (snd st) < 0 then cc_delta (te_value h) ''s-maxage'' else cc_smax (snd st))"
    and "cc_max (snd (response_policy_line clcf h st)) =
      (if hit h ''Cache-Control'' \<and> cc_max (snd st) < 0 then cc_delta (te_value h) ''max-age'' else cc_max (snd st))"
    and "pc_expires (snd (response_policy_line clcf h st)) =
      (if hit h ''Expires'' \<and> (pc_expires (snd st) = None \<or> pc_expires (snd st) = Some [])
       then Some (te_value h) else pc_expires (snd st))"
    and "upstream_ttl (fst (response_policy_line clcf h st)) = upstream_ttl (fst st)"
proof -
  obtain p c where st: "st = (p, c)" by (cases st)
  let ?l = "response_policy_line clcf h st"
  let ?R = "\<lambda>st'. sc_max (snd st') =
      (if hit h ''Surrogate-Control'' \<and> sc_max c < 0 then cc_delta (te_value h) ''max-age'' else sc_max c)
    \<and> cdn_smax (snd st') =
      (if hit h ''CDN-Cache-Control'' \<and> cdn_smax c < 0 then cc_delta (te_value h) ''s-maxage'' else cdn_smax c)
    \<and> cdn_max (snd st') =
      (if hit h ''CDN-Cache-Control'' \<and> cdn_max c < 0 then cc_delta (te_value h) ''max-age'' else cdn_max c)
    \<and> cc_smax (snd st') =
      (if hit h ''Cache-Control'' \<and> cc_smax c < 0 then cc_delta (te_value h) ''s-maxage'' else cc_smax c)
    \<and> cc_max (snd st') =
      (if hit h ''Cache-Control'' \<and> cc_max c < 0 then cc_delta (te_value h) ''max-age'' else cc_max c)
    \<and> pc_expires (snd st') =
      (if hit h ''Expires'' \<and> (pc_expires c = None \<or> pc_expires c = Some [])
       then Some (te_value h) else pc_expires c)
    \<and> upstream_ttl (fst st') = upstream_ttl p"
  have "?R ?l"
  proof (cases "te_hash h = 0 \<or> te_key h = []")
    case True
    then have "\<not> hit h n" if "n \<noteq> []" for n using that name_is_live by (auto simp: hit_def)
    with True show ?thesis by (auto simp: response_policy_line_def st)
  next
    case False
    have ex: "pc_expires (expires_seen h c) = (if hit h ''Expires'' \<and> (pc_expires c = None \<or> pc_expires c = Some [])
       then Some (te_value h) else pc_expires c)" "sc_max (expires_seen h c) = sc_max c" "cdn_smax (expires_seen h c) = cdn_smax c"
       "cdn_max (expires_seen h c) = cdn_max c" "cc_smax (expires_seen h c) = cc_smax c" "cc_max (expires_seen h c) = cc_max c"
      using False by (auto simp: hit_def split: option.splits)
    show ?thesis
    proof (cases "response_require_header clcf h (p, (expires_seen h c))")
      case (Some st')
      then have "taken_by_require clcf h" using require_header_frame(1) [of clcf h p "expires_seen h c"] by auto
      then have "\<not> name_is (te_key h) (ascii n)" if "n \<in> set cc_names" for n
        using assms(2) that by (simp add: requires_other_def)
      then have "\<not> hit h ''Surrogate-Control''" "\<not> hit h ''CDN-Cache-Control''" "\<not> hit h ''Cache-Control''"
        by (simp_all add: hit_def cc_names_def)
      moreover have "?l = st'" using False Some by (simp add: response_policy_line_def st)
      ultimately show ?thesis using require_header_frame(2) [OF Some] ex by simp
    next
      case None
      note l = policy_line_through [OF False None, folded st]
      show ?thesis
      proof (cases "te_key h" rule: freshness_line_cases)
        case surrogate
        then have "?l = response_surrogate_control (te_value h) (p, (expires_seen h c))" using assms(1) by (simp only: l if_True if_False)
        with surrogate False ex show ?thesis
          by (simp add: response_surrogate_control_def response_cc_refuse_def hit_def Let_def)
      next
        case cdn
        then have "?l = response_cdn_control (te_value h) (p, (expires_seen h c))" using assms(1) by (simp only: l if_True if_False)
        with cdn False ex show ?thesis
          by (simp add: response_cdn_control_def response_cc_refuse_def hit_def Let_def)
      next
        case plain
        then have "?l = response_cache_control (te_value h) (p, (expires_seen h c))" using assms(1) by (simp only: l if_True if_False)
        with plain False ex show ?thesis
          by (simp add: response_cache_control_def response_cc_refuse_def hit_def Let_def)
      next
        case other
        with assms(1) False ex show ?thesis by (simp add: l hit_def)
      qed
    qed
  qed
  then show "sc_max (snd ?l) =
      (if hit h ''Surrogate-Control'' \<and> sc_max (snd st) < 0 then cc_delta (te_value h) ''max-age'' else sc_max (snd st))"
    and "cdn_smax (snd ?l) =
      (if hit h ''CDN-Cache-Control'' \<and> cdn_smax (snd st) < 0 then cc_delta (te_value h) ''s-maxage'' else cdn_smax (snd st))"
    and "cdn_max (snd ?l) =
      (if hit h ''CDN-Cache-Control'' \<and> cdn_max (snd st) < 0 then cc_delta (te_value h) ''max-age'' else cdn_max (snd st))"
    and "cc_smax (snd ?l) =
      (if hit h ''Cache-Control'' \<and> cc_smax (snd st) < 0 then cc_delta (te_value h) ''s-maxage'' else cc_smax (snd st))"
    and "cc_max (snd ?l) =
      (if hit h ''Cache-Control'' \<and> cc_max (snd st) < 0 then cc_delta (te_value h) ''max-age'' else cc_max (snd st))"
    and "pc_expires (snd ?l) =
      (if hit h ''Expires'' \<and> (pc_expires (snd st) = None \<or> pc_expires (snd st) = Some [])
       then Some (te_value h) else pc_expires (snd st))"
    and "upstream_ttl (fst ?l) = upstream_ttl (fst st)"
    unfolding st prod.sel by blast+
qed

lemma policy_expires:
  assumes "\<not> ignore_cc clcf" and "list_all (requires_other clcf) hs"
    and "\<forall>h \<in> set hs. hit h ''Expires'' \<longrightarrow> te_value h \<noteq> []"
    and "pc_expires (snd st) \<noteq> Some []"
  shows "pc_expires (snd (fold (response_policy_line clcf) hs st)) =
    (case pc_expires (snd st) of Some v \<Rightarrow> Some v | None \<Rightarrow> header_find hs ''Expires'')"
  using assms(2-)
proof (induction hs arbitrary: st)
  case (Cons h hs)
  have l: "pc_expires (snd (response_policy_line clcf h st)) =
      (if hit h ''Expires'' \<and> (pc_expires (snd st) = None \<or> pc_expires (snd st) = Some [])
       then Some (te_value h) else pc_expires (snd st))"
    using policy_line_fields(6) [OF assms(1)] Cons.prems(1) by simp
  then have "pc_expires (snd (response_policy_line clcf h st)) \<noteq> Some []"
    using Cons.prems by auto
  with Cons.IH [of "response_policy_line clcf h st"] Cons.prems l show ?case
    by (auto simp: header_find_Cons split: option.splits)
qed (auto split: option.splits)

lemma policy_ttl_field:
  assumes "\<not> ignore_cc clcf" and "list_all (requires_other clcf) hs"
  shows "upstream_ttl (fst (fold (response_policy_line clcf) hs st)) = upstream_ttl (fst st)"
  using assms(2)
  by (induction hs arbitrary: st) (simp_all add: policy_line_fields(7) [OF assms(1)])


subsection \<open>The merged request bounds\<close>

text \<open>Every directive of a name in one field line, as repeated \<open>cc_token\<close> calls see them.\<close>

function cc_all :: "bytes \<Rightarrow> bytes \<Rightarrow> bytes option list" where
  "cc_all s name =
    (case cc_token s name of None \<Rightarrow> [] | Some (val, cursor) \<Rightarrow> val # cc_all cursor name)"
  by pat_completeness auto
termination by (relation "measure (\<lambda>(s, name). length s)") (auto dest: cc_token_shorter)

declare cc_all.simps [simp del]

definition keep_min :: "time_t \<Rightarrow> time_t \<Rightarrow> time_t" where
  "keep_min d m = (if 0 \<le> d \<and> (m < 0 \<or> d < m) then d else m)"

definition keep_max :: "time_t \<Rightarrow> time_t \<Rightarrow> time_t" where
  "keep_max d m = (if 0 \<le> d \<and> d > m then d else m)"

definition usable :: "time_t list \<Rightarrow> time_t set" where
  "usable ds = {d \<in> set ds. 0 \<le> d}"

lemma usable_simps [simp]: "usable [] = {}" "usable (ds @ es) = usable ds \<union> usable es"
  "usable (d # ds) = (if 0 \<le> d then insert d (usable ds) else usable ds)" "finite (usable ds)"
  by (auto simp: usable_def)

lemma fold_keep_min:
  "fold keep_min ds m =
    (if usable ds = {} then m else if 0 \<le> m then min m (Min (usable ds)) else Min (usable ds))"
proof (induction ds arbitrary: m)
  case (Cons d ds)
  have pos: "x \<in> usable ds \<Longrightarrow> 0 \<le> x" for x by (simp add: usable_def)
  show ?case
  proof (cases "usable ds = {}")
    case True
    with Cons show ?thesis by (auto simp: keep_min_def)
  next
    case False
    then have "0 \<le> Min (usable ds)" using pos by (simp add: Min_ge_iff)
    with Cons False show ?thesis by (auto simp: keep_min_def min_def)
  qed
qed simp

lemma fold_keep_max:
  "- 1 \<le> m \<Longrightarrow> fold keep_max ds m = (if usable ds = {} then m else max m (Max (usable ds)))"
proof (induction ds arbitrary: m)
  case (Cons d ds)
  show ?case
  proof (cases "usable ds = {}")
    case True
    with Cons show ?thesis by (auto simp: keep_max_def)
  next
    case False
    with Cons.IH [of "keep_max d m"] Cons.prems show ?thesis
      by (auto simp: keep_max_def max_def)
  qed
qed simp

definition deltas :: "bytes \<Rightarrow> string \<Rightarrow> time_t list" where
  "deltas v name = map valued_delta (cc_all v (ascii name))"

lemma max_age_loop_eq:
  "\<exists>b. max_age_loop s ctx =
    ctx\<lparr>req_max_age := fold keep_min (deltas s ''max-age'') (req_max_age ctx), has_req_bounds := b\<rparr>"
proof (induction s ctx rule: max_age_loop.induct)
  case (1 s ctx)
  show ?case
  proof (cases "cc_token s (ascii ''max-age'')")
    case None
    then show ?thesis
      by (auto simp: max_age_loop.simps [of s] cc_all.simps [of s] deltas_def
          intro!: exI [of _ "has_req_bounds ctx"])
  next
    case (Some r)
    obtain val cur where r: "r = (val, cur)" by (cases r)
    from "1.IH" [OF Some [unfolded r] refl refl] Some r show ?thesis
      by (auto simp: max_age_loop.simps [of s] cc_all.simps [of s] deltas_def keep_min_def Let_def)
  qed
qed

lemma min_fresh_loop_eq:
  "\<exists>b. min_fresh_loop s ctx =
    ctx\<lparr>req_min_fresh := fold keep_max (deltas s ''min-fresh'') (req_min_fresh ctx), has_req_bounds := b\<rparr>"
proof (induction s ctx rule: min_fresh_loop.induct)
  case (1 s ctx)
  show ?case
  proof (cases "cc_token s (ascii ''min-fresh'')")
    case None
    then show ?thesis
      by (auto simp: min_fresh_loop.simps [of s] cc_all.simps [of s] deltas_def
          intro!: exI [of _ "has_req_bounds ctx"])
  next
    case (Some r)
    obtain val cur where r: "r = (val, cur)" by (cases r)
    from "1.IH" [OF Some [unfolded r] refl refl] Some r show ?thesis
      by (auto simp: min_fresh_loop.simps [of s] cc_all.simps [of s] deltas_def keep_max_def Let_def)
  qed
qed

definition stale_inv :: "req_cc_st \<Rightarrow> bool" where
  "stale_inv ctx \<longleftrightarrow> (0 \<le> req_max_stale ctx \<longrightarrow> \<not> req_max_stale_any ctx)"

definition bounds_inv :: "req_cc_st \<Rightarrow> bool" where
  "bounds_inv ctx \<longleftrightarrow> (has_req_bounds ctx \<longleftrightarrow>
    0 \<le> req_max_age ctx \<or> 0 \<le> req_min_fresh ctx \<or> req_max_stale_set ctx)"

lemma max_stale_one_frame:
  "max_stale_one val ctx = ctx\<lparr>req_max_stale := req_max_stale (max_stale_one val ctx), req_max_stale_set := True,
    req_max_stale_any := req_max_stale_any (max_stale_one val ctx), has_req_bounds := True\<rparr>"
  by (simp add: max_stale_one_def Let_def split: option.split)

lemma max_stale_loop_eq:
  assumes "stale_inv ctx"
  shows "\<exists>b. max_stale_loop s ctx =
    ctx\<lparr>req_max_stale := fold keep_min (deltas s ''max-stale'') (req_max_stale ctx),
      req_max_stale_set := (req_max_stale_set ctx \<or> cc_all s (ascii ''max-stale'') \<noteq> []),
      req_max_stale_any := ((req_max_stale_any ctx \<or> None \<in> set (cc_all s (ascii ''max-stale'')))
        \<and> fold keep_min (deltas s ''max-stale'') (req_max_stale ctx) < 0), has_req_bounds := b\<rparr>"
  using assms
proof (induction s ctx rule: max_stale_loop.induct)
  case (1 s ctx)
  show ?case
  proof (cases "cc_token s (ascii ''max-stale'')")
    case None
    with "1.prems" show ?thesis
      by (auto simp: max_stale_loop.simps [of s] cc_all.simps [of s] deltas_def stale_inv_def
          intro!: exI [of _ "has_req_bounds ctx"])
  next
    case (Some r)
    obtain val cur where r: "r = (val, cur)" by (cases r)
    have inv: "stale_inv (max_stale_one val ctx)"
      using "1.prems" by (auto simp: stale_inv_def max_stale_one_def Let_def split: option.splits)
    have step: "req_max_stale (max_stale_one val ctx) = keep_min (valued_delta val) (req_max_stale ctx)"
      by (auto simp: max_stale_one_def valued_delta_def keep_min_def Let_def split: option.splits)
    let ?m = "fold keep_min (deltas s ''max-stale'') (req_max_stale ctx)"
    have all: "cc_all s (ascii ''max-stale'') = val # cc_all cur (ascii ''max-stale'')"
      using Some r by (simp add: cc_all.simps [of s])
    have m: "?m = fold keep_min (deltas cur ''max-stale'') (req_max_stale (max_stale_one val ctx))"
      by (simp add: deltas_def all step)
    have nonneg: "0 \<le> req_max_stale (max_stale_one val ctx) \<Longrightarrow> 0 \<le> ?m"
      by (subst m, subst fold_keep_min) (auto simp: usable_def intro: Min_ge_iff [THEN iffD2])
    from "1.IH" [OF Some [unfolded r] refl inv] obtain b where
      b: "max_stale_loop cur (max_stale_one val ctx) = (max_stale_one val ctx)
        \<lparr>req_max_stale := ?m,
         req_max_stale_set := (req_max_stale_set (max_stale_one val ctx) \<or> cc_all cur (ascii ''max-stale'') \<noteq> []),
         req_max_stale_any := ((req_max_stale_any (max_stale_one val ctx) \<or> None \<in> set (cc_all cur (ascii ''max-stale'')))
           \<and> ?m < 0), has_req_bounds := b\<rparr>"
      unfolding m by blast
    have any: "?m < 0 \<Longrightarrow> req_max_stale_any (max_stale_one val ctx) \<longleftrightarrow> req_max_stale_any ctx \<or> val = None"
    proof (cases val)
      case None
      assume "?m < 0"
      with nonneg have "\<not> 0 \<le> req_max_stale (max_stale_one val ctx)" by linarith
      then have "req_max_stale ctx < 0" using step None by (simp add: keep_min_def valued_delta_def)
      then show ?thesis by (simp add: None max_stale_one_def)
    next
      case (Some q)
      assume "?m < 0"
      with nonneg have "\<not> 0 \<le> cc_parse_delta q"
        using step Some by (auto simp: keep_min_def valued_delta_def split: if_splits)
      then show ?thesis by (simp add: Some max_stale_one_def Let_def)
    qed
    have "max_stale_loop s ctx = max_stale_loop cur (max_stale_one val ctx)"
      using Some r by (simp add: max_stale_loop.simps [of s])
    also have "\<dots> = ctx\<lparr>req_max_stale := ?m, req_max_stale_set := True,
        req_max_stale_any := ((req_max_stale_any ctx \<or> val = None \<or> None \<in> set (cc_all cur (ascii ''max-stale'')))
          \<and> ?m < 0), has_req_bounds := b\<rparr>"
    proof -
      have others: "P (max_stale_one val ctx) = P ctx"
        if "\<And>m s a b. P (ctx\<lparr>req_max_stale := m, req_max_stale_set := s, req_max_stale_any := a, has_req_bounds := b\<rparr>) = P ctx"
          for P :: "req_cc_st \<Rightarrow> req_cc_st"
        by (subst max_stale_one_frame) (rule that)
      have "max_stale_one val ctx\<lparr>req_max_stale := m, req_max_stale_set := s, req_max_stale_any := a, has_req_bounds := b\<rparr>
          = ctx\<lparr>req_max_stale := m, req_max_stale_set := s, req_max_stale_any := a, has_req_bounds := b\<rparr>" for m s a b
        by (rule others) simp
      moreover have "req_max_stale_set (max_stale_one val ctx)" by (subst max_stale_one_frame) simp
      moreover have "(req_max_stale_any (max_stale_one val ctx) \<or> N) \<and> ?m < 0 \<longleftrightarrow>
          (req_max_stale_any ctx \<or> val = None \<or> N) \<and> ?m < 0" for N
        using any by auto
      ultimately show ?thesis unfolding b by simp
    qed
    finally show ?thesis by (intro exI [of _ b]) (simp add: all eq_commute [of None val])
  qed
qed

lemma max_age_loop_bounds: "bounds_inv ctx \<Longrightarrow> bounds_inv (max_age_loop s ctx)"
proof (induction s ctx rule: max_age_loop.induct)
  case (1 s ctx)
  show ?case
  proof (cases "cc_token s (ascii ''max-age'')")
    case (Some r)
    obtain val cur where r: "r = (val, cur)" by (cases r)
    have "bounds_inv (if valued_delta val \<ge> 0 \<and> (req_max_age ctx < 0 \<or> valued_delta val < req_max_age ctx)
        then ctx\<lparr>req_max_age := valued_delta val, has_req_bounds := True\<rparr> else ctx)"
      using "1.prems" by (simp add: bounds_inv_def)
    from "1.IH" [OF Some [unfolded r] refl refl this] Some r show ?thesis
      by (simp add: max_age_loop.simps [of s] Let_def)
  qed (simp add: max_age_loop.simps [of s] "1.prems")
qed

lemma min_fresh_loop_bounds: "bounds_inv ctx \<Longrightarrow> bounds_inv (min_fresh_loop s ctx)"
proof (induction s ctx rule: min_fresh_loop.induct)
  case (1 s ctx)
  show ?case
  proof (cases "cc_token s (ascii ''min-fresh'')")
    case (Some r)
    obtain val cur where r: "r = (val, cur)" by (cases r)
    have "bounds_inv (if valued_delta val \<ge> 0 \<and> valued_delta val > req_min_fresh ctx
        then ctx\<lparr>req_min_fresh := valued_delta val, has_req_bounds := True\<rparr> else ctx)"
      using "1.prems" by (simp add: bounds_inv_def)
    from "1.IH" [OF Some [unfolded r] refl refl this] Some r show ?thesis
      by (simp add: min_fresh_loop.simps [of s] Let_def)
  qed (simp add: min_fresh_loop.simps [of s] "1.prems")
qed

lemma max_stale_loop_bounds: "bounds_inv ctx \<Longrightarrow> bounds_inv (max_stale_loop s ctx)"
proof (induction s ctx rule: max_stale_loop.induct)
  case (1 s ctx)
  show ?case
  proof (cases "cc_token s (ascii ''max-stale'')")
    case (Some r)
    obtain val cur where r: "r = (val, cur)" by (cases r)
    have "bounds_inv (max_stale_one val ctx)"
      by (auto simp: bounds_inv_def max_stale_one_def Let_def split: option.splits)
    from "1.IH" [OF Some [unfolded r] refl this] Some r show ?thesis
      by (simp add: max_stale_loop.simps [of s])
  qed (simp add: max_stale_loop.simps [of s] "1.prems")
qed

lemma req_cc_line_eq:
  assumes "stale_inv ctx" and "bounds_inv ctx"
  shows "req_max_age (req_cc_line v ctx) = fold keep_min (deltas v ''max-age'') (req_max_age ctx)"
    and "req_min_fresh (req_cc_line v ctx) = fold keep_max (deltas v ''min-fresh'') (req_min_fresh ctx)"
    and "req_max_stale (req_cc_line v ctx) = fold keep_min (deltas v ''max-stale'') (req_max_stale ctx)"
    and "req_max_stale_set (req_cc_line v ctx) \<longleftrightarrow> req_max_stale_set ctx \<or> cc_all v (ascii ''max-stale'') \<noteq> []"
    and "req_max_stale_any (req_cc_line v ctx) \<longleftrightarrow>
      (req_max_stale_any ctx \<or> None \<in> set (cc_all v (ascii ''max-stale''))) \<and> req_max_stale (req_cc_line v ctx) < 0"
    and "req_no_cache (req_cc_line v ctx) \<longleftrightarrow> req_no_cache ctx \<or> cc_has v ''no-cache''"
    and "req_no_store (req_cc_line v ctx) \<longleftrightarrow> req_no_store ctx \<or> cc_has v ''no-store''"
    and "req_only_if_cached (req_cc_line v ctx) \<longleftrightarrow> req_only_if_cached ctx \<or> cc_has v ''only-if-cached''"
    and "stale_inv (req_cc_line v ctx)" and "bounds_inv (req_cc_line v ctx)"
proof -
  define c where "c = (let ctx = (if req_cc ctx = None then ctx\<lparr>req_cc := Some v\<rparr> else ctx);
         ctx = (if cc_has v ''no-cache'' then ctx\<lparr>req_no_cache := True\<rparr> else ctx);
         ctx = (if cc_has v ''no-store'' then ctx\<lparr>req_no_store := True\<rparr> else ctx)
     in (if cc_has v ''only-if-cached'' then ctx\<lparr>req_only_if_cached := True\<rparr> else ctx))"
  define c1 where "c1 = max_age_loop v c"
  define c2 where "c2 = min_fresh_loop v c1"
  have l: "req_cc_line v ctx = max_stale_loop v c2"
    by (simp add: req_cc_line_def Let_def c_def c1_def c2_def)
  have c: "req_max_age c = req_max_age ctx" "req_min_fresh c = req_min_fresh ctx"
    "req_max_stale c = req_max_stale ctx" "req_max_stale_set c = req_max_stale_set ctx"
    "req_max_stale_any c = req_max_stale_any ctx" "has_req_bounds c = has_req_bounds ctx"
    "req_no_cache c \<longleftrightarrow> req_no_cache ctx \<or> cc_has v ''no-cache''"
    "req_no_store c \<longleftrightarrow> req_no_store ctx \<or> cc_has v ''no-store''"
    "req_only_if_cached c \<longleftrightarrow> req_only_if_cached ctx \<or> cc_has v ''only-if-cached''"
    by (simp_all add: Let_def c_def)
  obtain b1 where b1: "c1 = c\<lparr>req_max_age := fold keep_min (deltas v ''max-age'') (req_max_age c), has_req_bounds := b1\<rparr>"
    unfolding c1_def using max_age_loop_eq by blast
  obtain b2 where b2: "c2 = c1\<lparr>req_min_fresh := fold keep_max (deltas v ''min-fresh'') (req_min_fresh c1), has_req_bounds := b2\<rparr>"
    unfolding c2_def using min_fresh_loop_eq by blast
  have d: "req_max_age c2 = fold keep_min (deltas v ''max-age'') (req_max_age ctx)"
      "req_min_fresh c2 = fold keep_max (deltas v ''min-fresh'') (req_min_fresh ctx)"
      "req_max_stale c2 = req_max_stale ctx" "req_max_stale_set c2 = req_max_stale_set ctx"
      "req_max_stale_any c2 = req_max_stale_any ctx" "req_no_cache c2 = req_no_cache c"
      "req_no_store c2 = req_no_store c" "req_only_if_cached c2 = req_only_if_cached c"
    by (simp_all add: b2 b1 c)
  then have "stale_inv c2" using assms(1) by (simp add: stale_inv_def)
  then obtain b3 where b3: "max_stale_loop v c2 =
    c2\<lparr>req_max_stale := fold keep_min (deltas v ''max-stale'') (req_max_stale c2),
      req_max_stale_set := (req_max_stale_set c2 \<or> cc_all v (ascii ''max-stale'') \<noteq> []),
      req_max_stale_any := ((req_max_stale_any c2 \<or> None \<in> set (cc_all v (ascii ''max-stale'')))
        \<and> fold keep_min (deltas v ''max-stale'') (req_max_stale c2) < 0), has_req_bounds := b3\<rparr>"
    using max_stale_loop_eq by blast
  show "req_max_age (req_cc_line v ctx) = fold keep_min (deltas v ''max-age'') (req_max_age ctx)"
    and "req_min_fresh (req_cc_line v ctx) = fold keep_max (deltas v ''min-fresh'') (req_min_fresh ctx)"
    and "req_max_stale (req_cc_line v ctx) = fold keep_min (deltas v ''max-stale'') (req_max_stale ctx)"
    and "req_max_stale_set (req_cc_line v ctx) \<longleftrightarrow> req_max_stale_set ctx \<or> cc_all v (ascii ''max-stale'') \<noteq> []"
    and "req_max_stale_any (req_cc_line v ctx) \<longleftrightarrow>
      (req_max_stale_any ctx \<or> None \<in> set (cc_all v (ascii ''max-stale''))) \<and> req_max_stale (req_cc_line v ctx) < 0"
    and "req_no_cache (req_cc_line v ctx) \<longleftrightarrow> req_no_cache ctx \<or> cc_has v ''no-cache''"
    and "req_no_store (req_cc_line v ctx) \<longleftrightarrow> req_no_store ctx \<or> cc_has v ''no-store''"
    and "req_only_if_cached (req_cc_line v ctx) \<longleftrightarrow> req_only_if_cached ctx \<or> cc_has v ''only-if-cached''"
    and "stale_inv (req_cc_line v ctx)"
    unfolding l b3 stale_inv_def by (simp_all add: d c)
  have "bounds_inv c" using assms(2) by (simp add: bounds_inv_def c)
  then show "bounds_inv (req_cc_line v ctx)"
    unfolding l c2_def c1_def by (intro max_stale_loop_bounds min_fresh_loop_bounds max_age_loop_bounds)
qed

definition cc_lines :: "tbl_elt list \<Rightarrow> bytes list" where
  "cc_lines hs = map te_value (filter (\<lambda>h. hit h ''Cache-Control'') hs)"

definition line_deltas :: "tbl_elt list \<Rightarrow> string \<Rightarrow> time_t list" where
  "line_deltas hs name = concat (map (\<lambda>v. deltas v name) (cc_lines hs))"

lemma req_cc_walk_eq:
  assumes "stale_inv ctx" and "bounds_inv ctx"
  shows "req_max_age (req_cc_walk hs ctx) = fold keep_min (line_deltas hs ''max-age'') (req_max_age ctx) \<and>
    req_min_fresh (req_cc_walk hs ctx) = fold keep_max (line_deltas hs ''min-fresh'') (req_min_fresh ctx) \<and>
    req_max_stale (req_cc_walk hs ctx) = fold keep_min (line_deltas hs ''max-stale'') (req_max_stale ctx) \<and>
    (req_max_stale_set (req_cc_walk hs ctx) \<longleftrightarrow> req_max_stale_set ctx \<or>
      list_ex (\<lambda>v. cc_all v (ascii ''max-stale'') \<noteq> []) (cc_lines hs)) \<and>
    (req_max_stale_any (req_cc_walk hs ctx) \<longleftrightarrow>
      (req_max_stale_any ctx \<or> list_ex (\<lambda>v. None \<in> set (cc_all v (ascii ''max-stale''))) (cc_lines hs)) \<and>
      req_max_stale (req_cc_walk hs ctx) < 0) \<and>
    (req_no_cache (req_cc_walk hs ctx) \<longleftrightarrow> req_no_cache ctx \<or> list_ex (\<lambda>v. cc_has v ''no-cache'') (cc_lines hs)) \<and>
    (req_no_store (req_cc_walk hs ctx) \<longleftrightarrow> req_no_store ctx \<or> list_ex (\<lambda>v. cc_has v ''no-store'') (cc_lines hs)) \<and>
    (req_only_if_cached (req_cc_walk hs ctx) \<longleftrightarrow>
      req_only_if_cached ctx \<or> list_ex (\<lambda>v. cc_has v ''only-if-cached'') (cc_lines hs)) \<and>
    bounds_inv (req_cc_walk hs ctx)"
  using assms
proof (induction hs arbitrary: ctx)
  case Nil
  then show ?case by (auto simp: line_deltas_def cc_lines_def stale_inv_def)
next
  case (Cons h hs)
  show ?case
  proof (cases "hit h ''Cache-Control''")
    case True
    let ?v = "te_value h"
    note l = req_cc_line_eq [OF Cons.prems, of ?v]
    have w: "req_cc_walk (h # hs) ctx = req_cc_walk hs (req_cc_line ?v ctx)"
      using True by (simp add: hit_def)
    have cl: "cc_lines (h # hs) = ?v # cc_lines hs" using True by (simp add: cc_lines_def)
    have ld: "line_deltas (h # hs) name = deltas ?v name @ line_deltas hs name" for name
      by (simp add: line_deltas_def cl)
    let ?m = "fold keep_min (deltas ?v ''max-stale'') (req_max_stale ctx)"
    have "0 \<le> ?m \<Longrightarrow> 0 \<le> fold keep_min (line_deltas hs ''max-stale'') ?m"
      by (subst fold_keep_min) (auto simp: usable_def intro: Min_ge_iff [THEN iffD2])
    then have "fold keep_min (line_deltas hs ''max-stale'') ?m < 0 \<Longrightarrow> ?m < 0" by linarith
    then have bare: "((A \<and> ?m < 0 \<or> L) \<and> fold keep_min (line_deltas hs ''max-stale'') ?m < 0) =
        ((A \<or> L) \<and> fold keep_min (line_deltas hs ''max-stale'') ?m < 0)" for A L
      by blast
    show ?thesis
      using Cons.IH [OF l(9,10)] bare
      unfolding w ld cl fold_append o_apply list_ex_Cons_iff l(1-8) by (simp only: disj_assoc)
  next
    case False
    let ?ctx = "if te_hash h \<noteq> 0 \<and> req_pragma ctx = None \<and> name_is (te_key h) (ascii ''Pragma'')
        then ctx\<lparr>req_pragma := Some (te_value h)\<rparr> else ctx"
    have w: "req_cc_walk (h # hs) ctx = req_cc_walk hs ?ctx"
      using False by (auto simp: hit_def)
    have cl: "cc_lines (h # hs) = cc_lines hs" using False by (simp add: cc_lines_def)
    have ld: "line_deltas (h # hs) name = line_deltas hs name" for name
      by (simp add: line_deltas_def cl)
    have "stale_inv ?ctx" "bounds_inv ?ctx"
      using Cons.prems by (simp_all add: stale_inv_def bounds_inv_def)
    from Cons.IH [OF this] show ?thesis unfolding w ld cl by simp
  qed
qed

definition fresh_req_cc :: req_cc_st where
  "fresh_req_cc = \<lparr>req_cc_resolved = False, req_cc = None, req_pragma = None, req_no_cache = False,
    req_no_store = False, req_only_if_cached = False, req_max_age = 0, req_min_fresh = 0,
    req_max_stale = 0, req_max_stale_set = False, req_max_stale_any = False, has_req_bounds = False\<rparr>"

text \<open>
  C33: What a client may be served is settled by the strictest of everything it said. Over any number
  of Cache-Control field lines, each with any number of directives, in whatever order: the age
  bound is the smallest usable max-age, the freshness bound the largest usable min-fresh, the stale
  allowance the smallest usable max-stale; a bare max-stale counts only when no usable number
  limits it, a restriction anywhere is a restriction, and the verdict is consulted exactly when some
  bound was given.
\<close>

theorem req_bounds_strictest:
  "let ctx = resolve_req_cc hs fresh_req_cc; ds = (\<lambda>name. usable (line_deltas hs name)) in
    req_max_age ctx = (if ds ''max-age'' = {} then - 1 else Min (ds ''max-age'')) \<and>
    req_min_fresh ctx = (if ds ''min-fresh'' = {} then - 1 else Max (ds ''min-fresh'')) \<and>
    req_max_stale ctx = (if ds ''max-stale'' = {} then - 1 else Min (ds ''max-stale'')) \<and>
    (req_max_stale_any ctx \<longleftrightarrow> ds ''max-stale'' = {} \<and>
      list_ex (\<lambda>v. None \<in> set (cc_all v (ascii ''max-stale''))) (cc_lines hs)) \<and>
    (req_max_stale_set ctx \<longleftrightarrow> list_ex (\<lambda>v. cc_all v (ascii ''max-stale'') \<noteq> []) (cc_lines hs)) \<and>
    (req_no_cache ctx \<longleftrightarrow> list_ex (\<lambda>v. cc_has v ''no-cache'') (cc_lines hs)) \<and>
    (req_no_store ctx \<longleftrightarrow> list_ex (\<lambda>v. cc_has v ''no-store'') (cc_lines hs)) \<and>
    (req_only_if_cached ctx \<longleftrightarrow> list_ex (\<lambda>v. cc_has v ''only-if-cached'') (cc_lines hs)) \<and>
    (has_req_bounds ctx \<longleftrightarrow> ds ''max-age'' \<noteq> {} \<or> ds ''min-fresh'' \<noteq> {} \<or> req_max_stale_set ctx)"
proof -
  define c where "c = fresh_req_cc\<lparr>req_cc := None, req_pragma := None, req_max_age := - 1, req_min_fresh := - 1,
            req_max_stale := - 1, req_cc_resolved := True\<rparr>"
  have r: "resolve_req_cc hs fresh_req_cc = req_cc_walk hs c"
    by (simp add: resolve_req_cc_def fresh_req_cc_def c_def)
  have c: "req_max_age c = - 1" "req_min_fresh c = - 1" "req_max_stale c = - 1" "\<not> req_max_stale_set c"
    "\<not> req_max_stale_any c" "\<not> req_no_cache c" "\<not> req_no_store c" "\<not> req_only_if_cached c"
    "\<not> has_req_bounds c"
    by (simp_all add: c_def fresh_req_cc_def)
  then have "stale_inv c" "bounds_inv c" by (simp_all add: stale_inv_def bounds_inv_def)
  note w = req_cc_walk_eq [OF this, of hs]
  have pos: "0 \<le> Min (usable ds)" if "usable ds \<noteq> {}" for ds
    using that by (auto simp: Min_ge_iff) (auto simp: usable_def)
  have pos': "0 \<le> Max (usable ds)" if "usable ds \<noteq> {}" for ds
    using that Max_in [of "usable ds"] by (auto simp: usable_def)
  have minus: "fold keep_min ds (- 1) = (if usable ds = {} then - 1 else Min (usable ds))"
    "fold keep_max ds (- 1) = (if usable ds = {} then - 1 else Max (usable ds))" for ds
    using pos' [of ds] by (cases "usable ds = {}"; simp add: fold_keep_min fold_keep_max max_def)+
  show ?thesis
    unfolding r Let_def using w pos pos' by (auto simp: bounds_inv_def c minus not_less)
qed

subsection \<open>Printing and reading directive lists\<close>

text \<open>A value that opens and closes its own quotes and shows no comma outside them.\<close>

fun cc_closed :: "bool \<Rightarrow> bool \<Rightarrow> bytes \<Rightarrow> bool" where
  "cc_closed quoted escaped [] \<longleftrightarrow> \<not> quoted \<and> \<not> escaped"
| "cc_closed quoted escaped (c # cs) \<longleftrightarrow>
    (if quoted
     then (if escaped then cc_closed True False cs
           else if c = BACKSLASH then cc_closed True True cs
           else if c = QUOTE then cc_closed False False cs
           else cc_closed True False cs)
     else if c = QUOTE then cc_closed True escaped cs
     else c \<noteq> COMMA \<and> cc_closed False escaped cs)"

type_synonym directive = "bytes \<times> bytes option"

definition cc_show :: "directive \<Rightarrow> bytes" where
  "cc_show d = fst d @ (case snd d of None \<Rightarrow> [] | Some v \<Rightarrow> EQUALS # v)"

fun cc_print :: "directive list \<Rightarrow> bytes" where
  "cc_print [] = []"
| "cc_print [d] = cc_show d"
| "cc_print (d # ds) = cc_show d @ COMMA # SP # cc_print ds"

definition name_byte :: "u8 \<Rightarrow> bool" where
  "name_byte c \<longleftrightarrow> \<not> is_ows c \<and> c \<noteq> COMMA \<and> c \<noteq> QUOTE \<and> c \<noteq> EQUALS"

definition wf_directive :: "directive \<Rightarrow> bool" where
  "wf_directive d \<longleftrightarrow> fst d \<noteq> [] \<and> list_all name_byte (fst d) \<and>
    (case snd d of None \<Rightarrow> True
     | Some v \<Rightarrow> cc_closed False False v \<and> (v \<noteq> [] \<longrightarrow> \<not> is_ows (last v)))"

lemma span_closed:
  "cc_closed q e w \<Longrightarrow> cc_span q e (w @ rest) = apfst ((@) w) (cc_span False False rest)"
  by (induction q e w rule: cc_closed.induct)
    (auto simp: apfst_def map_prod_def split_def split: if_splits)

lemma closed_name: "list_all name_byte n \<Longrightarrow> cc_closed False False (n @ w) = cc_closed False False w"
  by (induction n) (auto simp: name_byte_def)

lemma closed_show: "wf_directive d \<Longrightarrow> cc_closed False False (cc_show d)"
  using closed_name [of "fst d" "[]"] closed_name [of "fst d"]
  by (auto simp: wf_directive_def cc_show_def split: option.splits)

lemma show_ends:
  assumes "wf_directive d"
  shows "cc_show d \<noteq> []" "\<not> is_ows (hd (cc_show d))" "hd (cc_show d) \<noteq> COMMA" "\<not> is_ows (last (cc_show d))"
proof -
  have b: "name_byte c" if "c \<in> set (fst d)" for c
    using assms that by (simp add: wf_directive_def list_all_iff)
  have ne: "fst d \<noteq> []" using assms by (simp add: wf_directive_def)
  with b [OF hd_in_set] b [OF last_in_set] assms
  show "cc_show d \<noteq> []" "\<not> is_ows (hd (cc_show d))" "hd (cc_show d) \<noteq> COMMA" "\<not> is_ows (last (cc_show d))"
    by (auto simp: cc_show_def name_byte_def wf_directive_def is_ows_def split: option.splits)
qed

lemma strlchr_name: "list_all name_byte n \<Longrightarrow> strlchr n EQUALS = None"
  "list_all name_byte n \<Longrightarrow> strlchr (n @ EQUALS # v) EQUALS = Some (length n)"
  by (induction n) (auto simp: name_byte_def)

lemma rtrim_id: "s \<noteq> [] \<Longrightarrow> \<not> is_ows (last s) \<Longrightarrow> rtrim_ows s = s"
  by (cases s rule: rev_cases) (auto simp: rtrim_ows_def)

lemma split_show: "wf_directive d \<Longrightarrow> cc_split (cc_show d) = d"
proof -
  assume wf: "wf_directive d"
  then have t: "rtrim_ows (cc_show d) = cc_show d" using show_ends [OF wf] by (simp add: rtrim_id)
  have n: "list_all name_byte (fst d)" using wf by (simp add: wf_directive_def)
  obtain m v where d: "d = (m, v)" by (cases d)
  show ?thesis
    using strlchr_name [OF n] unfolding cc_split_def t
    by (cases v) (simp_all add: d cc_show_def)
qed

lemma skip_id: "s \<noteq> [] \<Longrightarrow> \<not> is_ows (hd s) \<Longrightarrow> hd s \<noteq> COMMA \<Longrightarrow> cc_skip (s @ t) = s @ t"
  by (cases s) (auto simp: cc_skip_def)

lemma skip_print: "list_all wf_directive ds \<Longrightarrow> cc_skip (cc_print ds) = cc_print ds"
proof (induction ds rule: cc_print.induct)
  case (2 d)
  then show ?case using skip_id [of "cc_show d" "[]"] show_ends [of d] by simp
next
  case (3 d e ds)
  then show ?case using skip_id [of "cc_show d"] show_ends [of d] by simp
qed (simp add: cc_skip_def)

lemma token_skip: "s \<noteq> [] \<Longrightarrow> cc_skip s = s' \<Longrightarrow> s' \<noteq> [] \<Longrightarrow> cc_skip s' = s' \<Longrightarrow> cc_token s name = cc_token s' name"
  by (simp add: cc_token.simps [of s] cc_token.simps [of s'])

lemma token_print:
  assumes "list_all wf_directive (d # ds)"
  shows "cc_token (cc_print (d # ds)) name =
    (if name_is (fst d) name then Some (snd d, if ds = [] then [] else SP # cc_print ds)
     else if ds = [] then None else cc_token (cc_print ds) name)"
proof -
  have wf: "wf_directive d" "list_all wf_directive ds" using assms by auto
  let ?rest = "if ds = [] then [] else COMMA # SP # cc_print ds"
  have pr: "cc_print (d # ds) = cc_show d @ ?rest" by (cases ds) auto
  have ne: "cc_print (d # ds) \<noteq> []" using show_ends(1) [OF wf(1)] by (simp add: pr)
  have "cc_span False False (cc_skip (cc_print (d # ds))) = (cc_show d, ?rest)"
    using span_closed [OF closed_show [OF wf(1)], of ?rest] skip_print [OF assms] by (simp add: pr)
  then have *: "cc_token (cc_print (d # ds)) name =
      (if name_is (fst d) name then Some (snd d, tl ?rest) else cc_token ?rest name)"
    using ne by (subst cc_token.simps) (simp add: split_show [OF wf(1)] split_def name_is_def Let_def)
  show ?thesis
  proof (cases ds)
    case Nil
    then show ?thesis unfolding * by (simp add: cc_token.simps [of "[]"])
  next
    case (Cons e es)
    then have pne: "cc_print ds \<noteq> []" using show_ends(1) [of e] wf(2) by (cases es) auto
    have "cc_skip (COMMA # SP # cc_print ds) = cc_print ds"
      using skip_print [OF wf(2)] by (simp add: cc_skip_def is_ows_def)
    then have "cc_token (COMMA # SP # cc_print ds) name = cc_token (cc_print ds) name"
      using pne skip_print [OF wf(2)] by (intro token_skip) auto
    then show ?thesis unfolding * using Cons by simp
  qed
qed

lemma all_print:
  "list_all wf_directive ds \<Longrightarrow> cc_all (cc_print ds) name = map snd (filter (\<lambda>d. name_is (fst d) name) ds)"
proof (induction ds)
  case Nil
  then show ?case by (simp add: cc_all.simps [of "[]"] cc_token.simps [of "[]"])
next
  case (Cons d ds)
  note t = token_print [OF Cons.prems, of name]
  have sp: "cc_all (SP # cc_print ds) name = cc_all (cc_print ds) name" if ne: "ds \<noteq> []"
  proof -
    obtain e es where "ds = e # es" using ne by (cases ds) auto
    then have pne: "cc_print ds \<noteq> []" using show_ends(1) [of e] Cons.prems by (cases es) auto
    have "cc_skip (SP # cc_print ds) = cc_print ds"
      using skip_print Cons.prems by (simp add: cc_skip_def is_ows_def)
    then have "cc_token (SP # cc_print ds) name = cc_token (cc_print ds) name"
      using pne skip_print Cons.prems by (intro token_skip) auto
    then show ?thesis by (simp add: cc_all.simps [of "SP # cc_print ds"] cc_all.simps [of "cc_print ds"])
  qed
  show ?case
  proof (cases "name_is (fst d) name")
    case True
    have nil: "cc_all [] name = []" by (simp add: cc_all.simps [of "[]"] cc_token.simps [of "[]"])
    have "cc_all (cc_print (d # ds)) name = snd d # cc_all (if ds = [] then [] else SP # cc_print ds) name"
      using True t by (subst cc_all.simps) (simp del: cc_print.simps)
    then show ?thesis using Cons.IH Cons.prems True sp nil by (simp del: cc_print.simps split: if_splits)
  next
    case False
    then have "cc_all (cc_print (d # ds)) name = (if ds = [] then [] else cc_all (cc_print ds) name)"
      using t by (simp add: cc_all.simps [of "cc_print (d # ds)"] cc_all.simps [of "cc_print ds"] del: cc_print.simps)
    then show ?thesis using Cons.IH Cons.prems False by (simp del: cc_print.simps split: if_splits)
  qed
qed

text \<open>
  The tokenizer reads back what was written. For any list of directives, bare or valued, with
  commas, equals signs and directive-looking text inside quoted strings, scanning its printed form
  for a name yields the values of exactly the directives of that name (case ignored), in order:
  nothing inside a quoted string is ever taken for a directive.
\<close>

theorem cc_print_parse:
  assumes "list_all wf_directive ds"
  shows "cc_all (cc_print ds) (ascii name) = map snd (filter (\<lambda>d. name_is (fst d) (ascii name)) ds) \<and>
    (cc_has (cc_print ds) name \<longleftrightarrow> list_ex (\<lambda>d. name_is (fst d) (ascii name)) ds)"
proof -
  have "cc_has (cc_print ds) name \<longleftrightarrow> cc_all (cc_print ds) (ascii name) \<noteq> []"
    by (auto simp: cc_has_def cc_all.simps [of "cc_print ds"] split: option.splits)
  also have "\<dots> \<longleftrightarrow> list_ex (\<lambda>d. name_is (fst d) (ascii name)) ds"
    by (auto simp: all_print [OF assms] list_ex_iff filter_empty_conv)
  finally show ?thesis using all_print [OF assms] by simp
qed

definition demo_directives :: "directive list" where
  "demo_directives = [(ascii ''private'', Some (ascii [CHR 0x22] @ ascii ''no-store, max-age=0'' @ ascii [CHR 0x22])),
    (ascii ''Max-Age'', Some (ascii ''60'')), (ascii ''public'', None)]"

theorem cc_print_parse_witness:
  "cc_all (cc_print demo_directives) (ascii ''max-age'') = [Some (ascii ''60'')] \<and>
    \<not> cc_has (cc_print demo_directives) ''no-store'' \<and> cc_has (cc_print demo_directives) ''public''"
proof -
  have wf: "list_all wf_directive demo_directives" by code_simp
  have "map snd (filter (\<lambda>d. name_is (fst d) (ascii ''max-age'')) demo_directives) = [Some (ascii ''60'')]"
    "\<not> list_ex (\<lambda>d. name_is (fst d) (ascii ''no-store'')) demo_directives"
    "list_ex (\<lambda>d. name_is (fst d) (ascii ''public'')) demo_directives"
    by code_simp+
  with cc_print_parse [OF wf, of "''max-age''"] cc_print_parse [OF wf, of "''no-store''"]
    cc_print_parse [OF wf, of "''public''"] show ?thesis by simp
qed

definition demo_policy_conf :: policy_conf where
  "demo_policy_conf = store_conf.extend demo_conf
    \<lparr>ignore_set_cookie = [ascii ''_ga''], key_cookies = [], backend_presets = 0\<rparr>"

definition demo_lines :: "tbl_elt list" where
  "demo_lines =
    [\<lparr>te_hash = 1, te_key = ascii ''Cache-Control'', te_value = ascii ''public, max-age=60''\<rparr>,
     \<lparr>te_hash = 1, te_key = ascii ''CDN-Cache-Control'', te_value = ascii ''max-age=300''\<rparr>,
     \<lparr>te_hash = 1, te_key = ascii ''set-cookie'', te_value = ascii ''_ga=1; Path=/''\<rparr>]"



theorem req_bounds_strictest_witness:
  "req_max_age (resolve_req_cc
      [\<lparr>te_hash = 1, te_key = ascii ''Cache-Control'', te_value = ascii ''max-age=60, no-store''\<rparr>,
       \<lparr>te_hash = 1, te_key = ascii ''cache-control'', te_value = ascii ''max-age=10''\<rparr>] fresh_req_cc) = 10"
proof -
  let ?hs = "[\<lparr>te_hash = 1, te_key = ascii ''Cache-Control'', te_value = ascii ''max-age=60, no-store''\<rparr>,
       \<lparr>te_hash = 1, te_key = ascii ''cache-control'', te_value = ascii ''max-age=10''\<rparr>]"
  have "line_deltas ?hs ''max-age'' = [60, 10]" by code_simp
  then have "usable (line_deltas ?hs ''max-age'') = {60, 10}" by simp
  with req_bounds_strictest [of ?hs] show ?thesis by (simp add: Let_def)
qed

end
