(* ===== verification/Normalize.thy ===== *)
theory Normalize
  imports Cache_Control Rbtree "HOL-Library.List_Lexorder" "HOL-Library.Multiset"
begin

text \<open>
  The normalised query string (\<^verbatim>\<open>vary.c\<close>: \<open>pat_match\<close>, the denylist with its first-byte bitmap,
  \<open>tok_cmp\<close>, \<open>device_class\<close>, \<open>vary_suffix\<close>; \<^verbatim>\<open>module.c\<close>: \<open>normalized_args_variable\<close>): parameters on
  the denylist are dropped, the rest is sorted, the class suffix is appended. The result is part
  of the default cache key, so both what it identifies and what it keeps apart matter.
\<close>

subsection \<open>The denylist\<close>

abbreviation STAR :: u8 where "STAR \<equiv> 0x2A"
abbreviation AMP :: u8 where "AMP \<equiv> 0x26"
abbreviation QMARK :: u8 where "QMARK \<equiv> 0x3F"
abbreviation US :: u8 where "US \<equiv> 0x1F"

definition default_strip :: "bytes list" where
  "default_strip = map ascii [''utm_*'', ''fbclid'', ''gclid'', ''msclkid'', ''mc_eid'', ''_ga'',
    ''ref'', ''sid'', ''sessionid'', ''tmp_*'']"

definition pat_match :: "bytes \<Rightarrow> bytes \<Rightarrow> bool" where
  "pat_match pat name =
    (if length pat > 0 \<and> last pat = STAR
     then length name \<ge> length pat - 1 \<and> ngx_strncasecmp name pat (length pat - 1) = 0
     else length name = length pat \<and> ngx_strncasecmp name pat (length name) = 0)"

definition bitmap_set :: "bytes \<Rightarrow> u8 \<Rightarrow> bytes" where
  "bitmap_set bm b =
    bm[unat b div 8 := bm ! (unat b div 8) OR push_bit (unat b mod 8) 1]"

definition bitmap_get :: "bytes \<Rightarrow> u8 \<Rightarrow> bool" where
  "bitmap_get bm b \<longleftrightarrow> bm ! (unat b div 8) AND push_bit (unat b mod 8) 1 \<noteq> 0"

definition pat_is_wildcard_all :: "bytes \<Rightarrow> bool" where
  "pat_is_wildcard_all pat \<longleftrightarrow> length pat = 0 \<or> length pat = 1 \<and> pat ! 0 = STAR"

definition ngx_tolower :: "u8 \<Rightarrow> u8" where
  "ngx_tolower c = (if 0x41 \<le> c \<and> c \<le> 0x5A then c OR 0x20 else c)"

definition ngx_toupper :: "u8 \<Rightarrow> u8" where
  "ngx_toupper c = (if 0x61 \<le> c \<and> c \<le> 0x7A then c AND NOT 0x20 else c)"

record strip_conf =
  normalize_strip :: "bytes list"
  strip_bitmap :: bytes
  strip_bitmap_all :: bool
  normalize_max_args :: int
  normalize_vary :: int

definition strip_pat :: "bytes \<Rightarrow> strip_conf \<Rightarrow> strip_conf" where
  "strip_pat pat clcf =
    (if pat_is_wildcard_all pat then clcf\<lparr>strip_bitmap_all := True\<rparr>
     else let b = pat ! 0;
              bm = bitmap_set (strip_bitmap clcf) (ngx_tolower b)
          in clcf\<lparr>strip_bitmap := bitmap_set bm (ngx_toupper b)\<rparr>)"

definition build_strip_bitmap :: "strip_conf \<Rightarrow> strip_conf" where
  "build_strip_bitmap clcf =
    (let clcf = clcf\<lparr>strip_bitmap := replicate 32 0, strip_bitmap_all := False\<rparr>;
         clcf = fold strip_pat default_strip clcf
     in fold strip_pat (normalize_strip clcf) clcf)"

definition name_denied :: "strip_conf \<Rightarrow> bytes \<Rightarrow> bool" where
  "name_denied clcf name =
    (if \<not> strip_bitmap_all clcf \<and> length name > 0 \<and> \<not> bitmap_get (strip_bitmap clcf) (name ! 0) then False
     else if list_ex (\<lambda>pat. pat_match pat name) default_strip then True
     else list_ex (\<lambda>pat. pat_match pat name) (normalize_strip clcf))"

subsection \<open>Sorting the tokens\<close>

definition tok_cmp :: "bytes \<Rightarrow> bytes \<Rightarrow> int" where
  "tok_cmp a b =
    (let n = min (length a) (length b);
         rc = memcmp (take n a) (take n b)
     in if rc \<noteq> 0 then rc else int (length a) - int (length b))"

fun sort_shift :: "bytes list \<Rightarrow> nat \<Rightarrow> bytes \<Rightarrow> bytes list" where
  "sort_shift toks 0 tmp = toks[0 := tmp]"
| "sort_shift toks (Suc j) tmp =
    (if tok_cmp (toks ! j) tmp > 0 then sort_shift (toks[Suc j := toks ! j]) j tmp
     else toks[Suc j := tmp])"

function sort_toks :: "bytes list \<Rightarrow> nat \<Rightarrow> bytes list" where
  "sort_toks toks i =
    (if i < length toks then sort_toks (sort_shift toks i (toks ! i)) (Suc i) else toks)"
  by pat_completeness auto

lemma length_sort_shift [simp]: "length (sort_shift toks j tmp) = length toks"
  by (induction toks j tmp rule: sort_shift.induct) auto

termination sort_toks
  by (relation "measure (\<lambda>(toks, i). length toks - i)") auto

declare sort_toks.simps [simp del]

subsection \<open>The classes of the suffix\<close>

definition VARY_ENCODING :: int where "VARY_ENCODING = 1"
definition VARY_DEVICE :: int where "VARY_DEVICE = 2"
definition VARY_LANG :: int where "VARY_LANG = 4"
definition VARY_ORIGIN :: int where "VARY_ORIGIN = 8"

lemmas vary_bits = VARY_ENCODING_def VARY_DEVICE_def VARY_LANG_def VARY_ORIGIN_def

definition match_lc :: "bytes \<Rightarrow> bytes \<Rightarrow> bool" where
  "match_lc p needle =
    (if length p < length needle then False
     else list_all (\<lambda>i. lc_byte (p ! i) = needle ! i) [1 ..< length needle])"

fun device_scan :: "bytes \<Rightarrow> string" where
  "device_scan [] = ''desktop''"
| "device_scan (c # cs) =
    (if lc_byte c = 0x6D \<and> match_lc (c # cs) (ascii ''mobi'') then ''mobile''
     else if lc_byte c = 0x61 \<and> match_lc (c # cs) (ascii ''android'') then ''mobile''
     else if lc_byte c = 0x69 \<and> match_lc (c # cs) (ascii ''iphone'') then ''mobile''
     else device_scan cs)"

definition device_class :: "bytes option \<Rightarrow> bytes" where
  "device_class ua =
    (case ua of None \<Rightarrow> ascii ''desktop''
     | Some v \<Rightarrow> if v = [] then ascii ''desktop'' else ascii (device_scan v))"

definition ae_bytes :: "ae_name \<Rightarrow> bytes" where
  "ae_bytes n = ascii (case n of AE_zstd \<Rightarrow> ''zstd'' | AE_br \<Rightarrow> ''br'' | AE_gzip \<Rightarrow> ''gzip''
    | AE_identity \<Rightarrow> ''identity'')"

definition vary_suffix :: "bytes option \<Rightarrow> bytes option \<Rightarrow> int \<Rightarrow> bytes" where
  "vary_suffix ae ua vary =
    (if vary = - 1 \<or> vary = 0 then []
     else (if vary AND VARY_ENCODING \<noteq> 0 then US # ascii ''ae='' @ ae_bytes (ae_class ae) else [])
        @ (if vary AND VARY_DEVICE \<noteq> 0 then US # ascii ''dev='' @ device_class ua else []))"

subsection \<open>The variable\<close>

text \<open>The tokens kept, as the loop over the argument string collects them.\<close>

function kept_toks :: "strip_conf \<Rightarrow> bytes \<Rightarrow> bytes list" where
  "kept_toks clcf p =
    (if p = [] then []
     else let tok = (case strlchr p AMP of Some i \<Rightarrow> take i p | None \<Rightarrow> p);
              rest = (case strlchr p AMP of Some i \<Rightarrow> drop (Suc i) p | None \<Rightarrow> []);
              nlen = (case strlchr tok EQUALS of Some i \<Rightarrow> i | None \<Rightarrow> length tok)
          in (if tok \<noteq> [] \<and> \<not> name_denied clcf (take nlen tok) then [tok] else [])
             @ kept_toks clcf rest)"
  by pat_completeness auto
termination by (relation "measure (\<lambda>(clcf, p). length p)") (auto split: option.splits)

declare kept_toks.simps [simp del]

fun join_amp :: "bytes list \<Rightarrow> bytes" where
  "join_amp [] = []"
| "join_amp [t] = t"
| "join_amp (t # ts) = t @ AMP # join_amp ts"

text \<open>
  The pool's answers are \<open>pool 0\<close> for the token array (or the lone suffix) and \<open>pool 1\<close> for the
  output. The result is the size the output buffer was allocated with and the bytes written.
\<close>

definition var_set :: "(nat \<Rightarrow> bool) \<Rightarrow> nat \<Rightarrow> bytes \<Rightarrow> (nat \<times> bytes) option" where
  "var_set pool k src =
    (if length src = 0 then Some (0, []) else if pool k then Some (length src, src) else None)"

definition normalized_args :: "(nat \<Rightarrow> bool) \<Rightarrow> strip_conf \<Rightarrow> bytes option \<Rightarrow> bytes option \<Rightarrow> bytes
    \<Rightarrow> (nat \<times> bytes) option" where
  "normalized_args pool clcf ae ua args =
    (let vbuf = vary_suffix ae ua (normalize_vary clcf)
     in if length args = 0 then var_set pool 0 vbuf
        else if \<not> pool 0 then None
        else let toks = kept_toks clcf args; kept = length toks;
                 total = sum_list (map length toks)
             in if kept = 0 then var_set pool 1 vbuf
                else if normalize_max_args clcf > 0 \<and> int kept > normalize_max_args clcf
                then (if pool 1 then Some (1 + length args + length vbuf, QMARK # args @ vbuf) else None)
                else if pool 1
                then Some (total + 1 + (kept - 1) + length vbuf, QMARK # join_amp (sort_toks toks 1) @ vbuf)
                else None)"

subsection \<open>The bitmap loses nothing\<close>

lemma bitmap_bit: "bitmap_get bm b \<longleftrightarrow> vbit bm (unat b)"
proof -
  show ?thesis by (simp add: bitmap_get_def vbit_def bit_iff_and_push_bit_not_eq_0)
qed

lemma length_bitmap_set [simp]: "length (bitmap_set bm b) = length bm"
  by (simp add: bitmap_set_def)

lemma bitmap_get_set: "length bm = 32 \<Longrightarrow> bitmap_get (bitmap_set bm b) c \<longleftrightarrow> bitmap_get bm c \<or> b = c"
proof -
  assume "length bm = 32"
  moreover have "unat x div 8 < 32" for x :: u8 using unat_u8_less [of x] by simp
  ultimately have "bitmap_get (bitmap_set bm b) c \<longleftrightarrow> unat b = unat c \<or> vbit bm (unat c)"
    unfolding bitmap_bit bitmap_set_def by (subst vbit_set) auto
  then show ?thesis unfolding bitmap_bit by (auto simp: word_unat_eq_iff)
qed

lemma fold_case:
  assumes "lc_byte a = lc_byte b"
  shows "a = ngx_tolower b \<or> a = ngx_toupper b"
proof -
  have up: "(c OR 0x20) AND NOT 0x20 = c \<and> 0x61 \<le> c OR 0x20 \<and> c OR 0x20 \<le> 0x7A \<and> \<not> (0x61 \<le> c \<and> c \<le> 0x7A)"
    if "0x41 \<le> c" "c \<le> 0x5A" for c :: u8
  proof -
    have "0x41 \<le> unat c" "unat c < 0x5B" using that by (simp_all add: word_le_nat_alt)
    then have "unat c \<in> set [0x41..<0x5B]" by (simp only: set_upt atLeastLessThan_iff)
    then have "of_nat (unat c) \<in> set (map of_nat [0x41..<0x5B])" by (simp only: set_map) (rule imageI)
    moreover have "(of_nat (unat c) :: u8) = c" by simp
    ultimately have "c \<in> set (map of_nat [0x41..<0x5B])" by metis
    moreover have "list_all (\<lambda>c :: u8. (c OR 0x20) AND NOT 0x20 = c \<and> 0x61 \<le> c OR 0x20 \<and> c OR 0x20 \<le> 0x7A
        \<and> \<not> (0x61 \<le> c \<and> c \<le> 0x7A)) (map of_nat [0x41..<0x5B])"
      by code_simp
    ultimately show ?thesis by (simp only: list_all_iff) blast
  qed
  show ?thesis
  proof (cases "0x41 \<le> a \<and> a \<le> 0x5A")
    case False
    then have "a = ngx_tolower b" using assms by (auto simp: lc_byte_def ngx_tolower_def)
    then show ?thesis ..
  next
    case a: True
    show ?thesis
    proof (cases "0x41 \<le> b \<and> b \<le> 0x5A")
      case True
      then have "a OR 0x20 = b OR 0x20" using assms a by (simp add: lc_byte_def)
      then have "a = b" using up [of a] up [of b] a True by metis
      then have "\<not> (0x61 \<le> b \<and> b \<le> 0x7A)" using up [of b] True by blast
      then show ?thesis using \<open>a = b\<close> by (auto simp: ngx_toupper_def)
    next
      case False
      then have "b = a OR 0x20" using assms a by (auto simp: lc_byte_def)
      then show ?thesis using up [of a] a by (simp add: ngx_toupper_def)
    qed
  qed
qed

definition covered :: "strip_conf \<Rightarrow> bytes \<Rightarrow> bool" where
  "covered clcf pat \<longleftrightarrow> length (strip_bitmap clcf) = 32 \<and>
    (strip_bitmap_all clcf \<or> \<not> pat_is_wildcard_all pat \<and>
      bitmap_get (strip_bitmap clcf) (ngx_tolower (pat ! 0)) \<and>
      bitmap_get (strip_bitmap clcf) (ngx_toupper (pat ! 0)))"

lemma strip_pat_covers:
  assumes "length (strip_bitmap clcf) = 32"
  shows "covered (strip_pat pat clcf) pat" "covered clcf p \<Longrightarrow> covered (strip_pat pat clcf) p"
    "length (strip_bitmap (strip_pat pat clcf)) = 32" "normalize_strip (strip_pat pat clcf) = normalize_strip clcf"
  using assms by (auto simp: covered_def strip_pat_def Let_def bitmap_get_set)

lemma fold_strip_pat:
  assumes "length (strip_bitmap clcf) = 32"
  shows "length (strip_bitmap (fold strip_pat pats clcf)) = 32 \<and>
    normalize_strip (fold strip_pat pats clcf) = normalize_strip clcf \<and>
    (\<forall>p. covered clcf p \<longrightarrow> covered (fold strip_pat pats clcf) p) \<and>
    (\<forall>p \<in> set pats. covered (fold strip_pat pats clcf) p)"
  using assms
proof (induction pats arbitrary: clcf)
  case (Cons pat pats)
  from Cons.IH [OF strip_pat_covers(3) [OF Cons.prems, of pat]] strip_pat_covers [OF Cons.prems]
  show ?case by auto
qed simp

lemma build_covers:
  "p \<in> set default_strip \<union> set (normalize_strip clcf) \<Longrightarrow> covered (build_strip_bitmap clcf) p"
  "normalize_strip (build_strip_bitmap clcf) = normalize_strip clcf"
proof -
  define c0 where "c0 = clcf\<lparr>strip_bitmap := replicate 32 0, strip_bitmap_all := False\<rparr>"
  define c1 where "c1 = fold strip_pat default_strip c0"
  have b: "build_strip_bitmap clcf = fold strip_pat (normalize_strip clcf) c1"
  proof -
    have "normalize_strip c1 = normalize_strip clcf"
      using fold_strip_pat [of c0 default_strip] by (simp add: c1_def c0_def)
    then show ?thesis by (simp add: build_strip_bitmap_def Let_def c1_def c0_def)
  qed
  have c0: "length (strip_bitmap c0) = 32" by (simp add: c0_def)
  note f1 = fold_strip_pat [OF c0, of default_strip, folded c1_def]
  note f2 = fold_strip_pat [of c1 "normalize_strip clcf"]
  show "normalize_strip (build_strip_bitmap clcf) = normalize_strip clcf"
    unfolding b using f1 f2 by (simp add: c0_def)
  assume "p \<in> set default_strip \<union> set (normalize_strip clcf)"
  then show "covered (build_strip_bitmap clcf) p" unfolding b using f1 f2 by auto
qed

lemma pat_match_first:
  assumes "pat_match pat name" and "\<not> pat_is_wildcard_all pat" and "name \<noteq> []"
  shows "lc_byte (name ! 0) = lc_byte (pat ! 0)"
proof -
  have first: "ngx_strncasecmp name pat (Suc n) = 0 \<Longrightarrow> ?thesis" if "pat \<noteq> []" for n
    using that assms(3) by (cases name; cases pat) (auto simp: ngx_strncasecmp.simps(2) Let_def cur_byte_def word_uint_eq_iff split: if_splits)
  show ?thesis
  proof (cases "length pat > 0 \<and> last pat = STAR")
    case True
    then have "2 \<le> length pat" using assms(2)
      by (cases pat rule: rev_cases) (auto simp: pat_is_wildcard_all_def Suc_le_eq)
    then obtain n where "length pat - 1 = Suc n" by (cases "length pat - 1") auto
    moreover have "pat \<noteq> []" using True by auto
    ultimately show ?thesis using True assms(1) first [of n] by (simp add: pat_match_def)
  next
    case False
    then have "length name = length pat" "ngx_strncasecmp name pat (length name) = 0"
      using assms(1) by (auto simp: pat_match_def split: if_splits)
    moreover obtain n where "length name = Suc n" using assms(3) by (cases name) auto
    ultimately show ?thesis using first [of n] by (cases pat) auto
  qed
qed

text \<open>
  The first-byte bitmap is only a shortcut: with the bitmap the configuration merge builds, a name
  is denied exactly when some built-in or configured pattern matches it, for every name and every
  list of patterns, wildcards and empty patterns included.
\<close>

theorem name_denied_bitmap:
  "name_denied (build_strip_bitmap clcf) name \<longleftrightarrow>
    (\<exists>pat \<in> set default_strip \<union> set (normalize_strip clcf). pat_match pat name)"
proof -
  let ?c = "build_strip_bitmap clcf"
  have "\<not> pat_match pat name"
    if "\<not> strip_bitmap_all ?c" "name \<noteq> []" "\<not> bitmap_get (strip_bitmap ?c) (name ! 0)"
      "pat \<in> set default_strip \<union> set (normalize_strip clcf)" for pat
  proof
    assume m: "pat_match pat name"
    have cov: "covered ?c pat" using that(4) by (rule build_covers)
    then have w: "\<not> pat_is_wildcard_all pat" using that(1) by (simp add: covered_def)
    from fold_case [OF pat_match_first [OF m w that(2)]] cov that(1,3) show False
      by (auto simp: covered_def)
  qed
  then show ?thesis
    by (auto simp: name_denied_def build_covers(2) list_ex_iff)
qed

subsection \<open>The sort\<close>

lemma tok_cmp_pos: "tok_cmp a b > 0 \<longleftrightarrow> b < a"
proof -
  have "tok_cmp (x # a) (y # b) = (if x < y then - 1 else if y < x then 1 else tok_cmp a b)" for x y a b
    by (simp add: tok_cmp_def Let_def)
  moreover have "tok_cmp [] b = - int (length b)" "tok_cmp a [] = int (length a)" for a b
    by (simp_all add: tok_cmp_def)
  ultimately show ?thesis
  proof (induction a arbitrary: b)
    case (Cons x a)
    show ?case
    proof (cases b)
      case (Cons y c)
      then show ?thesis using Cons.IH [of c] Cons.prems by (simp only: Cons_less_Cons) auto
    qed (simp add: Cons.prems)
  qed simp
qed

lemma sort_shift_filter:
  "sorted xs \<Longrightarrow> sort_shift (xs @ y # zs) (length xs) tmp
     = filter (\<lambda>x. x \<le> tmp) xs @ tmp # filter (\<lambda>x. tmp < x) xs @ zs"
proof (induction xs arbitrary: y zs rule: rev_induct)
  case (snoc x xs)
  show ?case
  proof (cases "tmp < x")
    case True
    then show ?thesis using snoc.IH [of x "x # zs"] snoc.prems
      by (simp add: tok_cmp_pos nth_append sorted_append not_le list_update_append)
  next
    case False
    then have "\<forall>u \<in> set (xs @ [x]). u \<le> tmp" using snoc.prems by (auto simp: sorted_append not_less)
    then have "filter (\<lambda>x. x \<le> tmp) (xs @ [x]) = xs @ [x]" "filter (\<lambda>x. tmp < x) (xs @ [x]) = []"
      by (auto simp: filter_id_conv filter_empty_conv not_less)
    then show ?thesis using False
      by (simp add: tok_cmp_pos nth_append list_update_append del: filter_append)
  qed
qed simp

lemma sort_toks_from:
  "sorted xs \<Longrightarrow> sorted (sort_toks (xs @ zs) (length xs)) \<and> mset (sort_toks (xs @ zs) (length xs)) = mset (xs @ zs)"
proof (induction zs arbitrary: xs)
  case Nil
  then show ?case by (simp add: sort_toks.simps)
next
  case (Cons z zs)
  define ys where "ys = filter (\<lambda>x. x \<le> z) xs @ z # filter (\<lambda>x. z < x) xs"
  have "mset ys = add_mset z (mset xs)"
    using multiset_partition [of "mset xs" "\<lambda>x. x \<le> z"] by (simp add: ys_def not_le)
  moreover from this have "length ys = Suc (length xs)" by (metis size_mset size_add_mset)
  moreover have "sorted ys" using Cons.prems
    by (auto simp: ys_def sorted_append sorted_wrt_filter less_imp_le intro: order_trans less_imp_le)
  moreover have "sort_toks (xs @ z # zs) (length xs) = sort_toks (ys @ zs) (Suc (length xs))"
    by (subst sort_toks.simps) (simp add: sort_shift_filter [OF Cons.prems] ys_def)
  ultimately show ?case using Cons.IH [of ys] by simp
qed

lemma sort_toks_sort: "sort_toks toks (Suc 0) = sort toks"
proof (cases toks)
  case (Cons t ts)
  have "sorted [t]" by simp
  from sort_toks_from [OF this, of ts] Cons
  have "sorted (sort_toks toks (Suc 0))" "mset (sort_toks toks (Suc 0)) = mset toks" by simp_all
  then show ?thesis by (metis properties_for_sort)
qed (simp add: sort_toks.simps)

subsection \<open>What the key identifies and what it keeps apart\<close>

lemma strlchr_Some: "strlchr p c = Some i \<Longrightarrow> i < length p \<and> p ! i = c \<and> c \<notin> set (take i p)"
  by (induction p c arbitrary: i rule: strlchr.induct) (auto split: if_splits)

lemma strlchr_None: "strlchr p c = None \<longleftrightarrow> c \<notin> set p"
  by (induction p c rule: strlchr.induct) auto

lemma kept_toks_Nil [simp]: "kept_toks clcf [] = []"
  by (simp add: kept_toks.simps)

lemma kept_toks_props:
  "(\<forall>t \<in> set (kept_toks clcf p). t \<noteq> [] \<and> AMP \<notin> set t \<and> set t \<subseteq> set p)
    \<and> (p \<noteq> [] \<longrightarrow> length (kept_toks clcf p) \<le> count_list p AMP + 1)"
proof (induction clcf p rule: kept_toks.induct)
  case (1 clcf p)
  show ?case
  proof (cases "p = [] \<or> AMP \<notin> set p")
    case True
    then show ?thesis
      by (cases "p = []") (auto simp: kept_toks.simps [of _ p] Let_def strlchr_None [THEN iffD2])
  next
    case False
    then obtain i where i: "strlchr p AMP = Some i" by (cases "strlchr p AMP") (auto simp: strlchr_None)
    note p = strlchr_Some [OF i]
    have "count_list (take i p @ p ! i # drop (Suc i) p) AMP = 1 + count_list (drop (Suc i) p) AMP"
      using p by (simp add: count_list_0_iff)
    then have cnt: "count_list p AMP = 1 + count_list (drop (Suc i) p) AMP"
      using p by (metis id_take_nth_drop)
    have k: "kept_toks clcf p = (if take i p \<noteq> [] \<and> \<not> name_denied clcf (take (case strlchr (take i p) EQUALS of
        Some i \<Rightarrow> i | None \<Rightarrow> length (take i p)) (take i p)) then [take i p] else []) @ kept_toks clcf (drop (Suc i) p)"
      using False i by (subst kept_toks.simps) (auto simp: Let_def)
    have IH: "(\<forall>t \<in> set (kept_toks clcf (drop (Suc i) p)). t \<noteq> [] \<and> AMP \<notin> set t \<and> set t \<subseteq> set (drop (Suc i) p))
      \<and> (drop (Suc i) p \<noteq> [] \<longrightarrow> length (kept_toks clcf (drop (Suc i) p)) \<le> count_list (drop (Suc i) p) AMP + 1)"
      using "1.IH" [OF _ refl refl refl] False i by auto
    have len: "length (kept_toks clcf (drop (Suc i) p)) \<le> count_list (drop (Suc i) p) AMP + 1"
      using IH by (cases "drop (Suc i) p = []") auto
    show ?thesis unfolding k using IH p cnt len
      by (auto dest: in_set_takeD in_set_dropD)
  qed
qed

lemma length_join_amp: "ts \<noteq> [] \<Longrightarrow> length (join_amp ts) = sum_list (map length ts) + (length ts - 1)"
  by (induction ts rule: join_amp.induct) auto

lemma join_amp_inj:
  "\<forall>t \<in> set ts. AMP \<notin> set t \<Longrightarrow> \<forall>t \<in> set us. AMP \<notin> set t \<Longrightarrow> ts \<noteq> [] \<Longrightarrow> us \<noteq> [] \<Longrightarrow>
    join_amp ts = join_amp us \<Longrightarrow> ts = us"
proof (induction ts arbitrary: us rule: join_amp.induct)
  case (2 t)
  then obtain u us' where us: "us = u # us'" by (cases us) auto
  have "AMP \<notin> set (join_amp us)" using 2 by (metis join_amp.simps(2) list.set_intros(1))
  then show ?case using us 2 by (cases us') auto
next
  case (3 t t' ts)
  then obtain u us' where us: "us = u # us'" by (cases us) auto
  have "AMP \<in> set (join_amp us)" using 3(6) [symmetric] by simp
  moreover have "AMP \<notin> set u" using 3(3) us by simp
  ultimately obtain u' us'' where us': "us' = u' # us''" using us by (cases us') auto
  have eq: "t @ AMP # join_amp (t' # ts) = u @ AMP # join_amp (u' # us'')" using 3(6) us us' by simp
  have "AMP \<notin> set t" using 3(2) by simp
  then have "t = u" using \<open>AMP \<notin> set u\<close> arg_cong [OF eq, of "takeWhile (\<lambda>c. c \<noteq> AMP)"]
    by (simp add: takeWhile_append takeWhile_eq_all_conv [THEN iffD2] split: if_splits)
  moreover have "t' # ts = u' # us''" using "3.IH" [of "u' # us''"] 3(2,3) us us' eq calculation by simp
  ultimately show ?case using us us' by simp
qed simp

lemma set_join_amp: "set (join_amp ts) \<subseteq> insert AMP (\<Union> (set ` set ts))"
  by (induction ts rule: join_amp.induct) auto

lemma vary_suffix_hd: "vary_suffix ae ua v \<noteq> [] \<Longrightarrow> hd (vary_suffix ae ua v) = US"
  by (auto simp: vary_suffix_def)

abbreviation body_of :: "strip_conf \<Rightarrow> bytes \<Rightarrow> bytes" where
  "body_of clcf args \<equiv> (if kept_toks clcf args = [] then []
    else QMARK # join_amp (sort (kept_toks clcf args)))"

lemma normalized_args_bytes:
  assumes "normalize_max_args clcf \<le> 0 \<or> int (length (kept_toks clcf args)) \<le> normalize_max_args clcf"
  shows "map_option snd (normalized_args (\<lambda>_. True) clcf ae ua args)
    = Some (body_of clcf args @ vary_suffix ae ua (normalize_vary clcf))"
  using assms by (auto simp: normalized_args_def var_set_def Let_def sort_toks_sort)

lemma body_of_US: "US \<notin> set args \<Longrightarrow> US \<notin> set (body_of clcf args)"
  using kept_toks_props [of clcf args] set_join_amp [of "sort (kept_toks clcf args)"]
  by (auto 0 4 dest!: subsetD)

lemma split_US:
  assumes "US \<notin> set x" "US \<notin> set y" "v \<noteq> [] \<Longrightarrow> hd v = US" "w \<noteq> [] \<Longrightarrow> hd w = US"
  shows "x @ v = y @ w \<longleftrightarrow> x = y \<and> v = w"
proof
  assume e: "x @ v = y @ w"
  have t: "takeWhile (\<lambda>c. c \<noteq> US) (z @ u) = z" if "US \<notin> set z" "u \<noteq> [] \<Longrightarrow> hd u = US" for z u :: bytes
    using that by (cases u) (auto simp: takeWhile_append takeWhile_eq_all_conv [THEN iffD2] split: if_splits)
  have "x = y" using t [OF assms(1,3)] t [OF assms(2,4)] e by metis
  then show "x = y \<and> v = w" using e by simp
qed simp

lemma body_of_eq: "body_of clcf args = body_of clcf args' \<longleftrightarrow> mset (kept_toks clcf args) = mset (kept_toks clcf args')"
proof
  assume e: "body_of clcf args = body_of clcf args'"
  show "mset (kept_toks clcf args) = mset (kept_toks clcf args')"
  proof (cases "kept_toks clcf args = [] \<or> kept_toks clcf args' = []")
    case True
    then show ?thesis using e by (auto split: if_splits)
  next
    case False
    then have "join_amp (sort (kept_toks clcf args)) = join_amp (sort (kept_toks clcf args'))" using e by simp
    then have "sort (kept_toks clcf args) = sort (kept_toks clcf args')"
      using False kept_toks_props [of clcf args] kept_toks_props [of clcf args']
      by (intro join_amp_inj) (auto dest: arg_cong [of _ _ length])
    then show ?thesis by (metis mset_sort)
  qed
next
  assume e: "mset (kept_toks clcf args) = mset (kept_toks clcf args')"
  then have "sort (kept_toks clcf args) = sort (kept_toks clcf args')" by (metis sorted_list_of_multiset_mset)
  moreover have "kept_toks clcf args = [] \<longleftrightarrow> kept_toks clcf args' = []" using e by (metis mset_zero_iff)
  ultimately show "body_of clcf args = body_of clcf args'" by simp
qed

text \<open>
  C37: Two requests below the argument cap, neither carrying the separator byte of the class suffix in
  its arguments, get the same normalised arguments exactly when they have the same parameters left
  after the denylist, in any order and counted with repetitions, and the same class suffix.
\<close>

theorem normalized_args_key:
  assumes "US \<notin> set args" and "US \<notin> set args'"
    and "normalize_max_args clcf \<le> 0 \<or> int (length (kept_toks clcf args)) \<le> normalize_max_args clcf"
    and "normalize_max_args clcf \<le> 0 \<or> int (length (kept_toks clcf args')) \<le> normalize_max_args clcf"
  shows "map_option snd (normalized_args (\<lambda>_. True) clcf ae ua args)
      = map_option snd (normalized_args (\<lambda>_. True) clcf ae' ua' args')
    \<longleftrightarrow> mset (kept_toks clcf args) = mset (kept_toks clcf args')
      \<and> vary_suffix ae ua (normalize_vary clcf) = vary_suffix ae' ua' (normalize_vary clcf)"
  unfolding normalized_args_bytes [OF assms(3)] normalized_args_bytes [OF assms(4)] option.inject
    body_of_eq [symmetric]
  by (intro split_US body_of_US vary_suffix_hd assms)

definition demo_strip :: strip_conf where
  "demo_strip = build_strip_bitmap
    \<lparr>normalize_strip = [ascii ''Track*''], strip_bitmap = [], strip_bitmap_all = False,
     normalize_max_args = 3, normalize_vary = 3\<rparr>"

theorem normalized_args_key_witness:
  "map_option snd (normalized_args (\<lambda>_. True) demo_strip (Some (ascii ''br'')) None
      (ascii ''b=2&tracker=7&a=1''))
    = map_option snd (normalized_args (\<lambda>_. True) demo_strip (Some (ascii ''br;q=1'')) (Some (ascii ''curl''))
      (ascii ''a=1&&b=2''))
   \<and> map_option snd (normalized_args (\<lambda>_. True) demo_strip (Some (ascii ''br'')) None
      (ascii ''b=2&tracker=7&a=1'')) = Some (ascii ''?a=1&b=2'' @ US # ascii ''ae=br'' @ US # ascii ''dev=desktop'')"
proof -
  have "US \<notin> set (ascii ''b=2&tracker=7&a=1'')" "US \<notin> set (ascii ''a=1&&b=2'')" by code_simp+
  moreover have "int (length (kept_toks demo_strip (ascii ''b=2&tracker=7&a=1''))) \<le> normalize_max_args demo_strip"
    "int (length (kept_toks demo_strip (ascii ''a=1&&b=2''))) \<le> normalize_max_args demo_strip" by code_simp+
  moreover have "mset (kept_toks demo_strip (ascii ''b=2&tracker=7&a=1'')) = mset (kept_toks demo_strip (ascii ''a=1&&b=2''))"
    by code_simp
  moreover have "vary_suffix (Some (ascii ''br'')) None (normalize_vary demo_strip)
    = vary_suffix (Some (ascii ''br;q=1'')) (Some (ascii ''curl'')) (normalize_vary demo_strip)" by code_simp
  ultimately have "map_option snd (normalized_args (\<lambda>_. True) demo_strip (Some (ascii ''br'')) None
      (ascii ''b=2&tracker=7&a=1''))
    = map_option snd (normalized_args (\<lambda>_. True) demo_strip (Some (ascii ''br;q=1'')) (Some (ascii ''curl''))
      (ascii ''a=1&&b=2''))"
    using normalized_args_key by blast
  moreover have "map_option snd (normalized_args (\<lambda>_. True) demo_strip (Some (ascii ''br'')) None
      (ascii ''b=2&tracker=7&a=1'')) = Some (ascii ''?a=1&b=2'' @ US # ascii ''ae=br'' @ US # ascii ''dev=desktop'')"
    by code_simp
  ultimately show ?thesis ..
qed

lemma length_device_scan: "length (device_scan cs) \<le> 7"
  by (induction cs rule: device_scan.induct) auto

text \<open>
  The variable never writes past what it allocated: the class suffix fits its stack buffer, the
  token array has room for every token kept, and the output is exactly as long as the buffer that
  was allocated for it, above the argument cap as well as below it.
\<close>

theorem normalized_args_fits:
  "length (vary_suffix ae ua v) \<le> 32
   \<and> length (kept_toks clcf args) \<le> count_list args AMP + 1
   \<and> (case normalized_args pool clcf ae ua args of Some (n, out) \<Rightarrow> length out = n | None \<Rightarrow> True)"
proof (intro conjI)
  have "length (device_class ua) \<le> 7"
    by (auto simp: device_class_def ascii_def length_device_scan split: option.split)
  moreover have "length (ae_bytes n) \<le> 8" for n by (cases n) (simp_all add: ae_bytes_def ascii_def)
  then have "length (ae_bytes (ae_class ae)) \<le> 8" .
  ultimately show "length (vary_suffix ae ua v) \<le> 32" by (simp add: vary_suffix_def ascii_def)
  show "length (kept_toks clcf args) \<le> count_list args AMP + 1"
    using kept_toks_props [of clcf args] by (cases "args = []") auto
  have sz: "kept_toks clcf args \<noteq> [] \<Longrightarrow> length (join_amp (sort (kept_toks clcf args)))
      = sum_list (map length (kept_toks clcf args)) + (length (kept_toks clcf args) - 1)"
    by (subst length_join_amp) (auto simp: sum_mset_sum_list [symmetric] dest: arg_cong [of _ _ length])
  show "case normalized_args pool clcf ae ua args of Some (n, out) \<Rightarrow> length out = n | None \<Rightarrow> True"
    using sz by (auto simp: normalized_args_def var_set_def Let_def sort_toks_sort)
qed

end
