(* ===== verification/Decimal.thy ===== *)
theory Decimal
  imports Prelude
begin

text \<open>
  Unsigned decimal numbers as \<open>ngx_sprintf\<close> prints them with \<^verbatim>\<open>%ui\<close> and \<^verbatim>\<open>%uz\<close>, and the value of a run
  of digits: what the wire formats of the module share.
\<close>

function dec_ui :: "nat \<Rightarrow> bytes" where
  "dec_ui n = (if n < 10 then [0x30 + of_nat n] else dec_ui (n div 10) @ [0x30 + of_nat (n mod 10)])"
  by pat_completeness auto
termination by (relation "measure (\<lambda>n. n)") auto

declare dec_ui.simps [simp del]

definition digit_byte :: "u8 \<Rightarrow> bool" where
  "digit_byte c \<longleftrightarrow> 0x30 \<le> c \<and> c \<le> 0x39"

definition dec_nat :: "bytes \<Rightarrow> nat" where
  "dec_nat p = foldl (\<lambda>n c. n * 10 + unat (c - 0x30)) 0 p"

lemma dec_nat_Nil [simp]: "dec_nat [] = 0"
  by (simp add: dec_nat_def)

lemma dec_nat_snoc [simp]: "dec_nat (p @ [c]) = dec_nat p * 10 + unat (c - 0x30)"
  by (simp add: dec_nat_def)

lemma digit_value: "n < 10 \<Longrightarrow> digit_byte (0x30 + of_nat n) \<and> unat ((0x30 + of_nat n :: u8) - 0x30) = n"
proof -
  assume "n < 10"
  then have u: "unat (of_nat n :: u8) = n" by (simp add: unat_of_nat take_bit_nat_eq_self)
  moreover have "unat (0x30 + of_nat n :: u8) = 0x30 + n"
    using u \<open>n < 10\<close> by (subst unat_plus_no_overflow) auto
  ultimately show ?thesis using \<open>n < 10\<close> by (simp add: digit_byte_def word_le_nat_alt)
qed

lemma dec_ui_not_Nil [simp]: "dec_ui n \<noteq> []"
  by (subst dec_ui.simps) simp

lemma dec_ui_digits: "list_all digit_byte (dec_ui n)"
proof (induction n rule: less_induct)
  case (less n)
  show ?case
    using less [of "n div 10"] digit_value [of n] digit_value [of "n mod 10"]
    by (subst dec_ui.simps) auto
qed

lemma dec_nat_dec_ui [simp]: "dec_nat (dec_ui n) = n"
proof (induction n rule: less_induct)
  case (less n)
  show ?case
  proof (cases "n < 10")
    case True
    then show ?thesis using digit_value [of n] by (simp add: dec_ui.simps [of n] dec_nat_def)
  next
    case False
    then show ?thesis using less [of "n div 10"] digit_value [of "n mod 10"]
      by (simp add: dec_ui.simps [of n])
  qed
qed

lemma dec_ui_inj [simp]: "dec_ui m = dec_ui n \<longleftrightarrow> m = n"
  by (metis dec_nat_dec_ui)

text \<open>No leading zero: the printed form has as many digits as the number needs.\<close>

lemma length_dec_ui: "n < 10 ^ k \<Longrightarrow> 0 < k \<Longrightarrow> length (dec_ui n) \<le> k"
proof (induction k arbitrary: n)
  case (Suc k)
  show ?case
  proof (cases "n < 10")
    case False
    then have "0 < k" using Suc.prems by (cases k) auto
    moreover have "n div 10 < 10 ^ k" using Suc.prems by (simp add: less_mult_imp_div_less mult.commute)
    ultimately show ?thesis using Suc.IH [of "n div 10"] False by (simp add: dec_ui.simps [of n])
  qed (simp add: dec_ui.simps)
qed simp

end
