(* ===== verification/Vary.thy ===== *)
theory Vary
  imports Normalize Decimal Zone_Store Blob_Roundtrip
begin

text \<open>
  Automatic Vary handling (\<^verbatim>\<open>vary.c\<close>: \<open>req_header\<close>, \<open>lang_class\<close>, \<open>variant_hash\<close>, \<open>marker_hash\<close>,
  \<open>variant_index_name\<close>, \<open>marker_store\<close>, \<open>vary_apply\<close>, \<open>response_encoded\<close>, \<open>classify_vary\<close>). A response
  that varies on a known axis is stored under a variant key; a marker under a third key records the
  axes and the purge generation, so that the next request finds its variant. The SHA-256 digest is
  OpenSSL's and comes in as \<open>dig\<close>, which may fail; \<open>crc\<close> is \<open>ngx_crc32_short\<close>.
\<close>

subsection \<open>The axes of a request\<close>

fun req_header :: "tbl_elt list \<Rightarrow> string \<Rightarrow> bytes" where
  "req_header [] name = []"
| "req_header (h # hs) name =
    (if te_hash h = 0 \<or> length (te_key h) \<noteq> length name then req_header hs name
     else if ngx_strncasecmp (te_key h) (ascii name) (length name) = 0 then te_value h
     else req_header hs name)"

definition LANG_CLASS_MAX :: nat where "LANG_CLASS_MAX = 8"

abbreviation SEMI :: u8 where "SEMI \<equiv> 0x3B"
abbreviation DASH :: u8 where "DASH \<equiv> 0x2D"

definition lang_class :: "tbl_elt list \<Rightarrow> bytes" where
  "lang_class hs =
    (let v = req_header hs ''Accept-Language''
     in if length v = 0 then []
        else let range = takeWhile (\<lambda>c. c \<noteq> COMMA) v;
                 subtag = takeWhile (\<lambda>c. c \<noteq> DASH \<and> c \<noteq> SEMI) range
             in map ngx_tolower (take LANG_CLASS_MAX subtag))"

text \<open>The request as the axes read it: its header list and the two fields nginx keeps typed.\<close>

record vary_req =
  vr_headers :: "tbl_elt list"
  vr_accept_encoding :: "bytes option"
  vr_user_agent :: "bytes option"

subsection \<open>The three slot keys of a base key\<close>

definition variant_material :: "vary_req \<Rightarrow> bytes \<Rightarrow> int \<Rightarrow> nat \<Rightarrow> bytes" where
  "variant_material r base bits gen =
    (let gen = gen mod 256
     in base @ US # ascii ''gen='' @ dec_ui gen
        @ (if bits AND VARY_ENCODING \<noteq> 0
           then US # ascii ''ae='' @ ae_bytes (ae_class (vr_accept_encoding r)) else [])
        @ (if bits AND VARY_DEVICE \<noteq> 0 then US # ascii ''dev='' @ device_class (vr_user_agent r) else [])
        @ (if bits AND VARY_LANG \<noteq> 0 then US # ascii ''lang='' @ lang_class (vr_headers r) else [])
        @ (if bits AND VARY_ORIGIN \<noteq> 0
           then US # ascii ''org='' @ req_header (vr_headers r) ''Origin'' else []))"

definition variant_hash :: "(bytes \<Rightarrow> bytes option) \<Rightarrow> vary_req \<Rightarrow> bytes \<Rightarrow> int \<Rightarrow> nat \<Rightarrow> bytes option" where
  "variant_hash dig r base bits gen = dig (variant_material r base bits gen)"

definition marker_material :: "bytes \<Rightarrow> bytes" where
  "marker_material base = base @ US # ascii ''varymark''"

definition marker_hash :: "(bytes \<Rightarrow> bytes option) \<Rightarrow> bytes \<Rightarrow> bytes option" where
  "marker_hash dig base = dig (marker_material base)"

definition hex_digit :: "u8 \<Rightarrow> u8" where
  "hex_digit n = (if n < 10 then 0x30 + n else 0x61 + (n - 10))"

definition hex_dump :: "bytes \<Rightarrow> bytes" where
  "hex_dump bs = concat (map (\<lambda>b. [hex_digit (drop_bit 4 b), hex_digit (b AND 0xF)]) bs)"

definition varidx_material :: "bytes \<Rightarrow> bytes" where
  "varidx_material base = base @ US # ascii ''varidx''"

definition variant_index_name :: "(bytes \<Rightarrow> bytes option) \<Rightarrow> bytes \<Rightarrow> bytes option" where
  "variant_index_name dig base =
    (case dig (varidx_material base) of None \<Rightarrow> None | Some h \<Rightarrow> Some (0x20 # hex_dump h))"

subsection \<open>Storing a marker\<close>

definition u32_of_ttl :: "time_t \<Rightarrow> u32" where
  "u32_of_ttl t = word_of_int (if t > 0 then t else 0)"

definition marker_hdr :: "time_t \<Rightarrow> time_t \<Rightarrow> time_t \<Rightarrow> blob_hdr" where
  "marker_hdr now ttl retain_ttl =
    \<lparr>bh_magic = 0, bh_version = 0, bh_nheaders = 0, bh_headers_len = 0, bh_body_len = 2,
     bh_status = 200, bh_created = now, bh_fresh = u32_of_ttl ttl, bh_stale = u32_of_ttl retain_ttl,
     bh_sie = 0, bh_flags = 0, bh_date = 0\<rparr>"

definition marker_blob :: "(time_t \<Rightarrow> bytes) \<Rightarrow> bytes \<Rightarrow> time_t \<Rightarrow> int \<Rightarrow> nat \<Rightarrow> time_t \<Rightarrow> time_t
    \<Rightarrow> bytes option" where
  "marker_blob ht stack now bits gen ttl retain_ttl =
    (case blob_hdr_write ht stack (marker_hdr now ttl retain_ttl) of
       None \<Rightarrow> None
     | Some blob \<Rightarrow> wr blob BLOB_HDR_WIRE [word_of_int (bits AND 0xFF), of_nat gen AND 0xFF])"

text \<open>
  \<open>stack\<close> is the uninitialised buffer of the C stack frame; the write to L2 is the second component,
  present when a backend with \<open>set\<close> is configured and the call has a request.
\<close>

definition marker_store_key :: "(bytes \<Rightarrow> u32) \<Rightarrow> (time_t \<Rightarrow> bytes) \<Rightarrow> bytes \<Rightarrow> bool \<Rightarrow> 'p ngx_core \<Rightarrow> 'p zone
    \<Rightarrow> time_t \<Rightarrow> bytes \<Rightarrow> int \<Rightarrow> nat \<Rightarrow> time_t \<Rightarrow> time_t
    \<Rightarrow> (ngx_rc \<times> (bytes \<times> bytes \<times> time_t \<times> time_t) option \<times> 'p zone) option" where
  "marker_store_key crc ht stack l2_set C z now marker_key bits gen ttl retain_ttl =
    (case marker_blob ht stack now bits gen ttl retain_ttl of
       None \<Rightarrow> None
     | Some blob \<Rightarrow>
         (case shm_store_marker C z now marker_key (crc marker_key) blob ttl retain_ttl of
            (rc, z) \<Rightarrow> Some (if rc \<noteq> NGX_OK then (NGX_ERROR, None, z)
              else (NGX_OK, if l2_set then Some (marker_key, blob, ttl, retain_ttl) else None, z))))"

definition marker_store :: "(bytes \<Rightarrow> bytes option) \<Rightarrow> (bytes \<Rightarrow> u32) \<Rightarrow> (time_t \<Rightarrow> bytes) \<Rightarrow> bytes \<Rightarrow> bool
    \<Rightarrow> 'p ngx_core \<Rightarrow> 'p zone \<Rightarrow> time_t \<Rightarrow> bytes \<Rightarrow> int \<Rightarrow> nat \<Rightarrow> time_t \<Rightarrow> time_t
    \<Rightarrow> (ngx_rc \<times> (bytes \<times> bytes \<times> time_t \<times> time_t) option \<times> 'p zone) option" where
  "marker_store dig crc ht stack l2_set C z now base bits gen ttl retain_ttl =
    (case marker_hash dig base of
       None \<Rightarrow> Some (NGX_ERROR, None, z)
     | Some key \<Rightarrow> marker_store_key crc ht stack l2_set C z now key bits gen ttl retain_ttl)"

subsection \<open>Applying a marker\<close>

record vary_ctx =
  vx_cache_key :: bytes
  vx_marker_key :: bytes
  vx_key_hash :: bytes
  vx_gen :: nat
  vx_l1_miss :: bool
  vx_l2_done :: bool
  vx_revalidate :: bool

record breaker_conf =
  bc_enable :: bool
  bc_breaker_enable :: bool
  bc_threshold :: nat
  bc_window :: time_t

definition breaker_should_consult :: "'a breaker_conf_scheme \<Rightarrow> bool" where
  "breaker_should_consult clcf \<longleftrightarrow>
    bc_enable clcf \<and> bc_breaker_enable clcf \<and> bc_threshold clcf > 0 \<and> bc_window clcf > 0"

record vary_conf = breaker_conf +
  vc_revalidate :: time_t

definition vary_prepare :: "(bytes \<Rightarrow> bytes option) \<Rightarrow> 'b vary_ctx_scheme \<Rightarrow> 'b vary_ctx_scheme option" where
  "vary_prepare dig ctx =
    (case marker_hash dig (vx_cache_key ctx) of None \<Rightarrow> None | Some k \<Rightarrow> Some (ctx\<lparr>vx_marker_key := k\<rparr>))"

text \<open>The read of the marker: axes, generation and the time it was resolved. The outer option is a
  read outside the body.\<close>

definition marker_read :: "'p zone \<Rightarrow> time_t \<Rightarrow> node option \<Rightarrow> (int \<times> nat \<times> time_t) option" where
  "marker_read z now m =
    (case m of
       None \<Rightarrow> Some (0, 0, 0)
     | Some n \<Rightarrow>
         (case data n of
            None \<Rightarrow> Some (0, 0, 0)
          | Some b \<Rightarrow>
              if len n \<ge> BLOB_HDR_WIRE + 1 \<and> (stale_until n = 0 \<or> now < stale_until n)
              then do {
                let d = content (the (blobs z b));
                magic \<leftarrow> get_u32 d 0;
                version \<leftarrow> get_u16 d 4;
                if magic = BLOB_MAGIC \<and> version = BLOB_VERSION
                then do {
                  bits \<leftarrow> rd d BLOB_HDR_WIRE;
                  gen \<leftarrow> (if len n \<ge> BLOB_HDR_WIRE + 2 then map_option unat (rd d (BLOB_HDR_WIRE + 1))
                          else Some 0);
                  created \<leftarrow> get_u64 d 24;
                  Some (uint bits, gen, sint created) }
                else Some (0, 0, 0) }
              else Some (0, 0, 0)))"

definition vary_apply :: "(bytes \<Rightarrow> bytes option) \<Rightarrow> (bytes \<Rightarrow> u32) \<Rightarrow> 'a vary_conf_scheme \<Rightarrow> vary_req \<Rightarrow> 'p zone
    \<Rightarrow> time_t \<Rightarrow> 'b vary_ctx_scheme \<Rightarrow> u32 \<Rightarrow> (ngx_rc \<times> 'b vary_ctx_scheme \<times> u32) option" where
  "vary_apply dig crc clcf r z now ctx hash = do {
    (bits, gen, resolve_created) \<leftarrow>
      marker_read z now (map_option (node_at z) (shm_lookup z (vx_marker_key ctx)));
    let ctx = ctx\<lparr>vx_gen := gen\<rparr>;
    Some (if bits > 0
      then (case variant_hash dig r (vx_cache_key ctx) bits gen of
              None \<Rightarrow> (NGX_ERROR, ctx, hash)
            | Some k \<Rightarrow>
                let ctx = ctx\<lparr>vx_key_hash := k, vx_l1_miss := False, vx_revalidate := False\<rparr>;
                    age = now - resolve_created;
                    age = (if age < 0 then 0 else age)
                in (NGX_OK,
                    if vc_revalidate clcf > 0 \<and> \<not> vx_l2_done ctx
                       \<and> \<not> (breaker_should_consult clcf \<and> brk_state (breaker_state_w (zbreaker z)) = BREAKER_OPEN)
                       \<and> age \<ge> vc_revalidate clcf
                    then ctx\<lparr>vx_revalidate := True\<rparr> else ctx,
                    crc k))
      else (NGX_OK, ctx\<lparr>vx_l1_miss := True\<rparr>, hash)) }"

subsection \<open>Classifying a response\<close>

text \<open>The response's Content-Encoding: \<open>None\<close> for no such header.\<close>

definition response_encoded :: "tbl_elt option \<Rightarrow> bool" where
  "response_encoded ce =
    (case ce of
       None \<Rightarrow> False
     | Some h \<Rightarrow>
         if te_hash h = 0 \<or> length (te_value h) = 0 then False
         else \<not> (length (te_value h) = 8 \<and> ngx_strncasecmp (te_value h) (ascii ''identity'') 8 = 0))"

definition response_ae_class :: "tbl_elt option \<Rightarrow> u32" where
  "response_ae_class ce =
    (case ce of
       None \<Rightarrow> AE_CLASS_IDENTITY
     | Some h \<Rightarrow>
         if te_hash h = 0 then AE_CLASS_IDENTITY
         else if length (te_value h) = 4 \<and> ngx_strncasecmp (te_value h) (ascii ''zstd'') 4 = 0 then AE_CLASS_ZSTD
         else if length (te_value h) = 2 \<and> ngx_strncasecmp (te_value h) (ascii ''br'') 2 = 0 then AE_CLASS_BR
         else if length (te_value h) = 4 \<and> ngx_strncasecmp (te_value h) (ascii ''gzip'') 4 = 0 then AE_CLASS_GZIP
         else AE_CLASS_IDENTITY)"

definition is_vary_header :: "tbl_elt \<Rightarrow> bool" where
  "is_vary_header h \<longleftrightarrow> te_hash h \<noteq> 0 \<and> length (te_key h) = 4
    \<and> ngx_strncasecmp (te_key h) (ascii ''Vary'') 4 = 0"

definition is_vary_sep :: "u8 \<Rightarrow> bool" where
  "is_vary_sep c \<longleftrightarrow> c = 0x20 \<or> c = 0x09 \<or> c = COMMA"

definition vary_next_token :: "bytes \<Rightarrow> bytes \<times> bytes" where
  "vary_next_token s =
    (let s = dropWhile is_vary_sep s
     in (takeWhile (\<lambda>c. \<not> is_vary_sep c) s, dropWhile (\<lambda>c. \<not> is_vary_sep c) s))"

record vary_verdict =
  vv_bits :: int
  vv_nocache :: bool
  vv_unsafe_axis :: bool

definition classify_token :: "bool \<Rightarrow> bytes \<Rightarrow> vary_verdict \<Rightarrow> vary_verdict" where
  "classify_token encoded tok v =
    (if length tok = 1 \<and> tok ! 0 = STAR then v\<lparr>vv_nocache := True\<rparr>
     else if name_is tok (ascii ''Cookie'') then v\<lparr>vv_nocache := True\<rparr>
     else if name_is tok (ascii ''Authorization'') then v\<lparr>vv_nocache := True\<rparr>
     else if name_is tok (ascii ''Accept-Encoding'')
     then (if encoded then v\<lparr>vv_bits := vv_bits v OR VARY_ENCODING\<rparr> else v)
     else if name_is tok (ascii ''User-Agent'') then v\<lparr>vv_bits := vv_bits v OR VARY_DEVICE\<rparr>
     else if name_is tok (ascii ''Accept-Language'') then v\<lparr>vv_bits := vv_bits v OR VARY_LANG\<rparr>
     else if name_is tok (ascii ''Origin'') then v\<lparr>vv_bits := vv_bits v OR VARY_ORIGIN\<rparr>
     else v\<lparr>vv_nocache := True, vv_unsafe_axis := True\<rparr>)"

record axes_conf =
  vary_ignore :: "bytes list"
  auto_skip_headers :: "bytes list"

definition vary_ignore_match :: "'a axes_conf_scheme \<Rightarrow> bytes \<Rightarrow> bool" where
  "vary_ignore_match clcf tok \<longleftrightarrow>
    list_ex (\<lambda>ig. length ig = length tok \<and> ngx_strncasecmp ig tok (length tok) = 0) (vary_ignore clcf)"

fun auto_header_present :: "tbl_elt list \<Rightarrow> bytes list \<Rightarrow> bool" where
  "auto_header_present [] names \<longleftrightarrow> False"
| "auto_header_present (h # hs) names \<longleftrightarrow>
    (if list_ex (\<lambda>nm. length (te_key h) = length nm \<and> ngx_strncasecmp (te_key h) nm (length nm) = 0) names
     then True else auto_header_present hs names)"

definition req_header_named :: "tbl_elt list \<Rightarrow> bytes \<Rightarrow> bool" where
  "req_header_named hs name = auto_header_present hs [name]"

fun preset_satisfied_scan :: "tbl_elt list \<Rightarrow> bytes list \<Rightarrow> bytes \<Rightarrow> bool" where
  "preset_satisfied_scan req [] tok \<longleftrightarrow> False"
| "preset_satisfied_scan req (nm # nms) tok \<longleftrightarrow>
    (if length nm = length tok \<and> ngx_strncasecmp nm tok (length tok) = 0
     then \<not> req_header_named req tok else preset_satisfied_scan req nms tok)"

definition vary_preset_satisfied :: "tbl_elt list \<Rightarrow> 'a axes_conf_scheme \<Rightarrow> bytes \<Rightarrow> bool" where
  "vary_preset_satisfied req clcf tok = preset_satisfied_scan req (auto_skip_headers clcf) tok"

function classify_value :: "tbl_elt list \<Rightarrow> 'a axes_conf_scheme \<Rightarrow> bool \<Rightarrow> bytes \<Rightarrow> vary_verdict \<Rightarrow> vary_verdict" where
  "classify_value req clcf encoded s v =
    (if s = [] then v
     else let tok = fst (vary_next_token s); rest = snd (vary_next_token s)
          in classify_value req clcf encoded rest
               (if tok = [] then v
                else if vary_ignore_match clcf tok then v
                else if vary_preset_satisfied req clcf tok then v
                else classify_token encoded tok v))"
  by pat_completeness auto

lemma vary_next_token_shorter: "s \<noteq> [] \<Longrightarrow> length (snd (vary_next_token s)) < length s"
proof -
  assume s: "s \<noteq> []"
  show ?thesis
  proof (cases "dropWhile is_vary_sep s")
    case Nil
    show ?thesis unfolding vary_next_token_def Let_def Nil using s by simp
  next
    case (Cons c cs)
    then have "\<not> is_vary_sep c" by (metis dropWhile_eq_Cons_conv)
    moreover have "length (dropWhile is_vary_sep s) \<le> length s" by (rule length_dropWhile_le)
    moreover have "length (dropWhile (\<lambda>c. \<not> is_vary_sep c) cs) \<le> length cs" by (rule length_dropWhile_le)
    ultimately show ?thesis using Cons by (simp add: vary_next_token_def)
  qed
qed

termination classify_value
  by (relation "measure (\<lambda>(req, clcf, encoded, s, v). length s)") (auto dest: vary_next_token_shorter)

declare classify_value.simps [simp del]

fun classify_walk :: "tbl_elt list \<Rightarrow> 'a axes_conf_scheme \<Rightarrow> bool \<Rightarrow> tbl_elt list \<Rightarrow> vary_verdict \<Rightarrow> vary_verdict" where
  "classify_walk req clcf encoded [] v = v"
| "classify_walk req clcf encoded (h # hs) v =
    classify_walk req clcf encoded hs
      (if is_vary_header h then classify_value req clcf encoded (te_value h) v else v)"

definition classify_vary :: "tbl_elt list \<Rightarrow> 'a axes_conf_scheme \<Rightarrow> tbl_elt option \<Rightarrow> tbl_elt list \<Rightarrow> vary_verdict" where
  "classify_vary req clcf ce hs =
    (let v = classify_walk req clcf (response_encoded ce) hs
               \<lparr>vv_bits = 0, vv_nocache = False, vv_unsafe_axis = False\<rparr>
     in if vv_nocache v then v\<lparr>vv_bits := 0\<rparr> else v)"

subsection \<open>The classifier is the sum of its tokens\<close>

text \<open>A Vary value as RFC 9110 reads it: the non-empty runs between separators.\<close>

fun sep_runs :: "bytes \<Rightarrow> bytes list" where
  "sep_runs [] = [[]]"
| "sep_runs (c # cs) = (if is_vary_sep c then [] # sep_runs cs
    else (c # hd (sep_runs cs)) # tl (sep_runs cs))"

definition vary_tokens :: "tbl_elt list \<Rightarrow> bytes list" where
  "vary_tokens hs = filter (\<lambda>t. t \<noteq> []) (concat (map (\<lambda>h. sep_runs (te_value h)) (filter is_vary_header hs)))"

definition live_tokens :: "tbl_elt list \<Rightarrow> 'a axes_conf_scheme \<Rightarrow> tbl_elt list \<Rightarrow> bytes list" where
  "live_tokens req clcf hs =
    filter (\<lambda>t. \<not> vary_ignore_match clcf t \<and> \<not> vary_preset_satisfied req clcf t) (vary_tokens hs)"

definition axis_bit :: "bool \<Rightarrow> bytes \<Rightarrow> int option" where
  "axis_bit encoded tok =
    (if name_is tok (ascii ''Accept-Encoding'') then Some (if encoded then VARY_ENCODING else 0)
     else if name_is tok (ascii ''User-Agent'') then Some VARY_DEVICE
     else if name_is tok (ascii ''Accept-Language'') then Some VARY_LANG
     else if name_is tok (ascii ''Origin'') then Some VARY_ORIGIN
     else None)"

definition named_veto :: "bytes \<Rightarrow> bool" where
  "named_veto tok \<longleftrightarrow> tok = [STAR] \<or> name_is tok (ascii ''Cookie'') \<or> name_is tok (ascii ''Authorization'')"

lemma sep_runs_not_Nil [simp]: "sep_runs s \<noteq> []"
  by (induction s) auto

lemma sep_runs_span:
  "sep_runs s = takeWhile (\<lambda>c. \<not> is_vary_sep c) s #
    (case dropWhile (\<lambda>c. \<not> is_vary_sep c) s of [] \<Rightarrow> [] | c # cs \<Rightarrow> sep_runs cs)"
  by (induction s) auto

lemma sep_runs_skip:
  "filter (\<lambda>t. t \<noteq> []) (sep_runs (dropWhile is_vary_sep s)) = filter (\<lambda>t. t \<noteq> []) (sep_runs s)"
  by (induction s) auto

lemma runs_next:
  "filter (\<lambda>t. t \<noteq> []) (sep_runs s) =
    filter (\<lambda>t. t \<noteq> []) (fst (vary_next_token s) # sep_runs (snd (vary_next_token s)))"
proof -
  let ?s = "dropWhile is_vary_sep s"
  let ?r = "dropWhile (\<lambda>c. \<not> is_vary_sep c) ?s"
  have "filter (\<lambda>t. t \<noteq> []) (case ?r of [] \<Rightarrow> [] | c # cs \<Rightarrow> sep_runs cs) = filter (\<lambda>t. t \<noteq> []) (sep_runs ?r)"
  proof (cases ?r)
    case (Cons c cs)
    then have "is_vary_sep c" by (metis dropWhile_eq_Cons_conv)
    then show ?thesis using Cons by simp
  next
    case Nil
    show ?thesis unfolding Nil by simp
  qed
  then have "filter (\<lambda>t. t \<noteq> []) (sep_runs ?s) = filter (\<lambda>t. t \<noteq> []) (fst (vary_next_token s) # sep_runs ?r)"
    by (subst sep_runs_span) (simp add: vary_next_token_def Let_def)
  then show ?thesis by (simp add: sep_runs_skip vary_next_token_def Let_def)
qed

lemma classify_value_fold:
  "classify_value req clcf encoded s v =
    fold (classify_token encoded) (filter (\<lambda>t. \<not> vary_ignore_match clcf t \<and> \<not> vary_preset_satisfied req clcf t)
      (filter (\<lambda>t. t \<noteq> []) (sep_runs s))) v"
proof (induction req clcf encoded s v rule: classify_value.induct)
  case (1 req clcf encoded s v)
  show ?case
  proof (cases "s = []")
    case False
    then show ?thesis using 1 [OF False refl refl]
      by (subst classify_value.simps, subst runs_next) (simp add: Let_def)
  qed (simp add: classify_value.simps)
qed

lemma classify_walk_fold:
  "classify_walk req clcf encoded hs v = fold (classify_token encoded) (live_tokens req clcf hs) v"
  by (induction req clcf encoded hs v rule: classify_walk.induct)
    (auto simp: live_tokens_def vary_tokens_def classify_value_fold)

lemma classify_token_cases:
  "tok \<noteq> [] \<Longrightarrow> classify_token encoded tok v =
    (if named_veto tok then v\<lparr>vv_nocache := True\<rparr>
     else case axis_bit encoded tok of
       Some b \<Rightarrow> v\<lparr>vv_bits := vv_bits v OR b\<rparr>
     | None \<Rightarrow> v\<lparr>vv_nocache := True, vv_unsafe_axis := True\<rparr>)"
  by (cases tok) (auto simp: classify_token_def named_veto_def axis_bit_def length_Suc_conv)

lemma fold_classify:
  "\<forall>t \<in> set ts. t \<noteq> [] \<Longrightarrow>
    fold (classify_token encoded) ts v =
    v\<lparr>vv_bits := fold (\<lambda>t b. if named_veto t then b else b OR (case axis_bit encoded t of Some c \<Rightarrow> c | None \<Rightarrow> 0)) ts (vv_bits v),
      vv_nocache := vv_nocache v \<or> (\<exists>t \<in> set ts. named_veto t \<or> axis_bit encoded t = None),
      vv_unsafe_axis := vv_unsafe_axis v \<or> (\<exists>t \<in> set ts. \<not> named_veto t \<and> axis_bit encoded t = None)\<rparr>"
  by (induction ts arbitrary: v) (auto simp: classify_token_cases split: option.splits)

text \<open>
  C27: A response is keyed on exactly what it varies on. With the tokens of all its Vary headers, less
  those the operator ignores and those an active preset keeps out of the cache, the verdict is
  "do not cache" if and only if some token is Cookie, Authorization, an asterisk or an unknown
  axis; it blames an unknown axis exactly when there is one; and otherwise the bits are those of
  the tokens, the encoding axis counting only for a body that is really encoded.
\<close>

theorem classify_vary_exact:
  "vv_nocache (classify_vary req clcf ce hs) =
      (\<exists>t \<in> set (live_tokens req clcf hs). named_veto t \<or> axis_bit (response_encoded ce) t = None)
   \<and> vv_unsafe_axis (classify_vary req clcf ce hs) =
      (\<exists>t \<in> set (live_tokens req clcf hs). \<not> named_veto t \<and> axis_bit (response_encoded ce) t = None)
   \<and> vv_bits (classify_vary req clcf ce hs) =
      (if vv_nocache (classify_vary req clcf ce hs) then 0
       else fold (\<lambda>t b. b OR the (axis_bit (response_encoded ce) t)) (live_tokens req clcf hs) 0)"
proof -
  let ?ts = "live_tokens req clcf hs" and ?e = "response_encoded ce"
  have ne: "\<forall>t \<in> set ?ts. t \<noteq> []" by (auto simp: live_tokens_def vary_tokens_def)
  have bits: "fold (\<lambda>t b. if named_veto t then b else b OR (case axis_bit ?e t of Some c \<Rightarrow> c | None \<Rightarrow> 0)) ts b0
      = fold (\<lambda>t b. b OR the (axis_bit ?e t)) ts b0"
    if "\<not> (\<exists>t \<in> set ts. named_veto t \<or> axis_bit ?e t = None)" for ts b0
    using that by (induction ts arbitrary: b0) auto
  show ?thesis
  proof (cases "\<exists>t \<in> set ?ts. named_veto t \<or> axis_bit ?e t = None")
    case True
    then show ?thesis by (simp add: classify_vary_def Let_def classify_walk_fold fold_classify [OF ne])
  next
    case False
    then show ?thesis using bits [OF False, of 0]
      by (auto simp: classify_vary_def Let_def classify_walk_fold fold_classify [OF ne])
  qed
qed

subsection \<open>Keys of different representations differ\<close>

definition opens_with :: "u8 set \<Rightarrow> bytes \<Rightarrow> bool" where
  "opens_with S r \<longleftrightarrow> r = [] \<or> (\<exists>c u. r = US # c # u \<and> c \<in> S)"

definition opt_field :: "bool \<Rightarrow> bytes \<Rightarrow> bytes \<Rightarrow> bytes" where
  "opt_field b tag x = (if b then US # tag @ x else [])"

lemma opens_with_field: "opens_with S r \<Longrightarrow> tag \<noteq> [] \<Longrightarrow> opens_with (insert (hd tag) S) (opt_field b tag x @ r)"
  by (cases tag) (auto simp: opens_with_def opt_field_def)

lemma opt_field_inj:
  assumes "opt_field b tag x @ r = opt_field b' tag x' @ r'"
    and "US \<notin> set x" "US \<notin> set x'" "opens_with S r" "opens_with S r'" "tag \<noteq> []" "hd tag \<notin> S"
  shows "b = b' \<and> (b \<longrightarrow> x = x') \<and> r = r'"
proof (cases "b = b'")
  case True
  show ?thesis
  proof (cases b)
    case b: True
    then have "x @ r = x' @ r'" using assms(1) True by (simp add: opt_field_def)
    moreover have "x @ r = x' @ r' \<longleftrightarrow> x = x' \<and> r = r'"
      using assms(4,5) by (intro split_US assms(2,3)) (auto simp: opens_with_def)
    ultimately show ?thesis using True by simp
  qed (use assms(1) True in \<open>simp add: opt_field_def\<close>)
next
  case False
  then show ?thesis using assms by (cases b; cases tag) (auto simp: opt_field_def opens_with_def)
qed

text \<open>The axes a set of bits reads off a request: what has to agree for two requests to share a variant.\<close>

definition axes :: "vary_req \<Rightarrow> int \<Rightarrow> ae_name option \<times> bytes option \<times> bytes option \<times> bytes option" where
  "axes r bits =
    (if bits AND VARY_ENCODING \<noteq> 0 then Some (ae_class (vr_accept_encoding r)) else None,
     if bits AND VARY_DEVICE \<noteq> 0 then Some (device_class (vr_user_agent r)) else None,
     if bits AND VARY_LANG \<noteq> 0 then Some (lang_class (vr_headers r)) else None,
     if bits AND VARY_ORIGIN \<noteq> 0 then Some (req_header (vr_headers r) ''Origin'') else None)"

lemma variant_material_fields:
  "variant_material r base bits gen = base @ opt_field True (ascii ''gen='') (dec_ui (gen mod 256))
    @ opt_field (bits AND VARY_ENCODING \<noteq> 0) (ascii ''ae='') (ae_bytes (ae_class (vr_accept_encoding r)))
    @ opt_field (bits AND VARY_DEVICE \<noteq> 0) (ascii ''dev='') (device_class (vr_user_agent r))
    @ opt_field (bits AND VARY_LANG \<noteq> 0) (ascii ''lang='') (lang_class (vr_headers r))
    @ opt_field (bits AND VARY_ORIGIN \<noteq> 0) (ascii ''org='') (req_header (vr_headers r) ''Origin'')"
  by (simp add: variant_material_def opt_field_def)

lemma dec_ui_no_US [simp]: "US \<notin> set (dec_ui n)"
  using dec_ui_digits [of n] by (auto simp: list_all_iff digit_byte_def)

lemma ae_bytes_US [simp]: "US \<notin> set (ae_bytes n)"
  by (cases n) (simp_all add: ae_bytes_def ascii_def)

lemma ae_bytes_inj [simp]: "ae_bytes m = ae_bytes n \<longleftrightarrow> m = n"
  by (cases m; cases n) (simp_all add: ae_bytes_def ascii_def)

lemma device_class_US [simp]: "US \<notin> set (device_class ua)"
proof -
  have "device_scan cs \<in> {''desktop'', ''mobile''}" for cs by (induction cs rule: device_scan.induct) auto
  moreover have "x \<in> {''desktop'', ''mobile''} \<Longrightarrow> US \<notin> set (ascii x)" for x by (auto simp: ascii_def)
  ultimately have "US \<notin> set (ascii (device_scan cs))" for cs by blast
  then show ?thesis by (auto simp: device_class_def ascii_def split: option.split)
qed

lemma same_field:
  "(if P then Some x else None) = (if P' then Some x' else None) \<Longrightarrow> opt_field P tag (f x) = opt_field P' tag (f x')"
  "(if P then Some y else None) = (if P' then Some y' else None) \<Longrightarrow> opt_field P tag y = opt_field P' tag y'"
  by (auto simp: opt_field_def split: if_splits)

lemma tag_facts:
  "ascii ''gen='' \<noteq> []" "ascii ''ae='' \<noteq> []" "ascii ''dev='' \<noteq> []" "ascii ''lang='' \<noteq> []" "ascii ''org='' \<noteq> []"
  "hd (ascii ''gen='') = 0x67" "hd (ascii ''ae='') = 0x61" "hd (ascii ''dev='') = 0x64"
  "hd (ascii ''lang='') = 0x6C" "hd (ascii ''org='') = 0x6F"
  by (simp_all add: ascii_def)

lemma material_inj:
  assumes eq: "variant_material r base bits gen = variant_material r' base' bits' gen'"
    and us: "US \<notin> set base" "US \<notin> set base'" "US \<notin> set (lang_class (vr_headers r))" "US \<notin> set (lang_class (vr_headers r'))"
  shows "base = base' \<and> gen mod 256 = gen' mod 256 \<and> axes r bits = axes r' bits'"
proof -
  define O1 where "O1 \<equiv> \<lambda>(r :: vary_req) bits. opt_field (bits AND VARY_ORIGIN \<noteq> 0) (ascii ''org='') (req_header (vr_headers r) ''Origin'')"
  define L1 where "L1 \<equiv> \<lambda>(r :: vary_req) bits. opt_field (bits AND VARY_LANG \<noteq> 0) (ascii ''lang='') (lang_class (vr_headers r)) @ O1 r bits"
  define D1 where "D1 \<equiv> \<lambda>(r :: vary_req) bits. opt_field (bits AND VARY_DEVICE \<noteq> 0) (ascii ''dev='') (device_class (vr_user_agent r)) @ L1 r bits"
  define A1 where "A1 \<equiv> \<lambda>(r :: vary_req) bits. opt_field (bits AND VARY_ENCODING \<noteq> 0) (ascii ''ae='') (ae_bytes (ae_class (vr_accept_encoding r))) @ D1 r bits"
  have o: "opens_with {0x6F} (O1 q b)" for q b
    using opens_with_field [of "{}" "[]" "ascii ''org=''"] by (simp add: O1_def tag_facts opens_with_def)
  have l: "opens_with {0x6C, 0x6F} (L1 q b)" for q b
    using opens_with_field [OF o, of "ascii ''lang=''"] by (simp add: L1_def tag_facts)
  have d: "opens_with {0x64, 0x6C, 0x6F} (D1 q b)" for q b
    using opens_with_field [OF l, of "ascii ''dev=''"] by (simp add: D1_def tag_facts)
  have a: "opens_with {0x61, 0x64, 0x6C, 0x6F} (A1 q b)" for q b
    using opens_with_field [OF d, of "ascii ''ae=''"] by (simp add: A1_def tag_facts)
  have m: "variant_material q c b g = c @ opt_field True (ascii ''gen='') (dec_ui (g mod 256)) @ A1 q b" for q c b g
    by (simp add: variant_material_fields A1_def D1_def L1_def O1_def)
  have base: "base = base' \<and> opt_field True (ascii ''gen='') (dec_ui (gen mod 256)) @ A1 r bits
      = opt_field True (ascii ''gen='') (dec_ui (gen' mod 256)) @ A1 r' bits'"
    using eq split_US [OF us(1,2)] by (simp add: m opt_field_def)
  have g: "gen mod 256 = gen' mod 256 \<and> A1 r bits = A1 r' bits'"
    using opt_field_inj [OF conjunct2 [OF base] _ _ a a] by (simp add: tag_facts)
  have ae: "(bits AND VARY_ENCODING \<noteq> 0) = (bits' AND VARY_ENCODING \<noteq> 0) \<and>
      (bits AND VARY_ENCODING \<noteq> 0 \<longrightarrow> ae_class (vr_accept_encoding r) = ae_class (vr_accept_encoding r')) \<and> D1 r bits = D1 r' bits'"
    using opt_field_inj [OF conjunct2 [OF g, unfolded A1_def] _ _ d d] by (simp add: tag_facts)
  have dv: "(bits AND VARY_DEVICE \<noteq> 0) = (bits' AND VARY_DEVICE \<noteq> 0) \<and>
      (bits AND VARY_DEVICE \<noteq> 0 \<longrightarrow> device_class (vr_user_agent r) = device_class (vr_user_agent r')) \<and> L1 r bits = L1 r' bits'"
    using opt_field_inj [OF conjunct2 [OF conjunct2 [OF ae], unfolded D1_def] _ _ l l] by (simp add: tag_facts)
  have lg: "(bits AND VARY_LANG \<noteq> 0) = (bits' AND VARY_LANG \<noteq> 0) \<and>
      (bits AND VARY_LANG \<noteq> 0 \<longrightarrow> lang_class (vr_headers r) = lang_class (vr_headers r')) \<and> O1 r bits = O1 r' bits'"
    using opt_field_inj [OF conjunct2 [OF conjunct2 [OF dv], unfolded L1_def] us(3,4) o o] by (simp add: tag_facts)
  have og: "(bits AND VARY_ORIGIN \<noteq> 0) = (bits' AND VARY_ORIGIN \<noteq> 0) \<and>
      (bits AND VARY_ORIGIN \<noteq> 0 \<longrightarrow> req_header (vr_headers r) ''Origin'' = req_header (vr_headers r') ''Origin'')"
    using conjunct2 [OF conjunct2 [OF lg]] by (auto simp: O1_def opt_field_def split: if_splits)
  show ?thesis using base g ae dv lg og by (simp add: axes_def)
qed

text \<open>
  C14: The variant key separates what must be kept apart. Over base keys and language classes without the
  unit separator, two requests hash the same bytes exactly when the base key, the purge generation
  modulo 256 and the classes of all selected axes agree; the Origin value needs no restriction. No
  variant hashes the bytes of a marker or of a variant index, nor do those two ever coincide, so
  with a collision-free digest the three kinds of slot never meet.
\<close>

theorem variant_key_separates:
  assumes "US \<notin> set base" and "US \<notin> set base'"
    and "US \<notin> set (lang_class (vr_headers r))" and "US \<notin> set (lang_class (vr_headers r'))"
  shows "(variant_material r base bits gen = variant_material r' base' bits' gen'
      \<longleftrightarrow> base = base' \<and> gen mod 256 = gen' mod 256 \<and> axes r bits = axes r' bits')
    \<and> variant_material r base bits gen \<noteq> marker_material base'
    \<and> variant_material r base bits gen \<noteq> varidx_material base'
    \<and> marker_material base \<noteq> varidx_material base'"
proof (intro conjI)
  have same: "variant_material r base bits gen = variant_material r' base bits' gen'"
    if ax: "axes r bits = axes r' bits'" and g: "gen mod 256 = gen' mod 256"
  proof -
    note ax = ax [unfolded axes_def prod.inject]
    note eqs = same_field(1) [OF conjunct1 [OF ax], where f = ae_bytes]
      same_field(2) [OF conjunct1 [OF conjunct2 [OF ax]]]
      same_field(2) [OF conjunct1 [OF conjunct2 [OF conjunct2 [OF ax]]]]
      same_field(2) [OF conjunct2 [OF conjunct2 [OF conjunct2 [OF ax]]]]
    show ?thesis unfolding variant_material_fields eqs g ..
  qed
  then show "variant_material r base bits gen = variant_material r' base' bits' gen'
      \<longleftrightarrow> base = base' \<and> gen mod 256 = gen' mod 256 \<and> axes r bits = axes r' bits'"
    using material_inj [OF _ assms] by blast
  have sp: "base @ US # x = base' @ US # y \<longleftrightarrow> base = base' \<and> x = y" for x y
    using split_US [OF assms(1,2), of "US # x" "US # y"] by simp
  show "variant_material r base bits gen \<noteq> marker_material base'"
    "variant_material r base bits gen \<noteq> varidx_material base'" "marker_material base \<noteq> varidx_material base'"
    unfolding variant_material_def marker_material_def varidx_material_def Let_def sp by (simp_all add: ascii_def)
qed

definition demo_vary_req :: "string \<Rightarrow> string \<Rightarrow> vary_req" where
  "demo_vary_req lang org = \<lparr>vr_headers =
      [\<lparr>te_hash = 1, te_key = ascii ''accept-language'', te_value = ascii lang\<rparr>,
       \<lparr>te_hash = 1, te_key = ascii ''ORIGIN'', te_value = ascii org\<rparr>],
    vr_accept_encoding = Some (ascii ''br''), vr_user_agent = None\<rparr>"

theorem variant_key_separates_witness:
  "variant_material (demo_vary_req ''en-US,en;q=0.9'' ''https://a'') (ascii ''/p'') 12 1
     = variant_material (demo_vary_req ''EN;q=1'' ''https://a'') (ascii ''/p'') 12 257
   \<and> variant_material (demo_vary_req ''en-US,en;q=0.9'' ''https://a'') (ascii ''/p'') 12 1
     \<noteq> variant_material (demo_vary_req ''en-US,en;q=0.9'' ''https://b'') (ascii ''/p'') 12 1"
proof -
  have us: "US \<notin> set (ascii ''/p'')" "US \<notin> set (lang_class (vr_headers (demo_vary_req ''en-US,en;q=0.9'' ''https://a'')))"
    "US \<notin> set (lang_class (vr_headers (demo_vary_req ''EN;q=1'' ''https://a'')))"
    "US \<notin> set (lang_class (vr_headers (demo_vary_req ''en-US,en;q=0.9'' ''https://b'')))" by code_simp+
  have "axes (demo_vary_req ''en-US,en;q=0.9'' ''https://a'') 12 = axes (demo_vary_req ''EN;q=1'' ''https://a'') 12"
    "axes (demo_vary_req ''en-US,en;q=0.9'' ''https://a'') 12 \<noteq> axes (demo_vary_req ''en-US,en;q=0.9'' ''https://b'') 12"
    by code_simp+
  then show ?thesis
    using variant_key_separates [OF us(1,1,2,3)] variant_key_separates [OF us(1,1,2,4)] by simp
qed

subsection \<open>A stored marker is found and read back\<close>

lemma marker_blob_eq:
  assumes "renders_date ht now" and "BLOB_HDR_WIRE + 2 = length stack"
  shows "marker_blob ht stack now bits gen ttl retain_ttl =
    Some (wire_hdr ht (marker_hdr now ttl retain_ttl) @ [word_of_int (bits AND 0xFF), of_nat gen AND 0xFF])"
proof -
  let ?h = "marker_hdr now ttl retain_ttl"
  have d: "length (ht (bh_created ?h)) = BLOB_DATE_LEN" using assms(1) by (simp add: renders_date_def marker_hdr_def)
  have len: "length (wire_hdr ht ?h) = BLOB_HDR_WIRE" by (rule length_wire_hdr) (rule d)
  have two: "length xs = 2 \<Longrightarrow> \<exists>x y. xs = [x, y]" for xs :: bytes by (cases xs; cases "tl xs") auto
  have "length (drop BLOB_HDR_WIRE stack) = 2" using assms(2) by simp
  then obtain x y where tl: "drop BLOB_HDR_WIRE stack = [x, y]" using two by blast
  have "blob_hdr_write ht stack ?h = Some (wire_hdr ht ?h @ [x, y])"
    using hdr_write_eq [where ht = ht and h = ?h and dst = stack, OF d] assms(2) tl by simp
  then show ?thesis using len by (simp add: marker_blob_def wr_def)
qed

lemma marker_node:
  assumes "zok C live R z" and "length k = 32"
    and "shm_store_marker C z now k hash body f s = (NGX_OK, z')"
  shows "\<exists>a n b r. shm_lookup z' k = Some a \<and> nodes z' a = Some n \<and> data n = Some b \<and> blobs z' b = Some r \<and>
    content r = body \<and> len n = length body \<and> stale_until n = deadline now s"
proof -
  obtain rc1 w z1 where l: "shm_store_locked C z now k hash body f s (shm_lookup z k) = (rc1, w, z1)"
    by (cases "shm_store_locked C z now k hash body f s (shm_lookup z k)") auto
  have rc: "rc1 = NGX_OK" using assms(3) l
    by (auto simp: shm_store_marker_def Let_def split: option.splits if_splits)
  obtain a n b r where h: "shm_lookup z1 k = Some a" "nodes z1 a = Some n" "data n = Some b" "blobs z1 b = Some r"
    "content r = body" "len n = length body" "stale_until n = deadline now s"
    using store_locked_spec(1) [OF assms(1,2) _ l rc] unfolding holds_entry_def by blast
  have z': "z' = z1 \<or> (\<exists>w. z' = upd_node w (\<lambda>n. n\<lparr>kind := NODE_MARKER\<rparr>) z1
      \<or> z' = (upd_node w (\<lambda>n. n\<lparr>kind := NODE_MARKER\<rparr>) z1)\<lparr>markers := markers z1 + 1\<rparr>)"
    using assms(3) l rc
    by (auto simp: shm_store_marker_def Let_def upd_node_def split: option.splits if_splits)
  then show ?thesis using h by (auto simp: shm_lookup_def upd_node_def node_at_def)
qed

lemma byte_bits: "uint (word_of_int (bits AND 0xFF) :: u8) = bits mod 256"
  using take_bit_int_def [of 8 bits] by (simp add: uint_word_of_int take_bit_eq_mask mask_eq_exp_minus_1)

lemma byte_gen: "unat (of_nat gen AND 0xFF :: u8) = gen mod 256"
proof -
  have "(of_nat gen AND 0xFF :: u8) = of_nat gen"
  proof -
    have "(0xFF :: u8) = - 1" by simp
    then show ?thesis by (simp only: and.right_neutral)
  qed
  then show ?thesis by (simp add: unat_of_nat take_bit_nat_def)
qed

lemma marker_read_stored:
  assumes "zok C live R z" and "length k = 32" and "renders_date ht now"
    and "BLOB_HDR_WIRE + 2 = length stack" and "fits_int64 now"
    and "marker_store_key crc ht stack l2_set C z now k bits gen ttl retain_ttl = Some (NGX_OK, l2w, z')"
    and "retain_ttl = 0 \<or> later < now + retain_ttl"
  shows "marker_read z' later (map_option (node_at z') (shm_lookup z' k)) = Some (bits mod 256, gen mod 256, now)"
proof -
  let ?h = "marker_hdr now ttl retain_ttl"
  let ?body = "[word_of_int (bits AND 0xFF), of_nat gen AND 0xFF] :: bytes"
  let ?blob = "wire_hdr ht ?h @ ?body"
  have st: "shm_store_marker C z now k (crc k) ?blob ttl retain_ttl = (NGX_OK, z')"
    using assms(6) by (auto simp: marker_store_key_def marker_blob_eq [OF assms(3,4)] split: prod.splits if_splits)
  have d: "length (ht (bh_created ?h)) = BLOB_DATE_LEN" using assms(3) by (simp add: renders_date_def marker_hdr_def)
  have len: "length (wire_hdr ht ?h) = BLOB_HDR_WIRE" by (rule length_wire_hdr) (rule d)
  obtain a n b r where n: "shm_lookup z' k = Some a" "nodes z' a = Some n" "data n = Some b" "blobs z' b = Some r"
    "content r = ?blob" "len n = length ?blob" "stale_until n = deadline now retain_ttl"
    using marker_node [OF assms(1,2) st] by blast
  have live: "stale_until n = 0 \<or> later < stale_until n" using n(7) assms(7) by (auto simp: deadline_def)
  have created: "get_u64 ?blob 24 = Some (word_of_int now)"
    using d by (simp add: wire_hdr_def wire_simps marker_hdr_def)
  have "sint (word_of_int now :: u64) = now"
    using assms(5) by (simp add: int64_defs signed_of_int signed_take_bit_int_eq_self)
  then show ?thesis
    using n live created len
    by (simp add: marker_read_def node_at_def get_magic_version rd_def nth_append byte_bits byte_gen)
qed

text \<open>
  C15: What one request classified, the next one finds. Once a marker has been stored for a base key,
  every request for that base key made before the marker's retention ends is sent to the variant
  key of its own axes under the marker's bits and generation (each as the one byte the marker
  keeps). A recheck against L2 is asked for exactly when it is configured, was not done yet, the
  breaker is not open and the marker is old enough.
\<close>

theorem marker_reaches_variant:
  assumes "zok C live R z" and "length (vx_marker_key ctx) = 32" and "renders_date ht now"
    and "BLOB_HDR_WIRE + 2 = length stack" and "fits_int64 now" and "now \<le> later"
    and "marker_store_key crc ht stack l2_set C z now (vx_marker_key ctx) bits gen ttl retain_ttl = Some (NGX_OK, l2w, z')"
    and "retain_ttl = 0 \<or> later < now + retain_ttl"
    and "0 < bits mod 256"
    and "variant_hash dig r (vx_cache_key ctx) (bits mod 256) (gen mod 256) = Some key"
  shows "\<exists>ctx'. vary_apply dig crc clcf r z' later ctx hash = Some (NGX_OK, ctx', crc key)
    \<and> vx_key_hash ctx' = key \<and> vx_gen ctx' = gen mod 256 \<and> \<not> vx_l1_miss ctx'
    \<and> (vx_revalidate ctx' \<longleftrightarrow> 0 < vc_revalidate clcf \<and> \<not> vx_l2_done ctx
        \<and> \<not> (breaker_should_consult clcf \<and> brk_state (breaker_state_w (zbreaker z')) = BREAKER_OPEN)
        \<and> vc_revalidate clcf \<le> later - now)"
  using marker_read_stored [OF assms(1-5,7,8)] assms(6,9,10)
  by (simp add: vary_apply_def Let_def)

definition demo_dig :: "bytes \<Rightarrow> bytes option" where
  "demo_dig m = Some (take 32 (rev m @ replicate 32 0))"

definition demo_vary_ctx :: vary_ctx where
  "demo_vary_ctx = \<lparr>vx_cache_key = ascii ''/p'', vx_marker_key = demo_key 3, vx_key_hash = [], vx_gen = 0,
    vx_l1_miss = False, vx_l2_done = False, vx_revalidate = False\<rparr>"

definition demo_vary_conf :: vary_conf where
  "demo_vary_conf = \<lparr>bc_enable = True, bc_breaker_enable = False, bc_threshold = 0, bc_window = 0, vc_revalidate = 60\<rparr>"

theorem marker_reaches_variant_witness:
  "\<exists>l2w z' ctx'. marker_store_key (\<lambda>k. 0) demo_date (replicate 78 0) True (demo_core 6) demo_stored 150 (demo_key 3) 8 257 30 120
      = Some (NGX_OK, l2w, z')
    \<and> vary_apply demo_dig (\<lambda>k. 0) demo_vary_conf (demo_vary_req ''en'' ''https://a'') z' 220 demo_vary_ctx 0
      = Some (NGX_OK, ctx', 0) \<and> vx_revalidate ctx' \<and> vx_gen ctx' = 1"
proof -
  let ?st = "marker_store_key (\<lambda>k. 0) demo_date (replicate 78 0) True (demo_core 6) demo_stored 150 (demo_key 3) 8 257 30 120"
  have "map_option fst ?st = Some NGX_OK" by code_simp
  then obtain l2w z' where st: "?st = Some (NGX_OK, l2w, z')" by (cases ?st) auto
  obtain key where key: "variant_hash demo_dig (demo_vary_req ''en'' ''https://a'') (ascii ''/p'') (8 mod 256) (257 mod 256) = Some key"
    by (simp add: variant_hash_def demo_dig_def)
  have "\<exists>ctx'. vary_apply demo_dig (\<lambda>k. 0) demo_vary_conf (demo_vary_req ''en'' ''https://a'') z' 220 demo_vary_ctx 0
      = Some (NGX_OK, ctx', 0) \<and> vx_key_hash ctx' = key \<and> vx_gen ctx' = 257 mod 256 \<and> \<not> vx_l1_miss ctx'
      \<and> (vx_revalidate ctx' \<longleftrightarrow> 0 < vc_revalidate demo_vary_conf \<and> \<not> vx_l2_done demo_vary_ctx
        \<and> \<not> (breaker_should_consult demo_vary_conf \<and> brk_state (breaker_state_w (zbreaker z')) = BREAKER_OPEN)
        \<and> vc_revalidate demo_vary_conf \<le> 220 - 150)"
    using key st
    by (intro marker_reaches_variant [OF demo_stored_ok])
      (auto simp: demo_vary_ctx_def demo_env int64_defs BLOB_HDR_WIRE_def)
  then show ?thesis using st by (auto simp: demo_vary_conf_def demo_vary_ctx_def breaker_should_consult_def)
qed

end
