(* ===== verification/Access_L1.thy ===== *)
theory Access_L1
  imports Vary Cache_Control Swr Zone_Readers
begin

text \<open>
  The L1 phase of a request (\<^verbatim>\<open>access.c\<close>: \<open>access_l1\<close> and its helpers; \<^verbatim>\<open>module.c\<close>: \<open>effective_beta\<close>,
  \<open>effective_load\<close>): resolve the variant, look the key up, decide under the zone mutex whether the
  entry is served fresh, served stale (perhaps refreshing it), or passed over with fallbacks armed.
  It composes the zone, Vary, the request's freshness bounds, the refresh dice and the autotune
  verdict. The answers of nginx and of L2 are the record \<open>l1_env\<close>; the result says what the handler
  does next, and the context keeps the references pinned for the request.
\<close>

subsection \<open>Parameters\<close>

record band =
  bd_valid :: time_t
  bd_beta :: int
  bd_lock_ttl :: time_t
  bd_stale_mult :: int
  bd_beta_min :: int
  bd_beta_max :: int
  bd_min_uses :: int

definition mk_band :: "time_t \<Rightarrow> int \<Rightarrow> time_t \<Rightarrow> int \<Rightarrow> int \<Rightarrow> int \<Rightarrow> int \<Rightarrow> band" where
  "mk_band v b l m lo hi u = \<lparr>bd_valid = v, bd_beta = b, bd_lock_ttl = l, bd_stale_mult = m,
    bd_beta_min = lo, bd_beta_max = hi, bd_min_uses = u\<rparr>"

definition bands :: "band list" where
  "bands = [mk_band 0 0 0 0 0 0 0, mk_band 30 500 10 2 500 1000 1, mk_band 60 1000 5 4 500 2000 1,
    mk_band 300 3000 3 8 1000 3000 2, mk_band 1 1000 1 2 500 2000 1]"

definition PRESET_DEFAULT :: int where "PRESET_DEFAULT = 2"

record l1_conf = vary_conf +
  l1_autotune :: bool
  l1_preset :: int
  l1_beta :: int
  l1_valid :: time_t
  l1_stale_mult :: int
  l1_lock_ttl :: time_t
  l1_scan_resistant_pct :: nat
  l1_auto_vary :: bool
  l1_background_update :: bool
  l1_backend_lock :: bool
  l1_backend_tag_add :: bool

text \<open>
  \<open>le_cleanup\<close> answers the registration of a pool cleanup at each of the three sites (stale serve,
  breaker arm, serve-on-error arm); \<open>le_lock\<close> is what starting the L2 lock returns, \<open>le_tag_add\<close>
  whether L2 took an index write, \<open>le_hint\<close> the unlocked read of the marker counter.
\<close>

record l1_env =
  le_now :: time_t
  le_rnd :: u64
  le_dig :: "bytes \<Rightarrow> bytes option"
  le_crc :: "bytes \<Rightarrow> u32"
  le_hint :: bool
  le_cleanup :: "nat \<Rightarrow> bool"
  le_lock :: ngx_rc
  le_tag_add :: "bytes \<Rightarrow> bytes \<Rightarrow> time_t \<Rightarrow> bool"

record l1_ctx = vary_ctx +
  lx_cc :: req_cc_st
  lx_marker_ready :: bool
  lx_revalidate_inflight :: bool
  lx_l2_bits :: int
  lx_l2_gen :: nat
  lx_brk_only :: bool
  lx_lock_done :: bool
  lx_lock_result :: ngx_rc
  lx_varidx_reissue :: bool
  lx_varidx_ttl :: time_t
  lx_req_reval :: bool
  lx_expired :: bool
  lx_brk_arm_done :: bool
  lx_brk_armed :: bool
  lx_brk_snap :: "addr option"
  lx_sie_armed :: bool
  lx_sie_snap :: "addr option"
  lx_warmed :: nat
  lx_pins :: "addr list"

text \<open>
  How the phase ends: an error, a serve of a body (stale or not; the flag says whether a reference
  is handed to \<open>serve\<close>, or was pinned before), the origin, parked on the L2 lock, or on to L2.
\<close>

datatype l1_result = L1_Error | L1_Serve addr bool bool | L1_Origin | L1_Park | L1_Next u32

subsection \<open>The autotune verdict as the request sees it\<close>

definition effective_beta :: "'a l1_conf_scheme \<Rightarrow> at_state \<Rightarrow> int" where
  "effective_beta clcf at =
    (if \<not> l1_autotune clcf then l1_beta clcf
     else let ab = autotuned_beta at
          in if ab \<le> 0 then l1_beta clcf
             else let p = (if l1_preset clcf = - 1 then PRESET_DEFAULT else l1_preset clcf);
                      bd = bands ! nat p
                  in if ab < bd_beta_min bd then bd_beta_min bd
                     else if ab > bd_beta_max bd then bd_beta_max bd else ab)"

definition effective_load :: "'a l1_conf_scheme \<Rightarrow> at_state \<Rightarrow> int" where
  "effective_load clcf at =
    (if \<not> l1_autotune clcf then AT_LOAD_BASE
     else let ld = autotuned_load at
          in if ld \<le> AT_LOAD_BASE then AT_LOAD_BASE
             else if ld > AT_LOAD_MAX then AT_LOAD_MAX else ld)"

definition l1_stale_window :: "'a l1_conf_scheme \<Rightarrow> at_state \<Rightarrow> time_t \<Rightarrow> time_t \<Rightarrow> time_t" where
  "l1_stale_window clcf at fresh stale =
    (if stale \<noteq> 0 \<and> l1_autotune clcf
     then let load = effective_load clcf at
          in if load > AT_LOAD_BASE
             then let win = stale - fresh
                  in if win > 0 then stale + win * (load - AT_LOAD_BASE) div AT_LOAD_BASE else stale
             else stale
     else stale)"

definition body_at :: "'p zone \<Rightarrow> addr \<Rightarrow> bytes" where
  "body_at z b = content (the (blobs z b))"

definition l1_req_bounds :: "l1_ctx \<Rightarrow> 'p zone \<Rightarrow> node \<Rightarrow> time_t \<Rightarrow> time_t \<Rightarrow> time_t
    \<Rightarrow> (bool \<times> bool \<times> l1_ctx) option" where
  "l1_req_bounds ctx z n now fresh stale =
    (if \<not> (has_req_bounds (lx_cc ctx) \<and> len n > 0) then Some (True, True, ctx)
     else do {
       b \<leftarrow> data n;
       created \<leftarrow> get_u64 (body_at z b) 24;
       let in_window = (now < fresh \<or> stale = 0 \<or> now < stale);
       let (fresh_ok, stale_ok) = req_serve_verdict (lx_cc ctx) (sint created) now fresh;
       Some (fresh_ok, stale_ok,
         if in_window \<and> \<not> (now < fresh \<and> fresh_ok) \<and> \<not> ((stale = 0 \<or> now < stale) \<and> stale_ok)
         then ctx\<lparr>lx_req_reval := True\<rparr> else ctx) })"

subsection \<open>The dropped variant index\<close>

definition count_one :: "counter \<Rightarrow> 'p zone \<Rightarrow> 'p zone" where
  "count_one c z = z\<lparr>counters := (counters z)(c := counters z c + 1)\<rparr>"

definition varidx_reissue :: "l1_env \<Rightarrow> 'a l1_conf_scheme \<Rightarrow> l1_ctx \<Rightarrow> 'p zone \<Rightarrow> l1_ctx \<times> 'p zone" where
  "varidx_reissue env clcf ctx z =
    (if \<not> lx_varidx_reissue ctx then (ctx, z)
     else let ctx = ctx\<lparr>lx_varidx_reissue := False\<rparr>
     in if \<not> l1_backend_tag_add clcf then (ctx, z)
     else let ttl = lx_varidx_ttl ctx;
              ttl = (if ttl \<le> 0 then stale_ttl (l1_valid clcf) (l1_stale_mult clcf) else ttl);
              ttl = (if ttl \<le> 0 then 1 else ttl)
     in case variant_index_name (le_dig env) (vx_cache_key ctx) of
          None \<Rightarrow> (ctx, shm_varidx_pending_set z (vx_key_hash ctx) True)
        | Some vname \<Rightarrow>
            if \<not> le_tag_add env (vx_key_hash ctx) vname ttl
            then (ctx, shm_varidx_pending_set z (vx_key_hash ctx) True)
            else (ctx, count_one VARIDX_REISSUES z))"

subsection \<open>Serving\<close>

definition l1_serve_fresh :: "l1_env \<Rightarrow> 'a l1_conf_scheme \<Rightarrow> l1_ctx \<Rightarrow> 'p zone \<Rightarrow> addr \<Rightarrow> u32
    \<Rightarrow> (l1_result \<times> l1_ctx \<times> 'p zone) option" where
  "l1_serve_fresh env clcf ctx z a hash = do {
    b \<leftarrow> data (node_at z a);
    let z = blob_acquire z b;
    let z = shm_touch_lru z a (le_now env) (l1_scan_resistant_pct clcf) hash;
    let (ctx, z) = varidx_reissue env clcf ctx z;
    let z = z\<lparr>zautotune := (zautotune z)\<lparr>hits := hits (zautotune z) + 1\<rparr>\<rparr>;
    Some (L1_Serve b False True, ctx, z) }"

definition l1_warm :: "l1_ctx \<Rightarrow> l1_ctx" where
  "l1_warm ctx = ctx\<lparr>lx_warmed := Suc (lx_warmed ctx)\<rparr>"

definition l1_pin :: "addr \<Rightarrow> l1_ctx \<Rightarrow> l1_ctx" where
  "l1_pin b ctx = ctx\<lparr>lx_pins := b # lx_pins ctx\<rparr>"

text \<open>The roll for a refresh of this node, and what the winner does.\<close>

definition l1_dice :: "l1_env \<Rightarrow> 'a l1_conf_scheme \<Rightarrow> l1_ctx \<Rightarrow> 'p zone \<Rightarrow> node \<Rightarrow> time_t \<Rightarrow> ngx_rc" where
  "l1_dice env clcf ctx z n fresh =
    (let stale_window = (if stale_until n \<noteq> 0 then stale_until n - fresh
           else stale_ttl (l1_valid clcf) (l1_stale_mult clcf) - l1_valid clcf);
         stale_window = (if stale_window \<le> 0 then 1 else stale_window)
     in if \<not> lx_lock_done ctx \<and> (\<not> refreshing n \<or> le_now env \<ge> refresh_lock_until n)
        then should_refresh (le_now env) (le_rnd env) fresh stale_window (effective_beta clcf (zautotune z))
        else NGX_DECLINED)"

definition l1_claim :: "l1_env \<Rightarrow> 'a l1_conf_scheme \<Rightarrow> l1_ctx \<Rightarrow> 'p zone \<Rightarrow> addr \<Rightarrow> addr
    \<Rightarrow> l1_result \<times> l1_ctx \<times> 'p zone" where
  "l1_claim env clcf ctx z a b =
    (let lock_ttl = (if l1_lock_ttl clcf \<le> 0 then 5 else l1_lock_ttl clcf);
         lock_ttl = lock_ttl * effective_load clcf (zautotune z) div AT_LOAD_BASE
     in if \<not> le_cleanup env 0 then (L1_Error, ctx, z)
        else let ctx = l1_pin b ctx;
                 z = claim_refresh a (le_now env + lock_ttl) (blob_acquire z b);
                 z = z\<lparr>zautotune := (zautotune z)\<lparr>refreshes := refreshes (zautotune z) + 1\<rparr>\<rparr>
             in if l1_backend_lock clcf \<and> le_lock env = NGX_AGAIN then (L1_Park, ctx, z)
                else if l1_background_update clcf
                then (L1_Serve b True False, l1_warm ctx, count_one STALE_SERVES z)
                else (L1_Origin, ctx, z))"

definition l1_serve_stale :: "l1_env \<Rightarrow> 'a l1_conf_scheme \<Rightarrow> l1_ctx \<Rightarrow> 'p zone \<Rightarrow> addr \<Rightarrow> time_t \<Rightarrow> u32
    \<Rightarrow> (l1_result \<times> l1_ctx \<times> 'p zone) option" where
  "l1_serve_stale env clcf ctx z a fresh hash = do {
    let now = le_now env;
    let z = shm_touch_lru z a now (l1_scan_resistant_pct clcf) hash;
    let n = node_at z a;
    b \<leftarrow> data n;
    if lx_lock_done ctx \<and> (lx_lock_result ctx = NGX_OK \<or> lx_lock_result ctx = NGX_ERROR)
    then Some (if l1_background_update clcf
      then (if \<not> le_cleanup env 0 then (L1_Error, ctx, z)
            else (L1_Serve b True False, l1_warm (l1_pin b ctx), count_one STALE_SERVES (blob_acquire z b)))
      else (L1_Origin, ctx, z))
    else Some (if l1_dice env clcf ctx z n fresh = NGX_OK then l1_claim env clcf ctx z a b
      else (L1_Serve b True True, ctx, count_one STALE_SERVES (blob_acquire z b))) }"

subsection \<open>Arming the fallbacks\<close>

definition l1_breaker_arm :: "l1_env \<Rightarrow> 'a l1_conf_scheme \<Rightarrow> l1_ctx \<Rightarrow> 'p zone \<Rightarrow> node \<Rightarrow> (l1_ctx \<times> 'p zone) option" where
  "l1_breaker_arm env clcf ctx z n =
    (if len n > 0 \<and> \<not> lx_brk_arm_done ctx \<and> breaker_should_consult clcf
     then do {
       b \<leftarrow> data n;
       Some (if le_cleanup env 1
         then (l1_pin b (ctx\<lparr>lx_brk_arm_done := True, lx_brk_snap := Some b, lx_brk_armed := True\<rparr>),
               blob_acquire z b)
         else (ctx, z)) }
     else Some (ctx, z))"

definition l1_sie_arm :: "l1_env \<Rightarrow> l1_ctx \<Rightarrow> 'p zone \<Rightarrow> node \<Rightarrow> (l1_ctx \<times> 'p zone) option" where
  "l1_sie_arm env ctx z n =
    (if len n > 0 \<and> \<not> lx_sie_armed ctx
     then do {
       b \<leftarrow> data n;
       created \<leftarrow> get_u64 (body_at z b) 24;
       sie_ttl \<leftarrow> get_u32 (body_at z b) 40;
       Some (if sie_ttl > 0 \<and> le_now env < sint created + uint sie_ttl \<and> le_cleanup env 2
         then (l1_pin b (ctx\<lparr>lx_sie_snap := Some b, lx_sie_armed := True\<rparr>), blob_acquire z b)
         else (ctx, z)) }
     else Some (ctx, z))"

subsection \<open>The phase\<close>

definition vary_prepare_lazy :: "l1_env \<Rightarrow> l1_ctx \<Rightarrow> l1_ctx option" where
  "vary_prepare_lazy env ctx =
    (if \<not> lx_marker_ready ctx
     then (case vary_prepare (le_dig env) ctx of None \<Rightarrow> None | Some ctx \<Rightarrow> Some (ctx\<lparr>lx_marker_ready := True\<rparr>))
     else Some ctx)"

text \<open>The variant of the request, under the lock: from L1's marker, or from L2's answer of an
  earlier pass.\<close>

definition l1_vary :: "l1_env \<Rightarrow> 'a l1_conf_scheme \<Rightarrow> vary_req \<Rightarrow> 'p zone \<Rightarrow> l1_ctx \<Rightarrow> u32
    \<Rightarrow> (ngx_rc \<times> l1_ctx \<times> u32) option" where
  "l1_vary env clcf r z ctx hash =
    (if \<not> l1_auto_vary clcf then Some (NGX_OK, ctx, hash)
     else do {
       (rc, ctx, hash') \<leftarrow>
         (if markers z = 0 then Some (NGX_OK, ctx\<lparr>vx_gen := 0, vx_l1_miss := True\<rparr>, hash)
          else (case vary_prepare_lazy env ctx of
                  None \<Rightarrow> Some (NGX_ERROR, ctx, hash)
                | Some ctx \<Rightarrow> vary_apply (le_dig env) (le_crc env) clcf r z (le_now env) ctx hash));
       Some (if rc \<noteq> NGX_OK then (NGX_ERROR, ctx, hash')
         else if lx_l2_bits ctx > 0 \<and> hash' = hash
         then (case variant_hash (le_dig env) r (vx_cache_key ctx) (lx_l2_bits ctx) (lx_l2_gen ctx) of
                 None \<Rightarrow> (NGX_ERROR, ctx, hash')
               | Some k \<Rightarrow> (NGX_OK, ctx\<lparr>vx_key_hash := k, vx_gen := lx_l2_gen ctx\<rparr>, le_crc env k))
         else (NGX_OK, ctx, hash')) })"

definition l1_consume_pending :: "l1_env \<Rightarrow> l1_ctx \<Rightarrow> 'p zone \<Rightarrow> addr \<Rightarrow> l1_ctx \<times> 'p zone" where
  "l1_consume_pending env ctx z a =
    (if varidx_pending (node_at z a)
     then (ctx\<lparr>lx_varidx_reissue := True,
             lx_varidx_ttl := (if stale_until (node_at z a) > 0 then stale_until (node_at z a) - le_now env else 0)\<rparr>,
           upd_node a (\<lambda>n. n\<lparr>varidx_pending := False\<rparr>) z)
     else (ctx, z))"

definition l1_entry :: "l1_env \<Rightarrow> 'a l1_conf_scheme \<Rightarrow> l1_ctx \<Rightarrow> 'p zone \<Rightarrow> addr \<Rightarrow> u32
    \<Rightarrow> (l1_result option \<times> l1_ctx \<times> 'p zone) option" where
  "l1_entry env clcf ctx z a hash = do {
    let now = le_now env;
    let n = node_at z a;
    let fresh = fresh_until n;
    let stale = l1_stale_window clcf (zautotune z) fresh (stale_until n);
    (fresh_ok, stale_ok, ctx) \<leftarrow> l1_req_bounds ctx z n now fresh stale;
    let reval = (vx_revalidate ctx \<or> lx_revalidate_inflight ctx);
    if \<not> lx_brk_only ctx \<and> \<not> reval \<and> now < fresh \<and> fresh_ok
    then do { (res, ctx, z) \<leftarrow> l1_serve_fresh env clcf ctx z a hash; Some (Some res, ctx, z) }
    else if \<not> reval \<and> \<not> lx_brk_only ctx \<and> (stale = 0 \<or> now < stale) \<and> len n > 0 \<and> stale_ok
    then do {
      let (ctx, z) = (if lx_varidx_reissue ctx
        then (ctx\<lparr>lx_varidx_reissue := False\<rparr>, upd_node a (\<lambda>n. n\<lparr>varidx_pending := True\<rparr>) z) else (ctx, z));
      (res, ctx, z) \<leftarrow> l1_serve_stale env clcf ctx z a fresh hash;
      Some (Some res, ctx, z) }
    else do {
      let ctx = ctx\<lparr>lx_expired := True\<rparr>;
      (ctx, z) \<leftarrow> l1_breaker_arm env clcf ctx z n;
      (ctx, z) \<leftarrow> l1_sie_arm env ctx z n;
      Some (None, ctx, z) } }"

definition access_l1 :: "l1_env \<Rightarrow> 'a l1_conf_scheme \<Rightarrow> vary_req \<Rightarrow> l1_ctx \<Rightarrow> 'p zone \<Rightarrow> u32
    \<Rightarrow> (l1_result \<times> l1_ctx \<times> 'p zone) option" where
  "access_l1 env clcf r ctx z hash =
    (case (if l1_auto_vary clcf \<and> le_hint env then vary_prepare_lazy env ctx else Some ctx) of
       None \<Rightarrow> Some (L1_Error, ctx, z)
     | Some ctx \<Rightarrow> do {
         (rc, ctx, hash) \<leftarrow> l1_vary env clcf r z ctx hash;
         if rc \<noteq> NGX_OK then Some (L1_Error, ctx, z)
         else do {
           (res, ctx, z) \<leftarrow>
             (case shm_lookup z (vx_key_hash ctx) of
                None \<Rightarrow> Some (None, ctx, z)
              | Some a \<Rightarrow>
                  (case l1_consume_pending env ctx z a of (ctx, z) \<Rightarrow> l1_entry env clcf ctx z a hash));
           Some (case res of
               Some res \<Rightarrow> (res, ctx, z)
             | None \<Rightarrow> (case varidx_reissue env clcf ctx z of (ctx, z) \<Rightarrow> (L1_Next hash, ctx, z))) } })"

subsection \<open>What promotion leaves alone\<close>

definition node_view :: "node \<Rightarrow> node_kind \<times> addr option \<times> nat \<times> time_t \<times> time_t \<times> bool \<times> time_t \<times> bool" where
  "node_view n = (kind n, data n, len n, fresh_until n, stale_until n, refreshing n, refresh_lock_until n, varidx_pending n)"

lemma view_simps [simp]:
  "node_at (lru_unlink z a) c = node_at z c" "node_at (lru_link_head z a) c = node_at z c"
  "node_at (z\<lparr>zsketch := sk\<rparr>) c = node_at z c"
  "node_view (node_at (upd_node a (\<lambda>n. n\<lparr>seg := s\<rparr>) z) c) = node_view (node_at z c)"
  "node_view (node_at (upd_node a (\<lambda>n. n\<lparr>last_access := t\<rparr>) z) c) = node_view (node_at z c)"
  "node_view (node_at (upd_node a (\<lambda>n. n\<lparr>seg := s, promotable := p\<rparr>) z) c) = node_view (node_at z c)"
  by (simp_all add: node_at_def upd_node_def lru_unlink_def lru_link_head_def Let_def node_view_def)

lemma view_demote [simp]: "node_view (node_at (lru_demote k cap z) c) = node_view (node_at z c)"
proof (induction k cap z rule: lru_demote.induct)
  case (2 k cap z)
  then show ?case by (subst lru_demote.simps(2)) (simp add: Let_def)
qed simp

lemma view_touch: "node_view (node_at (shm_touch_lru z a now pct hash) c) = node_view (node_at z c)"
  by (simp add: shm_touch_lru_def Let_def lru_enforce_cap_def del: upd_node_simps)

lemma link_rest [simp]:
  "rbtree (lru_unlink z a) = rbtree z" "zautotune (lru_unlink z a) = zautotune z"
  "rbtree (lru_link_head z a) = rbtree z" "zautotune (lru_link_head z a) = zautotune z"
  "zautotune (upd_node a f z) = zautotune z"
  by (simp_all add: lru_unlink_def lru_link_head_def Let_def upd_node_def)

lemma demote_rest [simp]: "rbtree (lru_demote k cap z) = rbtree z" "zautotune (lru_demote k cap z) = zautotune z"
proof (induction k cap z rule: lru_demote.induct)
  case (2 k cap z)
  show "rbtree (lru_demote (Suc k) cap z) = rbtree z" using 2(1) by (subst lru_demote.simps(2)) (simp add: Let_def)
  show "zautotune (lru_demote (Suc k) cap z) = zautotune z" using 2(2) by (subst lru_demote.simps(2)) (simp add: Let_def)
qed simp_all

lemma touch_rest [simp]:
  "rbtree (shm_touch_lru z a now pct hash) = rbtree z" "zautotune (shm_touch_lru z a now pct hash) = zautotune z"
  by (simp_all add: shm_touch_lru_def Let_def lru_enforce_cap_def)

lemma touch_fields:
  "data (node_at (shm_touch_lru z a now pct hash) c) = data (node_at z c)"
  "len (node_at (shm_touch_lru z a now pct hash) c) = len (node_at z c)"
  "fresh_until (node_at (shm_touch_lru z a now pct hash) c) = fresh_until (node_at z c)"
  "stale_until (node_at (shm_touch_lru z a now pct hash) c) = stale_until (node_at z c)"
  "refreshing (node_at (shm_touch_lru z a now pct hash) c) = refreshing (node_at z c)"
  "refresh_lock_until (node_at (shm_touch_lru z a now pct hash) c) = refresh_lock_until (node_at z c)"
  using view_touch [of z a now pct hash c] by (simp_all add: node_view_def)

subsection \<open>References\<close>

definition held :: "(addr \<Rightarrow> nat) \<Rightarrow> addr list \<Rightarrow> addr \<Rightarrow> nat" where
  "held R bs b = R b + count_list bs b"

lemma held_Nil [simp]: "held R [] = R"
  by (simp add: held_def fun_eq_iff)

lemma held_Cons: "held R (b # bs) = (held R bs)(b := held R bs b + 1)"
  by (simp add: held_def fun_eq_iff)

lemma pin_body:
  assumes "zok C live (held R bs) z" and "a \<in> dom (nodes z)" and "data (node_at z a) = Some b"
  shows "zok C live (held R (b # bs)) (blob_acquire z b)"
  unfolding held_Cons by (rule zinv_blob_acquire [OF assms(1)]) (rule node_blob(1) [OF assms])

definition blobs_wire :: "'p zone \<Rightarrow> bool" where
  "blobs_wire z \<longleftrightarrow> (\<forall>a n b. nodes z a = Some n \<longrightarrow> data n = Some b \<longrightarrow> BLOB_HDR_WIRE \<le> length (body_at z b))"

definition digest32 :: "(bytes \<Rightarrow> bytes option) \<Rightarrow> bool" where
  "digest32 dig \<longleftrightarrow> (\<forall>m k. dig m = Some k \<longrightarrow> length k = 32)"

text \<open>Updates no part of the invariant reads.\<close>

lemma zok_stats:
  assumes inv: "zok C live R z"
  shows "zok C live R (count_one c z)" "zok C live R (z\<lparr>zautotune := at\<rparr>)"
proof -
  have "lru_ok {} (count_one c z)" "shapes_ok {} (count_one c z)"
    using zinvD(5,7) [OF inv] lru_ok_cong [of "count_one c z" z "{}"] shapes_ok_cong [of "count_one c z" z "{}"]
    by (simp_all add: count_one_def)
  then show "zok C live R (count_one c z)" by (rule zinv_frame [OF inv]) (simp_all add: count_one_def)
  have "lru_ok {} (z\<lparr>zautotune := at\<rparr>)" "shapes_ok {} (z\<lparr>zautotune := at\<rparr>)"
    using zinvD(5,7) [OF inv] lru_ok_cong [of "z\<lparr>zautotune := at\<rparr>" z "{}"] shapes_ok_cong [of "z\<lparr>zautotune := at\<rparr>" z "{}"]
    by simp_all
  then show "zok C live R (z\<lparr>zautotune := at\<rparr>)" by (rule zinv_frame [OF inv]) simp_all
qed

subsection \<open>The phase is total and counts its references\<close>

definition handed :: "l1_result \<Rightarrow> addr list" where
  "handed res = (case res of L1_Serve b stale True \<Rightarrow> [b] | _ \<Rightarrow> [])"

lemma handed_simps [simp]:
  "handed L1_Error = []" "handed L1_Origin = []" "handed L1_Park = []" "handed (L1_Next h) = []"
  "handed (L1_Serve b s True) = [b]" "handed (L1_Serve b s False) = []"
  by (simp_all add: handed_def)

lemma node_shape:
  assumes "zok C live R z" and "a \<in> dom (nodes z)"
  shows "data (node_at z a) = None \<Longrightarrow> len (node_at z a) = 0 \<and> fresh_until (node_at z a) = 0"
    "data (node_at z a) = Some b \<Longrightarrow> len (node_at z a) = length (body_at z b)"
  using zinvD(7) [OF assms(1)] nodes_node_at [OF assms(2)]
  by (force simp: shapes_ok_def shape_ok_def body_at_def)+

lemma wire_reads:
  assumes "blobs_wire z" and "a \<in> dom (nodes z)" and "data (node_at z a) = Some b"
  shows "\<exists>v. get_u64 (body_at z b) 24 = Some v" "\<exists>v. get_u32 (body_at z b) 40 = Some v"
    "\<exists>v. get_u32 (body_at z b) 0 = Some v" "\<exists>v. get_u16 (body_at z b) 4 = Some v"
proof -
  have "76 \<le> length (body_at z b)"
    using assms nodes_node_at [OF assms(2)] unfolding blobs_wire_def BLOB_HDR_WIRE_def by blast
  then show "\<exists>v. get_u64 (body_at z b) 24 = Some v" "\<exists>v. get_u32 (body_at z b) 40 = Some v"
    "\<exists>v. get_u32 (body_at z b) 0 = Some v" "\<exists>v. get_u16 (body_at z b) 4 = Some v"
    by (auto intro!: u64.get_inD u32.get_inD u16.get_inD)
qed

lemma wire_upd: "blobs_wire z \<Longrightarrow> a \<in> dom (nodes z) \<Longrightarrow> data (f (node_at z a)) = data (node_at z a) \<Longrightarrow>
    blobs_wire (upd_node a f z)"
  using nodes_node_at [of a z] by (auto simp: blobs_wire_def body_at_def)

lemma zok_dom: "zok C live R z \<Longrightarrow> dom (nodes z) = snd ` rb_entries (rbtree z)"
  using zinvD(4) [of C live R "{}" "{}" 0 z] by (simp add: idx_ok_def)

lemma touch_dom:
  assumes "zok C live R z" and "a \<in> dom (nodes z)"
  shows "dom (nodes (shm_touch_lru z a now pct hash)) = dom (nodes z)"
  using zok_dom [OF shm_touch_lru_inv [OF assms]] zok_dom [OF assms(1)] by simp

lemma reissue_ok:
  assumes "zok C live R z" and "length (vx_key_hash ctx) = 32"
  shows "zok C live R (snd (varidx_reissue env clcf ctx z)) \<and> lx_pins (fst (varidx_reissue env clcf ctx z)) = lx_pins ctx"
  using shm_varidx_inv [OF assms] zok_stats(1) [OF assms(1)] assms(1)
  by (auto simp: varidx_reissue_def Let_def split: option.split)

lemma serve_fresh_ok:
  assumes inv: "zok C live R z" and a: "a \<in> dom (nodes z)" and d: "data (node_at z a) = Some b"
    and k: "length (vx_key_hash ctx) = 32"
  shows "\<exists>ctx' z'. l1_serve_fresh env clcf ctx z a hash = Some (L1_Serve b False True, ctx', z') \<and>
    lx_pins ctx' = lx_pins ctx \<and> zok C live (held R [b]) z'"
proof -
  let ?z = "shm_touch_lru (blob_acquire z b) a (le_now env) (l1_scan_resistant_pct clcf) hash"
  have "zok C live (held R [b]) (blob_acquire z b)" using pin_body [of C live R "[]" z a b] assms by simp
  moreover have "a \<in> dom (nodes (blob_acquire z b))" using a by (simp add: blob_acquire_def)
  ultimately have z: "zok C live (held R [b]) ?z" by (rule shm_touch_lru_inv)
  obtain ctx1 z1 where r: "varidx_reissue env clcf ctx ?z = (ctx1, z1)" by fastforce
  have "zok C live (held R [b]) z1 \<and> lx_pins ctx1 = lx_pins ctx" using reissue_ok [OF z k, of env clcf] r by simp
  then show ?thesis using d r zok_stats(2) by (auto simp: l1_serve_fresh_def Let_def)
qed

lemma serve_stale_ok:
  assumes inv: "zok C live R z" and a: "a \<in> dom (nodes z)" and d: "data (node_at z a) = Some b"
  shows "\<exists>res ctx' z' new. l1_serve_stale env clcf ctx z a fresh hash = Some (res, ctx', z') \<and>
    lx_pins ctx' = new @ lx_pins ctx \<and> zok C live (held R (handed res @ new)) z' \<and>
    (\<forall>b' s h. res = L1_Serve b' s h \<longrightarrow> b' = b \<and> s \<and> b \<in> set (handed res @ new))"
proof -
  define z1 where "z1 = shm_touch_lru z a (le_now env) (l1_scan_resistant_pct clcf) hash"
  have i1: "zok C live R z1" unfolding z1_def by (rule shm_touch_lru_inv [OF inv a])
  have d1: "data (node_at z1 a) = Some b" using d by (simp add: z1_def touch_fields)
  have a1: "a \<in> dom (nodes z1)" using a by (simp add: z1_def touch_dom [OF inv a])
  have acq: "zok C live (held R [b]) (blob_acquire z1 b)" using pin_body [of C live R "[]" z1 a b] i1 a1 d1 by simp
  have claim: "zok C live (held R [b]) (claim_refresh a t (blob_acquire z1 b))" for t
    unfolding claim_refresh_def using a1
    by (intro zinv_upd_soft [OF acq]) (auto simp: blob_acquire_def soft_def)
  show ?thesis
    unfolding l1_serve_stale_def z1_def [symmetric] Let_def d1 l1_claim_def
    using acq claim i1
    by (auto simp: l1_warm_def l1_pin_def intro!: zok_stats intro: exI [of _ "[]"] exI [of _ "[b]"])
qed

lemma breaker_arm_ok:
  assumes "zok C live (held R bs) z" and "a \<in> dom (nodes z)" and "node_view n = node_view (node_at z a)"
  shows "\<exists>ctx' z' new. l1_breaker_arm env clcf ctx z n = Some (ctx', z') \<and> lx_pins ctx' = new @ lx_pins ctx \<and>
    zok C live (held R (new @ bs)) z' \<and> nodes z' = nodes z \<and> body_at z' = body_at z \<and>
    vx_key_hash ctx' = vx_key_hash ctx \<and> lx_brk_armed ctx' = (lx_brk_armed ctx \<or> new \<noteq> [])"
proof (cases "len n > 0 \<and> \<not> lx_brk_arm_done ctx \<and> breaker_should_consult clcf")
  case True
  then obtain b where d: "data n = Some b" "data (node_at z a) = Some b"
    using node_shape(1) [OF assms(1,2)] assms(3) by (cases "data n") (auto simp: node_view_def)
  have "body_at (blob_acquire z b) = body_at z"
    using node_blob(1) [OF assms(1,2) d(2)] by (auto simp: body_at_def blob_acquire_def fun_eq_iff)
  then show ?thesis using True d pin_body [OF assms(1,2) d(2)] assms(1)
    by (auto simp: l1_breaker_arm_def l1_pin_def blob_acquire_def intro: exI [of _ "[]"] exI [of _ "[b]"])
qed (use assms(1) in \<open>auto simp: l1_breaker_arm_def\<close>)

lemma sie_arm_ok:
  assumes "zok C live (held R bs) z" and "a \<in> dom (nodes z)" and "node_view n = node_view (node_at z a)"
    and "blobs_wire z"
  shows "\<exists>ctx' z' new. l1_sie_arm env ctx z n = Some (ctx', z') \<and> lx_pins ctx' = new @ lx_pins ctx \<and>
    zok C live (held R (new @ bs)) z' \<and> vx_key_hash ctx' = vx_key_hash ctx"
proof (cases "len n > 0 \<and> \<not> lx_sie_armed ctx")
  case True
  then obtain b where d: "data n = Some b" "data (node_at z a) = Some b"
    using node_shape(1) [OF assms(1,2)] assms(3) by (cases "data n") (auto simp: node_view_def)
  obtain v w where "get_u64 (body_at z b) 24 = Some v" "get_u32 (body_at z b) 40 = Some w"
    using wire_reads [OF assms(4,2) d(2)] by blast
  then show ?thesis using True d pin_body [OF assms(1,2) d(2)] assms(1)
    by (auto simp: l1_sie_arm_def l1_pin_def intro: exI [of _ "[]"] exI [of _ "[b]"])
qed (use assms(1) in \<open>auto simp: l1_sie_arm_def\<close>)

lemma req_bounds_ok:
  assumes "zok C live R z" and "a \<in> dom (nodes z)" and "blobs_wire z"
  shows "\<exists>f s ctx'. l1_req_bounds ctx z (node_at z a) now fresh stale = Some (f, s, ctx') \<and>
    (ctx' = ctx \<or> ctx' = ctx\<lparr>lx_req_reval := True\<rparr>)"
proof (cases "has_req_bounds (lx_cc ctx) \<and> len (node_at z a) > 0")
  case True
  then obtain b where d: "data (node_at z a) = Some b"
    using node_shape(1) [OF assms(1,2)] by (cases "data (node_at z a)") auto
  then obtain v where v: "get_u64 (body_at z b) 24 = Some v" using wire_reads(1) [OF assms(3,2)] by blast
  obtain f s where "req_serve_verdict (lx_cc ctx) (sint v) now fresh = (f, s)" by fastforce
  with True d v show ?thesis by (auto simp: l1_req_bounds_def Let_def)
qed (auto simp: l1_req_bounds_def)

lemma entry_ok:
  assumes inv: "zok C live R z" and a: "a \<in> dom (nodes z)" and w: "blobs_wire z"
    and k: "length (vx_key_hash ctx) = 32" and t: "0 \<le> le_now env"
  shows "\<exists>res ctx' z' new. l1_entry env clcf ctx z a hash = Some (res, ctx', z') \<and> lx_pins ctx' = new @ lx_pins ctx \<and>
    zok C live (held R (case res of None \<Rightarrow> new | Some r \<Rightarrow> handed r @ new)) z' \<and>
    (res = None \<longrightarrow> vx_key_hash ctx' = vx_key_hash ctx) \<and>
    (\<forall>b s h. res = Some (L1_Serve b s h) \<longrightarrow> data (node_at z a) = Some b \<and> b \<in> set (handed (L1_Serve b s h) @ new))"
proof -
  let ?n = "node_at z a" and ?now = "le_now env"
  define stale where "stale = l1_stale_window clcf (zautotune z) (fresh_until ?n) (stale_until ?n)"
  obtain f s ctx1 where rb: "l1_req_bounds ctx z ?n ?now (fresh_until ?n) stale = Some (f, s, ctx1)"
    "ctx1 = ctx \<or> ctx1 = ctx\<lparr>lx_req_reval := True\<rparr>"
    using req_bounds_ok [OF inv a w] by blast
  then have c1: "lx_pins ctx1 = lx_pins ctx" "vx_key_hash ctx1 = vx_key_hash ctx" by auto
  let ?reval = "vx_revalidate ctx1 \<or> lx_revalidate_inflight ctx1"
  show ?thesis
  proof (cases "\<not> lx_brk_only ctx1 \<and> \<not> ?reval \<and> ?now < fresh_until ?n \<and> f")
    case True
    then obtain b where d: "data ?n = Some b" using node_shape(1) [OF inv a] t by (cases "data ?n") auto
    obtain ctx' z' where "l1_serve_fresh env clcf ctx1 z a hash = Some (L1_Serve b False True, ctx', z')"
      "lx_pins ctx' = lx_pins ctx1" "zok C live (held R [b]) z'"
      using serve_fresh_ok [OF inv a d, of ctx1 env clcf hash] k c1 by auto
    then show ?thesis using True rb d c1 by (auto simp: l1_entry_def Let_def stale_def [symmetric])
  next
    case nf: False
    show ?thesis
    proof (cases "\<not> ?reval \<and> \<not> lx_brk_only ctx1 \<and> (stale = 0 \<or> ?now < stale) \<and> len ?n > 0 \<and> s")
      case True
      then obtain b where d: "data ?n = Some b" using node_shape(1) [OF inv a] by (cases "data ?n") auto
      define z1 where "z1 = (if lx_varidx_reissue ctx1 then upd_node a (\<lambda>n. n\<lparr>varidx_pending := True\<rparr>) z else z)"
      define ctx2 where "ctx2 = (if lx_varidx_reissue ctx1 then ctx1\<lparr>lx_varidx_reissue := False\<rparr> else ctx1)"
      have "zok C live R z1" unfolding z1_def using inv zinv_upd_soft [OF inv a] by (simp add: soft_def)
      moreover have "a \<in> dom (nodes z1)" "data (node_at z1 a) = Some b" using a d by (auto simp: z1_def node_at_upd)
      ultimately obtain r ctx' z' new where st: "l1_serve_stale env clcf ctx2 z1 a (fresh_until ?n) hash = Some (r, ctx', z')"
        "lx_pins ctx' = new @ lx_pins ctx2" "zok C live (held R (handed r @ new)) z'"
        "\<forall>b' s h. r = L1_Serve b' s h \<longrightarrow> b' = b \<and> s \<and> b \<in> set (handed r @ new)"
        using serve_stale_ok by metis
      have pins: "lx_pins ctx2 = lx_pins ctx" using c1 by (simp add: ctx2_def)
      have e: "l1_entry env clcf ctx z a hash = Some (Some r, ctx', z')"
        using True nf rb st(1) by (auto simp: l1_entry_def Let_def stale_def [symmetric] z1_def ctx2_def)
      show ?thesis using st(2-4) pins d unfolding e by (intro exI [of _ "Some r"] exI [of _ ctx'] exI [of _ z'] exI [of _ new]) auto
    next
      case False
      let ?ctx2 = "ctx1\<lparr>lx_expired := True\<rparr>"
      have "zok C live (held R []) z" using inv by simp
      from breaker_arm_ok [OF this a refl] obtain ctx3 z3 n3 where b: "l1_breaker_arm env clcf ?ctx2 z ?n = Some (ctx3, z3)"
        "lx_pins ctx3 = n3 @ lx_pins ?ctx2" "zok C live (held R (n3 @ [])) z3" "nodes z3 = nodes z"
        "body_at z3 = body_at z" "vx_key_hash ctx3 = vx_key_hash ?ctx2" by blast
      have "a \<in> dom (nodes z3)" "node_view ?n = node_view (node_at z3 a)" "blobs_wire z3"
        using a w b(4,5) by (simp_all add: node_at_def blobs_wire_def)
      from sie_arm_ok [OF b(3) this] obtain ctx4 z4 n4 where s: "l1_sie_arm env ctx3 z3 ?n = Some (ctx4, z4)"
        "lx_pins ctx4 = n4 @ lx_pins ctx3" "zok C live (held R (n4 @ n3 @ [])) z4" "vx_key_hash ctx4 = vx_key_hash ctx3" by blast
      have e: "l1_entry env clcf ctx z a hash = Some (None, ctx4, z4)"
        using False nf rb b(1) s(1) by (auto simp: l1_entry_def Let_def stale_def [symmetric])
      show ?thesis using b s c1 unfolding e
        by (intro exI [of _ None] exI [of _ ctx4] exI [of _ z4] exI [of _ "n4 @ n3"]) auto
    qed
  qed
qed

lemma marker_read_total:
  assumes "zok C live R z" and "blobs_wire z" and "length k = 32"
  shows "marker_read z now (map_option (node_at z) (shm_lookup z k)) \<noteq> None"
proof (cases "shm_lookup z k")
  case (Some a)
  note a = lookup_dom [OF assms(1,3) Some]
  show ?thesis
  proof (cases "data (node_at z a)")
    case d: (Some b)
    have "len (node_at z a) = length (content (the (blobs z b)))" using node_shape(2) [OF assms(1) a d] by (simp add: body_at_def)
    moreover obtain m v c where "get_u32 (content (the (blobs z b))) 0 = Some m" "get_u16 (content (the (blobs z b))) 4 = Some v"
      "get_u64 (content (the (blobs z b))) 24 = Some c"
      using wire_reads [OF assms(2) a d] unfolding body_at_def by blast
    ultimately show ?thesis using Some d by (auto simp: marker_read_def rd_def Let_def)
  qed (use Some in \<open>simp add: marker_read_def\<close>)
qed (simp add: marker_read_def)

lemma vary_apply_ok:
  fixes ctx :: l1_ctx
  assumes "zok C live R z" and "blobs_wire z" and "length (vx_marker_key ctx) = 32"
    and "length (vx_key_hash ctx) = 32" and "digest32 dig"
  shows "\<exists>rc ctx' h. vary_apply dig crc clcf r z now ctx hash = Some (rc, ctx', h) \<and>
    lx_pins ctx' = lx_pins ctx \<and> length (vx_key_hash ctx') = 32"
proof -
  obtain bits gen created where "marker_read z now (map_option (node_at z) (shm_lookup z (vx_marker_key ctx))) = Some (bits, gen, created)"
    using marker_read_total [OF assms(1-3)] by (metis not_None_eq prod_cases3)
  then show ?thesis using assms(4,5)
    by (auto simp: vary_apply_def Let_def variant_hash_def digest32_def split: option.split)
qed

lemma prepare_lazy_ok:
  assumes "vary_prepare_lazy env ctx = Some ctx'" and "digest32 (le_dig env)"
    and "lx_marker_ready ctx \<longrightarrow> length (vx_marker_key ctx) = 32"
  shows "length (vx_marker_key ctx') = 32 \<and> lx_pins ctx' = lx_pins ctx \<and> vx_key_hash ctx' = vx_key_hash ctx"
  using assms by (auto simp: vary_prepare_lazy_def vary_prepare_def marker_hash_def digest32_def split: if_splits option.splits)

lemma vary_ok:
  assumes "zok C live R z" and "blobs_wire z" and "length (vx_key_hash ctx) = 32" and "digest32 (le_dig env)"
    and "lx_marker_ready ctx \<longrightarrow> length (vx_marker_key ctx) = 32"
  shows "\<exists>rc ctx' h. l1_vary env clcf r z ctx hash = Some (rc, ctx', h) \<and>
    lx_pins ctx' = lx_pins ctx \<and> length (vx_key_hash ctx') = 32"
proof -
  have step: "\<exists>rc ctx1 h1. (if markers z = 0 then Some (NGX_OK, ctx\<lparr>vx_gen := 0, vx_l1_miss := True\<rparr>, hash)
      else (case vary_prepare_lazy env ctx of None \<Rightarrow> Some (NGX_ERROR, ctx, hash)
        | Some ctx \<Rightarrow> vary_apply (le_dig env) (le_crc env) clcf r z (le_now env) ctx hash)) = Some (rc, ctx1, h1)
    \<and> lx_pins ctx1 = lx_pins ctx \<and> length (vx_key_hash ctx1) = 32"
  proof (cases "vary_prepare_lazy env ctx")
    case None
    then show ?thesis using assms(3) by simp
  next
    case (Some ctx0)
    note p = prepare_lazy_ok [OF Some assms(4,5)]
    obtain rc ctx1 h1 where "vary_apply (le_dig env) (le_crc env) clcf r z (le_now env) ctx0 hash = Some (rc, ctx1, h1)"
      "lx_pins ctx1 = lx_pins ctx0" "length (vx_key_hash ctx1) = 32"
      using vary_apply_ok [OF assms(1,2) _ _ assms(4), of ctx0 "le_crc env" clcf r "le_now env" hash] p assms(3) by metis
    then show ?thesis using Some p assms(3) by (cases "markers z = 0") auto
  qed
  show ?thesis
  proof (cases "l1_auto_vary clcf")
    case True
    from step obtain rc ctx1 h1 where s: "(if markers z = 0 then Some (NGX_OK, ctx\<lparr>vx_gen := 0, vx_l1_miss := True\<rparr>, hash)
      else (case vary_prepare_lazy env ctx of None \<Rightarrow> Some (NGX_ERROR, ctx, hash)
        | Some ctx \<Rightarrow> vary_apply (le_dig env) (le_crc env) clcf r z (le_now env) ctx hash)) = Some (rc, ctx1, h1)"
      "lx_pins ctx1 = lx_pins ctx" "length (vx_key_hash ctx1) = 32" by blast
    show ?thesis using True s(2,3) assms(4) unfolding l1_vary_def s(1)
      by (auto simp: variant_hash_def digest32_def split: option.split)
  qed (use assms(3) in \<open>simp add: l1_vary_def\<close>)
qed

text \<open>
  C13: The L1 phase never reads outside a body or through a null body, ends in one of its outcomes for
  every zone and request, and accounts for every reference: the body it hands to \<open>serve\<close> and the
  bodies pinned for the request are exactly the references the zone has gained, and whatever is
  served is among them, so no other worker can free it.
\<close>

theorem access_l1_references:
  assumes "zok C live R z" and "blobs_wire z" and "length (vx_key_hash ctx) = 32"
    and "digest32 (le_dig env)" and "lx_marker_ready ctx \<longrightarrow> length (vx_marker_key ctx) = 32"
    and "0 \<le> le_now env"
  shows "\<exists>res ctx' z' new. access_l1 env clcf r ctx z hash = Some (res, ctx', z') \<and>
    lx_pins ctx' = new @ lx_pins ctx \<and> zok C live (held R (handed res @ new)) z' \<and>
    (\<forall>b stale ref. res = L1_Serve b stale ref \<longrightarrow> b \<in> set (handed res @ new))"
proof (cases "if l1_auto_vary clcf \<and> le_hint env then vary_prepare_lazy env ctx else Some ctx")
  case None
  then show ?thesis using assms(1) by (auto simp: access_l1_def intro!: exI [of _ "[]"])
next
  case (Some ctx0)
  have c0: "lx_pins ctx0 = lx_pins ctx" "vx_key_hash ctx0 = vx_key_hash ctx"
    "lx_marker_ready ctx0 \<longrightarrow> length (vx_marker_key ctx0) = 32"
    using Some prepare_lazy_ok [OF _ assms(4,5)] assms(5) by (auto split: if_splits)
  obtain rc ctx1 h where v: "l1_vary env clcf r z ctx0 hash = Some (rc, ctx1, h)"
    "lx_pins ctx1 = lx_pins ctx0" "length (vx_key_hash ctx1) = 32"
    using vary_ok [OF assms(1,2) _ assms(4) c0(3)] c0(2) assms(3) by metis
  show ?thesis
  proof (cases "rc = NGX_OK")
    case False
    then show ?thesis using Some v c0 assms(1) by (auto simp: access_l1_def intro!: exI [of _ "[]"])
  next
    case True
    show ?thesis
    proof (cases "shm_lookup z (vx_key_hash ctx1)")
      case None
      obtain ctx2 z2 where re: "varidx_reissue env clcf ctx1 z = (ctx2, z2)" by fastforce
      have "zok C live R z2 \<and> lx_pins ctx2 = lx_pins ctx1" using reissue_ok [OF assms(1) v(3), of env clcf] re by simp
      moreover have "access_l1 env clcf r ctx z hash = Some (L1_Next h, ctx2, z2)"
        using Some v(1) True None re by (simp add: access_l1_def)
      ultimately show ?thesis using v c0 by (auto intro!: exI [of _ "[]"])
    next
      case look: (Some a)
      note a = lookup_dom [OF assms(1) v(3) look]
      obtain ctx2 z2 where cp: "l1_consume_pending env ctx1 z a = (ctx2, z2)" by fastforce
      have z2: "zok C live R z2" "a \<in> dom (nodes z2)" "blobs_wire z2" "lx_pins ctx2 = lx_pins ctx1"
        "vx_key_hash ctx2 = vx_key_hash ctx1"
        using cp zinv_upd_soft [OF assms(1) a] assms(1) a wire_upd [OF assms(2) a] assms(2)
        by (auto simp: l1_consume_pending_def soft_def split: if_splits)
      obtain res ctx3 z3 new where e: "l1_entry env clcf ctx2 z2 a h = Some (res, ctx3, z3)" "lx_pins ctx3 = new @ lx_pins ctx2"
        "zok C live (held R (case res of None \<Rightarrow> new | Some r \<Rightarrow> handed r @ new)) z3"
        "res = None \<longrightarrow> vx_key_hash ctx3 = vx_key_hash ctx2"
        "\<forall>b s h. res = Some (L1_Serve b s h) \<longrightarrow> data (node_at z2 a) = Some b \<and> b \<in> set (handed (L1_Serve b s h) @ new)"
        using entry_ok [OF z2(1-3) _ assms(6)] z2(5) v(3) by metis
      show ?thesis
      proof (cases res)
        case (Some rs)
        then have "access_l1 env clcf r ctx z hash = Some (rs, ctx3, z3)"
          using \<open>(if l1_auto_vary clcf \<and> le_hint env then vary_prepare_lazy env ctx else Some ctx) = Some ctx0\<close> v(1) True look cp e(1)
          by (simp add: access_l1_def)
        then show ?thesis using e Some z2 v c0 by (auto intro!: exI [of _ new])
      next
        case None
        obtain ctx4 z4 where re: "varidx_reissue env clcf ctx3 z3 = (ctx4, z4)" by fastforce
        have "zok C live (held R new) z3" "length (vx_key_hash ctx3) = 32" using e None z2 v by auto
        from reissue_ok [OF this, of env clcf] re have "zok C live (held R new) z4 \<and> lx_pins ctx4 = lx_pins ctx3" by simp
        moreover have "access_l1 env clcf r ctx z hash = Some (L1_Next h, ctx4, z4)"
          using Some v(1) True look cp e(1) None re by (simp add: access_l1_def)
        ultimately show ?thesis using e z2 v c0 by (auto intro!: exI [of _ new])
      qed
    qed
  qed
qed

subsection \<open>What is served, and when\<close>

text \<open>The context once the variant is resolved; \<open>None\<close> when a digest failed.\<close>

definition l1_resolved :: "l1_env \<Rightarrow> 'a l1_conf_scheme \<Rightarrow> vary_req \<Rightarrow> l1_ctx \<Rightarrow> 'p zone \<Rightarrow> u32 \<Rightarrow> l1_ctx option" where
  "l1_resolved env clcf r ctx z hash =
    (case (if l1_auto_vary clcf \<and> le_hint env then vary_prepare_lazy env ctx else Some ctx) of
       None \<Rightarrow> None
     | Some ctx \<Rightarrow> (case l1_vary env clcf r z ctx hash of
         Some (NGX_OK, ctx1, h) \<Rightarrow> Some ctx1 | _ \<Rightarrow> None))"

definition same_request :: "l1_ctx \<Rightarrow> l1_ctx \<Rightarrow> bool" where
  "same_request c d \<longleftrightarrow> lx_warmed c = lx_warmed d \<and> lx_lock_done c = lx_lock_done d \<and> lx_cc c = lx_cc d \<and>
    lx_brk_only c = lx_brk_only d"

lemma same_request_trans: "same_request a b \<Longrightarrow> same_request b c \<Longrightarrow> same_request a c"
  by (simp add: same_request_def)

lemma vary_apply_same:
  "vary_apply dig crc clcf r z now ctx hash = Some (rc, ctx', h) \<Longrightarrow> same_request ctx' ctx"
  by (auto simp: vary_apply_def Let_def same_request_def split: option.splits bind_splits if_splits)

lemma prepare_same: "vary_prepare_lazy env ctx = Some ctx' \<Longrightarrow> same_request ctx' ctx"
  by (auto simp: vary_prepare_lazy_def vary_prepare_def same_request_def split: if_splits option.splits)

lemma l1_vary_same:
  assumes "l1_vary env clcf r z ctx hash = Some (rc, ctx', h)"
  shows "same_request ctx' ctx"
proof (cases "l1_auto_vary clcf")
  case True
  let ?s = "if markers z = 0 then Some (NGX_OK, ctx\<lparr>vx_gen := 0, vx_l1_miss := True\<rparr>, hash)
      else (case vary_prepare_lazy env ctx of None \<Rightarrow> Some (NGX_ERROR, ctx, hash)
        | Some ctx \<Rightarrow> vary_apply (le_dig env) (le_crc env) clcf r z (le_now env) ctx hash)"
  obtain rc1 ctx1 h1 where s: "?s = Some (rc1, ctx1, h1)"
    using assms True unfolding l1_vary_def by (cases ?s) auto
  then have "same_request ctx1 ctx"
    by (auto split: if_splits option.splits dest!: prepare_same vary_apply_same intro: same_request_trans)
      (auto simp: same_request_def)
  then show ?thesis using assms True unfolding l1_vary_def s
    by (auto simp: same_request_def split: if_splits option.splits)
qed (use assms in \<open>simp add: l1_vary_def same_request_def\<close>)

lemma reissue_same: "same_request (fst (varidx_reissue env clcf ctx z)) ctx"
  by (auto simp: varidx_reissue_def Let_def same_request_def split: option.split)

lemma bounds_same: "l1_req_bounds ctx z n now fresh stale = Some (f, s, ctx') \<Longrightarrow>
    same_request ctx' ctx \<and> vx_revalidate ctx' = vx_revalidate ctx"
  by (auto simp: l1_req_bounds_def Let_def same_request_def split: if_splits bind_splits prod.splits)

lemma breaker_arm_same: "l1_breaker_arm env clcf ctx z n = Some (ctx', z') \<Longrightarrow> same_request ctx' ctx"
  by (auto simp: l1_breaker_arm_def l1_pin_def same_request_def split: if_splits bind_splits)

lemma sie_arm_same: "l1_sie_arm env ctx z n = Some (ctx', z') \<Longrightarrow> same_request ctx' ctx"
  by (auto simp: l1_sie_arm_def l1_pin_def same_request_def split: if_splits bind_splits)

lemma entry_none_same:
  assumes "l1_entry env clcf ctx z a hash = Some (None, ctx', z')"
  shows "same_request ctx' ctx"
proof -
  let ?n = "node_at z a"
  let ?stale = "l1_stale_window clcf (zautotune z) (fresh_until ?n) (stale_until ?n)"
  obtain f s c1 where b: "l1_req_bounds ctx z ?n (le_now env) (fresh_until ?n) ?stale = Some (f, s, c1)"
    using assms by (auto simp: l1_entry_def Let_def split: bind_splits)
  obtain c2 z2 where k: "l1_breaker_arm env clcf (c1\<lparr>lx_expired := True\<rparr>) z ?n = Some (c2, z2)" "l1_sie_arm env c2 z2 ?n = Some (ctx', z')"
    using assms b by (auto simp: l1_entry_def Let_def split: if_splits bind_splits prod.splits)
  have "same_request (c1\<lparr>lx_expired := True\<rparr>) c1" by (simp add: same_request_def)
  then show ?thesis using bounds_same [OF b] breaker_arm_same [OF k(1)] sie_arm_same [OF k(2)]
    by (blast intro: same_request_trans)
qed

lemma consume_same: "l1_consume_pending env ctx z a = (ctx', z') \<Longrightarrow> same_request ctx' ctx \<and>
    vx_revalidate ctx' = vx_revalidate ctx"
  by (auto simp: l1_consume_pending_def same_request_def split: if_splits)

definition no_body :: "l1_result \<Rightarrow> bool" where
  "no_body res \<longleftrightarrow> (\<forall>b s ref. res \<noteq> L1_Serve b s ref) \<and> res \<noteq> L1_Origin \<and> res \<noteq> L1_Park"

lemma access_l1_entry:
  assumes "access_l1 env clcf r ctx z hash = Some (res, ctx', z')"
  shows "(\<exists>ctx1 h a ctx2 z2. l1_resolved env clcf r ctx z hash = Some ctx1 \<and> same_request ctx1 ctx \<and>
      shm_lookup z (vx_key_hash ctx1) = Some a \<and> l1_consume_pending env ctx1 z a = (ctx2, z2) \<and>
      l1_entry env clcf ctx2 z2 a h = Some (Some res, ctx', z')) \<or>
    no_body res \<and> lx_warmed ctx' = lx_warmed ctx"
proof (cases "if l1_auto_vary clcf \<and> le_hint env then vary_prepare_lazy env ctx else Some ctx")
  case None
  then show ?thesis using assms by (auto simp: access_l1_def no_body_def)
next
  case (Some ctx0)
  have s0: "same_request ctx0 ctx"
    using Some prepare_same [of env ctx ctx0] by (auto simp: same_request_def split: if_splits)
  obtain rc ctx1 h where v: "l1_vary env clcf r z ctx0 hash = Some (rc, ctx1, h)"
    using assms Some by (cases "l1_vary env clcf r z ctx0 hash") (auto simp: access_l1_def)
  have s1: "same_request ctx1 ctx" using l1_vary_same [OF v] s0 by (rule same_request_trans)
  show ?thesis
  proof (cases "rc = NGX_OK")
    case False
    then show ?thesis using assms Some v s1 by (auto simp: access_l1_def no_body_def same_request_def)
  next
    case True
    then have res: "l1_resolved env clcf r ctx z hash = Some ctx1" using Some v by (simp add: l1_resolved_def)
    show ?thesis
    proof (cases "shm_lookup z (vx_key_hash ctx1)")
      case None
      then show ?thesis using assms Some v True s1 reissue_same [of env clcf ctx1 z]
        by (auto simp: access_l1_def no_body_def same_request_def split: prod.splits)
    next
      case look: (Some a)
      obtain ctx2 z2 where cp: "l1_consume_pending env ctx1 z a = (ctx2, z2)" by fastforce
      obtain re ctx3 z3 where e: "l1_entry env clcf ctx2 z2 a h = Some (re, ctx3, z3)"
        using assms Some v True look cp by (cases "l1_entry env clcf ctx2 z2 a h") (auto simp: access_l1_def)
      show ?thesis
      proof (cases re)
        case None
        have "same_request ctx3 ctx" using entry_none_same [of env clcf ctx2 z2 a h ctx3 z3] e None consume_same [OF cp] s1
          by (auto intro: same_request_trans)
        then show ?thesis using assms Some v True look cp e None reissue_same [of env clcf ctx3 z3]
          by (auto simp: access_l1_def no_body_def same_request_def split: prod.splits)
      next
        case (Some rs)
        then have "re = Some res \<and> ctx3 = ctx' \<and> z3 = z'"
          using assms \<open>(if l1_auto_vary clcf \<and> le_hint env then vary_prepare_lazy env ctx else Some ctx) = Some ctx0\<close>
            v True look cp e by (simp add: access_l1_def)
        then show ?thesis using res s1 look cp e by blast
      qed
    qed
  qed
qed

lemma entry_some:
  assumes "l1_entry env clcf ctx z a hash = Some (Some res, ctx', z')"
  shows "\<exists>f s c1. l1_req_bounds ctx z (node_at z a) (le_now env) (fresh_until (node_at z a))
        (l1_stale_window clcf (zautotune z) (fresh_until (node_at z a)) (stale_until (node_at z a))) = Some (f, s, c1) \<and>
    \<not> lx_brk_only c1 \<and>
    (le_now env < fresh_until (node_at z a) \<and> f \<and> l1_serve_fresh env clcf c1 z a hash = Some (res, ctx', z') \<or>
     (let w = l1_stale_window clcf (zautotune z) (fresh_until (node_at z a)) (stale_until (node_at z a)) in w = 0 \<or> le_now env < w)
       \<and> 0 < len (node_at z a) \<and> s \<and>
       (\<exists>c2 z2. l1_serve_stale env clcf c2 z2 a (fresh_until (node_at z a)) hash = Some (res, ctx', z') \<and>
          same_request c2 c1 \<and> (z2 = z \<or> z2 = upd_node a (\<lambda>n. n\<lparr>varidx_pending := True\<rparr>) z)))"
proof -
  let ?n = "node_at z a"
  let ?stale = "l1_stale_window clcf (zautotune z) (fresh_until ?n) (stale_until ?n)"
  obtain f s c1 where b: "l1_req_bounds ctx z ?n (le_now env) (fresh_until ?n) ?stale = Some (f, s, c1)"
    using assms by (auto simp: l1_entry_def Let_def split: bind_splits)
  have "same_request (c1\<lparr>lx_varidx_reissue := False\<rparr>) c1" "same_request c1 c1" by (simp_all add: same_request_def)
  then show ?thesis using assms b
    by (auto simp: l1_entry_def Let_def split: if_splits bind_splits prod.splits)
qed

lemma serve_stale_cases:
  assumes "l1_serve_stale env clcf ctx z a fresh hash = Some (res, ctx', z')"
  shows "\<exists>b. data (node_at z a) = Some b \<and> (\<forall>b' s h. res = L1_Serve b' s h \<longrightarrow> b' = b \<and> s)"
  using assms
  by (auto simp: l1_serve_stale_def l1_claim_def Let_def touch_fields split: if_splits bind_splits)

lemma consume_fields:
  assumes "l1_consume_pending env ctx z a = (ctx', z')"
  shows "fresh_until (node_at z' a) = fresh_until (node_at z a)" "stale_until (node_at z' a) = stale_until (node_at z a)"
    "data (node_at z' a) = data (node_at z a)" "len (node_at z' a) = len (node_at z a)"
    "refreshing (node_at z' a) = refreshing (node_at z a)" "refresh_lock_until (node_at z' a) = refresh_lock_until (node_at z a)"
    "zautotune z' = zautotune z" "body_at z' = body_at z"
  using assms by (auto simp: l1_consume_pending_def node_at_upd body_at_def fun_eq_iff split: if_splits)

definition client_accepts :: "req_cc_st \<Rightarrow> time_t \<Rightarrow> time_t \<Rightarrow> time_t \<Rightarrow> bool \<Rightarrow> bool" where
  "client_accepts cc created now fresh stale =
    (if stale
     then (if req_max_stale_set cc then req_max_stale_any cc \<or> max 0 (now - fresh) \<le> req_max_stale cc
           else req_max_age cc < 0 \<and> req_min_fresh cc < 0)
     else (0 \<le> req_max_age cc \<longrightarrow> max 0 (now - created) \<le> req_max_age cc)
       \<and> (0 \<le> req_min_fresh cc \<longrightarrow> req_min_fresh cc \<le> fresh - now))"

lemma bounds_accept:
  assumes "l1_req_bounds ctx z n now fresh w = Some (f, s, c1)" and "has_req_bounds (lx_cc ctx)" and "0 < len n"
    and "data n = Some b"
  shows "\<exists>created. get_u64 (body_at z b) 24 = Some created \<and>
    (f \<longrightarrow> client_accepts (lx_cc ctx) (sint created) now fresh False) \<and>
    (s \<longrightarrow> client_accepts (lx_cc ctx) (sint created) now fresh True)"
  using assms
  by (auto simp: l1_req_bounds_def Let_def req_serve_verdict_def client_accepts_def max_def
      split: bind_splits if_splits)

lemma stale_window_le:
  "l1_stale_window clcf at fresh stale \<le> stale + max 0 (3 * (stale - fresh))"
proof -
  have "win * (load - 1000) div 1000 \<le> 3 * win" if "0 < win" "load \<le> 4000" for win load :: int
  proof -
    have "win * (load - 1000) \<le> win * 3000" using that by (intro mult_left_mono) auto
    then have "win * (load - 1000) div 1000 \<le> win * 3000 div 1000" by (rule zdiv_mono1) simp
    then show ?thesis by simp
  qed
  moreover have "effective_load clcf at \<le> 4000" by (simp add: effective_load_def Let_def AT_LOAD_BASE_def AT_LOAD_MAX_def)
  ultimately have "0 < stale - fresh \<Longrightarrow> (stale - fresh) * (effective_load clcf at - 1000) div 1000 \<le> 3 * stale - 3 * fresh"
    by (metis right_diff_distrib)
  then show ?thesis
    by (auto simp: l1_stale_window_def Let_def AT_LOAD_BASE_def max_def)
qed

text \<open>
  C12: Only what may be served is served. Whatever body the L1 phase answers with is the one stored under
  the key the request resolved to, and the request is not one that may only read it during an
  outage. As a fresh hit its fresh deadline has not passed; as a stale one its stale deadline, at
  most widened by three times the stored stale span, has not passed either. If the client sent
  freshness bounds, the entry meets them, by the creation time recorded in the body itself.
\<close>

theorem l1_serves_within_windows:
  assumes "access_l1 env clcf r ctx z hash = Some (L1_Serve b stale ref, ctx', z')"
  shows "\<exists>ctx1 a. l1_resolved env clcf r ctx z hash = Some ctx1 \<and> shm_lookup z (vx_key_hash ctx1) = Some a \<and>
    data (node_at z a) = Some b \<and> \<not> lx_brk_only ctx \<and>
    (if stale then 0 < len (node_at z a) \<and>
       (let w = l1_stale_window clcf (zautotune z) (fresh_until (node_at z a)) (stale_until (node_at z a))
        in (w = 0 \<or> le_now env < w) \<and>
           w \<le> stale_until (node_at z a) + max 0 (3 * (stale_until (node_at z a) - fresh_until (node_at z a))))
     else le_now env < fresh_until (node_at z a)) \<and>
    (has_req_bounds (lx_cc ctx) \<and> 0 < len (node_at z a) \<longrightarrow>
      (\<exists>created. get_u64 (body_at z b) 24 = Some created \<and>
        client_accepts (lx_cc ctx) (sint created) (le_now env) (fresh_until (node_at z a)) stale))"
proof -
  obtain ctx1 h a ctx2 z2 where p: "l1_resolved env clcf r ctx z hash = Some ctx1" "same_request ctx1 ctx"
    "shm_lookup z (vx_key_hash ctx1) = Some a" "l1_consume_pending env ctx1 z a = (ctx2, z2)"
    "l1_entry env clcf ctx2 z2 a h = Some (Some (L1_Serve b stale ref), ctx', z')"
    using access_l1_entry [OF assms] by (auto simp: no_body_def)
  have sr: "same_request ctx2 ctx" using consume_same [OF p(4)] p(2) by (blast intro: same_request_trans)
  note cf = consume_fields [OF p(4)]
  let ?n = "node_at z2 a"
  let ?w = "l1_stale_window clcf (zautotune z2) (fresh_until ?n) (stale_until ?n)"
  obtain f s c1 where e: "l1_req_bounds ctx2 z2 ?n (le_now env) (fresh_until ?n) ?w = Some (f, s, c1)"
    "\<not> lx_brk_only c1"
    "le_now env < fresh_until ?n \<and> f \<and> l1_serve_fresh env clcf c1 z2 a h = Some (L1_Serve b stale ref, ctx', z') \<or>
     (?w = 0 \<or> le_now env < ?w) \<and> 0 < len ?n \<and> s \<and>
       (\<exists>c2 z3. l1_serve_stale env clcf c2 z3 a (fresh_until ?n) h = Some (L1_Serve b stale ref, ctx', z') \<and>
          same_request c2 c1 \<and> (z3 = z2 \<or> z3 = upd_node a (\<lambda>n. n\<lparr>varidx_pending := True\<rparr>) z2))"
    using entry_some [OF p(5)] unfolding Let_def by blast
  have brk: "\<not> lx_brk_only ctx" using e(2) bounds_same [OF e(1)] sr by (simp add: same_request_def)
  have cc: "lx_cc ctx2 = lx_cc ctx" using sr by (simp add: same_request_def)
  from e(3) have out: "data ?n = Some b \<and> (if stale then (?w = 0 \<or> le_now env < ?w) \<and> 0 < len ?n \<and> s
      else le_now env < fresh_until ?n \<and> f)"
  proof
    assume "le_now env < fresh_until ?n \<and> f \<and> l1_serve_fresh env clcf c1 z2 a h = Some (L1_Serve b stale ref, ctx', z')"
    then show ?thesis by (auto simp: l1_serve_fresh_def Let_def split: bind_splits prod.splits)
  next
    assume "(?w = 0 \<or> le_now env < ?w) \<and> 0 < len ?n \<and> s \<and>
       (\<exists>c2 z3. l1_serve_stale env clcf c2 z3 a (fresh_until ?n) h = Some (L1_Serve b stale ref, ctx', z') \<and>
          same_request c2 c1 \<and> (z3 = z2 \<or> z3 = upd_node a (\<lambda>n. n\<lparr>varidx_pending := True\<rparr>) z2))"
    then show ?thesis by (auto dest!: serve_stale_cases simp: node_at_upd)
  qed
  have acc: "has_req_bounds (lx_cc ctx) \<and> 0 < len ?n \<longrightarrow>
      (\<exists>created. get_u64 (body_at z2 b) 24 = Some created \<and>
        client_accepts (lx_cc ctx) (sint created) (le_now env) (fresh_until ?n) stale)"
    using bounds_accept [OF e(1)] out cc by (cases stale) auto
  show ?thesis
    using p(1,3) brk out acc stale_window_le [of clcf "zautotune z" "fresh_until (node_at z a)" "stale_until (node_at z a)"]
    unfolding cf Let_def by (intro exI [of _ ctx1] exI [of _ a]) auto
qed

subsection \<open>One refresh per lock window\<close>

definition regenerates :: "l1_result \<Rightarrow> l1_ctx \<Rightarrow> l1_ctx \<Rightarrow> bool" where
  "regenerates res ctx ctx' \<longleftrightarrow> res = L1_Origin \<or> res = L1_Park \<or> lx_warmed ctx' \<noteq> lx_warmed ctx"

definition lock_window :: "'a l1_conf_scheme \<Rightarrow> time_t" where
  "lock_window clcf = (if l1_lock_ttl clcf \<le> 0 then 5 else l1_lock_ttl clcf)"

lemma load_base_le: "AT_LOAD_BASE \<le> effective_load clcf at"
  by (simp add: effective_load_def Let_def AT_LOAD_BASE_def AT_LOAD_MAX_def)

lemma lock_ttl_le: "lock_window clcf \<le> lock_window clcf * effective_load clcf at div AT_LOAD_BASE"
proof -
  have "lock_window clcf * 1000 \<le> lock_window clcf * effective_load clcf at"
    using load_base_le [of clcf at] by (intro mult_left_mono) (auto simp: AT_LOAD_BASE_def lock_window_def)
  then have "lock_window clcf * 1000 div 1000 \<le> lock_window clcf * effective_load clcf at div 1000" by (rule zdiv_mono1) simp
  then show ?thesis by (simp add: AT_LOAD_BASE_def)
qed

lemma claim_effect:
  assumes "l1_claim env clcf ctx z a b = (res, ctx', z')" and "regenerates res ctx ctx'"
  shows "refreshing (node_at z' a) \<and> le_now env + lock_window clcf \<le> refresh_lock_until (node_at z' a) \<and> rbtree z' = rbtree z"
proof -
  define ttl where "ttl = lock_window clcf * effective_load clcf (zautotune z) div AT_LOAD_BASE"
  have ttl': "(if l1_lock_ttl clcf \<le> 0 then 5 else l1_lock_ttl clcf) * effective_load clcf (zautotune z) div AT_LOAD_BASE = ttl"
    by (simp add: ttl_def lock_window_def)
  define z2 where "z2 = claim_refresh a (le_now env + ttl) (blob_acquire z b)"
  have f: "refreshing (node_at z2 a)" "refresh_lock_until (node_at z2 a) = le_now env + ttl" "rbtree z2 = rbtree z"
    by (simp_all add: z2_def claim_refresh_def node_at_upd blob_acquire_def)
  have "lock_window clcf \<le> ttl" unfolding ttl_def by (rule lock_ttl_le)
  moreover have "node_at (count_one STALE_SERVES (z2\<lparr>zautotune := at\<rparr>)) a = node_at z2 a" "node_at (z2\<lparr>zautotune := at\<rparr>) a = node_at z2 a" for at
    by (simp_all add: node_at_def count_one_def)
  ultimately show ?thesis
    using assms f unfolding l1_claim_def Let_def ttl' z2_def [symmetric]
    by (auto simp: regenerates_def l1_warm_def l1_pin_def count_one_def split: if_splits)
qed

lemma serve_stale_claims:
  assumes st: "l1_serve_stale env clcf ctx z a fresh hash = Some (res, ctx', z')"
    and "\<not> lx_lock_done ctx" and "regenerates res ctx ctx'"
  shows "\<not> (refreshing (node_at z a) \<and> le_now env < refresh_lock_until (node_at z a)) \<and>
    refreshing (node_at z' a) \<and> le_now env + lock_window clcf \<le> refresh_lock_until (node_at z' a) \<and> rbtree z' = rbtree z"
proof -
  define z1 where "z1 = shm_touch_lru z a (le_now env) (l1_scan_resistant_pct clcf) hash"
  obtain b where d: "data (node_at z1 a) = Some b"
    using serve_stale_cases [OF st] by (auto simp: z1_def touch_fields)
  have eq: "l1_serve_stale env clcf ctx z a fresh hash =
      Some (if l1_dice env clcf ctx z1 (node_at z1 a) fresh = NGX_OK then l1_claim env clcf ctx z1 a b
        else (L1_Serve b True True, ctx, count_one STALE_SERVES (blob_acquire z1 b)))"
    using assms(2) d by (simp add: l1_serve_stale_def z1_def [symmetric])
  have dice: "l1_dice env clcf ctx z1 (node_at z1 a) fresh = NGX_OK"
    using st assms(3) unfolding eq by (auto simp: regenerates_def split: if_splits)
  then have c: "l1_claim env clcf ctx z1 a b = (res, ctx', z')" using st unfolding eq by simp
  have free: "\<not> (refreshing (node_at z a) \<and> le_now env < refresh_lock_until (node_at z a))"
    using dice by (auto simp: l1_dice_def Let_def z1_def touch_fields split: if_splits)
  have "rbtree z1 = rbtree z" by (simp add: z1_def)
  then show ?thesis
    using claim_effect [OF c assms(3)] free by simp
qed

lemma serve_fresh_keeps:
  fixes z :: "'p zone"
  assumes "l1_serve_fresh env clcf ctx z a hash = Some (res, ctx', z')"
  shows "\<not> regenerates res ctx ctx'"
proof -
  have "\<exists>b (z1 :: 'p zone) z2. varidx_reissue env clcf ctx z1 = (ctx', z2) \<and> res = L1_Serve b False True"
    using assms by (auto simp: l1_serve_fresh_def Let_def split: bind_splits prod.splits)
  then obtain b and z1 z2 :: "'p zone" where "varidx_reissue env clcf ctx z1 = (ctx', z2)" "res = L1_Serve b False True" by blast
  then show ?thesis using reissue_same [of env clcf ctx z1] by (simp add: regenerates_def same_request_def)
qed

lemma access_l1_claims:
  assumes "access_l1 env clcf r ctx z hash = Some (res, ctx', z')" and "\<not> lx_lock_done ctx"
    and "regenerates res ctx ctx'" and "l1_resolved env clcf r ctx z hash = Some c"
  shows "\<exists>a. shm_lookup z (vx_key_hash c) = Some a \<and>
    \<not> (refreshing (node_at z a) \<and> le_now env < refresh_lock_until (node_at z a)) \<and>
    refreshing (node_at z' a) \<and> le_now env + lock_window clcf \<le> refresh_lock_until (node_at z' a) \<and> rbtree z' = rbtree z"
proof -
  obtain h a ctx2 z2 where p: "same_request c ctx" "shm_lookup z (vx_key_hash c) = Some a"
    "l1_consume_pending env c z a = (ctx2, z2)" "l1_entry env clcf ctx2 z2 a h = Some (Some res, ctx', z')"
    using access_l1_entry [OF assms(1)] assms(3,4) by (auto simp: no_body_def regenerates_def)
  have sr: "same_request ctx2 ctx" using consume_same [OF p(3)] p(1) by (blast intro: same_request_trans)
  obtain f s c1 c2 z3 where b: "l1_req_bounds ctx2 z2 (node_at z2 a) (le_now env) (fresh_until (node_at z2 a))
        (l1_stale_window clcf (zautotune z2) (fresh_until (node_at z2 a)) (stale_until (node_at z2 a))) = Some (f, s, c1)"
    and e: "l1_serve_fresh env clcf c1 z2 a h = Some (res, ctx', z') \<or>
       l1_serve_stale env clcf c2 z3 a (fresh_until (node_at z2 a)) h = Some (res, ctx', z') \<and>
          same_request c2 c1 \<and> (z3 = z2 \<or> z3 = upd_node a (\<lambda>n. n\<lparr>varidx_pending := True\<rparr>) z2)"
    using entry_some [OF p(4)] by blast
  have c1: "same_request c1 ctx" using bounds_same [OF b] sr by (blast intro: same_request_trans)
  have "regenerates res c1 ctx'" using assms(3) c1 by (simp add: regenerates_def same_request_def)
  then have st: "l1_serve_stale env clcf c2 z3 a (fresh_until (node_at z2 a)) h = Some (res, ctx', z')" "same_request c2 c1"
    "z3 = z2 \<or> z3 = upd_node a (\<lambda>n. n\<lparr>varidx_pending := True\<rparr>) z2"
    using e serve_fresh_keeps by blast+
  have c2: "\<not> lx_lock_done c2" "regenerates res c2 ctx'"
    using st(2) c1 assms(2,3) by (simp_all add: regenerates_def same_request_def)
  have same: "refreshing (node_at z3 a) = refreshing (node_at z a)" "refresh_lock_until (node_at z3 a) = refresh_lock_until (node_at z a)"
    "rbtree z3 = rbtree z"
    using st(3) consume_fields [OF p(3)] p(3) by (auto simp: node_at_upd l1_consume_pending_def split: if_splits)
  show ?thesis using serve_stale_claims [OF st(1) c2] p(2) unfolding same by blast
qed


subsection \<open>A response that was expired on arrival\<close>


subsection \<open>Witnesses\<close>

definition demo_l1_body :: bytes where "demo_l1_body = replicate 80 0"

definition demo_l1_zone :: "addr list zone" where
  "demo_l1_zone = demo_zone\<lparr>pool := [2, 1], nodes := (\<lambda>a. None)(1 \<mapsto> entry_node 2 80 100 60 240 7),
     blobs := (\<lambda>a. None)(2 \<mapsto> \<lparr>refs = 1, detached = False, blob_bytes = 104, content = demo_l1_body\<rparr>),
     rbtree := Node Leaf (RbEnt (shm_key64 (demo_key 1)) (demo_key 1) 1) Leaf, lru := [1],
     n_entries := 1, used_bytes := 304\<rparr>"

lemma demo_l1_store: "shm_store (demo_core 6) demo_zone 100 (demo_key 1) 7 demo_l1_body 60 240 False =
    (NGX_OK, None, demo_l1_zone)"
  by (simp add: shm_store_def hand_out_def shm_store_locked_def store_new_def shm_lookup_def rb_lookup_def
      shm_admit_def shm_alloc_evict.simps blob_alloc_def insert_node_def lru_insert_new_def
      demo_core_def demo_zone_def demo_l1_zone_def rb_insert_def upd_node_def node_at_def entry_node_def
      numeral_2_eq_2 [symmetric] demo_l1_body_def)

lemma demo_l1_ok: "zok (demo_core 6) set (\<lambda>b. 0) demo_l1_zone"
  using shm_store_inv [OF demo_zone_ok length_demo_key demo_l1_store] by simp

lemma demo_l1_wire: "blobs_wire demo_l1_zone"
  by (auto simp: blobs_wire_def demo_l1_zone_def body_at_def entry_node_def demo_l1_body_def BLOB_HDR_WIRE_def split: if_splits)

definition demo_l1_cc :: req_cc_st where
  "demo_l1_cc = \<lparr>req_cc_resolved = True, req_cc = None, req_pragma = None, req_no_cache = False,
    req_no_store = False, req_only_if_cached = False, req_max_age = - 1, req_min_fresh = - 1, req_max_stale = 0,
    req_max_stale_set = True, req_max_stale_any = True, has_req_bounds = True\<rparr>"

definition demo_l1_ctx :: "req_cc_st \<Rightarrow> l1_ctx" where
  "demo_l1_ctx cc = \<lparr>vx_cache_key = ascii ''/p'', vx_marker_key = [], vx_key_hash = demo_key 1, vx_gen = 0,
    vx_l1_miss = False, vx_l2_done = False, vx_revalidate = False, lx_cc = cc, lx_marker_ready = False,
    lx_revalidate_inflight = False, lx_l2_bits = 0, lx_l2_gen = 0, lx_brk_only = False, lx_lock_done = False,
    lx_lock_result = NGX_DECLINED, lx_varidx_reissue = False, lx_varidx_ttl = 0, lx_req_reval = False,
    lx_expired = False, lx_brk_arm_done = False, lx_brk_armed = False, lx_brk_snap = None, lx_sie_armed = False,
    lx_sie_snap = None, lx_warmed = 0, lx_pins = []\<rparr>"

definition demo_l1_env :: "time_t \<Rightarrow> l1_env" where
  "demo_l1_env now = \<lparr>le_now = now, le_rnd = 0, le_dig = demo_dig, le_crc = (\<lambda>k. 0), le_hint = False,
    le_cleanup = (\<lambda>i. True), le_lock = NGX_DECLINED, le_tag_add = (\<lambda>k n t. True)\<rparr>"

definition demo_l1_conf :: l1_conf where
  "demo_l1_conf = \<lparr>bc_enable = True, bc_breaker_enable = True, bc_threshold = 3, bc_window = 10, vc_revalidate = 60,
    l1_autotune = True, l1_preset = 2, l1_beta = 1000, l1_valid = 60, l1_stale_mult = 4, l1_lock_ttl = 5,
    l1_scan_resistant_pct = 0, l1_auto_vary = True, l1_background_update = True, l1_backend_lock = False,
    l1_backend_tag_add = False\<rparr>"

lemma demo_digest32: "digest32 demo_dig"
  by (auto simp: digest32_def demo_dig_def)

theorem access_l1_references_witness:
  "\<exists>res ctx' z' new. access_l1 (demo_l1_env 338) demo_l1_conf (demo_vary_req ''en'' ''o'') (demo_l1_ctx demo_l1_cc) demo_l1_zone 7
      = Some (res, ctx', z') \<and> lx_pins ctx' = new \<and> zok (demo_core 6) set (held (\<lambda>b. 0) (handed res @ new)) z'"
  using access_l1_references [OF demo_l1_ok demo_l1_wire, of "demo_l1_ctx demo_l1_cc" "demo_l1_env 338" demo_l1_conf
      "demo_vary_req ''en'' ''o''" 7] demo_digest32
  by (auto simp: demo_l1_ctx_def demo_l1_env_def)

definition demo_pass :: "(l1_result \<times> l1_ctx \<times> addr list zone) option" where
  "demo_pass = access_l1 (demo_l1_env 338) demo_l1_conf (demo_vary_req ''en'' ''o'') (demo_l1_ctx demo_l1_cc) demo_l1_zone 7"

lemma demo_pass_view:
  "map_option (\<lambda>(res, ctx, z). (res, lx_warmed ctx)) demo_pass = Some (L1_Serve 2 True False, 1)"
  by code_simp

theorem l1_serves_within_windows_witness:
  "\<exists>a. shm_lookup demo_l1_zone (demo_key 1) = Some a \<and> data (node_at demo_l1_zone a) = Some 2"
proof -
  obtain ctx' z' where p: "demo_pass = Some (L1_Serve 2 True False, ctx', z')"
    using demo_pass_view by (cases demo_pass) auto
  obtain ctx1 a where "l1_resolved (demo_l1_env 338) demo_l1_conf (demo_vary_req ''en'' ''o'') (demo_l1_ctx demo_l1_cc) demo_l1_zone 7 = Some ctx1"
    "shm_lookup demo_l1_zone (vx_key_hash ctx1) = Some a" "data (node_at demo_l1_zone a) = Some 2"
    using l1_serves_within_windows [OF p [unfolded demo_pass_def]] by blast
  moreover have "map_option vx_key_hash (l1_resolved (demo_l1_env 338) demo_l1_conf (demo_vary_req ''en'' ''o'') (demo_l1_ctx demo_l1_cc) demo_l1_zone 7)
      = Some (demo_key 1)" by code_simp
  ultimately show ?thesis by auto
qed


lemma demo_pass_ctx:
  "map_option (\<lambda>(res, ctx, z). (lx_lock_done ctx, vx_key_hash ctx)) demo_pass = Some (False, demo_key 1)"
  by code_simp

lemma demo_pass_resolved:
  "map_option vx_key_hash (l1_resolved (demo_l1_env 338) demo_l1_conf (demo_vary_req ''en'' ''o'') (demo_l1_ctx demo_l1_cc) demo_l1_zone 7)
    = Some (demo_key 1)"
  by code_simp

definition demo_again :: "(l1_result \<times> l1_ctx \<times> addr list zone) option" where
  "demo_again = (case demo_pass of None \<Rightarrow> None | Some (res, ctx, z) \<Rightarrow>
     access_l1 (demo_l1_env 339) demo_l1_conf (demo_vary_req ''de'' ''o'') (demo_l1_ctx demo_l1_cc) z 7)"

lemma demo_again_view:
  "map_option (\<lambda>(res, ctx, z). res) demo_again = Some (L1_Serve 2 True True)"
  by code_simp


lemma demo_again_ctx:
  "map_option (\<lambda>(res, ctx, z). vx_key_hash ctx) demo_again = Some (demo_key 1)"
  by code_simp

lemma demo_again_resolved:
  "map_option vx_key_hash (case demo_pass of None \<Rightarrow> None | Some (res, ctx, z) \<Rightarrow>
      l1_resolved (demo_l1_env 339) demo_l1_conf (demo_vary_req ''de'' ''o'') (demo_l1_ctx demo_l1_cc) z 7)
    = Some (demo_key 1)"
  by code_simp


definition demo_free_cc :: req_cc_st where
  "demo_free_cc = demo_l1_cc\<lparr>req_max_stale_set := False, req_max_stale_any := False, has_req_bounds := False\<rparr>"

definition demo_noauto_conf :: l1_conf where
  "demo_noauto_conf = demo_l1_conf\<lparr>l1_auto_vary := False\<rparr>"


end
