(* ===== verification/Resp.thy ===== *)
theory Resp
  imports Normalize Decimal "HOL-Library.Sublist"
begin

text \<open>
  The Redis wire protocol as the module speaks it (\<^verbatim>\<open>redis.c\<close>): the encoder of commands, the length
  field, the reply of a GET, the framing of one reply of any kind, and the page of a SCAN. A buffer
  is the list of the bytes received so far; a cursor into it is the list of what is left. Bytes that
  have not arrived are never read: every function tests for them and answers \<open>NGX_AGAIN\<close>.
\<close>

subsection \<open>Limits\<close>

definition NGX_INT_T_LEN :: nat where "NGX_INT_T_LEN = 20"
definition NGX_MAX_INT_T_VALUE :: int where "NGX_MAX_INT_T_VALUE = 9223372036854775807"
definition REDIS_MAX_VALUE :: nat where "REDIS_MAX_VALUE = 64 * 1024 * 1024"
definition REDIS_GET_FRAMING_MAX :: nat where "REDIS_GET_FRAMING_MAX = NGX_INT_T_LEN + 5"
definition REDIS_MAX_REPLY :: nat where "REDIS_MAX_REPLY = REDIS_MAX_VALUE + REDIS_GET_FRAMING_MAX"
definition REDIS_MAX_MEMBERS :: nat where "REDIS_MAX_MEMBERS = 1024 * 1024"
definition REDIS_FRAME_MAX_DEPTH :: nat where "REDIS_FRAME_MAX_DEPTH = 8"

abbreviation DOLLAR :: u8 where "DOLLAR \<equiv> 0x24"
abbreviation ASTERISK :: u8 where "ASTERISK \<equiv> 0x2A"
abbreviation PLUS :: u8 where "PLUS \<equiv> 0x2B"
abbreviation MINUS :: u8 where "MINUS \<equiv> 0x2D"
abbreviation COLON :: u8 where "COLON \<equiv> 0x3A"
abbreviation DIGIT1 :: u8 where "DIGIT1 \<equiv> 0x31"

abbreviation crlf :: bytes where "crlf \<equiv> [CR, LF]"

subsection \<open>Commands\<close>

fun encode_args :: "bytes list \<Rightarrow> bytes" where
  "encode_args [] = []"
| "encode_args (a # argv) = DOLLAR # dec_ui (length a) @ crlf @ a @ crlf @ encode_args argv"

definition redis_encode :: "bytes list \<Rightarrow> bytes" where
  "redis_encode argv = ASTERISK # dec_ui (length argv) @ crlf @ encode_args argv"

definition redis_encode_len :: "bytes list \<Rightarrow> nat" where
  "redis_encode_len argv =
    1 + NGX_INT_T_LEN + 2 + sum_list (map (\<lambda>a. 1 + NGX_INT_T_LEN + 2 + length a + 2) argv)"

subsection \<open>The length field\<close>

fun atoi_loop :: "int \<Rightarrow> bytes \<Rightarrow> int" where
  "atoi_loop v [] = v"
| "atoi_loop v (c # cs) =
    (if c < 0x30 \<or> 0x39 < c then - 1
     else if NGX_MAX_INT_T_VALUE div 10 \<le> v
             \<and> (NGX_MAX_INT_T_VALUE div 10 < v \<or> NGX_MAX_INT_T_VALUE mod 10 < uint c - 0x30) then - 1
     else atoi_loop (v * 10 + (uint c - 0x30)) cs)"

definition ngx_atoi :: "bytes \<Rightarrow> int" where
  "ngx_atoi p = (if p = [] then - 1 else atoi_loop 0 p)"

definition redis_resp_len :: "bytes \<Rightarrow> ngx_rc \<times> int" where
  "redis_resp_len p =
    (if length p = 2 \<and> p ! 0 = MINUS \<and> p ! 1 = DIGIT1 then (NGX_DONE, 0)
     else let v = ngx_atoi p in if v < 0 then (NGX_ERROR, 0) else (NGX_OK, v))"

text \<open>
  The line behind a type byte: up to the first CR, which an LF must follow. None is the code's test
  that the line has not arrived in full.
\<close>

definition resp_line :: "bytes \<Rightarrow> (bytes \<times> bytes) option" where
  "resp_line p =
    (case strlchr (tl p) CR of
       None \<Rightarrow> None
     | Some i \<Rightarrow> if length (tl p) \<le> Suc i \<or> tl p ! Suc i \<noteq> LF then None
         else Some (take i (tl p), drop (i + 2) (tl p)))"

subsection \<open>The reply of a GET\<close>

definition redis_parse :: "nat option \<Rightarrow> bytes \<Rightarrow> ngx_rc \<times> bytes" where
  "redis_parse cap buf =
    (if buf = [] then (NGX_AGAIN, [])
     else if hd buf \<noteq> DOLLAR then (NGX_ERROR, [])
     else case resp_line buf of
         None \<Rightarrow> (NGX_AGAIN, [])
       | Some (line, p) \<Rightarrow>
           (case redis_resp_len line of
              (NGX_DONE, _) \<Rightarrow> if p \<noteq> [] then (NGX_ERROR, []) else (NGX_DECLINED, [])
            | (NGX_OK, len) \<Rightarrow>
                if len > int (case cap of Some n \<Rightarrow> if n > 0 then n else REDIS_MAX_VALUE
                    | None \<Rightarrow> REDIS_MAX_VALUE)
                then (NGX_ERROR, [])
                else if int (length p) < len + 2 then (NGX_AGAIN, [])
                else if p ! nat len \<noteq> CR \<or> p ! nat (len + 1) \<noteq> LF then (NGX_ERROR, [])
                else if int (length p) \<noteq> len + 2 then (NGX_ERROR, [])
                else (NGX_OK, take (nat len) p)
            | _ \<Rightarrow> (NGX_ERROR, [])))"

subsection \<open>The framing of one reply\<close>

text \<open>\<open>redis_frame_n\<close> is the loop over the elements of an array.\<close>

function redis_frame :: "nat \<Rightarrow> bytes \<Rightarrow> ngx_rc \<times> bytes"
  and redis_frame_n :: "nat \<Rightarrow> nat \<Rightarrow> bytes \<Rightarrow> ngx_rc \<times> bytes" where
  "redis_frame depth p =
    (if depth > REDIS_FRAME_MAX_DEPTH then (NGX_DECLINED, [])
     else if p = [] then (NGX_AGAIN, [])
     else if hd p = PLUS \<or> hd p = MINUS \<or> hd p = COLON
     then (case resp_line p of None \<Rightarrow> (NGX_AGAIN, []) | Some (line, q) \<Rightarrow> (NGX_OK, q))
     else if hd p = DOLLAR
     then (case resp_line p of
             None \<Rightarrow> (NGX_AGAIN, [])
           | Some (line, q) \<Rightarrow>
               (case redis_resp_len line of
                  (NGX_ERROR, _) \<Rightarrow> (NGX_DECLINED, [])
                | (NGX_DONE, _) \<Rightarrow> (NGX_OK, q)
                | (_, v) \<Rightarrow>
                    if v > int REDIS_MAX_REPLY then (NGX_DECLINED, [])
                    else if int (length q) < v + 2 then (NGX_AGAIN, [])
                    else if q ! nat v \<noteq> CR \<or> q ! nat (v + 1) \<noteq> LF then (NGX_DECLINED, [])
                    else (NGX_OK, drop (nat v + 2) q)))
     else if hd p = ASTERISK
     then (case resp_line p of
             None \<Rightarrow> (NGX_AGAIN, [])
           | Some (line, q) \<Rightarrow>
               (case redis_resp_len line of
                  (NGX_ERROR, _) \<Rightarrow> (NGX_DECLINED, [])
                | (NGX_DONE, _) \<Rightarrow> (NGX_OK, q)
                | (_, v) \<Rightarrow>
                    if v > int REDIS_MAX_MEMBERS then (NGX_DECLINED, [])
                    else redis_frame_n (depth + 1) (nat v) q))
     else (NGX_DECLINED, []))"
| "redis_frame_n depth n p =
    (if n = 0 then (NGX_OK, p)
     else (case redis_frame depth p of
             (NGX_OK, q) \<Rightarrow> redis_frame_n depth (n - 1) q
           | (rc, _) \<Rightarrow> (rc, [])))"
  by pat_completeness auto
termination
  by (relation "measures [case_sum (\<lambda>(d, p). REDIS_FRAME_MAX_DEPTH + 1 - d) (\<lambda>(d, n, p). REDIS_FRAME_MAX_DEPTH + 1 - d),
      case_sum (\<lambda>_. 0) (\<lambda>(d, n, p). n + 1)]") auto

declare redis_frame.simps [simp del] redis_frame_n.simps [simp del]

subsection \<open>The page of a SCAN\<close>

text \<open>The element read: \<open>None\<close> is the null string of a nil element.\<close>

definition redis_parse_bulk :: "bool \<Rightarrow> bytes \<Rightarrow> ngx_rc \<times> bytes option \<times> bytes" where
  "redis_parse_bulk allow_nil p =
    (if p = [] then (NGX_AGAIN, None, p)
     else if hd p \<noteq> DOLLAR then (NGX_DECLINED, None, p)
     else case resp_line p of
         None \<Rightarrow> (NGX_AGAIN, None, p)
       | Some (line, q) \<Rightarrow>
           (case redis_resp_len line of
              (NGX_ERROR, _) \<Rightarrow> (NGX_DECLINED, None, p)
            | (NGX_DONE, _) \<Rightarrow> if \<not> allow_nil then (NGX_DECLINED, None, p) else (NGX_OK, None, q)
            | (_, len) \<Rightarrow>
                if len > int REDIS_MAX_REPLY then (NGX_DECLINED, None, p)
                else if int (length q) < len + 2 then (NGX_AGAIN, None, q)
                else if q ! nat len \<noteq> CR \<or> q ! nat (len + 1) \<noteq> LF then (NGX_DECLINED, None, q)
                else (NGX_OK, Some (take (nat len) q), drop (nat len + 2) q)))"

fun parse_keys :: "nat \<Rightarrow> bytes \<Rightarrow> bytes option list \<Rightarrow> ngx_rc \<times> bytes option list" where
  "parse_keys 0 p keys = (NGX_OK, rev keys)"
| "parse_keys (Suc n) p keys =
    (case redis_parse_bulk True p of
       (NGX_OK, k, q) \<Rightarrow> parse_keys n q (k # keys)
     | (rc, _) \<Rightarrow> (rc, []))"

text \<open>The result: the code, the next cursor and the keys.\<close>

definition redis_parse_scan :: "bool \<Rightarrow> bytes \<Rightarrow> ngx_rc \<times> bytes \<times> bytes option list" where
  "redis_parse_scan alloc_ok buf =
    (let fail = (\<lambda>rc. (rc, [], []))
     in if buf = [] then fail NGX_AGAIN
     else if hd buf \<noteq> ASTERISK then fail NGX_DECLINED
     else case resp_line buf of
         None \<Rightarrow> fail NGX_AGAIN
       | Some (line, p) \<Rightarrow>
           if redis_resp_len line \<noteq> (NGX_OK, 2) then fail NGX_DECLINED
           else (case redis_parse_bulk False p of
               (NGX_OK, cursor, p) \<Rightarrow>
                 if p = [] then fail NGX_AGAIN
                 else if hd p \<noteq> ASTERISK then fail NGX_DECLINED
                 else (case resp_line p of
                     None \<Rightarrow> fail NGX_AGAIN
                   | Some (line, q) \<Rightarrow>
                       if fst (redis_resp_len line) = NGX_ERROR then fail NGX_DECLINED
                       else let count = snd (redis_resp_len line)
                       in if count > int REDIS_MAX_MEMBERS then fail NGX_DECLINED
                       else if count > int (length q) div 4 then fail NGX_DECLINED
                       else if count > 0 \<and> \<not> alloc_ok then fail NGX_DECLINED
                       else (case parse_keys (nat count) q [] of
                           (NGX_OK, keys) \<Rightarrow> (NGX_OK, the cursor, keys)
                         | (rc, _) \<Rightarrow> fail rc))
             | (rc, _) \<Rightarrow> fail rc))"


subsection \<open>Numbers\<close>

lemma crlf_facts [simp]: "(CR :: u8) \<noteq> LF" "(LF :: u8) \<noteq> CR" "\<not> digit_byte CR" "\<not> digit_byte MINUS"
  by (simp_all add: digit_byte_def word_le_nat_alt)

lemma atoi_loop_spec:
  "0 \<le> v \<Longrightarrow> v \<le> NGX_MAX_INT_T_VALUE \<Longrightarrow> list_all digit_byte p \<Longrightarrow>
   (let n = foldl (\<lambda>n c. n * 10 + unat (c - 0x30)) (nat v) p
    in atoi_loop v p = (if int n \<le> NGX_MAX_INT_T_VALUE then int n else - 1) \<and> nat v \<le> n)"
proof (induction p arbitrary: v)
  case (Cons c p)
  define d where "d = unat (c - 0x30)"
  have dig: "\<not> c < 0x30" "\<not> 0x39 < c" using Cons.prems(3) by (auto simp: digit_byte_def)
  have r: "0x30 \<le> unat c" "unat c \<le> 0x39" using dig by (simp_all add: word_less_nat_alt)
  have d: "d = unat c - 0x30" using r by (simp add: d_def unat_sub word_le_nat_alt)
  have u: "uint c - 0x30 = int d" using r by (simp add: d of_nat_diff)
  have d9: "d \<le> 9" using r by (simp add: d)
  define w where "w = v * 10 + int d"
  have w: "0 \<le> w" "nat w = nat v * 10 + d" using Cons.prems(1) by (simp_all add: w_def nat_add_distrib nat_mult_distrib)
  define N where "N = foldl (\<lambda>n c. n * 10 + unat (c - 0x30)) (nat w) p"
  have mono: "nat w \<le> N"
    unfolding N_def by (induction p rule: rev_induct) simp_all
  have fold: "foldl (\<lambda>n c. n * 10 + unat (c - 0x30)) (nat v) (c # p) = N"
    by (simp add: N_def w(2) d_def)
  have guard: "NGX_MAX_INT_T_VALUE div 10 \<le> v \<and> (NGX_MAX_INT_T_VALUE div 10 < v \<or> NGX_MAX_INT_T_VALUE mod 10 < int d)
      \<longleftrightarrow> NGX_MAX_INT_T_VALUE < w"
    using d9 by (auto simp: w_def NGX_MAX_INT_T_VALUE_def)
  show ?case
  proof (cases "NGX_MAX_INT_T_VALUE < w")
    case True
    then have "\<not> int N \<le> NGX_MAX_INT_T_VALUE" using mono w(1) by linarith
    moreover have "nat v \<le> N" using mono w(2) by simp
    ultimately show ?thesis using True dig guard unfolding Let_def fold by (simp add: u)
  next
    case False
    then have "\<not> (NGX_MAX_INT_T_VALUE div 10 \<le> v \<and> (NGX_MAX_INT_T_VALUE div 10 < v \<or> NGX_MAX_INT_T_VALUE mod 10 < int d))"
      using guard by simp
    then have "atoi_loop v (c # p) = atoi_loop w p" by (simp only: atoi_loop.simps u w_def dig if_False simp_thms)
    moreover have "nat v \<le> N" using mono w(2) by simp
    ultimately show ?thesis using Cons.IH [of w] False w(1) Cons.prems(3) unfolding Let_def fold by (simp add: N_def del: atoi_loop.simps)
  qed
qed simp

lemma atoi_loop_nondigit: "\<not> list_all digit_byte p \<Longrightarrow> atoi_loop v p = - 1"
  by (induction p arbitrary: v) (auto simp: digit_byte_def)

lemma atoi_value:
  "ngx_atoi p = (if p \<noteq> [] \<and> list_all digit_byte p \<and> int (dec_nat p) \<le> NGX_MAX_INT_T_VALUE then int (dec_nat p) else - 1)"
proof (cases "list_all digit_byte p")
  case True
  then show ?thesis using atoi_loop_spec [of 0 p] by (simp add: ngx_atoi_def dec_nat_def Let_def NGX_MAX_INT_T_VALUE_def)
qed (simp add: ngx_atoi_def atoi_loop_nondigit)

lemma resp_len_cases:
  "redis_resp_len p = (NGX_DONE, 0) \<and> p = [MINUS, DIGIT1] \<or>
   redis_resp_len p = (NGX_ERROR, 0) \<and> p \<noteq> [MINUS, DIGIT1] \<or>
   redis_resp_len p = (NGX_OK, int (dec_nat p)) \<and> list_all digit_byte p \<and> p \<noteq> []"
proof -
  have "length p = 2 \<and> p ! 0 = MINUS \<and> p ! 1 = DIGIT1 \<longleftrightarrow> p = [MINUS, DIGIT1]"
    by (auto simp: length_Suc_conv numeral_2_eq_2)
  then show ?thesis by (auto simp: redis_resp_len_def atoi_value Let_def)
qed

lemma resp_len_dec [simp]:
  assumes "int n \<le> NGX_MAX_INT_T_VALUE"
  shows "redis_resp_len (dec_ui n) = (NGX_OK, int n)"
proof -
  have "\<not> (dec_ui n ! 0 = MINUS)"
    using dec_ui_digits [of n] dec_ui_not_Nil [of n] by (cases "dec_ui n") (auto simp: digit_byte_def)
  then show ?thesis using assms dec_ui_digits [of n] by (simp add: redis_resp_len_def atoi_value)
qed

lemma resp_len_nil [simp]: "redis_resp_len [MINUS, DIGIT1] = (NGX_DONE, 0)"
  by (simp add: redis_resp_len_def)

subsection \<open>Lines\<close>

lemma strlchr_first: "c \<notin> set l \<Longrightarrow> strlchr (l @ c # p) c = Some (length l)"
  by (induction l) auto

lemma resp_line_Some:
  "resp_line p = Some (line, q) \<longleftrightarrow> tl p = line @ CR # LF # q \<and> CR \<notin> set line"
proof
  assume a: "resp_line p = Some (line, q)"
  then obtain i where i: "strlchr (tl p) CR = Some i" "Suc i < length (tl p)" "tl p ! Suc i = LF"
    "line = take i (tl p)" "q = drop (i + 2) (tl p)"
    by (auto simp: resp_line_def split: option.splits if_splits)
  note s = strlchr_Some [OF i(1)]
  have "tl p = take i (tl p) @ tl p ! i # tl p ! Suc i # drop (Suc (Suc i)) (tl p)"
    using i(2) by (metis Cons_nth_drop_Suc Suc_lessD append_take_drop_id)
  with s i show "tl p = line @ CR # LF # q \<and> CR \<notin> set line" by simp
next
  assume "tl p = line @ CR # LF # q \<and> CR \<notin> set line"
  then show "resp_line p = Some (line, q)"
    by (simp add: resp_line_def strlchr_first nth_append)
qed

lemma resp_line_shorter: "resp_line p = Some (line, q) \<Longrightarrow> length q + 2 < length p \<or> p = []"
  unfolding resp_line_Some by (cases p) auto

lemma resp_line_more: "resp_line p = Some (line, q) \<Longrightarrow> p \<noteq> [] \<Longrightarrow> resp_line (p @ x) = Some (line, q @ x)"
  unfolding resp_line_Some by (cases p) auto

lemma resp_line_wire [simp]: "CR \<notin> set l \<Longrightarrow> resp_line (t # l @ CR # LF # q) = Some (l, q)"
  unfolding resp_line_Some by simp

text \<open>A line that has not arrived in full.\<close>

lemma resp_line_short:
  assumes "CR \<notin> set l" and "strict_prefix p (t # l @ crlf)"
  shows "resp_line p = None"
proof (rule ccontr)
  assume "resp_line p \<noteq> None"
  then obtain line q where eq: "tl p = line @ CR # LF # q" "CR \<notin> set line" by (auto simp: resp_line_Some)
  then obtain c cs where p: "p = c # cs" by (cases p) auto
  then obtain z where z: "l @ crlf = cs @ z" "z \<noteq> []" using assms(2) by (auto simp: strict_prefix_def prefix_def)
  then have "l @ CR # [LF] = line @ CR # LF # q @ z" using eq p by simp
  moreover from this have "l = line" using assms(1) eq(2)
    by (metis append_same_eq split_list_first strlchr_first append_eq_append_conv option.inject)
  ultimately show False using z by simp
qed

lemma dec_no_CR [simp]: "CR \<notin> set (dec_ui n)"
  using dec_ui_digits [of n] by (auto simp: list_all_iff)


subsection \<open>Replies of a server\<close>

text \<open>The replies of the protocol and their bytes, as a server writes them.\<close>

datatype reply = Line u8 bytes | Bulk bytes | NilBulk | NilArr | Arr "reply list"

fun reply_wire :: "reply \<Rightarrow> bytes" where
  "reply_wire (Line t l) = t # l @ crlf"
| "reply_wire (Bulk v) = DOLLAR # dec_ui (length v) @ crlf @ v @ crlf"
| "reply_wire NilBulk = DOLLAR # [MINUS, DIGIT1] @ crlf"
| "reply_wire NilArr = ASTERISK # [MINUS, DIGIT1] @ crlf"
| "reply_wire (Arr rs) = ASTERISK # dec_ui (length rs) @ crlf @ concat (map reply_wire rs)"

fun reply_ok :: "nat \<Rightarrow> reply \<Rightarrow> bool" where
  "reply_ok d (Line t l) \<longleftrightarrow> d \<le> REDIS_FRAME_MAX_DEPTH \<and> (t = PLUS \<or> t = MINUS \<or> t = COLON) \<and> CR \<notin> set l"
| "reply_ok d (Bulk v) \<longleftrightarrow> d \<le> REDIS_FRAME_MAX_DEPTH \<and> length v \<le> REDIS_MAX_REPLY"
| "reply_ok d NilBulk \<longleftrightarrow> d \<le> REDIS_FRAME_MAX_DEPTH"
| "reply_ok d NilArr \<longleftrightarrow> d \<le> REDIS_FRAME_MAX_DEPTH"
| "reply_ok d (Arr rs) \<longleftrightarrow> d \<le> REDIS_FRAME_MAX_DEPTH \<and> length rs \<le> REDIS_MAX_MEMBERS \<and>
     (\<forall>r\<in>set rs. reply_ok (d + 1) r)"

lemmas redis_limits = REDIS_MAX_REPLY_def REDIS_MAX_VALUE_def REDIS_GET_FRAMING_MAX_def NGX_INT_T_LEN_def
  REDIS_MAX_MEMBERS_def NGX_MAX_INT_T_VALUE_def

lemma minus1_no_CR [simp]: "resp_line (t # MINUS # DIGIT1 # CR # LF # q) = Some ([MINUS, DIGIT1], q)"
  using resp_line_wire [of "[MINUS, DIGIT1]" t q] by simp

lemma len_dec_small:
  "n \<le> REDIS_MAX_REPLY \<Longrightarrow> redis_resp_len (dec_ui n) = (NGX_OK, int n)"
  "n \<le> REDIS_MAX_MEMBERS \<Longrightarrow> redis_resp_len (dec_ui n) = (NGX_OK, int n)"
  by (rule resp_len_dec, simp add: redis_limits)+

lemma payload_delim: "(v @ CR # LF # q) ! length v = CR" "(v @ CR # LF # q) ! Suc (length v) = LF"
  "(v @ CR # LF # q) ! nat (int (length v) + 1) = LF"
  by (simp_all add: nth_append nat_add_distrib)

lemma frame_bulk:
  assumes "d \<le> REDIS_FRAME_MAX_DEPTH" and "length v \<le> REDIS_MAX_REPLY"
  shows "redis_frame d (DOLLAR # dec_ui (length v) @ CR # LF # v @ CR # LF # q) = (NGX_OK, q)"
  using assms by (simp add: redis_frame.simps [of d] len_dec_small payload_delim)

lemma frame_n_all:
  assumes "\<forall>r\<in>set rs. \<forall>q. redis_frame d (reply_wire r @ q) = (NGX_OK, q)"
  shows "redis_frame_n d (length rs) (concat (map reply_wire rs) @ q) = (NGX_OK, q)"
  using assms by (induction rs) (simp_all add: redis_frame_n.simps)

lemma frame_wire: "reply_ok d r \<Longrightarrow> redis_frame d (reply_wire r @ q) = (NGX_OK, q)"
proof (induction r arbitrary: d q)
  case (Line t l)
  then show ?case by (auto simp: redis_frame.simps [of d])
next
  case (Bulk v)
  then show ?case using frame_bulk [of d v q] by simp
next
  case (Arr rs)
  have "redis_frame_n (d + 1) (length rs) (concat (map reply_wire rs) @ q) = (NGX_OK, q)"
    using Arr by (intro frame_n_all) auto
  then show ?case using Arr.prems by (simp add: redis_frame.simps [of d] len_dec_small)
qed (simp_all add: redis_frame.simps)

lemma strict_prefix_append:
  "strict_prefix p (a @ b) \<Longrightarrow> strict_prefix p a \<or> (\<exists>p'. p = a @ p' \<and> strict_prefix p' b)"
proof (induction a arbitrary: p)
  case (Cons c a)
  show ?case
  proof (cases p)
    case (Cons d p')
    then show ?thesis using Cons.IH [of p'] Cons.prems by auto
  qed simp
qed simp

lemma frame_n_short:
  assumes "\<forall>r\<in>set rs. \<forall>q. redis_frame d (reply_wire r @ q) = (NGX_OK, q)"
    and "\<forall>r\<in>set rs. \<forall>p. strict_prefix p (reply_wire r) \<longrightarrow> redis_frame d p = (NGX_AGAIN, [])"
    and "strict_prefix p (concat (map reply_wire rs))"
  shows "redis_frame_n d (length rs) p = (NGX_AGAIN, [])"
  using assms
proof (induction rs arbitrary: p)
  case (Cons r rs)
  from Cons.prems(3) have "strict_prefix p (reply_wire r @ concat (map reply_wire rs))" by simp
  then consider "strict_prefix p (reply_wire r)" | p' where "p = reply_wire r @ p'" "strict_prefix p' (concat (map reply_wire rs))"
    using strict_prefix_append by blast
  then show ?case
  proof cases
    case 1
    then show ?thesis using Cons.prems(2) by (simp add: redis_frame_n.simps [of _ "Suc _"])
  next
    case 2
    then show ?thesis using Cons.IH [of p'] Cons.prems by (simp add: redis_frame_n.simps [of _ "Suc _"])
  qed
qed simp

lemma header_short:
  assumes "strict_prefix p (t # l @ CR # LF # rest)" and "CR \<notin> set l"
  shows "p = [] \<or> p \<noteq> [] \<and> hd p = t \<and> resp_line p = None \<or>
    (\<exists>q. p = t # l @ CR # LF # q \<and> strict_prefix q rest)"
proof -
  have "strict_prefix p ((t # l @ crlf) @ rest)" using assms(1) by simp
  then consider "strict_prefix p (t # l @ crlf)" | q where "p = (t # l @ crlf) @ q" "strict_prefix q rest"
    using strict_prefix_append by blast
  then show ?thesis
  proof cases
    case 1
    then show ?thesis using resp_line_short [OF assms(2) 1] by (cases p) auto
  qed auto
qed

lemma frame_short: "reply_ok d r \<Longrightarrow> strict_prefix p (reply_wire r) \<Longrightarrow> redis_frame d p = (NGX_AGAIN, [])"
proof (induction r arbitrary: d p)
  case (Line t l)
  then show ?case using header_short [of p t l "[]"] by (auto simp: redis_frame.simps [of d])
next
  case (Bulk v)
  have "int (length q) < int (length v) + 2" if "strict_prefix q (v @ [CR, LF])" for q
    using prefix_length_less [OF that] by simp
  then show ?case using Bulk header_short [of p DOLLAR "dec_ui (length v)" "v @ [CR, LF]"]
    by (auto simp: redis_frame.simps [of d] len_dec_small)
next
  case NilBulk
  then show ?case using header_short [of p DOLLAR "[MINUS, DIGIT1]" "[]"] by (auto simp: redis_frame.simps [of d])
next
  case NilArr
  then show ?case using header_short [of p ASTERISK "[MINUS, DIGIT1]" "[]"] by (auto simp: redis_frame.simps [of d])
next
  case (Arr rs)
  have "redis_frame_n (d + 1) (length rs) q = (NGX_AGAIN, [])" if "strict_prefix q (concat (map reply_wire rs))" for q
    using Arr that frame_wire by (intro frame_n_short) auto
  then show ?case using Arr.prems header_short [of p ASTERISK "dec_ui (length rs)" "concat (map reply_wire rs)"]
    by (auto simp: redis_frame.simps [of d] len_dec_small)
qed


text \<open>A verdict that is not \<open>NGX_AGAIN\<close> stands, whatever arrives later.\<close>

lemma resp_line_some_more: "resp_line p = Some (line, q) \<Longrightarrow> resp_line (p @ x) = Some (line, q @ x)"
  by (cases "p = []") (auto simp: resp_line_Some intro: resp_line_more)

definition frame_payload :: "int \<Rightarrow> bytes \<Rightarrow> ngx_rc \<times> bytes" where
  "frame_payload v q =
    (if v > int REDIS_MAX_REPLY then (NGX_DECLINED, [])
     else if int (length q) < v + 2 then (NGX_AGAIN, [])
     else if q ! nat v \<noteq> CR \<or> q ! nat (v + 1) \<noteq> LF then (NGX_DECLINED, [])
     else (NGX_OK, drop (nat v + 2) q))"

lemma payload_more:
  assumes "0 \<le> v"
  shows "frame_payload v q = (NGX_OK, r) \<Longrightarrow> frame_payload v (q @ x) = (NGX_OK, r @ x)"
    and "fst (frame_payload v q) = NGX_DECLINED \<Longrightarrow> fst (frame_payload v (q @ x)) = NGX_DECLINED"
  using assms by (auto simp: frame_payload_def nth_append split: if_splits)

lemma frame_none: "d \<le> REDIS_FRAME_MAX_DEPTH \<Longrightarrow> resp_line p = None \<Longrightarrow>
    redis_frame d p = (if p = [] \<or> hd p \<in> {PLUS, MINUS, COLON, DOLLAR, ASTERISK} then (NGX_AGAIN, []) else (NGX_DECLINED, []))"
  by (auto simp: redis_frame.simps [of d])

lemma frame_line:
  assumes "d \<le> REDIS_FRAME_MAX_DEPTH" and "resp_line p = Some (line, q)"
  shows "redis_frame d p =
    (if hd p = PLUS \<or> hd p = MINUS \<or> hd p = COLON then (NGX_OK, q)
     else if hd p = DOLLAR \<or> hd p = ASTERISK
     then (case redis_resp_len line of
            (NGX_ERROR, _) \<Rightarrow> (NGX_DECLINED, [])
          | (NGX_DONE, _) \<Rightarrow> (NGX_OK, q)
          | (_, v) \<Rightarrow> if hd p = DOLLAR then frame_payload v q
              else if v > int REDIS_MAX_MEMBERS then (NGX_DECLINED, [])
              else redis_frame_n (d + 1) (nat v) q)
     else (NGX_DECLINED, []))"
proof -
  have "p \<noteq> []" using assms(2) by (auto simp: resp_line_def)
  then show ?thesis using assms
    by (cases "redis_resp_len line"; cases "fst (redis_resp_len line)")
      (auto simp: redis_frame.simps [of d] frame_payload_def)
qed

lemma frame_more_both:
  "\<forall>x. (\<forall>q. redis_frame d p = (NGX_OK, q) \<longrightarrow> redis_frame d (p @ x) = (NGX_OK, q @ x)) \<and>
       (fst (redis_frame d p) = NGX_DECLINED \<longrightarrow> fst (redis_frame d (p @ x)) = NGX_DECLINED)"
  "\<forall>x. (\<forall>q. redis_frame_n d n p = (NGX_OK, q) \<longrightarrow> redis_frame_n d n (p @ x) = (NGX_OK, q @ x)) \<and>
       (fst (redis_frame_n d n p) = NGX_DECLINED \<longrightarrow> fst (redis_frame_n d n (p @ x)) = NGX_DECLINED)"
proof (induction d p and d n p rule: redis_frame_redis_frame_n.induct)
  case (1 d p)
  show ?case
  proof (cases "resp_line p")
    case None
    then show ?thesis
    proof (cases "d \<le> REDIS_FRAME_MAX_DEPTH \<and> p \<noteq> [] \<and> hd p \<notin> {PLUS, MINUS, COLON, DOLLAR, ASTERISK}")
      case True
      then show ?thesis by (simp add: redis_frame.simps [of d])
    next
      case False
      then show ?thesis using None by (cases "d \<le> REDIS_FRAME_MAX_DEPTH") (auto simp: frame_none, simp_all add: redis_frame.simps [of d])
    qed
  next
    case (Some lq)
    obtain line q where lq: "lq = (line, q)" by force
    then have line: "resp_line p = Some (line, q)" using Some by simp
    then have more: "resp_line (p @ x) = Some (line, q @ x)" for x by (rule resp_line_some_more)
    have p: "p \<noteq> []" using line by (auto simp: resp_line_def)
    show ?thesis
    proof (cases "d \<le> REDIS_FRAME_MAX_DEPTH")
      case d: True
      note f = frame_line [OF d line] frame_line [OF d more] hd_append2 [OF p]
      from resp_len_cases [of line] consider
        "redis_resp_len line = (NGX_DONE, 0)" | "redis_resp_len line = (NGX_ERROR, 0)"
        | "redis_resp_len line = (NGX_OK, int (dec_nat line))" by blast
      then show ?thesis
      proof cases
        case 3
        show ?thesis
        proof (cases "hd p = ASTERISK \<and> dec_nat line \<le> REDIS_MAX_MEMBERS")
          case True
          then have IH: "\<forall>x. (\<forall>r. redis_frame_n (d + 1) (dec_nat line) q = (NGX_OK, r) \<longrightarrow> redis_frame_n (d + 1) (dec_nat line) (q @ x) = (NGX_OK, r @ x)) \<and>
            (fst (redis_frame_n (d + 1) (dec_nat line) q) = NGX_DECLINED \<longrightarrow> fst (redis_frame_n (d + 1) (dec_nat line) (q @ x)) = NGX_DECLINED)"
            using 1(1) [of "(line, q)" line q NGX_OK "int (dec_nat line)"] d p line 3 by simp
          then show ?thesis using True 3 unfolding f by simp
        next
          case False
          then show ?thesis using 3 payload_more [of "int (dec_nat line)" q] unfolding f by auto
        qed
      qed (simp_all add: f)
    qed (simp add: redis_frame.simps [of d])
  qed
next
  case (2 d n p)
  show ?case
  proof (cases "n = 0")
    case False
    obtain rc q where rc: "redis_frame d p = (rc, q)" by force
    show ?thesis
    proof (cases "rc = NGX_DECLINED")
      case True
      have "fst (redis_frame_n d n (p @ x)) = NGX_DECLINED" for x
      proof -
        have "fst (redis_frame d (p @ x)) = NGX_DECLINED" using 2(1) False rc True by simp
        then obtain q' where "redis_frame d (p @ x) = (NGX_DECLINED, q')" by (cases "redis_frame d (p @ x)") simp
        then show ?thesis using False by (simp add: redis_frame_n.simps [of d n])
      qed
      then show ?thesis using rc True False by (simp add: redis_frame_n.simps [of d n])
    next
      case nd: False
      then show ?thesis using 2 False rc by (cases rc) (auto simp: redis_frame_n.simps [of d n])
    qed
  qed (simp add: redis_frame_n.simps)
qed

subsection \<open>Commands are one frame\<close>

lemma encode_is_reply: "redis_encode argv = reply_wire (Arr (map Bulk argv))"
proof -
  have "encode_args argv = concat (map (reply_wire \<circ> Bulk) argv)" by (induction argv) simp_all
  then show ?thesis by (simp add: redis_encode_def)
qed

lemma bulk_parse:
  assumes "length v \<le> REDIS_MAX_REPLY"
  shows "redis_parse_bulk nil (DOLLAR # dec_ui (length v) @ CR # LF # v @ CR # LF # q) = (NGX_OK, Some v, q)"
  using assms by (simp add: redis_parse_bulk_def len_dec_small payload_delim)

lemma keys_parse:
  assumes "\<forall>k\<in>set ks. case k of None \<Rightarrow> True | Some v \<Rightarrow> length v \<le> REDIS_MAX_REPLY"
  shows "parse_keys (length ks) (concat (map (\<lambda>k. reply_wire (case k of None \<Rightarrow> NilBulk | Some v \<Rightarrow> Bulk v)) ks) @ q) acc
    = (NGX_OK, rev acc @ ks)"
  using assms
proof (induction ks arbitrary: acc)
  case (Cons k ks)
  then show ?case by (cases k) (simp_all add: bulk_parse, simp add: redis_parse_bulk_def)
qed simp

lemma length_encode_args:
  assumes "\<forall>a\<in>set argv. length a < 2 ^ 64"
  shows "length (encode_args argv) \<le> sum_list (map (\<lambda>a. 1 + NGX_INT_T_LEN + 2 + length a + 2) argv)"
  using assms
proof (induction argv)
  case (Cons a argv)
  have "length (dec_ui (length a)) \<le> 20" using Cons.prems by (intro length_dec_ui) auto
  with Cons show ?case by (simp add: NGX_INT_T_LEN_def)
qed simp

text \<open>
  A command is binary safe. Whatever bytes its arguments hold, the encoded command is one RESP frame
  with nothing left over, its elements read back are exactly the arguments, and the buffer sized
  beforehand is long enough.
\<close>

theorem redis_command_roundtrip:
  assumes "length argv \<le> REDIS_MAX_MEMBERS" and "\<forall>a\<in>set argv. length a \<le> REDIS_MAX_REPLY"
  shows "redis_frame 0 (redis_encode argv @ q) = (NGX_OK, q) \<and>
    (\<exists>p. redis_encode argv = ASTERISK # dec_ui (length argv) @ crlf @ p \<and>
       parse_keys (length argv) p [] = (NGX_OK, map Some argv)) \<and>
    length (redis_encode argv) \<le> redis_encode_len argv"
proof -
  have "reply_ok 0 (Arr (map Bulk argv))" using assms by (simp add: REDIS_FRAME_MAX_DEPTH_def)
  then have f: "redis_frame 0 (redis_encode argv @ q) = (NGX_OK, q)" unfolding encode_is_reply by (rule frame_wire)
  have "parse_keys (length (map Some argv)) (concat (map (\<lambda>k. reply_wire (case k of None \<Rightarrow> NilBulk | Some v \<Rightarrow> Bulk v)) (map Some argv)) @ []) []
    = (NGX_OK, rev [] @ map Some argv)"
    using assms(2) by (intro keys_parse) auto
  moreover have "concat (map (\<lambda>k. reply_wire (case k of None \<Rightarrow> NilBulk | Some v \<Rightarrow> Bulk v)) (map Some argv)) = encode_args argv"
    by (induction argv) simp_all
  ultimately have k: "parse_keys (length argv) (encode_args argv) [] = (NGX_OK, map Some argv)" by simp
  have "length (dec_ui (length argv)) \<le> 20" using assms(1) by (intro length_dec_ui) (auto simp: redis_limits)
  moreover have "\<forall>a\<in>set argv. length a < 2 ^ 64" using assms(2) by (auto simp: redis_limits)
  ultimately have "length (redis_encode argv) \<le> redis_encode_len argv"
    using length_encode_args [of argv] by (simp add: redis_encode_def redis_encode_len_def NGX_INT_T_LEN_def)
  with f k show ?thesis by (simp add: redis_encode_def)
qed

theorem redis_command_roundtrip_witness:
  "redis_frame 0 (redis_encode [ascii ''DEL'', [CR, LF, 0x2A]] @ [1]) = (NGX_OK, [1]) \<and>
   length (redis_encode [ascii ''DEL'', [CR, LF, 0x2A]]) \<le> redis_encode_len [ascii ''DEL'', [CR, LF, 0x2A]]"
  using redis_command_roundtrip [of "[ascii ''DEL'', [CR, LF, 0x2A]]" "[1]"]
  by (simp add: redis_limits)

subsection \<open>The answer of a GET\<close>

definition value_cap :: "nat option \<Rightarrow> nat" where
  "value_cap cap = (case cap of Some n \<Rightarrow> if n > 0 then n else REDIS_MAX_VALUE | None \<Rightarrow> REDIS_MAX_VALUE)"

lemma parse_short:
  assumes "int (length v) \<le> int (value_cap cap)" and "int (length v) \<le> NGX_MAX_INT_T_VALUE" and "strict_prefix p (reply_wire (Bulk v))"
  shows "redis_parse cap p = (NGX_AGAIN, [])"
proof -
  have "int (length q) < int (length v) + 2" if "strict_prefix q (v @ [CR, LF])" for q
    using prefix_length_less [OF that] by simp
  then show ?thesis
    using assms header_short [of p DOLLAR "dec_ui (length v)" "v @ [CR, LF]"]
    by (auto simp: redis_parse_def value_cap_def [symmetric])
qed

lemma parse_full:
  assumes "int (length v) \<le> int (value_cap cap)" and "int (length v) \<le> NGX_MAX_INT_T_VALUE"
  shows "redis_parse cap (reply_wire (Bulk v)) = (NGX_OK, v)"
  using assms by (simp add: redis_parse_def value_cap_def [symmetric] payload_delim)

lemma parse_nil_short: "strict_prefix p (reply_wire NilBulk) \<Longrightarrow> redis_parse cap p = (NGX_AGAIN, [])"
  using header_short [of p DOLLAR "[MINUS, DIGIT1]" "[]"] by (auto simp: redis_parse_def)

lemma parse_declined: "fst (redis_parse cap buf) = NGX_DECLINED \<longleftrightarrow> buf = reply_wire NilBulk"
proof
  assume a: "fst (redis_parse cap buf) = NGX_DECLINED"
  then obtain line p where l: "buf \<noteq> []" "hd buf = DOLLAR" "resp_line buf = Some (line, p)"
    by (auto simp: redis_parse_def split: if_splits option.splits)
  with a have "redis_resp_len line = (NGX_DONE, 0)" "p = []"
    using resp_len_cases [of line] by (auto simp: redis_parse_def split: if_splits)
  then have "line = [MINUS, DIGIT1]" "p = []" using resp_len_cases [of line] by auto
  then have "tl buf = [MINUS, DIGIT1, CR, LF]" using l(3) by (simp add: resp_line_Some)
  then show "buf = reply_wire NilBulk" using l(1,2) by (cases buf) auto
qed (simp add: redis_parse_def)

lemma parse_ok:
  assumes "redis_parse cap buf = (NGX_OK, v)"
  shows "\<exists>line. buf = DOLLAR # line @ crlf @ v @ crlf \<and> list_all digit_byte line \<and> dec_nat line = length v \<and>
    length v \<le> value_cap cap"
proof -
  obtain line p where l: "buf \<noteq> []" "hd buf = DOLLAR" "resp_line buf = Some (line, p)"
    using assms by (auto simp: redis_parse_def split: if_splits option.splits)
  define n where "n = dec_nat line"
  have n: "redis_resp_len line = (NGX_OK, int n)" "list_all digit_byte line"
    using assms l resp_len_cases [of line] by (auto simp: redis_parse_def n_def split: if_splits)
  then have p: "n \<le> value_cap cap" "length p = n + 2" "p ! n = CR" "p ! (n + 1) = LF" "v = take n p"
    using assms l by (auto simp: redis_parse_def value_cap_def [symmetric] nat_add_distrib split: if_splits)
  have "p = take n p @ [p ! n, p ! (n + 1)]"
    using p(2) by (intro nth_equalityI) (auto simp: nth_append less_Suc_eq numeral_2_eq_2)
  then have "p = v @ crlf" using p by simp
  moreover have "tl buf = line @ CR # LF # p" using l(3) by (simp add: resp_line_Some)
  ultimately have "buf = DOLLAR # line @ crlf @ v @ crlf" using l(1,2) by (cases buf) auto
  with n(2) p(1,2,5) show ?thesis by (auto simp: n_def)
qed


text \<open>
  C24: A GET has three answers and they do not blur. NGX_DECLINED, the only one that may record the key as
  absent, is given for the nil reply and nothing else; a value is given only for one bulk string that
  fills the buffer exactly, whose length field is the value's length and within the configured
  maximum; and for every such value the reply is read back, while each strict prefix of it (or of the
  nil reply) is waited for.
\<close>

theorem redis_get_answers:
  "(fst (redis_parse cap buf) = NGX_DECLINED \<longleftrightarrow> buf = DOLLAR # [MINUS, DIGIT1] @ crlf) \<and>
   (\<forall>v. redis_parse cap buf = (NGX_OK, v) \<longrightarrow>
      (\<exists>line. buf = DOLLAR # line @ crlf @ v @ crlf \<and> list_all digit_byte line \<and> dec_nat line = length v \<and>
        length v \<le> value_cap cap)) \<and>
   (int (length v) \<le> NGX_MAX_INT_T_VALUE \<longrightarrow> length v \<le> value_cap cap \<longrightarrow>
      redis_parse cap (reply_wire (Bulk v)) = (NGX_OK, v) \<and>
      (\<forall>p. strict_prefix p (reply_wire (Bulk v)) \<or> strict_prefix p (reply_wire NilBulk) \<longrightarrow>
         redis_parse cap p = (NGX_AGAIN, [])))"
  using parse_declined [of cap buf] parse_ok [of cap buf] parse_full [of v cap] parse_short [of v cap]
    parse_nil_short [of _ cap] by auto

theorem redis_get_answers_witness:
  "redis_parse (Some 10) (reply_wire (Bulk [CR, LF])) = (NGX_OK, [CR, LF]) \<and>
   redis_parse (Some 10) (ascii ''$2'') = (NGX_AGAIN, []) \<and>
   fst (redis_parse (Some 10) (ascii ''-ERR'')) \<noteq> NGX_DECLINED"
proof -
  have "strict_prefix (ascii ''$2'') (reply_wire (Bulk [CR, LF]))" "ascii ''-ERR'' \<noteq> DOLLAR # [MINUS, DIGIT1] @ crlf"
    by code_simp+
  then show ?thesis
    using redis_get_answers [of "Some 10" "ascii ''-ERR''" "[CR, LF]"] by (auto simp: value_cap_def NGX_MAX_INT_T_VALUE_def)
qed

subsection \<open>A SCAN page is read back\<close>

abbreviation key_reply :: "bytes option \<Rightarrow> reply" where
  "key_reply k \<equiv> (case k of None \<Rightarrow> NilBulk | Some v \<Rightarrow> Bulk v)"

definition scan_reply :: "bytes \<Rightarrow> bytes option list \<Rightarrow> reply" where
  "scan_reply cursor keys = Arr [Bulk cursor, Arr (map key_reply keys)]"

lemma keys_wire_long: "4 * length ks \<le> length (concat (map (\<lambda>k. reply_wire (key_reply k)) ks))"
proof (induction ks)
  case (Cons k ks)
  have "4 \<le> length (reply_wire (key_reply k))" by (cases k) simp_all
  with Cons show ?case by simp
qed simp

lemma scan_reply_wire:
  "reply_wire (scan_reply cursor keys) = ASTERISK # dec_ui 2 @ CR # LF # DOLLAR # dec_ui (length cursor) @ CR # LF # cursor
    @ CR # LF # ASTERISK # dec_ui (length keys) @ CR # LF # concat (map (\<lambda>k. reply_wire (key_reply k)) keys)"
  by (simp add: scan_reply_def comp_def)

text \<open>
  The page of a SCAN is read back: the cursor and the keys of a well-formed page (nil elements
  included) are exactly the server's, and the guard against dishonest element counts never refuses
  an honest page.
\<close>

lemma scan_page_roundtrip:
  assumes "length cursor \<le> REDIS_MAX_REPLY" and "length keys \<le> REDIS_MAX_MEMBERS"
    and "\<forall>k\<in>set keys. case k of None \<Rightarrow> True | Some v \<Rightarrow> length v \<le> REDIS_MAX_REPLY"
  shows "redis_parse_scan True (reply_wire (scan_reply cursor keys)) = (NGX_OK, cursor, keys) \<and>
    redis_frame 0 (reply_wire (scan_reply cursor keys)) = (NGX_OK, [])"
proof
  have two: "redis_resp_len (dec_ui 2) = (NGX_OK, 2)" by (simp add: redis_limits)
  have "4 * length keys \<le> length (concat (map (\<lambda>k. reply_wire (key_reply k)) keys))" by (rule keys_wire_long)
  then have cnt: "int (length keys) \<le> int (length (concat (map (\<lambda>k. reply_wire (key_reply k)) keys))) div 4" by linarith
  have kp: "parse_keys (length keys) (concat (map (\<lambda>k. reply_wire (key_reply k)) keys)) [] = (NGX_OK, keys)"
    using keys_parse [OF assms(3), of "[]" "[]"] by simp
  show "redis_parse_scan True (reply_wire (scan_reply cursor keys)) = (NGX_OK, cursor, keys)"
    using assms cnt kp unfolding scan_reply_wire
    by (simp add: redis_parse_scan_def bulk_parse len_dec_small two)
  have "reply_ok 0 (scan_reply cursor keys)"
    using assms by (auto simp: scan_reply_def REDIS_FRAME_MAX_DEPTH_def REDIS_MAX_MEMBERS_def split: option.split)
  then show "redis_frame 0 (reply_wire (scan_reply cursor keys)) = (NGX_OK, [])"
    using frame_wire [of 0 "scan_reply cursor keys" "[]"] by simp
qed

end
