(* ===== verification/Redis_Scan.thy ===== *)
theory Redis_Scan
  imports Resp
begin

text \<open>
  The resumable framing of a top-level array (\<^verbatim>\<open>redis.c\<close>: \<open>redis_frame_scan\<close> and its prologue). A page
  that arrives in pieces is framed in one pass over the buffer: the state keeps the offset of the
  first unconfirmed element and, per nesting level, how many elements are still to come. The theorems
  compare it with \<open>redis_frame\<close>, which starts over each time.
\<close>

subsection \<open>State\<close>

record frame_st =
  frame_off :: nat
  frame_remain :: "nat list"
  frame_depth :: nat

definition fresh_frame :: frame_st where
  "fresh_frame = \<lparr>frame_off = 0, frame_remain = replicate REDIS_FRAME_MAX_DEPTH 0, frame_depth = 0\<rparr>"

text \<open>Access to the fixed array; None is an index out of its bounds.\<close>

definition arr_get :: "nat list \<Rightarrow> nat \<Rightarrow> nat option" where
  "arr_get xs i = (if i < length xs then Some (xs ! i) else None)"

definition arr_set :: "nat list \<Rightarrow> nat \<Rightarrow> nat \<Rightarrow> nat list option" where
  "arr_set xs i v = (if i < length xs then Some (xs[i := v]) else None)"

subsection \<open>The walk\<close>

text \<open>The prologue: the header of the top-level array. The flag says the reply ended with it.\<close>

definition redis_frame_scan_prologue :: "bytes \<Rightarrow> frame_st \<Rightarrow> (ngx_rc \<times> bytes \<times> bool \<times> frame_st) option" where
  "redis_frame_scan_prologue buf s =
    (if buf = [] then Some (NGX_AGAIN, [], False, s)
     else if hd buf \<noteq> ASTERISK then Some (NGX_DECLINED, [], False, s)
     else case resp_line buf of
         None \<Rightarrow> Some (NGX_AGAIN, [], False, s)
       | Some (line, p) \<Rightarrow>
           (case redis_resp_len line of
              (NGX_ERROR, _) \<Rightarrow> Some (NGX_DECLINED, [], False, s)
            | (NGX_DONE, _) \<Rightarrow> Some (NGX_OK, p, True, s)
            | (_, v) \<Rightarrow>
                if v > int REDIS_MAX_MEMBERS then Some (NGX_DECLINED, [], False, s)
                else (case arr_set (frame_remain s) 0 (nat v) of
                    None \<Rightarrow> None
                  | Some remain \<Rightarrow> Some (NGX_OK, [], False,
                      s\<lparr>frame_remain := remain, frame_depth := 1, frame_off := length buf - length p\<rparr>))))"

text \<open>The loop: \<open>buf\<close> is the whole buffer, \<open>p\<close> what is left of it, the offset is kept only where the
  code stores it.\<close>

function frame_scan_loop :: "bytes \<Rightarrow> bytes \<Rightarrow> frame_st \<Rightarrow> (ngx_rc \<times> bytes \<times> frame_st) option" where
  "frame_scan_loop buf p s =
    (let d = frame_depth s - 1; off = length buf - length p; again = Some (NGX_AGAIN, [], s\<lparr>frame_off := off\<rparr>)
     in if frame_depth s = 0 then Some (NGX_OK, p, s\<lparr>frame_off := off\<rparr>)
     else case arr_get (frame_remain s) d of
       None \<Rightarrow> None
     | Some n \<Rightarrow>
       let counted = s\<lparr>frame_remain := (frame_remain s)[d := n - 1]\<rparr>
       in if n = 0 then frame_scan_loop buf p (s\<lparr>frame_depth := d, frame_off := off\<rparr>)
       else if p = [] then again
       else if hd p = PLUS \<or> hd p = MINUS \<or> hd p = COLON
       then (case resp_line p of None \<Rightarrow> again | Some (line, q) \<Rightarrow> frame_scan_loop buf q counted)
       else if hd p = DOLLAR
       then (case resp_line p of
               None \<Rightarrow> again
             | Some (line, q) \<Rightarrow>
                 (case redis_resp_len line of
                    (NGX_ERROR, _) \<Rightarrow> Some (NGX_DECLINED, [], s)
                  | (NGX_DONE, _) \<Rightarrow> frame_scan_loop buf q counted
                  | (_, v) \<Rightarrow>
                      if v > int REDIS_MAX_REPLY then Some (NGX_DECLINED, [], s)
                      else if int (length q) < v + 2 then again
                      else if q ! nat v \<noteq> CR \<or> q ! nat (v + 1) \<noteq> LF then Some (NGX_DECLINED, [], s)
                      else frame_scan_loop buf (drop (nat v + 2) q) counted))
       else if hd p = ASTERISK
       then (if frame_depth s \<ge> REDIS_FRAME_MAX_DEPTH then Some (NGX_DECLINED, [], s)
             else case resp_line p of
               None \<Rightarrow> again
             | Some (line, q) \<Rightarrow>
                 (case redis_resp_len line of
                    (NGX_ERROR, _) \<Rightarrow> Some (NGX_DECLINED, [], s)
                  | (NGX_DONE, _) \<Rightarrow> frame_scan_loop buf q counted
                  | (_, v) \<Rightarrow>
                      if v = 0 then frame_scan_loop buf q counted
                      else if v > int REDIS_MAX_MEMBERS then Some (NGX_DECLINED, [], counted)
                      else (case arr_set (frame_remain counted) (frame_depth s) (nat v) of
                          None \<Rightarrow> None
                        | Some remain \<Rightarrow> frame_scan_loop buf q
                            (counted\<lparr>frame_remain := remain, frame_depth := frame_depth s + 1\<rparr>))))
       else Some (NGX_DECLINED, [], s))"
  by pat_completeness auto
termination
  by (relation "measures [\<lambda>(buf, p, s). length p, \<lambda>(buf, p, s). frame_depth s]")
    (auto dest: resp_line_shorter)

declare frame_scan_loop.simps [simp del]

definition redis_frame_scan :: "bytes \<Rightarrow> frame_st \<Rightarrow> (ngx_rc \<times> bytes \<times> frame_st) option" where
  "redis_frame_scan buf s =
    (if frame_depth s = 0 \<and> frame_off s = 0
     then (case redis_frame_scan_prologue buf s of
             None \<Rightarrow> None
           | Some (rc, next, done, s) \<Rightarrow>
               if rc \<noteq> NGX_OK \<or> done then Some (rc, next, s)
               else frame_scan_loop buf (drop (frame_off s) buf) s)
     else frame_scan_loop buf (drop (frame_off s) buf) s)"

subsection \<open>The loop finishes what \<open>redis_frame\<close> would\<close>

text \<open>What is left to frame: the elements still due at each level, innermost first.\<close>

fun finish :: "nat list \<Rightarrow> bytes \<Rightarrow> ngx_rc \<times> bytes" where
  "finish [] p = (NGX_OK, p)"
| "finish (n # ns) p =
    (case redis_frame_n (length ns + 1) n p of
       (NGX_OK, q) \<Rightarrow> finish ns q
     | (rc, _) \<Rightarrow> (rc, []))"

definition stack_of :: "frame_st \<Rightarrow> nat list" where
  "stack_of s = rev (take (frame_depth s) (frame_remain s))"

definition frame_wf :: "frame_st \<Rightarrow> bool" where
  "frame_wf s \<longleftrightarrow> length (frame_remain s) = REDIS_FRAME_MAX_DEPTH \<and> frame_depth s \<le> REDIS_FRAME_MAX_DEPTH"

lemma stack_top:
  assumes "frame_wf s" and "0 < frame_depth s"
  shows "stack_of s = frame_remain s ! (frame_depth s - 1) # rev (take (frame_depth s - 1) (frame_remain s))"
proof -
  obtain d where d: "frame_depth s = Suc d" using assms(2) by (cases "frame_depth s") auto
  then have "d < length (frame_remain s)" using assms(1) by (simp add: frame_wf_def)
  then show ?thesis using d by (simp add: stack_of_def take_Suc_conv_app_nth)
qed

lemma finish_zero [simp]: "finish (0 # ns) p = finish ns p"
  by (simp add: redis_frame_n.simps)

lemma finish_element:
  "finish (Suc n # ns) p = (case redis_frame (length ns + 1) p of
      (NGX_OK, q) \<Rightarrow> finish (n # ns) q | (rc, _) \<Rightarrow> (rc, []))"
  by (cases "redis_frame (length ns + 1) p"; cases "fst (redis_frame (length ns + 1) p)")
    (simp_all add: redis_frame_n.simps [of _ "Suc n"])


declare finish.simps(2) [simp del]

text \<open>One element, seen at nesting level \<open>d\<close>: what both walks learn from it.\<close>

datatype elem = E_again | E_declined bool | E_done bytes | E_array nat bytes

definition elem :: "nat \<Rightarrow> bytes \<Rightarrow> elem" where
  "elem d p =
    (if p = [] then E_again
     else if hd p = PLUS \<or> hd p = MINUS \<or> hd p = COLON
     then (case resp_line p of None \<Rightarrow> E_again | Some (line, q) \<Rightarrow> E_done q)
     else if hd p = DOLLAR
     then (case resp_line p of
             None \<Rightarrow> E_again
           | Some (line, q) \<Rightarrow>
               (case redis_resp_len line of
                  (NGX_ERROR, _) \<Rightarrow> E_declined False
                | (NGX_DONE, _) \<Rightarrow> E_done q
                | (_, v) \<Rightarrow> if v > int REDIS_MAX_REPLY then E_declined False
                    else if int (length q) < v + 2 then E_again
                    else if q ! nat v \<noteq> CR \<or> q ! nat (v + 1) \<noteq> LF then E_declined False
                    else E_done (drop (nat v + 2) q)))
     else if hd p = ASTERISK
     then (if d \<ge> REDIS_FRAME_MAX_DEPTH then E_declined False
           else case resp_line p of
             None \<Rightarrow> E_again
           | Some (line, q) \<Rightarrow>
               (case redis_resp_len line of
                  (NGX_ERROR, _) \<Rightarrow> E_declined False
                | (NGX_DONE, _) \<Rightarrow> E_done q
                | (_, v) \<Rightarrow> if v = 0 then E_done q
                    else if v > int REDIS_MAX_MEMBERS then E_declined True
                    else E_array (nat v) q))
     else E_declined False)"

lemma hd_cases:
  obtains "hd p = PLUS \<or> hd p = MINUS \<or> hd p = COLON" | "hd p = DOLLAR" | "hd p = ASTERISK"
  | "hd p \<notin> {PLUS, MINUS, COLON, DOLLAR, ASTERISK}"
  by auto

lemma elem_loop:
  assumes "frame_wf s" and "0 < frame_depth s" and "n = frame_remain s ! (frame_depth s - 1)" and "0 < n"
    and "counted = s\<lparr>frame_remain := (frame_remain s)[frame_depth s - 1 := n - 1]\<rparr>"
  shows "frame_scan_loop buf p s = (case elem (frame_depth s) p of
      E_again \<Rightarrow> Some (NGX_AGAIN, [], s\<lparr>frame_off := length buf - length p\<rparr>)
    | E_declined c \<Rightarrow> Some (NGX_DECLINED, [], if c then counted else s)
    | E_done q \<Rightarrow> frame_scan_loop buf q counted
    | E_array v q \<Rightarrow> frame_scan_loop buf q
        (counted\<lparr>frame_remain := (frame_remain counted)[frame_depth s := v], frame_depth := frame_depth s + 1\<rparr>))"
proof -
  have g: "arr_get (frame_remain s) (frame_depth s - 1) = Some n"
    using assms(1-3) by (auto simp: arr_get_def frame_wf_def)
  have st: "\<not> REDIS_FRAME_MAX_DEPTH \<le> frame_depth s \<Longrightarrow>
      arr_set (frame_remain counted) (frame_depth s) v = Some ((frame_remain counted)[frame_depth s := v])" for v
    using assms(1,5) by (simp add: arr_set_def frame_wf_def)
  note l = frame_scan_loop.simps [of buf p s] g [unfolded One_nat_def]
  show ?thesis
  proof (cases "p = []")
    case False
    then show ?thesis
    proof (cases p rule: hd_cases)
      case 1
      then show ?thesis using assms(2,4,5) False by (simp add: l elem_def Let_def split: option.split)
    next
      case 2
      show ?thesis
      proof (cases "resp_line p")
        case (Some lq)
        then show ?thesis using 2 assms(2,4,5) False
          by (cases lq; cases "redis_resp_len (fst lq)"; cases "fst (redis_resp_len (fst lq))") (simp_all add: l elem_def Let_def)
      qed (use 2 assms(2,4,5) False in \<open>simp add: l elem_def Let_def\<close>)
    next
      case 3
      show ?thesis
      proof (cases "resp_line p")
        case (Some lq)
        then show ?thesis using 3 assms(2,4) False st unfolding assms(5)
          by (cases lq; cases "redis_resp_len (fst lq)"; cases "fst (redis_resp_len (fst lq))") (simp_all add: l elem_def Let_def)
      qed (use 3 assms(2,4,5) False in \<open>simp add: l elem_def Let_def\<close>)
    next
      case 4
      then show ?thesis using assms(2,4,5) False by (simp add: l elem_def Let_def)
    qed
  qed (use assms(2,4,5) in \<open>simp add: frame_scan_loop.simps [of buf "[]" s] g [unfolded One_nat_def] elem_def Let_def\<close>)
qed

lemma elem_frame:
  assumes "d \<le> REDIS_FRAME_MAX_DEPTH"
  shows "elem d p = E_again \<Longrightarrow> redis_frame d p = (NGX_AGAIN, [])"
    and "elem d p = E_done q \<Longrightarrow> redis_frame d p = (NGX_OK, q)"
    and "elem d p = E_array v q \<Longrightarrow> redis_frame d p = redis_frame_n (d + 1) v q \<and> d < REDIS_FRAME_MAX_DEPTH \<and> 0 < v"
proof -
  have "case elem d p of E_again \<Rightarrow> redis_frame d p = (NGX_AGAIN, []) | E_declined c \<Rightarrow> True
     | E_done q \<Rightarrow> redis_frame d p = (NGX_OK, q)
     | E_array v q \<Rightarrow> redis_frame d p = redis_frame_n (d + 1) v q \<and> d < REDIS_FRAME_MAX_DEPTH \<and> 0 < v"
  proof (cases "resp_line p")
    case None
    then show ?thesis using assms frame_none [OF assms None] by (auto simp: elem_def)
  next
    case (Some lq)
    obtain line q where lq: "lq = (line, q)" by force
    have p: "p \<noteq> []" using Some by (auto simp: resp_line_def)
    note f = frame_line [OF assms Some [unfolded lq]]
    show ?thesis
      using resp_len_cases [of line] Some lq p
      by (elim disjE conjE) (simp_all add: f elem_def frame_payload_def redis_frame_n.simps [of _ 0])
  qed
  then show "elem d p = E_again \<Longrightarrow> redis_frame d p = (NGX_AGAIN, [])"
    and "elem d p = E_done q \<Longrightarrow> redis_frame d p = (NGX_OK, q)"
    and "elem d p = E_array v q \<Longrightarrow> redis_frame d p = redis_frame_n (d + 1) v q \<and> d < REDIS_FRAME_MAX_DEPTH \<and> 0 < v"
    by simp_all
qed

lemma elem_more:
  "elem d p = E_done q \<Longrightarrow> elem d (p @ x) = E_done (q @ x)"
  "elem d p = E_array v q \<Longrightarrow> elem d (p @ x) = E_array v (q @ x)"
  "elem d p = E_declined c \<Longrightarrow> elem d (p @ x) = E_declined c"
proof -
  have "(\<forall>q. elem d p = E_done q \<longrightarrow> elem d (p @ x) = E_done (q @ x)) \<and>
    (\<forall>v q. elem d p = E_array v q \<longrightarrow> elem d (p @ x) = E_array v (q @ x)) \<and>
    (\<forall>c. elem d p = E_declined c \<longrightarrow> elem d (p @ x) = E_declined c)"
  proof (cases "resp_line p")
    case None
    then show ?thesis by (auto simp: elem_def)
  next
    case (Some lq)
    obtain line q where lq: "lq = (line, q)" by force
    have p: "p \<noteq> []" using Some by (auto simp: resp_line_def)
    show ?thesis
      using resp_len_cases [of line] Some resp_line_some_more [of p line q x] lq p
      by (elim disjE conjE) (auto simp: elem_def nth_append)
  qed
  then show "elem d p = E_done q \<Longrightarrow> elem d (p @ x) = E_done (q @ x)"
    "elem d p = E_array v q \<Longrightarrow> elem d (p @ x) = E_array v (q @ x)"
    "elem d p = E_declined c \<Longrightarrow> elem d (p @ x) = E_declined c" by blast+
qed

lemma elem_suffix: "elem d p = E_done q \<or> elem d p = E_array v q \<Longrightarrow> \<exists>c. p = c @ q \<and> c \<noteq> []"
proof -
  assume a: "elem d p = E_done q \<or> elem d p = E_array v q"
  then obtain line r where r: "resp_line p = Some (line, r)" "\<exists>k. q = drop k r"
  proof (cases "resp_line p")
    case None
    then show ?thesis using a by (auto simp: elem_def split: if_splits)
  next
    case (Some lr)
    then obtain line r where lr: "resp_line p = Some (line, r)" by (cases lr) auto
    have r0: "\<exists>k. r = drop k r" by (rule exI [of _ 0]) simp
    have "\<exists>k. q = drop k r"
      using resp_len_cases [of line] a lr r0
      by (elim disjE conjE) (auto simp: elem_def split: if_splits)
    then show ?thesis using that lr by blast
  qed
  have "p \<noteq> []" using r(1) by (auto simp: resp_line_def)
  then have "p = hd p # line @ CR # LF # r" using r(1) by (cases p) (auto simp: resp_line_Some)
  moreover obtain k where "q = drop k r" using r(2) by blast
  ultimately have "p = (hd p # line @ CR # LF # take k r) @ q" by simp
  then show ?thesis by (metis append_Cons list.distinct(1))
qed


lemma loop_induct:
  assumes "\<And>p s. (\<And>p' s'. length p' < length p \<or> length p' = length p \<and> frame_depth s' < frame_depth s \<Longrightarrow> P p' s') \<Longrightarrow> P p s"
  shows "P (p :: bytes) (s :: frame_st)"
proof -
  have "case_prod P (p, s)"
  proof (induction "(p, s)" arbitrary: p s rule: wf_induct_rule [OF wf_measures [of "[\<lambda>(p, s). length p, \<lambda>(p, s). frame_depth s]"]])
    case (1 p s)
    then show ?case using assms [of p s] by simp
  qed
  then show ?thesis by simp
qed

text \<open>The states the loop moves to.\<close>

definition counted :: "frame_st \<Rightarrow> frame_st" where
  "counted s = s\<lparr>frame_remain := (frame_remain s)[frame_depth s - 1 := frame_remain s ! (frame_depth s - 1) - 1]\<rparr>"

definition pushed :: "nat \<Rightarrow> frame_st \<Rightarrow> frame_st" where
  "pushed v s = (counted s)\<lparr>frame_remain := (frame_remain (counted s))[frame_depth s := v], frame_depth := frame_depth s + 1\<rparr>"

definition popped :: "nat \<Rightarrow> frame_st \<Rightarrow> frame_st" where
  "popped k s = s\<lparr>frame_depth := frame_depth s - 1, frame_off := k\<rparr>"

lemma loop_cases:
  assumes "frame_wf s"
  shows "frame_scan_loop buf p s =
    (if frame_depth s = 0 then Some (NGX_OK, p, s\<lparr>frame_off := length buf - length p\<rparr>)
     else if frame_remain s ! (frame_depth s - 1) = 0 then frame_scan_loop buf p (popped (length buf - length p) s)
     else (case elem (frame_depth s) p of
        E_again \<Rightarrow> Some (NGX_AGAIN, [], s\<lparr>frame_off := length buf - length p\<rparr>)
      | E_declined c \<Rightarrow> Some (NGX_DECLINED, [], if c then counted s else s)
      | E_done q \<Rightarrow> frame_scan_loop buf q (counted s)
      | E_array v q \<Rightarrow> frame_scan_loop buf q (pushed v s)))"
proof (cases "frame_depth s = 0")
  case False
  show ?thesis
  proof (cases "frame_remain s ! (frame_depth s - 1) = 0")
    case True
    then have "arr_get (frame_remain s) (frame_depth s - 1) = Some 0"
      using assms False by (auto simp: arr_get_def frame_wf_def)
    then show ?thesis using False True by (simp add: frame_scan_loop.simps [of buf p s] popped_def Let_def)
  next
    case top: False
    then show ?thesis
      using False elem_loop [OF assms _ refl _ refl, of buf p] unfolding pushed_def counted_def by simp
  qed
qed (simp add: frame_scan_loop.simps)

lemma state_wf:
  "frame_wf s \<Longrightarrow> frame_wf (counted s)" "frame_wf s \<Longrightarrow> frame_wf (popped k s)"
  "frame_wf s \<Longrightarrow> frame_depth s < REDIS_FRAME_MAX_DEPTH \<Longrightarrow> frame_wf (pushed v s)"
  "frame_wf (s\<lparr>frame_off := k\<rparr>) = frame_wf s"
  by (auto simp add: frame_wf_def counted_def popped_def pushed_def)

lemma state_depth [simp]:
  "frame_depth (counted s) = frame_depth s" "frame_depth (popped k s) = frame_depth s - 1"
  "frame_depth (pushed v s) = frame_depth s + 1"
  by (simp_all add: counted_def popped_def pushed_def)

lemma state_stacks:
  assumes "frame_wf s" and "0 < frame_depth s"
  shows "stack_of s = frame_remain s ! (frame_depth s - 1) # stack_of (popped k s)"
    and "stack_of (counted s) = (frame_remain s ! (frame_depth s - 1) - 1) # stack_of (popped k s)"
    and "frame_depth s < REDIS_FRAME_MAX_DEPTH \<Longrightarrow> stack_of (pushed v s) = v # stack_of (counted s)"
    and "length (stack_of (popped k s)) + 1 = frame_depth s"
proof -
  show "stack_of s = frame_remain s ! (frame_depth s - 1) # stack_of (popped k s)"
    using stack_top [OF assms] by (simp add: stack_of_def popped_def)
  show "stack_of (counted s) = (frame_remain s ! (frame_depth s - 1) - 1) # stack_of (popped k s)"
    using stack_top [OF state_wf(1) [OF assms(1)]] assms by (auto simp: stack_of_def popped_def counted_def frame_wf_def)
  have "length (frame_remain (counted s)) = REDIS_FRAME_MAX_DEPTH" using assms(1) by (simp add: counted_def frame_wf_def)
  then show "frame_depth s < REDIS_FRAME_MAX_DEPTH \<Longrightarrow> stack_of (pushed v s) = v # stack_of (counted s)"
    by (simp add: stack_of_def pushed_def take_Suc_conv_app_nth counted_def)
  show "length (stack_of (popped k s)) + 1 = frame_depth s"
    using assms by (auto simp: stack_of_def popped_def frame_wf_def min_def)
qed

lemma elem_shorter: "elem d p = E_done q \<or> elem d p = E_array v q \<Longrightarrow> length q < length p"
  using elem_suffix [of d p q v] by auto

lemma loop_agrees:
  assumes "frame_wf s"
  shows "\<exists>rc next s'. frame_scan_loop buf p s = Some (rc, next, s') \<and> frame_wf s' \<and>
    (rc = NGX_AGAIN \<longrightarrow> 0 < frame_depth s') \<and> (rc \<noteq> NGX_DECLINED \<longrightarrow> (rc, next) = finish (stack_of s) p) \<and>
    rc \<in> {NGX_OK, NGX_AGAIN, NGX_DECLINED}"
  using assms
proof (induction p s rule: loop_induct)
  case (1 p s)
  note IH = 1(1) and wf = 1(2)
  note l = loop_cases [OF wf, of buf p]
  show ?case
  proof (cases "frame_depth s = 0")
    case True
    then show ?thesis using wf by (simp add: l stack_of_def state_wf)
  next
    case False
    then have pos: "0 < frame_depth s" by simp
    let ?n = "frame_remain s ! (frame_depth s - 1)"
    note st = state_stacks(1,2,4) [OF wf pos, where k = "length buf - length p"] state_stacks(3) [OF wf pos]
    show ?thesis
    proof (cases "?n = 0")
      case True
      then show ?thesis using False IH [of p "popped (length buf - length p) s"] wf st(1) by (simp add: l state_wf)
    next
      case top: False
      have dm: "frame_depth s \<le> REDIS_FRAME_MAX_DEPTH" using wf by (simp add: frame_wf_def)
      note ef = elem_frame [OF dm]
      have fin: "finish (stack_of s) p = (case redis_frame (frame_depth s) p of
          (NGX_OK, q) \<Rightarrow> finish (stack_of (counted s)) q | (rc, _) \<Rightarrow> (rc, []))"
      proof -
        obtain m where m: "?n = Suc m" using top by (cases ?n) auto
        have "stack_of s = Suc m # stack_of (popped (length buf - length p) s)"
          "stack_of (counted s) = m # stack_of (popped (length buf - length p) s)"
          using st(1,2) m by simp_all
        then show ?thesis using st(3) by (simp only: finish_element)
      qed
      show ?thesis
      proof (cases "elem (frame_depth s) p")
        case E_again
        then show ?thesis using False top wf ef(1) fin by (simp add: l state_wf)
      next
        case (E_declined c)
        then show ?thesis using False top wf by (simp add: l state_wf)
      next
        case (E_done q)
        then show ?thesis using False top IH [of q "counted s"] elem_shorter [of "frame_depth s" p q] wf ef(2) fin
          by (simp add: l state_wf)
      next
        case (E_array v q)
        note ea = ef(3) [OF E_array]
        have "finish (stack_of s) p = finish (stack_of (pushed v s)) q"
        proof -
          have len: "length (stack_of (counted s)) = frame_depth s" using st(2,3) by simp
          show ?thesis using fin st(4) [of v] ea dm by (simp add: finish.simps(2) len)
        qed
        then show ?thesis using E_array False top IH [of q "pushed v s"] elem_shorter [of "frame_depth s" p q v] wf ea
          by (simp add: l state_wf)
      qed
    qed
  qed
qed


subsection \<open>Resuming\<close>

text \<open>What a caller sees of a result; a declined walk is abandoned with its state.\<close>

definition scan_view :: "(ngx_rc \<times> bytes \<times> frame_st) option \<Rightarrow> (ngx_rc \<times> bytes \<times> frame_st option) option" where
  "scan_view r = map_option (\<lambda>(rc, next, s). (rc, next, if rc = NGX_DECLINED then None else Some s)) r"

lemma scan_view_simps [simp]:
  "scan_view (Some (NGX_OK, p, s)) = Some (NGX_OK, p, Some s)"
  "scan_view (Some (NGX_AGAIN, p, s)) = Some (NGX_AGAIN, p, Some s)"
  "scan_view (Some (NGX_DECLINED, p, s)) = Some (NGX_DECLINED, p, None)"
  by (simp_all add: scan_view_def)

lemma off_states:
  "counted (s\<lparr>frame_off := k\<rparr>) = (counted s)\<lparr>frame_off := k\<rparr>"
  "pushed v (s\<lparr>frame_off := k\<rparr>) = (pushed v s)\<lparr>frame_off := k\<rparr>"
  "popped j (s\<lparr>frame_off := k\<rparr>) = popped j s"
  by (simp_all add: counted_def pushed_def popped_def)

lemma loop_off:
  assumes "frame_wf s"
  shows "scan_view (frame_scan_loop buf p (s\<lparr>frame_off := k\<rparr>)) = scan_view (frame_scan_loop buf p s)"
  using assms
proof (induction p s arbitrary: k rule: loop_induct)
  case (1 p s)
  note IH = 1(1) and wf = 1(2)
  have wf': "frame_wf (s\<lparr>frame_off := k\<rparr>)" using wf by (simp add: state_wf)
  note l = loop_cases [OF wf, of buf p] loop_cases [OF wf', of buf p]
  have dm: "frame_depth s \<le> REDIS_FRAME_MAX_DEPTH" using wf by (simp add: frame_wf_def)
  show ?case
  proof (cases "frame_depth s = 0 \<or> frame_remain s ! (frame_depth s - 1) = 0")
    case False
    show ?thesis
    proof (cases "elem (frame_depth s) p")
      case (E_done q)
      then show ?thesis using False IH [of q "counted s"] elem_shorter [of "frame_depth s" p q] wf
        by (simp add: l off_states state_wf)
    next
      case (E_array v q)
      then show ?thesis using False IH [of q "pushed v s"] elem_shorter [of "frame_depth s" p q v] wf
          elem_frame(3) [OF dm E_array] by (simp add: l off_states state_wf)
    qed (use False in \<open>simp_all add: l\<close>)
  qed (auto simp: l off_states)
qed

lemma loop_resumes:
  assumes "frame_wf s" and "suffix p buf" and "frame_scan_loop buf p s = Some (NGX_AGAIN, next, s')"
  shows "scan_view (frame_scan_loop (buf @ x) (drop (frame_off s') (buf @ x)) s') = scan_view (frame_scan_loop (buf @ x) (p @ x) s)"
  using assms
proof (induction p s rule: loop_induct)
  case (1 p s)
  note IH = 1(1) and wf = 1(2) and suf = 1(3) and run = 1(4)
  note l = loop_cases [OF wf, of buf p] loop_cases [OF wf, of "buf @ x" "p @ x"]
  have dm: "frame_depth s \<le> REDIS_FRAME_MAX_DEPTH" using wf by (simp add: frame_wf_def)
  have off: "drop (length buf - length p) (buf @ x) = p @ x" using suf by (auto simp: suffix_def)
  have step: "suffix q buf" if "elem (frame_depth s) p = E_done q \<or> elem (frame_depth s) p = E_array v q" for q v
    using elem_suffix [OF that] suf by (auto simp: suffix_def)
  have len: "length (buf @ x) - length (p @ x) = length buf - length p" by simp
  show ?case
  proof (cases "frame_depth s = 0")
    case True
    then show ?thesis using run by (simp add: l)
  next
    case pos: False
    show ?thesis
    proof (cases "frame_remain s ! (frame_depth s - 1) = 0")
      case True
      then show ?thesis using pos IH [of p "popped (length buf - length p) s"] wf suf run by (simp add: l state_wf)
    next
      case False
      show ?thesis
      proof (cases "elem (frame_depth s) p")
        case E_again
        then have s': "s' = s\<lparr>frame_off := length buf - length p\<rparr>" using run pos False by (simp add: l)
        then show ?thesis using loop_off [OF wf] off by simp
      next
        case (E_declined c)
        then show ?thesis using run pos False by (simp add: l)
      next
        case (E_done q)
        then show ?thesis
          using pos False IH [of q "counted s"] elem_shorter [of "frame_depth s" p q] elem_more(1) [OF E_done, of x]
            step [of q] wf run by (simp add: l state_wf)
      next
        case (E_array v q)
        then show ?thesis
          using pos False IH [of q "pushed v s"] elem_shorter [of "frame_depth s" p q v] elem_more(2) [OF E_array, of x]
            step [of q v] wf run elem_frame(3) [OF dm E_array] by (simp add: l state_wf)
      qed
    qed
  qed
qed

text \<open>A refusal stands, whatever arrives later.\<close>

lemma loop_declined_more:
  assumes "frame_wf s" and "frame_scan_loop buf p s = Some (NGX_DECLINED, next, s')"
  shows "\<exists>next s'. frame_scan_loop (buf @ x) (p @ x) s = Some (NGX_DECLINED, next, s')"
  using assms
proof (induction p s rule: loop_induct)
  case (1 p s)
  note IH = 1(1) and wf = 1(2) and run = 1(3)
  note l = loop_cases [OF wf, of buf p] loop_cases [OF wf, of "buf @ x" "p @ x"]
  have dm: "frame_depth s \<le> REDIS_FRAME_MAX_DEPTH" using wf by (simp add: frame_wf_def)
  show ?case
  proof (cases "frame_depth s = 0 \<or> frame_remain s ! (frame_depth s - 1) = 0")
    case True
    then show ?thesis using IH [of p "popped (length buf - length p) s"] wf run by (auto simp: l state_wf split: if_splits)
  next
    case False
    show ?thesis
    proof (cases "elem (frame_depth s) p")
      case E_again
      then show ?thesis using run False by (simp add: l)
    next
      case (E_declined c)
      then show ?thesis using run False elem_more(3) [OF E_declined, of x] by (simp add: l)
    next
      case (E_done q)
      then show ?thesis
        using False IH [of q "counted s"] elem_shorter [of "frame_depth s" p q] elem_more(1) [OF E_done, of x] wf run
        by (simp add: l state_wf)
    next
      case (E_array v q)
      then show ?thesis
        using False IH [of q "pushed v s"] elem_shorter [of "frame_depth s" p q v] elem_more(2) [OF E_array, of x] wf run
          elem_frame(3) [OF dm E_array] by (simp add: l state_wf)
    qed
  qed
qed

lemma fresh_wf [simp]: "frame_wf fresh_frame"
  by (simp add: frame_wf_def fresh_frame_def)

lemma fresh_simps [simp]: "frame_depth fresh_frame = 0" "frame_off fresh_frame = 0"
  by (simp_all add: fresh_frame_def)

definition started :: "nat \<Rightarrow> nat \<Rightarrow> frame_st" where
  "started v k = fresh_frame\<lparr>frame_remain := (frame_remain fresh_frame)[0 := v], frame_depth := 1, frame_off := k\<rparr>"

lemma started_simps [simp]: "frame_wf (started v k)" "stack_of (started v k) = [v]" "frame_depth (started v k) = 1"
    "frame_off (started v k) = k"
  by (simp_all add: started_def frame_wf_def fresh_frame_def stack_of_def REDIS_FRAME_MAX_DEPTH_def take_Suc_conv_app_nth)

lemma scan_fresh:
  "redis_frame_scan buf fresh_frame =
    (if buf = [] then Some (NGX_AGAIN, [], fresh_frame)
     else if hd buf \<noteq> ASTERISK then Some (NGX_DECLINED, [], fresh_frame)
     else case resp_line buf of
         None \<Rightarrow> Some (NGX_AGAIN, [], fresh_frame)
       | Some (line, p) \<Rightarrow>
           (case redis_resp_len line of
              (NGX_ERROR, _) \<Rightarrow> Some (NGX_DECLINED, [], fresh_frame)
            | (NGX_DONE, _) \<Rightarrow> Some (NGX_OK, p, fresh_frame)
            | (_, v) \<Rightarrow>
                if v > int REDIS_MAX_MEMBERS then Some (NGX_DECLINED, [], fresh_frame)
                else frame_scan_loop buf (drop (length buf - length p) buf) (started (nat v) (length buf - length p))))"
proof -
  have "arr_set (frame_remain fresh_frame) 0 v = Some ((frame_remain fresh_frame)[0 := v])" for v
    by (simp add: arr_set_def fresh_frame_def REDIS_FRAME_MAX_DEPTH_def)
  then show ?thesis
    by (auto simp: redis_frame_scan_def redis_frame_scan_prologue_def started_def split: option.split ngx_rc.split prod.split)
qed


subsection \<open>Every reply within the limits is framed\<close>

fun arrays_above :: "nat \<Rightarrow> reply \<Rightarrow> bool" where
  "arrays_above d (Arr rs) \<longleftrightarrow> d < REDIS_FRAME_MAX_DEPTH \<and> (\<forall>r\<in>set rs. arrays_above (d + 1) r)"
| "arrays_above d NilArr \<longleftrightarrow> d < REDIS_FRAME_MAX_DEPTH"
| "arrays_above d _ \<longleftrightarrow> True"

definition answer :: "(ngx_rc \<times> bytes \<times> frame_st) option \<Rightarrow> (ngx_rc \<times> bytes) option" where
  "answer r = map_option (\<lambda>(rc, next, s). (rc, next)) r"

lemma answer_Some [simp]: "answer (Some (rc, next, s)) = Some (rc, next)"
  by (simp add: answer_def)

lemma stack_facts:
  assumes "frame_wf s"
  shows "frame_depth s = length (stack_of s)" and "stack_of s = n # ns \<Longrightarrow> frame_remain s ! (frame_depth s - 1) = n"
    and "stack_of s = n # ns \<Longrightarrow> stack_of (popped k s) = ns \<and> stack_of (counted s) = (n - 1) # ns"
    and "stack_of s = n # ns \<Longrightarrow> frame_depth s < REDIS_FRAME_MAX_DEPTH \<Longrightarrow> stack_of (pushed v s) = v # (n - 1) # ns"
proof -
  show d: "frame_depth s = length (stack_of s)" using assms by (simp add: stack_of_def frame_wf_def)
  have top: "n = frame_remain s ! (frame_depth s - 1) \<and> ns = stack_of (popped k s) \<and>
      stack_of (counted s) = (n - 1) # ns \<and> (frame_depth s < REDIS_FRAME_MAX_DEPTH \<longrightarrow> stack_of (pushed v s) = v # (n - 1) # ns)"
    if e: "stack_of s = n # ns"
  proof -
    have pos: "0 < frame_depth s" using d e by simp
    have "n # ns = frame_remain s ! (frame_depth s - 1) # stack_of (popped k s)"
      using state_stacks(1) [OF assms pos, of k] e by (simp only:)
    then have n: "n = frame_remain s ! (frame_depth s - 1)" "ns = stack_of (popped k s)" by blast+
    have c: "stack_of (counted s) = (n - 1) # ns"
      using state_stacks(2) [OF assms pos, of k] unfolding n by (simp only:)
    have "frame_depth s < REDIS_FRAME_MAX_DEPTH \<longrightarrow> stack_of (pushed v s) = v # (n - 1) # ns"
      using state_stacks(3) [OF assms pos, of v] c by metis
    with n c show ?thesis by blast
  qed
  show "stack_of s = n # ns \<Longrightarrow> frame_remain s ! (frame_depth s - 1) = n" using top by blast
  show "stack_of s = n # ns \<Longrightarrow> stack_of (popped k s) = ns \<and> stack_of (counted s) = (n - 1) # ns" using top by blast
  show "stack_of s = n # ns \<Longrightarrow> frame_depth s < REDIS_FRAME_MAX_DEPTH \<Longrightarrow> stack_of (pushed v s) = v # (n - 1) # ns"
    using top by blast
qed

lemma loop_stack:
  assumes "frame_wf s" and "frame_wf t" and "stack_of s = stack_of t"
  shows "answer (frame_scan_loop buf p s) = answer (frame_scan_loop buf p t)"
  using assms
proof (induction p s arbitrary: t rule: loop_induct)
  case (1 p s)
  note IH = 1(1) and ws = 1(2) and wt = 1(3) and eq = 1(4)
  note l = loop_cases [OF ws, of buf p] loop_cases [OF wt, of buf p]
  have dep: "frame_depth t = frame_depth s" using stack_facts(1) [OF ws] stack_facts(1) [OF wt] eq by simp
  show ?case
  proof (cases "stack_of s")
    case Nil
    then show ?thesis using stack_facts(1) [OF ws] dep by (simp add: l)
  next
    case (Cons n ns)
    note fs = stack_facts(2-4) [OF ws Cons] and ft = stack_facts(2-4) [OF wt Cons [unfolded eq]]
    have pos: "0 < frame_depth s" using stack_facts(1) [OF ws] Cons by simp
    have dm: "frame_depth s \<le> REDIS_FRAME_MAX_DEPTH" using ws by (simp add: frame_wf_def)
    show ?thesis
    proof (cases "n = 0")
      case True
      then show ?thesis
        using pos fs ft dep ws wt IH [of p "popped (length buf - length p) s" "popped (length buf - length p) t"]
        by (simp add: l state_wf)
    next
      case n: False
      show ?thesis
      proof (cases "elem (frame_depth s) p")
        case (E_done q)
        then show ?thesis using pos n fs ft dep ws wt IH [of q "counted s" "counted t"] elem_shorter [of "frame_depth s" p q]
          by (simp add: l state_wf)
      next
        case (E_array v q)
        then show ?thesis using pos n fs ft dep ws wt IH [of q "pushed v s" "pushed v t"] elem_shorter [of "frame_depth s" p q v]
            elem_frame(3) [OF dm E_array] by (simp add: l state_wf)
      qed (use pos n fs ft dep in \<open>simp_all add: l\<close>)
    qed
  qed
qed

lemma elem_leaf:
  assumes "reply_ok d r" and "arrays_above d r" and "\<forall>rs. r = Arr rs \<longrightarrow> rs = []"
  shows "elem d (reply_wire r @ q) = E_done q"
  using assms
  by (cases r) (auto simp: elem_def len_dec_small payload_delim)

lemma loop_leaf:
  assumes "elem (frame_depth s) (w @ q) = E_done q" and "frame_wf s" and "stack_of s = Suc n # ns"
  shows "answer (frame_scan_loop buf (w @ q) s) = answer (frame_scan_loop buf q (counted s))"
  using assms loop_cases [OF assms(2), of buf "w @ q"] stack_facts(1,2) [OF assms(2)] by simp

lemma loop_reply:
  assumes "reply_ok d r" and "arrays_above d r" and "frame_wf s" and "frame_depth s = d" and "stack_of s = Suc n # ns"
  shows "answer (frame_scan_loop buf (reply_wire r @ q) s) = answer (frame_scan_loop buf q (counted s))"
  using assms
proof (induction r arbitrary: d s n ns q)
  case (Arr rs)
  show ?case
  proof (cases "rs = []")
    case True
    then show ?thesis using Arr.prems elem_leaf [OF Arr.prems(1,2), of q] by (intro loop_leaf) auto
  next
    case False
    note wf = Arr.prems(3) and stk = Arr.prems(5)
    have el: "elem d (reply_wire (Arr rs) @ q) = E_array (length rs) (concat (map reply_wire rs) @ q)"
      using Arr.prems(1,2) False by (simp add: elem_def len_dec_small)
    have d: "d < REDIS_FRAME_MAX_DEPTH" using Arr.prems(2) by simp
    have each: "answer (frame_scan_loop buf (reply_wire r @ q') u) = answer (frame_scan_loop buf q' (counted u))"
      if "r \<in> set rs" "frame_wf u" "stack_of u = Suc m # n # ns" for r u q' m
    proof -
      have "frame_depth u = d + 1" using stack_facts(1) [OF that(2)] stack_facts(1) [OF wf] that(3) stk Arr.prems(4) by simp
      then show ?thesis using Arr.IH [OF that(1), of "d + 1" u m "n # ns" q'] Arr.prems(1,2) that by simp
    qed
    have all: "answer (frame_scan_loop buf (concat (map reply_wire xs) @ q) u) = answer (frame_scan_loop buf q (counted s))"
      if "set xs \<subseteq> set rs" "frame_wf u" "stack_of u = length xs # n # ns" for xs u
      using that
    proof (induction xs arbitrary: u)
      case Nil
      have "frame_depth u \<noteq> 0" using stack_facts(1) [OF Nil(2)] Nil(3) by simp
      then have "answer (frame_scan_loop buf q u) = answer (frame_scan_loop buf q (popped (length buf - length q) u))"
        using loop_cases [OF Nil(2), of buf q] stack_facts(2) [OF Nil(2,3)] by simp
      also have "\<dots> = answer (frame_scan_loop buf q (counted s))"
        using stack_facts(3) [OF Nil(2,3)] stack_facts(3) [OF wf stk] wf Nil(2) by (intro loop_stack) (simp_all add: state_wf)
      finally show ?case by simp
    next
      case (Cons x xs)
      have "stack_of u = Suc (length xs) # n # ns" using Cons.prems(3) by simp
      note st = stack_facts(3) [OF Cons.prems(2) this]
      have "answer (frame_scan_loop buf (concat (map reply_wire (x # xs)) @ q) u)
          = answer (frame_scan_loop buf (concat (map reply_wire xs) @ q) (counted u))"
        using each [of x u "length xs" "concat (map reply_wire xs) @ q"] Cons.prems by simp
      also have "\<dots> = answer (frame_scan_loop buf q (counted s))"
        using Cons.prems st by (intro Cons.IH) (auto simp: state_wf)
      finally show ?case .
    qed
    have "frame_depth s \<noteq> 0" using stack_facts(1) [OF wf] stk by simp
    then have "answer (frame_scan_loop buf (reply_wire (Arr rs) @ q) s)
        = answer (frame_scan_loop buf (concat (map reply_wire rs) @ q) (pushed (length rs) s))"
      using loop_cases [OF wf, of buf "reply_wire (Arr rs) @ q"] el Arr.prems(4) stack_facts(2) [OF wf stk] by simp
    also have "\<dots> = answer (frame_scan_loop buf q (counted s))"
      using stack_facts(4) [OF wf stk] d Arr.prems(4) wf by (intro all) (auto simp: state_wf)
    finally show ?thesis .
  qed
next
  case (Line t l)
  then show ?case using elem_leaf [of d "Line t l" q] by (intro loop_leaf) auto
next
  case (Bulk v)
  then show ?case using elem_leaf [of d "Bulk v" q] by (intro loop_leaf) auto
next
  case NilBulk
  then show ?case using elem_leaf [of d NilBulk q] by (intro loop_leaf) auto
next
  case NilArr
  then show ?case using elem_leaf [of d NilArr q] by (intro loop_leaf) auto
qed


subsection \<open>The resumable walk is the plain one\<close>

lemma suffix_drop: "suffix p buf \<Longrightarrow> drop (length buf - length p) buf = p"
  by (auto simp: suffix_def)

lemma line_suffix: "resp_line buf = Some (line, p) \<Longrightarrow> buf \<noteq> [] \<Longrightarrow> suffix p buf"
  by (cases buf) (auto simp: resp_line_Some suffix_def)

lemma scan_fresh_array:
  assumes "buf \<noteq> []" and "hd buf = ASTERISK" and "resp_line buf = Some (line, p)" and "redis_resp_len line = (NGX_OK, v)"
    and "v \<le> int REDIS_MAX_MEMBERS"
  shows "redis_frame_scan buf fresh_frame = frame_scan_loop buf p (started (nat v) (length buf - length p))"
  using assms suffix_drop [OF line_suffix [OF assms(3,1)]] by (simp add: scan_fresh)

lemma finish_one: "finish [v] p = (case redis_frame_n 1 v p of (NGX_OK, q) \<Rightarrow> (NGX_OK, q) | (rc, _) \<Rightarrow> (rc, []))"
  by (simp add: finish.simps(2) split: prod.split ngx_rc.split)

lemma frame_n_rc: "redis_frame_n d n p = (rc, q) \<Longrightarrow> rc \<noteq> NGX_OK \<Longrightarrow> q = []"
proof (induction n arbitrary: p)
  case (Suc n)
  then show ?case by (cases "redis_frame d p"; cases "fst (redis_frame d p)") (auto simp: redis_frame_n.simps [of d "Suc n"])
qed (simp add: redis_frame_n.simps)

lemma scan_agrees:
  "\<exists>rc next s'. redis_frame_scan buf fresh_frame = Some (rc, next, s') \<and> frame_wf s' \<and>
     rc \<in> {NGX_OK, NGX_AGAIN, NGX_DECLINED} \<and> (rc \<noteq> NGX_DECLINED \<longrightarrow> (rc, next) = redis_frame 0 buf)"
proof (cases "buf \<noteq> [] \<and> hd buf = ASTERISK")
  case True
  have z: "0 \<le> REDIS_FRAME_MAX_DEPTH" by simp
  show ?thesis
  proof (cases "resp_line buf")
    case None
    then show ?thesis using True by (simp add: scan_fresh frame_none [OF z None])
  next
    case (Some lp)
    obtain line p where lp: "resp_line buf = Some (line, p)" using Some by (cases lp) auto
    note f = frame_line [OF z lp]
    from resp_len_cases [of line] consider
      "redis_resp_len line = (NGX_DONE, 0)" | "redis_resp_len line = (NGX_ERROR, 0)"
      | "redis_resp_len line = (NGX_OK, int (dec_nat line))" by blast
    then show ?thesis
    proof cases
      case 3
      show ?thesis
      proof (cases "dec_nat line \<le> REDIS_MAX_MEMBERS")
        case small: True
        let ?s = "started (nat (int (dec_nat line))) (length buf - length p)"
        have e: "redis_frame_scan buf fresh_frame = frame_scan_loop buf p ?s"
          using True small by (intro scan_fresh_array [OF _ _ lp 3]) auto
        have r: "redis_frame 0 buf = redis_frame_n 1 (dec_nat line) p" using True 3 small by (simp add: f)
        have "finish [dec_nat line] p = redis_frame_n 1 (dec_nat line) p"
          using frame_n_rc [of 1 "dec_nat line" p]
          by (cases "redis_frame_n 1 (dec_nat line) p"; cases "fst (redis_frame_n 1 (dec_nat line) p)") (auto simp: finish_one)
        then have "finish (stack_of ?s) p = redis_frame 0 buf" using r by simp
        then show ?thesis using loop_agrees [of ?s buf p] unfolding e by auto
      qed (use True 3 lp in \<open>simp add: scan_fresh f\<close>)
    qed (use True lp in \<open>simp_all add: scan_fresh f\<close>)
  qed
qed (auto simp: scan_fresh redis_frame.simps [of 0])

lemma scan_frames:
  assumes "reply_ok 0 (Arr rs)" and "arrays_above 0 (Arr rs)"
  shows "answer (redis_frame_scan (reply_wire (Arr rs) @ q) fresh_frame) = Some (NGX_OK, q)"
proof -
  let ?buf = "reply_wire (Arr rs) @ q" and ?p = "concat (map reply_wire rs) @ q"
  have line: "resp_line ?buf = Some (dec_ui (length rs), ?p)" by simp
  have len: "redis_resp_len (dec_ui (length rs)) = (NGX_OK, int (length rs))" "length rs \<le> REDIS_MAX_MEMBERS"
    using assms(1) by (simp_all add: len_dec_small)
  let ?s = "started (length rs) (length ?buf - length ?p)"
  have e: "redis_frame_scan ?buf fresh_frame = frame_scan_loop ?buf ?p ?s"
    using scan_fresh_array [OF _ _ line len(1)] len(2) by simp
  have "answer (frame_scan_loop ?buf (concat (map reply_wire xs) @ q) u) = Some (NGX_OK, q)"
    if "set xs \<subseteq> set rs" "frame_wf u" "stack_of u = [length xs]" for xs u
    using that
  proof (induction xs arbitrary: u)
    case Nil
    have "frame_depth u = 1" using stack_facts(1) [OF Nil(2)] Nil(3) by simp
    then show ?case
      using loop_cases [OF Nil(2), of ?buf q] loop_cases [OF state_wf(2) [OF Nil(2)], of ?buf q] stack_facts(2) [OF Nil(2,3)]
      by (simp add: popped_def)
  next
    case (Cons x xs)
    have u: "stack_of u = Suc (length xs) # []" using Cons.prems(3) by simp
    have "frame_depth u = 1" using stack_facts(1) [OF Cons.prems(2)] u by simp
    then have "answer (frame_scan_loop ?buf (reply_wire x @ concat (map reply_wire xs) @ q) u)
        = answer (frame_scan_loop ?buf (concat (map reply_wire xs) @ q) (counted u))"
      using assms Cons.prems(1,2) u by (intro loop_reply) auto
    also have "\<dots> = Some (NGX_OK, q)"
      using Cons.prems stack_facts(3) [OF Cons.prems(2) u] by (intro Cons.IH) (auto simp: state_wf)
    finally show ?case by simp
  qed
  from this [of rs ?s] show ?thesis unfolding e by simp
qed

lemma scan_short:
  assumes "reply_ok 0 (Arr rs)" and "arrays_above 0 (Arr rs)" and "strict_prefix buf (reply_wire (Arr rs))"
  shows "\<exists>s'. redis_frame_scan buf fresh_frame = Some (NGX_AGAIN, [], s')"
proof -
  have f: "redis_frame 0 buf = (NGX_AGAIN, [])" by (rule frame_short [OF assms(1,3)])
  obtain rc nx s' where r: "redis_frame_scan buf fresh_frame = Some (rc, nx, s')"
    "rc \<noteq> NGX_DECLINED \<longrightarrow> (rc, nx) = redis_frame 0 buf" using scan_agrees [of buf] by blast
  have "rc \<noteq> NGX_DECLINED"
  proof
    assume rc: "rc = NGX_DECLINED"
    obtain x where x: "reply_wire (Arr rs) = buf @ x" using assms(3) by (auto simp: strict_prefix_def prefix_def)
    have full: "answer (redis_frame_scan (buf @ x) fresh_frame) = Some (NGX_OK, [])"
      using scan_frames [OF assms(1,2), of "[]"] x by simp
    have "buf \<noteq> []" "hd buf = ASTERISK" using r(1) rc x by (cases buf; auto simp: scan_fresh)+
    moreover from this r(1) rc obtain line p where lp: "resp_line buf = Some (line, p)"
      by (cases "resp_line buf") (auto simp: scan_fresh)
    note grown = resp_line_some_more [OF lp, of x]
    ultimately have ok: "redis_resp_len line = (NGX_OK, int (dec_nat line))" "dec_nat line \<le> REDIS_MAX_MEMBERS"
      using resp_len_cases [of line] full r(1) rc by (elim disjE conjE; auto simp: scan_fresh split: if_splits)+
    let ?s = "started (nat (int (dec_nat line))) (length buf - length p)"
    have "frame_scan_loop buf p ?s = Some (NGX_DECLINED, nx, s')"
      using scan_fresh_array [OF _ _ lp ok(1)] \<open>buf \<noteq> []\<close> \<open>hd buf = ASTERISK\<close> ok(2) r(1) rc by simp
    then obtain nx' s2 where "frame_scan_loop (buf @ x) (p @ x) ?s = Some (NGX_DECLINED, nx', s2)"
      using loop_declined_more [of ?s buf p nx s' x] by auto
    moreover have "redis_frame_scan (buf @ x) fresh_frame = frame_scan_loop (buf @ x) (p @ x) ?s"
      using scan_fresh_array [OF _ _ grown ok(1)] \<open>buf \<noteq> []\<close> \<open>hd buf = ASTERISK\<close> ok(2) by simp
    ultimately show False using full by simp
  qed
  with r f show ?thesis by auto
qed

text \<open>An array at level eight, empty or not.\<close>

fun nested :: "nat \<Rightarrow> reply" where
  "nested 0 = Arr []"
| "nested (Suc k) = Arr [nested k]"

lemma one_len [simp]: "redis_resp_len (dec_ui (Suc 0)) = (NGX_OK, 1)"
  using resp_len_dec [of 1] by (simp add: NGX_MAX_INT_T_VALUE_def)

lemma loop_nested:
  assumes "frame_wf s" and "stack_of s = Suc n # ns" and "frame_depth s + k = REDIS_FRAME_MAX_DEPTH"
  shows "answer (frame_scan_loop buf (reply_wire (nested k)) s) = Some (NGX_DECLINED, [])"
  using assms
proof (induction k arbitrary: s n ns)
  case 0
  have "frame_depth s \<noteq> 0" using 0(3) by (simp add: REDIS_FRAME_MAX_DEPTH_def)
  then show ?case
    using loop_cases [OF 0(1), of buf "reply_wire (nested 0)"] stack_facts(2) [OF 0(1,2)] 0(3) by (simp add: elem_def)
next
  case (Suc k)
  have d: "frame_depth s \<noteq> 0" "frame_depth s < REDIS_FRAME_MAX_DEPTH" using stack_facts(1) [OF Suc.prems(1)] Suc.prems(2,3) by auto
  have "elem (frame_depth s) (reply_wire (nested (Suc k))) = E_array 1 (reply_wire (nested k))"
    using d by (simp add: elem_def REDIS_MAX_MEMBERS_def)
  then have "answer (frame_scan_loop buf (reply_wire (nested (Suc k))) s) = answer (frame_scan_loop buf (reply_wire (nested k)) (pushed 1 s))"
    using loop_cases [OF Suc.prems(1), of buf "reply_wire (nested (Suc k))"] stack_facts(2) [OF Suc.prems(1,2)] d
    by (simp del: nested.simps)
  also have "\<dots> = Some (NGX_DECLINED, [])"
    using Suc.prems(3) d state_wf(3) [OF Suc.prems(1) d(2)] stack_facts(4) [OF Suc.prems(1,2) d(2), of 1]
    by (intro Suc.IH [of _ 0 "n # ns"]) simp_all
  finally show ?case .
qed

lemma nested_ok: "d + k \<le> REDIS_FRAME_MAX_DEPTH \<Longrightarrow> reply_ok d (nested k)"
  by (induction k arbitrary: d) (simp_all add: REDIS_MAX_MEMBERS_def)

lemma nested_declined:
  assumes "Suc k = REDIS_FRAME_MAX_DEPTH"
  shows "answer (redis_frame_scan (reply_wire (nested (Suc k))) fresh_frame) = Some (NGX_DECLINED, [])"
proof -
  let ?buf = "reply_wire (nested (Suc k))"
  have line: "resp_line ?buf = Some (dec_ui (Suc 0), reply_wire (nested k))" by simp
  have "redis_frame_scan ?buf fresh_frame
      = frame_scan_loop ?buf (reply_wire (nested k)) (started (nat 1) (length ?buf - length (reply_wire (nested k))))"
    by (rule scan_fresh_array [OF _ _ line]) (simp_all add: REDIS_MAX_MEMBERS_def)
  also have "answer \<dots> = Some (NGX_DECLINED, [])"
    using assms by (intro loop_nested [of _ 0 "[]"]) simp_all
  finally show ?thesis .
qed

text \<open>
  C25: The resumable framing agrees with \<open>redis_frame\<close>: on any buffer it never leaves its array, and what it
  accepts or waits for is exactly what \<open>redis_frame\<close> accepts or waits for, with the same end of the
  reply. It accepts every reply within the limits whose arrays lie above nesting level eight. The two
  differ below it: an empty array at that level is accepted by \<open>redis_frame\<close> and refused here.
\<close>

theorem frame_scan_agrees:
  "(\<exists>rc next s'. redis_frame_scan buf fresh_frame = Some (rc, next, s') \<and> frame_wf s' \<and>
      (rc = NGX_DECLINED \<or> (rc = NGX_OK \<or> rc = NGX_AGAIN) \<and> (rc, next) = redis_frame 0 buf)) \<and>
   (reply_ok 0 (Arr rs) \<and> arrays_above 0 (Arr rs) \<longrightarrow>
      answer (redis_frame_scan (reply_wire (Arr rs) @ q) fresh_frame) = Some (NGX_OK, q)) \<and>
   (\<exists>deep. redis_frame 0 deep = (NGX_OK, []) \<and> answer (redis_frame_scan deep fresh_frame) = Some (NGX_DECLINED, []))"
proof -
  let ?deep = "reply_wire (nested (Suc 7))"
  have "reply_ok 0 (nested (Suc 7))" by (rule nested_ok) (simp add: REDIS_FRAME_MAX_DEPTH_def)
  then have "redis_frame 0 ?deep = (NGX_OK, [])" using frame_wire [of 0 _ "[]"] unfolding append_Nil2 by blast
  moreover have "answer (redis_frame_scan ?deep fresh_frame) = Some (NGX_DECLINED, [])"
    by (rule nested_declined) (simp add: REDIS_FRAME_MAX_DEPTH_def)
  moreover obtain rc nx s' where "redis_frame_scan buf fresh_frame = Some (rc, nx, s') \<and> frame_wf s' \<and>
     rc \<in> {NGX_OK, NGX_AGAIN, NGX_DECLINED} \<and> (rc \<noteq> NGX_DECLINED \<longrightarrow> (rc, nx) = redis_frame 0 buf)"
    using scan_agrees [of buf] by blast
  ultimately show ?thesis using scan_frames [of rs q] by blast
qed

theorem frame_scan_agrees_witness:
  "answer (redis_frame_scan (reply_wire (Arr [Bulk [1, 2], Arr [NilBulk]]) @ [7]) fresh_frame) = Some (NGX_OK, [7])"
  using frame_scan_agrees [of "[]" "[Bulk [1, 2], Arr [NilBulk]]" "[7]"] by (simp add: redis_limits REDIS_FRAME_MAX_DEPTH_def)

lemma scan_resumes:
  assumes "redis_frame_scan buf fresh_frame = Some (NGX_AGAIN, next, s')"
  shows "scan_view (redis_frame_scan (buf @ x) s') = scan_view (redis_frame_scan (buf @ x) fresh_frame)"
proof (cases "buf \<noteq> [] \<and> resp_line buf \<noteq> None \<and> hd buf = ASTERISK")
  case False
  then have "s' = fresh_frame"
    using assms by (cases "resp_line buf") (auto simp: scan_fresh split: if_splits)
  then show ?thesis by simp
next
  case True
  then obtain line p where lp: "resp_line buf = Some (line, p)" by auto
  from resp_len_cases [of line] True assms lp have ok: "redis_resp_len line = (NGX_OK, int (dec_nat line))"
    "dec_nat line \<le> REDIS_MAX_MEMBERS"
    by (elim disjE conjE; auto simp: scan_fresh split: if_splits)+
  let ?s = "started (dec_nat line) (length buf - length p)"
  have e: "redis_frame_scan buf fresh_frame = frame_scan_loop buf p ?s"
    using scan_fresh_array [OF _ _ lp ok(1)] True ok(2) by simp
  have grown: "resp_line (buf @ x) = Some (line, p @ x)" using lp by (rule resp_line_some_more)
  have e': "redis_frame_scan (buf @ x) fresh_frame = frame_scan_loop (buf @ x) (p @ x) ?s"
    using scan_fresh_array [OF _ _ grown ok(1)] True ok(2) by simp
  obtain rc nx s2 where "frame_scan_loop buf p ?s = Some (rc, nx, s2)" "rc = NGX_AGAIN \<longrightarrow> 0 < frame_depth s2"
    using loop_agrees [of ?s buf p] by auto
  then have "0 < frame_depth s'" using assms unfolding e by simp
  then have "redis_frame_scan (buf @ x) s' = frame_scan_loop (buf @ x) (drop (frame_off s') (buf @ x)) s'"
    by (simp add: redis_frame_scan_def)
  then show ?thesis
    using loop_resumes [of ?s p buf _ s' x] assms True line_suffix [OF lp] unfolding e e' by simp
qed

text \<open>
  Resuming is starting over. However the buffer grew while the walk waited, the resumed walk gives the
  answer (and, unless it refuses, the very state) a fresh walk over the whole buffer gives.
\<close>

theorem frame_scan_resumes:
  "redis_frame_scan buf fresh_frame = Some (NGX_AGAIN, next, s') \<Longrightarrow>
    scan_view (redis_frame_scan (buf @ x) s') = scan_view (redis_frame_scan (buf @ x) fresh_frame)"
  by (rule scan_resumes)

theorem frame_scan_resumes_witness:
  "\<exists>next s'. redis_frame_scan (ASTERISK # dec_ui 2 @ crlf @ [PLUS, 7]) fresh_frame = Some (NGX_AGAIN, next, s') \<and>
     answer (redis_frame_scan (reply_wire (Arr [Line PLUS [7], NilBulk])) s') = Some (NGX_OK, [])"
proof -
  let ?buf = "ASTERISK # dec_ui 2 @ crlf @ [PLUS, 7]" and ?all = "reply_wire (Arr [Line PLUS [7], NilBulk])"
  have two: "redis_resp_len (dec_ui 2) = (NGX_OK, 2)" by (simp add: redis_limits)
  have line: "resp_line ?buf = Some (dec_ui 2, [PLUS, 7])" by simp
  have "redis_frame_scan ?buf fresh_frame = frame_scan_loop ?buf [PLUS, 7] (started (nat 2) (length ?buf - length [PLUS, 7 :: u8]))"
    by (rule scan_fresh_array [OF _ _ line two]) (simp_all add: REDIS_MAX_MEMBERS_def)
  moreover have "resp_line [PLUS, 7] = None" by (simp add: resp_line_def)
  ultimately obtain s' where r: "redis_frame_scan ?buf fresh_frame = Some (NGX_AGAIN, [], s')"
    by (simp add: loop_cases elem_def started_def fresh_frame_def REDIS_FRAME_MAX_DEPTH_def frame_wf_def)
  have "?buf @ crlf @ reply_wire NilBulk = ?all" by (simp add: numeral_2_eq_2)
  then have "scan_view (redis_frame_scan ?all s') = scan_view (redis_frame_scan ?all fresh_frame)"
    using frame_scan_resumes [OF r, of "crlf @ reply_wire NilBulk"] by (simp only:)
  moreover have "answer (redis_frame_scan ?all fresh_frame) = Some (NGX_OK, [])"
    using scan_frames [of "[Line PLUS [7], NilBulk]" "[]"] by (simp add: redis_limits REDIS_FRAME_MAX_DEPTH_def)
  ultimately have "answer (redis_frame_scan ?all s') = Some (NGX_OK, [])"
    by (auto simp: answer_def scan_view_def)
  with r show ?thesis by blast
qed

end
