(* ===== verification/Redis_Read.thy ===== *)
theory Redis_Read
  imports Redis_Scan Blob
begin

text \<open>
  The readers of the Redis client (\<^verbatim>\<open>redis.c\<close>): the buffer fill, the GET, drain and lock readers, and the
  walk over SCAN pages; and the pipelined commands they read the answers of. The socket is the list of
  pieces in which the kernel hands over the stream: a \<open>recv\<close> returns a piece, or as much of it as there is
  room for. Each reader is one function over that list, with its allocations and event registrations as
  arguments, so that what it does cannot depend on the pieces unless a theorem says so.
\<close>

subsection \<open>The socket\<close>

datatype sock_end = Sock_open | Sock_closed
datatype recv_res = R_data bytes | R_again | R_fail

fun sock_recv :: "nat \<Rightarrow> sock_end \<Rightarrow> bytes list \<Rightarrow> recv_res \<times> bytes list" where
  "sock_recv room e [] = ((case e of Sock_open \<Rightarrow> R_again | Sock_closed \<Rightarrow> R_fail), [])"
| "sock_recv room e (c # cs) =
    (if c = [] \<or> room = 0 then (R_fail, cs)
     else if length c \<le> room then (R_data c, cs)
     else (R_data (take room c), drop room c # cs))"

definition unread :: "bytes list \<Rightarrow> nat" where
  "unread sock = sum_list (map length sock)"

lemma recv_less: "sock_recv room e sock = (R_data d, sock') \<Longrightarrow> unread sock' < unread sock"
  by (cases sock) (auto simp: unread_def split: if_splits sock_end.splits)

lemma recv_data: "sock_recv room e sock = (R_data d, sock') \<Longrightarrow>
    d \<noteq> [] \<and> length d \<le> room \<and> concat sock = d @ concat sock' \<and> ([] \<notin> set sock \<longrightarrow> [] \<notin> set sock')"
  by (cases sock) (auto split: if_splits sock_end.splits)

lemma recv_some: "sock \<noteq> [] \<Longrightarrow> [] \<notin> set sock \<Longrightarrow> 0 < room \<Longrightarrow> \<exists>d sock'. sock_recv room e sock = (R_data d, sock')"
  by (cases sock) auto

lemma pieces_left: "c \<noteq> [] \<Longrightarrow> r @ c = w \<Longrightarrow> strict_prefix r w"
  by (auto simp: strict_prefix_def prefix_def)

subsection \<open>Filling the reply buffer\<close>

definition redis_fill :: "nat \<Rightarrow> (nat \<Rightarrow> bool) \<Rightarrow> bool \<Rightarrow> sock_end \<Rightarrow> bytes \<Rightarrow> nat \<Rightarrow> bytes list
    \<Rightarrow> ngx_rc \<times> bytes \<times> nat \<times> bytes list" where
  "redis_fill reply_max alloc rearm e rbuf rcap sock =
    (let full = (length rbuf = rcap);
         ncap = (if rcap * 2 > reply_max then reply_max else rcap * 2)
     in if full \<and> rcap \<ge> reply_max then (NGX_ERROR, rbuf, rcap, sock)
     else if full \<and> \<not> alloc ncap then (NGX_ERROR, rbuf, rcap, sock)
     else let rcap = (if full then ncap else rcap)
     in case sock_recv (rcap - length rbuf) e sock of
          (R_again, sock) \<Rightarrow> (if rearm then NGX_AGAIN else NGX_ERROR, rbuf, rcap, sock)
        | (R_fail, sock) \<Rightarrow> (NGX_ERROR, rbuf, rcap, sock)
        | (R_data d, sock) \<Rightarrow> (NGX_OK, rbuf @ d, rcap, sock))"

definition redis_get_reply_max :: "nat \<Rightarrow> nat" where
  "redis_get_reply_max msize = (if msize = 0 then REDIS_MAX_REPLY else msize + REDIS_GET_FRAMING_MAX)"

lemma fill_less: "redis_fill m alloc rearm e rbuf rcap sock = (NGX_OK, rbuf', rcap', sock') \<Longrightarrow> unread sock' < unread sock"
  by (auto simp: redis_fill_def Let_def split: if_splits prod.splits recv_res.splits dest: recv_less)

text \<open>With room left in the budget and memory for it, a pending piece is taken.\<close>

lemma fill_data:
  assumes "sock \<noteq> []" and "[] \<notin> set sock" and "length rbuf \<le> rcap" and "length rbuf < m" and "0 < rcap" and "\<forall>n. alloc n"
  shows "\<exists>d rcap' sock'. redis_fill m alloc rearm e rbuf rcap sock = (NGX_OK, rbuf @ d, rcap', sock') \<and> d \<noteq> [] \<and>
    concat sock = d @ concat sock' \<and> [] \<notin> set sock' \<and> length (rbuf @ d) \<le> rcap' \<and> 0 < rcap'"
proof -
  define ncap where "ncap = (if rcap * 2 > m then m else rcap * 2)"
  define cap where "cap = (if length rbuf = rcap then ncap else rcap)"
  have cap: "length rbuf < cap" "0 < cap" using assms(3-5) by (auto simp: cap_def ncap_def)
  obtain d sock' where r: "sock_recv (cap - length rbuf) e sock = (R_data d, sock')"
    using recv_some [OF assms(1,2), of "cap - length rbuf" e] cap by auto
  have "\<not> (length rbuf = rcap \<and> rcap \<ge> m)" using assms(4) by auto
  then have "redis_fill m alloc rearm e rbuf rcap sock = (NGX_OK, rbuf @ d, cap, sock')"
    using assms(6) r by (auto simp: redis_fill_def Let_def cap_def ncap_def)
  moreover have "d \<noteq> []" "concat sock = d @ concat sock'" "[] \<notin> set sock'" "length (rbuf @ d) \<le> cap"
    using recv_data [OF r] assms(2) cap(1) by auto
  ultimately show ?thesis using cap(2) by blast
qed

subsection \<open>A reader over any pieces\<close>

text \<open>What the GET readers of both backends share: fill the buffer, look at it, end or read on. \<open>need\<close> is the
  verdict on a buffer, None while the reply is not complete.\<close>

datatype get_out = Get_parked bytes nat | Get_end ngx_rc bytes bool

locale get_reader =
  fixes need :: "bytes \<Rightarrow> get_out option" and budget :: nat
    and rd :: "(nat \<Rightarrow> bool) \<Rightarrow> bool \<Rightarrow> sock_end \<Rightarrow> bytes \<Rightarrow> nat \<Rightarrow> bytes list \<Rightarrow> get_out"
  assumes reads: "redis_fill budget alloc rearm e rbuf rcap sock = (NGX_OK, rbuf', rcap', sock') \<Longrightarrow>
      rd alloc rearm e rbuf rcap sock = (case need rbuf' of None \<Rightarrow> rd alloc rearm e rbuf' rcap' sock' | Some v \<Rightarrow> v)"
begin

lemma any_pieces:
  assumes "[] \<notin> set sock" and "\<forall>p. strict_prefix p w \<longrightarrow> need p = None" and "need w = Some v"
    and "rbuf @ concat sock = w" and "strict_prefix rbuf w" and "length w \<le> budget"
    and "length rbuf \<le> rcap" and "0 < rcap" and "\<forall>n. alloc n"
  shows "rd alloc rearm e rbuf rcap sock = v"
  using assms
proof (induction "unread sock" arbitrary: rbuf rcap sock rule: less_induct)
  case less
  have ne: "sock \<noteq> []" using less.prems(4,5) by auto
  have lt: "length rbuf < budget" using prefix_length_less [OF less.prems(5)] less.prems(6) by simp
  obtain d rcap' sock' where f: "redis_fill budget alloc rearm e rbuf rcap sock = (NGX_OK, rbuf @ d, rcap', sock')" "d \<noteq> []"
    "concat sock = d @ concat sock'" "[] \<notin> set sock'" "length (rbuf @ d) \<le> rcap'" "0 < rcap'"
    using fill_data [OF ne less.prems(1,7) lt less.prems(8,9), of rearm e] by blast
  have w: "(rbuf @ d) @ concat sock' = w" using f(3) less.prems(4) by simp
  show ?case
  proof (cases "concat sock' = []")
    case True
    have "rbuf @ d = w" using w unfolding True by simp
    then show ?thesis using reads [OF f(1)] less.prems(3) by simp
  next
    case False
    have sp: "strict_prefix (rbuf @ d) w" by (rule pieces_left [OF False w])
    then have "need (rbuf @ d) = None" using less.prems(2) by blast
    then show ?thesis
      using reads [OF f(1)] less.hyps [OF fill_less [OF f(1)] f(4) less.prems(2,3) w sp less.prems(6) f(5,6) less.prems(9)] by simp
  qed
qed

end

subsection \<open>The GET reader\<close>

function redis_read_get :: "nat option \<Rightarrow> nat \<Rightarrow> (nat \<Rightarrow> bool) \<Rightarrow> bool \<Rightarrow> sock_end \<Rightarrow> bytes \<Rightarrow> nat \<Rightarrow> bytes list \<Rightarrow> get_out" where
  "redis_read_get cap reply_max alloc rearm e rbuf rcap sock =
    (case redis_fill reply_max alloc rearm e rbuf rcap sock of
       (NGX_AGAIN, rbuf, rcap, _) \<Rightarrow> Get_parked rbuf rcap
     | (NGX_OK, rbuf, rcap, sock) \<Rightarrow>
         (case redis_parse cap rbuf of
            (NGX_AGAIN, _) \<Rightarrow> redis_read_get cap reply_max alloc rearm e rbuf rcap sock
          | (NGX_ERROR, _) \<Rightarrow> Get_end NGX_ERROR [] False
          | (NGX_OK, blob) \<Rightarrow> Get_end NGX_OK blob True
          | (_, _) \<Rightarrow> Get_end NGX_DECLINED [] True)
     | _ \<Rightarrow> Get_end NGX_ERROR [] False)"
  by pat_completeness auto
termination
  by (relation "measure (\<lambda>(_, _, _, _, _, _, _, sock). unread sock)") (auto dest: fill_less sym)

declare redis_read_get.simps [simp del]

text \<open>What the resumed request finds: a value is copied and loses its vetted mark; a copy that fails is not
  a miss.\<close>

definition redis_get_finish :: "bool \<Rightarrow> ngx_rc \<Rightarrow> bytes \<Rightarrow> (ngx_rc \<times> bytes option) option" where
  "redis_get_finish copy_ok result blob =
    (if result = NGX_OK \<and> length blob > 0
     then (if \<not> copy_ok then Some (NGX_ERROR, None)
           else map_option (\<lambda>b. (result, Some b)) (blob_clear_vetted blob))
     else Some (result, None))"

definition redis_need :: "nat option \<Rightarrow> bytes \<Rightarrow> get_out option" where
  "redis_need cap buf = (case redis_parse cap buf of
     (NGX_AGAIN, _) \<Rightarrow> None
   | (NGX_OK, blob) \<Rightarrow> Some (Get_end NGX_OK blob True)
   | (NGX_ERROR, _) \<Rightarrow> Some (Get_end NGX_ERROR [] False)
   | _ \<Rightarrow> Some (Get_end NGX_DECLINED [] True))"

interpretation redis_get: get_reader "redis_need cap" m "redis_read_get cap m" for cap m
proof
  fix alloc rearm e rbuf rcap sock rbuf' rcap' sock'
  assume "redis_fill m alloc rearm e rbuf rcap sock = (NGX_OK, rbuf', rcap', sock')"
  then show "redis_read_get cap m alloc rearm e rbuf rcap sock =
      (case redis_need cap rbuf' of None \<Rightarrow> redis_read_get cap m alloc rearm e rbuf' rcap' sock' | Some v \<Rightarrow> v)"
    by (cases "redis_parse cap rbuf'"; cases "fst (redis_parse cap rbuf')")
      (simp_all add: redis_read_get.simps [of cap m alloc rearm e rbuf] redis_need_def)
qed

text \<open>
  C22: How the network splits a reply does not matter. For every value within the configured maximum, and
  for the nil reply, whatever pieces the stream arrives in and however small the buffer starts, the
  reader ends with that answer, the connection at a clean boundary, and the buffer budget always
  suffices.
\<close>

theorem redis_get_any_split:
  assumes "[] \<notin> set sock" and "concat sock = reply_wire (case v of None \<Rightarrow> NilBulk | Some b \<Rightarrow> Bulk b)"
    and "\<forall>b. v = Some b \<longrightarrow> length b \<le> value_cap (Some msize)" and "msize \<le> REDIS_MAX_VALUE" and "0 < rcap" and "\<forall>n. alloc n"
  shows "redis_read_get (Some msize) (redis_get_reply_max msize) alloc rearm e [] rcap sock =
    (case v of None \<Rightarrow> Get_end NGX_DECLINED [] True | Some b \<Rightarrow> Get_end NGX_OK b True)"
proof -
  let ?w = "reply_wire (case v of None \<Rightarrow> NilBulk | Some b \<Rightarrow> Bulk b)"
  have pos: "strict_prefix [] ?w" by (cases v) simp_all
  show ?thesis
  proof (cases v)
    case None
    have len: "length ?w \<le> redis_get_reply_max msize"
      using None by (simp add: redis_get_reply_max_def redis_limits)
    have "fst (redis_parse (Some msize) ?w) = NGX_DECLINED" using parse_declined [of "Some msize" ?w] None by simp
    then have d: "redis_need (Some msize) ?w = Some (Get_end NGX_DECLINED [] True)"
      by (cases "redis_parse (Some msize) ?w") (simp add: redis_need_def)
    have ag: "\<forall>p. strict_prefix p ?w \<longrightarrow> redis_need (Some msize) p = None"
      using parse_nil_short None by (simp add: redis_need_def)
    show ?thesis
      using redis_get.any_pieces [OF assms(1) ag d _ pos len _ assms(5,6)] assms(2) None by simp
  next
    case (Some b)
    have b: "length b \<le> value_cap (Some msize)" using assms(3) Some by simp
    then have small: "length b \<le> REDIS_MAX_VALUE" using assms(4) by (simp add: value_cap_def split: if_splits)
    have "length (dec_ui (length b)) \<le> 20" using small by (intro length_dec_ui) (auto simp: redis_limits)
    then have len: "length ?w \<le> redis_get_reply_max msize"
      using Some b by (auto simp: redis_get_reply_max_def redis_limits value_cap_def split: if_splits)
    have i: "int (length b) \<le> int (value_cap (Some msize))" "int (length b) \<le> NGX_MAX_INT_T_VALUE"
      using b small by (simp_all add: redis_limits)
    have ok: "redis_need (Some msize) ?w = Some (Get_end NGX_OK b True)" using parse_full [OF i] Some by (simp add: redis_need_def)
    have ag: "\<forall>p. strict_prefix p ?w \<longrightarrow> redis_need (Some msize) p = None"
      using parse_short [OF i] Some by (simp add: redis_need_def)
    show ?thesis
      using redis_get.any_pieces [OF assms(1) ag ok _ pos len _ assms(5,6)] assms(2) Some by simp
  qed
qed

theorem redis_get_any_split_witness:
  "redis_read_get (Some 100) (redis_get_reply_max 100) (\<lambda>_. True) True Sock_open [] 1
     [DOLLAR # dec_ui 2, [CR], [LF, 7], [8, CR], [LF]] = Get_end NGX_OK [7, 8] True"
  using redis_get_any_split [of "[DOLLAR # dec_ui 2, [CR], [LF, 7], [8, CR], [LF]]" "Some [7, 8]" 100 1 "\<lambda>_. True" True Sock_open]
  by (simp add: value_cap_def redis_limits numeral_2_eq_2)

subsection \<open>The drain reader\<close>

definition REDIS_RECV :: nat where "REDIS_RECV = 256"

text \<open>Framing what has arrived: how many replies were still due when it stopped, the rest of the bytes,
  and whether an error reply was among them.\<close>

fun drain_frames :: "nat \<Rightarrow> bytes \<Rightarrow> bool \<Rightarrow> ngx_rc \<times> bytes \<times> bool" where
  "drain_frames 0 p failed = (NGX_OK, p, failed)"
| "drain_frames (Suc n) p failed =
    (case redis_frame 0 p of
       (NGX_AGAIN, _) \<Rightarrow> (NGX_AGAIN, p, failed)
     | (NGX_OK, q) \<Rightarrow> drain_frames n q (failed \<or> hd p = MINUS)
     | _ \<Rightarrow> (NGX_DECLINED, p, failed))"

datatype drain_out = Drain_parked bytes bool | Drain_end bool bool

text \<open>The flags of the end: the connection may be kept, and some command failed.\<close>

function redis_read_drain :: "nat \<Rightarrow> bool \<Rightarrow> sock_end \<Rightarrow> bytes list \<Rightarrow> bytes \<Rightarrow> bool \<Rightarrow> drain_out" where
  "redis_read_drain expected rearm e sock recv failed =
    (if length recv \<ge> REDIS_RECV then Drain_end False failed
     else case sock_recv (REDIS_RECV - length recv) e sock of
       (R_again, _) \<Rightarrow> if rearm then Drain_parked recv failed else Drain_end False failed
     | (R_fail, _) \<Rightarrow> Drain_end False failed
     | (R_data d, sock) \<Rightarrow>
         (case drain_frames (if expected = 0 then 1 else expected) (recv @ d) failed of
            (NGX_AGAIN, _, failed) \<Rightarrow> redis_read_drain expected rearm e sock (recv @ d) failed
          | (NGX_OK, p, failed) \<Rightarrow> if p \<noteq> [] then Drain_end False failed else Drain_end True failed
          | (_, _, failed) \<Rightarrow> Drain_end False failed))"
  by pat_completeness auto
termination
  by (relation "measure (\<lambda>(_, _, _, sock, _, _). unread sock)") (auto dest: recv_less sym)

declare redis_read_drain.simps [simp del]

subsection \<open>The lock reader\<close>

datatype lock_out = Lock_parked bytes | Lock_end ngx_rc bool

function redis_read_lock :: "bool \<Rightarrow> sock_end \<Rightarrow> bytes list \<Rightarrow> bytes \<Rightarrow> lock_out" where
  "redis_read_lock rearm e sock recv =
    (if length recv \<ge> REDIS_RECV then Lock_end NGX_ERROR False
     else case sock_recv (REDIS_RECV - length recv) e sock of
       (R_again, _) \<Rightarrow> if rearm then Lock_parked recv else Lock_end NGX_ERROR False
     | (R_fail, _) \<Rightarrow> Lock_end NGX_ERROR False
     | (R_data d, sock) \<Rightarrow>
         (case redis_frame 0 (recv @ d) of
            (NGX_AGAIN, _) \<Rightarrow> redis_read_lock rearm e sock (recv @ d)
          | (NGX_OK, []) \<Rightarrow>
              Lock_end (if hd (recv @ d) = PLUS then NGX_OK else if hd (recv @ d) = DOLLAR then NGX_DECLINED else NGX_ERROR) True
          | _ \<Rightarrow> Lock_end NGX_ERROR False))"
  by pat_completeness auto
termination
  by (relation "measure (\<lambda>(_, _, sock, _). unread sock)") (auto dest: recv_less sym)

declare redis_read_lock.simps [simp del]


subsection \<open>A connection is kept only at a boundary\<close>

definition framed :: "bytes list \<Rightarrow> bool" where
  "framed rs \<longleftrightarrow> (\<forall>r\<in>set rs. redis_frame 0 r = (NGX_OK, []))"

definition some_error :: "bytes list \<Rightarrow> bool" where
  "some_error rs \<longleftrightarrow> (\<exists>r\<in>set rs. hd r = MINUS)"

lemma frame_ok_more: "redis_frame d p = (NGX_OK, q) \<Longrightarrow> redis_frame d (p @ x) = (NGX_OK, q @ x)"
  using frame_more_both(1) [of d p] by blast

lemma framed_first: "framed (r # rs) \<Longrightarrow> redis_frame 0 (r @ p) = (NGX_OK, p) \<and> r \<noteq> []"
  using frame_ok_more [of 0 r "[]" p] by (auto simp: framed_def redis_frame.simps [of 0 "[]"])

lemma frame_split:
  assumes "redis_frame d p = (NGX_OK, q)"
  shows "\<exists>r. p = r @ q \<and> redis_frame d r = (NGX_OK, [])"
proof -
  have suf: "redis_frame d p = (NGX_OK, q) \<longrightarrow> (\<exists>r. p = r @ q \<and> redis_frame d r = (NGX_OK, []))"
    "redis_frame_n d' n p' = (NGX_OK, q') \<longrightarrow> (\<exists>r. p' = r @ q' \<and> redis_frame_n d' n r = (NGX_OK, []))" for d' n p' q'
  proof (induction d p and d' n p' arbitrary: q and q' rule: redis_frame_redis_frame_n.induct)
    case (1 d p)
    show ?case
    proof
      assume run: "redis_frame d p = (NGX_OK, q)"
      then have d: "d \<le> REDIS_FRAME_MAX_DEPTH" "p \<noteq> []" by (auto simp: redis_frame.simps [of d] split: if_splits)
      then obtain line r where line: "resp_line p = Some (line, r)"
        using run frame_none [OF d(1)] by (cases "resp_line p") (auto split: if_splits)
      then have p: "p = hd p # line @ CR # LF # r" "CR \<notin> set line" using d(2) by (cases p; simp add: resp_line_Some)+
      note f = frame_line [OF d(1) line]
      have wire: "resp_line (hd p # line @ CR # LF # c) = Some (line, c)" for c using p(2) by simp
      note fc = frame_line [OF d(1) wire]
      have goal: "\<exists>c. r = c @ q \<and> redis_frame d (hd p # line @ CR # LF # c) = (NGX_OK, [])"
      proof (cases "hd p = DOLLAR \<or> hd p = ASTERISK")
        case False
        then show ?thesis using run by (auto simp: f fc split: if_splits)
      next
        case two: True
        from resp_len_cases [of line] consider
          "redis_resp_len line = (NGX_DONE, 0)" | "redis_resp_len line = (NGX_ERROR, 0)"
          | "redis_resp_len line = (NGX_OK, int (dec_nat line))" by blast
        then show ?thesis
        proof cases
          case 3
          let ?n = "dec_nat line"
          show ?thesis
          proof (cases "hd p = DOLLAR")
            case True
            then have pay: "frame_payload (int ?n) r = (NGX_OK, q)" using run 3 by (simp add: f)
            then have n: "?n \<le> REDIS_MAX_REPLY" "?n + 2 \<le> length r" "r ! ?n = CR" "r ! (?n + 1) = LF" "q = drop (?n + 2) r"
              by (auto simp: frame_payload_def nat_add_distrib split: if_splits)
            then have "frame_payload (int ?n) (take (?n + 2) r) = (NGX_OK, [])"
              by (auto simp: frame_payload_def nat_add_distrib)
            then have "redis_frame d (hd p # line @ CR # LF # take (?n + 2) r) = (NGX_OK, [])" using True 3 unfolding fc by simp
            then show ?thesis using n(5) by (intro exI [of _ "take (?n + 2) r"]) simp
          next
            case False
            then have arr: "redis_frame_n (d + 1) ?n r = (NGX_OK, q)" "?n \<le> REDIS_MAX_MEMBERS" "hd p = ASTERISK"
              using run 3 two by (auto simp: f split: if_splits)
            then obtain c where "r = c @ q" "redis_frame_n (d + 1) ?n c = (NGX_OK, [])"
              using 1(1) [of "(line, r)" line r NGX_OK "int ?n"] d line 3 by auto
            moreover from this arr 3 have "redis_frame d (hd p # line @ CR # LF # c) = (NGX_OK, [])" unfolding fc by simp
            ultimately show ?thesis by blast
          qed
        qed (use run two in \<open>auto simp: f fc split: if_splits\<close>)
      qed
      then obtain c where c: "r = c @ q" "redis_frame d (hd p # line @ CR # LF # c) = (NGX_OK, [])" by blast
      have "p = (hd p # line @ CR # LF # c) @ q" using p(1) c(1) by simp
      with c(2) show "\<exists>r. p = r @ q \<and> redis_frame d r = (NGX_OK, [])" by blast
    qed
  next
    case (2 d n p)
    show ?case
    proof (cases "n = 0")
      case False
      show ?thesis
      proof
        assume run: "redis_frame_n d n p = (NGX_OK, q')"
        then obtain q where q: "redis_frame d p = (NGX_OK, q)" "redis_frame_n d (n - 1) q = (NGX_OK, q')"
          using False by (cases "redis_frame d p"; cases "fst (redis_frame d p)") (auto simp: redis_frame_n.simps [of d n])
        obtain r c where rc: "p = r @ q" "redis_frame d r = (NGX_OK, [])" "q = c @ q'" "redis_frame_n d (n - 1) c = (NGX_OK, [])"
          using 2(1) [OF False, of q] 2(2) [OF False q(1) [symmetric] refl, of q'] q by blast
        have "redis_frame d (r @ c) = (NGX_OK, c)" using frame_ok_more [OF rc(2), of c] by simp
        then have "redis_frame_n d n (r @ c) = (NGX_OK, [])" using False rc(4) by (simp add: redis_frame_n.simps [of d n])
        moreover have "p = (r @ c) @ q'" using rc(1,3) by simp
        ultimately show "\<exists>r. p = r @ q' \<and> redis_frame_n d n r = (NGX_OK, [])" by blast
      qed
    qed (simp add: redis_frame_n.simps)
  qed
  then show ?thesis using assms by blast
qed

lemma drain_frames_list:
  "\<exists>rs. p = concat rs @ fst (snd (drain_frames n p failed)) \<and> framed rs \<and> length rs \<le> n \<and>
     (fst (drain_frames n p failed) = NGX_OK \<longrightarrow> length rs = n) \<and>
     snd (snd (drain_frames n p failed)) = (failed \<or> some_error rs)"
proof (induction n arbitrary: p failed)
  case (Suc n)
  obtain rc q where rc: "redis_frame 0 p = (rc, q)" by force
  show ?case
  proof (cases "rc = NGX_OK")
    case True
    then obtain r where r: "p = r @ q" "redis_frame 0 r = (NGX_OK, [])" using frame_split rc by blast
    have "r \<noteq> []" using r(2) by (auto simp: redis_frame.simps [of 0 "[]"])
    then have "hd p = hd r" using r(1) by simp
    obtain rs where rs: "q = concat rs @ fst (snd (drain_frames n q (failed \<or> hd p = MINUS)))" "framed rs" "length rs \<le> n"
      "fst (drain_frames n q (failed \<or> hd p = MINUS)) = NGX_OK \<longrightarrow> length rs = n"
      "snd (snd (drain_frames n q (failed \<or> hd p = MINUS))) = ((failed \<or> hd p = MINUS) \<or> some_error rs)"
      using Suc.IH by blast
    have "p = concat (r # rs) @ fst (snd (drain_frames (Suc n) p failed))" using r(1) rs(1) rc True by simp
    then show ?thesis using rs r(2) rc True \<open>hd p = hd r\<close>
      by (intro exI [of _ "r # rs"]) (auto simp: framed_def some_error_def)
  next
    case False
    then show ?thesis using rc by (intro exI [of _ "[]"]) (cases rc; simp add: framed_def some_error_def)
  qed
qed (auto simp: framed_def some_error_def)


lemma framed_prefix:
  assumes "framed rs'" and "p = concat rs' @ q'" and "length rs' \<le> length rs" and "framed rs" and "p = concat rs @ q"
  shows "\<exists>rs2. rs = rs' @ rs2"
  using assms
proof (induction rs' arbitrary: p rs)
  case (Cons r rs')
  then obtain s rs2 where rs: "rs = s # rs2" by (cases rs) auto
  have "redis_frame 0 p = (NGX_OK, concat rs' @ q')" "redis_frame 0 p = (NGX_OK, concat rs2 @ q)"
    using framed_first [OF Cons.prems(1), of "concat rs' @ q'"] framed_first [of s rs2 "concat rs2 @ q"] Cons.prems(2,4,5) rs
    by simp_all
  then have eq: "concat rs' @ q' = concat rs2 @ q" by simp
  then have "r = s" using Cons.prems(2,5) rs by simp
  moreover have "\<exists>rs3. rs2 = rs' @ rs3"
    using Cons.IH [of "concat rs' @ q'" rs2] Cons.prems rs eq by (simp add: framed_def)
  ultimately show ?case using rs by simp
qed simp

text \<open>The bytes a reader has consumed, and that a failure it has seen is in them.\<close>

definition seen_failure :: "nat \<Rightarrow> bytes \<Rightarrow> bool" where
  "seen_failure n recv \<longleftrightarrow> (\<exists>rs q. recv = concat rs @ q \<and> framed rs \<and> length rs \<le> n \<and> some_error rs)"

lemma drain_end:
  assumes "redis_read_drain expected rearm e sock recv failed = Drain_end True failed'"
    and "failed \<longrightarrow> seen_failure n recv" and "n = (if expected = 0 then 1 else expected)"
  shows "\<exists>rs rest. recv @ concat sock = concat rs @ rest \<and> length rs = n \<and> framed rs \<and> failed' = some_error rs \<and>
    (\<exists>sock'. rest = concat sock')"
  using assms
proof (induction expected rearm e sock recv failed rule: redis_read_drain.induct)
  case (1 expected rearm e sock recv failed)
  note run = "1.prems"(1) [unfolded redis_read_drain.simps [of expected rearm e sock]]
  obtain d sock' where d: "\<not> REDIS_RECV \<le> length recv" "sock_recv (REDIS_RECV - length recv) e sock = (R_data d, sock')"
    using run by (auto split: if_splits prod.splits recv_res.splits)
  have whole: "recv @ concat sock = (recv @ d) @ concat sock'" using recv_data [OF d(2)] by simp
  obtain rc p f where fr: "drain_frames n (recv @ d) failed = (rc, p, f)" by (cases "drain_frames n (recv @ d) failed")
  obtain rs where rs: "recv @ d = concat rs @ p" "framed rs" "length rs \<le> n" "rc = NGX_OK \<longrightarrow> length rs = n"
    "f = (failed \<or> some_error rs)" using drain_frames_list [of "recv @ d" n failed] unfolding fr by auto
  have sticky: "seen_failure n (recv @ d)" if "failed"
    using "1.prems"(2) that by (auto simp: seen_failure_def) (metis append.assoc)
  have seen: "f \<longrightarrow> seen_failure n (recv @ d)"
    using rs sticky by (auto simp: seen_failure_def)
  show ?case
  proof (cases "rc = NGX_AGAIN")
    case True
    then have "redis_read_drain expected rearm e sock' (recv @ d) f = Drain_end True failed'"
      using run d fr "1.prems"(3) by (simp split: if_splits)
    then show ?thesis
      using "1.IH" [OF d(1) d(2) [symmetric] refl fr [symmetric, unfolded "1.prems"(3)] True refl] seen "1.prems"(3) whole
      by simp
  next
    case False
    then have fin: "rc = NGX_OK" "p = []" "f = failed'" using run d fr "1.prems"(3) by (cases rc; simp split: if_splits)+
    have "failed \<longrightarrow> some_error rs"
    proof
      assume failed
      then obtain rs' q where q: "recv @ d = concat rs' @ q" "framed rs'" "length rs' \<le> n" "some_error rs'"
        using sticky by (auto simp: seen_failure_def)
      obtain rs2 where "rs = rs' @ rs2" using framed_prefix [OF q(2,1) _ rs(2,1)] q(3) rs(4) fin(1) by auto
      with q(4) show "some_error rs" by (auto simp: some_error_def)
    qed
    then have "failed' = some_error rs" using rs(5) fin by auto
    moreover have "recv @ concat sock = concat rs @ concat sock'" using whole rs(1) fin(2) by simp
    ultimately show ?thesis using rs(2,4) fin(1) by blast
  qed
qed

lemma wire_framed: "reply_ok 0 r \<Longrightarrow> redis_frame 0 (reply_wire r) = (NGX_OK, [])"
  using frame_wire [of 0 r "[]"] by simp

lemma drain_frames_wires:
  assumes "\<forall>r\<in>set rs. reply_ok 0 r"
  shows "drain_frames (length rs) (concat (map reply_wire rs)) failed = (NGX_OK, [], failed \<or> some_error (map reply_wire rs))"
  using assms
proof (induction rs arbitrary: failed)
  case (Cons r rs)
  have "reply_wire r \<noteq> []" by (cases r) simp_all
  then show ?case using Cons frame_wire [of 0 r "concat (map reply_wire rs)"] by (auto simp: some_error_def)
qed (simp add: some_error_def)

lemma drain_frames_short:
  assumes "\<forall>r\<in>set rs. reply_ok 0 r" and "strict_prefix p (concat (map reply_wire rs))"
  shows "\<exists>q f. drain_frames (length rs) p failed = (NGX_AGAIN, q, f) \<and> (f \<longrightarrow> failed \<or> some_error (map reply_wire rs))"
  using assms
proof (induction rs arbitrary: p failed)
  case (Cons r rs)
  from Cons.prems(2) have "strict_prefix p (reply_wire r @ concat (map reply_wire rs))" by simp
  then consider "strict_prefix p (reply_wire r)" | p' where "p = reply_wire r @ p'" "strict_prefix p' (concat (map reply_wire rs))"
    using strict_prefix_append by blast
  then show ?case
  proof cases
    case 1
    then show ?thesis using frame_short [of 0 r p] Cons.prems(1) by simp
  next
    case 2
    have "reply_wire r \<noteq> []" by (cases r) simp_all
    then show ?thesis
      using 2 frame_wire [of 0 r p'] Cons.prems(1) Cons.IH [of p' "failed \<or> hd p = MINUS"]
      by (auto simp: some_error_def)
  qed
qed simp


lemma drain_any_split:
  assumes "\<forall>r\<in>set rs. reply_ok 0 r" and "[] \<notin> set sock" and "recv @ concat sock = concat (map reply_wire rs)"
    and "strict_prefix recv (concat (map reply_wire rs))" and "length (concat (map reply_wire rs)) \<le> REDIS_RECV"
    and "failed \<longrightarrow> some_error (map reply_wire rs)" and "length rs = expected" and "0 < expected"
  shows "redis_read_drain expected rearm e sock recv failed = Drain_end True (some_error (map reply_wire rs))"
  using assms
proof (induction expected rearm e sock recv failed rule: redis_read_drain.induct)
  case (1 expected rearm e sock recv failed)
  let ?w = "concat (map reply_wire rs)"
  have ne: "sock \<noteq> []" using "1.prems"(3,4) by auto
  have lt: "length recv < REDIS_RECV" using prefix_length_less [OF "1.prems"(4)] "1.prems"(5) by simp
  obtain d sock' where d: "sock_recv (REDIS_RECV - length recv) e sock = (R_data d, sock')"
    using recv_some [OF ne "1.prems"(2), of "REDIS_RECV - length recv" e] lt by auto
  note rd = recv_data [OF d]
  have w: "(recv @ d) @ concat sock' = ?w" using rd "1.prems"(3) by simp
  note step = redis_read_drain.simps [of expected rearm e sock recv failed]
  show ?case
  proof (cases "concat sock' = []")
    case True
    have "recv @ d = ?w" using w unfolding True by simp
    then show ?thesis
      using lt d drain_frames_wires [OF "1.prems"(1), of failed] "1.prems"(6-8) unfolding step by auto
  next
    case False
    have sp: "strict_prefix (recv @ d) ?w" by (rule pieces_left [OF False w])
    then obtain q f where fr: "drain_frames (length rs) (recv @ d) failed = (NGX_AGAIN, q, f)" "f \<longrightarrow> some_error (map reply_wire rs)"
      using drain_frames_short [OF "1.prems"(1) sp, of failed] "1.prems"(6) by auto
    have fr': "(NGX_AGAIN, q, f) = drain_frames (if expected = 0 then 1 else expected) (recv @ d) failed"
      using fr(1) "1.prems"(7,8) by simp
    have lt': "\<not> REDIS_RECV \<le> length recv" using lt by simp
    have "redis_read_drain expected rearm e sock' (recv @ d) f = Drain_end True (some_error (map reply_wire rs))"
      by (rule "1.IH" [OF lt' d [symmetric] refl fr' refl refl "1.prems"(1) _ w sp "1.prems"(5) fr(2) "1.prems"(7,8)])
        (use rd "1.prems"(2) in simp)
    then show ?thesis using lt d fr(1) "1.prems"(7,8) unfolding step by simp
  qed
qed

text \<open>
  A connection goes back to the pool only at a reply boundary. If the drain ends clean, then what was
  read from the socket is exactly the expected number of complete replies, none more and nothing
  after them, and it reports a failure exactly when one of them is an error. Conversely any expected
  replies that fit the scratch buffer end clean, however the stream is cut.
\<close>

theorem redis_drain_boundary:
  "(redis_read_drain expected rearm e sock [] False = Drain_end True failed \<longrightarrow>
     (\<exists>rs rest. concat sock = concat rs @ concat rest \<and> length rs = max expected 1 \<and>
       (\<forall>r\<in>set rs. redis_frame 0 r = (NGX_OK, [])) \<and> failed = (\<exists>r\<in>set rs. hd r = MINUS))) \<and>
   ((\<forall>r\<in>set rs. reply_ok 0 r) \<and> rs \<noteq> [] \<and> length (concat (map reply_wire rs)) \<le> REDIS_RECV \<and>
      [] \<notin> set pieces \<and> concat pieces = concat (map reply_wire rs) \<longrightarrow>
     redis_read_drain (length rs) rearm e pieces [] False = Drain_end True (\<exists>r\<in>set rs. hd (reply_wire r) = MINUS))"
proof (intro conjI impI)
  assume "redis_read_drain expected rearm e sock [] False = Drain_end True failed"
  from drain_end [OF this, of "if expected = 0 then 1 else expected"]
  obtain rs rest where r: "concat sock = concat rs @ rest" "length rs = (if expected = 0 then 1 else expected)" "framed rs"
    "failed = some_error rs" "\<exists>sock'. rest = concat sock'" by auto
  from r(5) obtain sock' where "rest = concat sock'" by blast
  with r show "\<exists>rs rest. concat sock = concat rs @ concat rest \<and> length rs = max expected 1 \<and>
       (\<forall>r\<in>set rs. redis_frame 0 r = (NGX_OK, [])) \<and> failed = (\<exists>r\<in>set rs. hd r = MINUS)"
    by (intro exI [of _ rs] exI [of _ sock']) (auto simp: framed_def some_error_def)
next
  assume a: "(\<forall>r\<in>set rs. reply_ok 0 r) \<and> rs \<noteq> [] \<and> length (concat (map reply_wire rs)) \<le> REDIS_RECV \<and>
      [] \<notin> set pieces \<and> concat pieces = concat (map reply_wire rs)"
  have "reply_wire r \<noteq> []" for r by (cases r) simp_all
  then have "strict_prefix [] (concat (map reply_wire rs))" using a by (cases rs) (auto simp: strict_prefix_def)
  then show "redis_read_drain (length rs) rearm e pieces [] False = Drain_end True (\<exists>r\<in>set rs. hd (reply_wire r) = MINUS)"
    using a drain_any_split [of rs pieces "[]" False "length rs" rearm e] by (auto simp: some_error_def)
qed

theorem redis_drain_boundary_witness:
  "redis_read_drain 2 True Sock_open [reply_wire (Line COLON [0x31]) @ [MINUS], [7, CR], [LF]] [] False = Drain_end True True"
  using redis_drain_boundary [where rs = "[Line COLON [0x31], Line MINUS [7]]" and rearm = True and e = Sock_open
      and pieces = "[reply_wire (Line COLON [0x31]) @ [MINUS], [7, CR], [LF]]"]
  by (simp add: REDIS_RECV_def REDIS_FRAME_MAX_DEPTH_def numeral_2_eq_2 [symmetric])

subsection \<open>The lock's three answers\<close>

lemma lock_any_split:
  assumes "reply_ok 0 r" and "[] \<notin> set sock" and "recv @ concat sock = reply_wire r" and "strict_prefix recv (reply_wire r)"
    and "length (reply_wire r) \<le> REDIS_RECV"
  shows "redis_read_lock rearm e sock recv = Lock_end (if hd (reply_wire r) = PLUS then NGX_OK
      else if hd (reply_wire r) = DOLLAR then NGX_DECLINED else NGX_ERROR) True"
  using assms
proof (induction rearm e sock recv rule: redis_read_lock.induct)
  case (1 rearm e sock recv)
  have ne: "sock \<noteq> []" using "1.prems"(3,4) by auto
  have lt: "\<not> REDIS_RECV \<le> length recv" using prefix_length_less [OF "1.prems"(4)] "1.prems"(5) by simp
  obtain d sock' where d: "sock_recv (REDIS_RECV - length recv) e sock = (R_data d, sock')"
    using recv_some [OF ne "1.prems"(2), of "REDIS_RECV - length recv" e] lt by auto
  note rd = recv_data [OF d]
  have w: "(recv @ d) @ concat sock' = reply_wire r" using rd "1.prems"(3) by simp
  note step = redis_read_lock.simps [of rearm e sock recv]
  show ?case
  proof (cases "concat sock' = []")
    case True
    have "recv @ d = reply_wire r" using w unfolding True by simp
    then show ?thesis using lt d wire_framed [OF "1.prems"(1)] unfolding step by simp
  next
    case False
    have sp: "strict_prefix (recv @ d) (reply_wire r)" by (rule pieces_left [OF False w])
    note fr = frame_short [OF "1.prems"(1) sp]
    show ?thesis
      using "1.IH" [OF lt d [symmetric] refl fr [symmetric] refl "1.prems"(1) _ w sp "1.prems"(5)] rd "1.prems"(2) lt d fr
      unfolding step by simp
  qed
qed

lemma lock_result:
  assumes "redis_read_lock rearm e sock recv = Lock_end rc clean" and "rc \<noteq> NGX_ERROR"
  shows "clean \<and> (\<exists>r rest. recv @ concat sock = r @ concat rest \<and> redis_frame 0 r = (NGX_OK, []) \<and>
    rc = (if hd r = PLUS then NGX_OK else NGX_DECLINED) \<and> (hd r = PLUS \<or> hd r = DOLLAR))"
  using assms
proof (induction rearm e sock recv rule: redis_read_lock.induct)
  case (1 rearm e sock recv)
  note run = "1.prems"(1) [unfolded redis_read_lock.simps [of rearm e sock]]
  obtain d sock' where d: "\<not> REDIS_RECV \<le> length recv" "sock_recv (REDIS_RECV - length recv) e sock = (R_data d, sock')"
    using run "1.prems"(2) by (auto split: if_splits prod.splits recv_res.splits)
  have whole: "recv @ concat sock = (recv @ d) @ concat sock'" using recv_data [OF d(2)] by simp
  obtain frc q where fr: "redis_frame 0 (recv @ d) = (frc, q)" by force
  show ?case
  proof (cases "frc = NGX_AGAIN")
    case True
    then show ?thesis using run d fr "1.IH" [OF d(1) d(2) [symmetric] refl fr [symmetric] True] "1.prems"(2) whole by simp
  next
    case False
    then have "frc = NGX_OK" "q = []" using run d fr "1.prems"(2) by (cases frc; cases q; simp)+
    then show ?thesis using run d fr "1.prems"(2) whole
      by (intro conjI exI [of _ "recv @ d"] exI [of _ sock']) (auto split: if_splits)
  qed
qed


text \<open>
  The cross-node lock tells a winner, a loser and a broken channel apart. A winner or a loser is only
  declared for one complete reply that fills what was read: a simple string for the winner, a bulk
  string for the loser. Conversely every complete reply that fits the scratch buffer is judged by its
  type byte alone, however it arrives: also a bulk string with a value counts as a peer's lock.
\<close>

theorem redis_lock_answers:
  "(redis_read_lock rearm e sock [] = Lock_end rc clean \<and> rc \<noteq> NGX_ERROR \<longrightarrow>
     clean \<and> (\<exists>r rest. concat sock = r @ concat rest \<and> redis_frame 0 r = (NGX_OK, []) \<and>
       rc = (if hd r = PLUS then NGX_OK else NGX_DECLINED) \<and> (hd r = PLUS \<or> hd r = DOLLAR))) \<and>
   (reply_ok 0 r \<and> length (reply_wire r) \<le> REDIS_RECV \<and> [] \<notin> set pieces \<and> concat pieces = reply_wire r \<longrightarrow>
     redis_read_lock rearm e pieces [] = Lock_end (case r of
         Line t l \<Rightarrow> if t = PLUS then NGX_OK else NGX_ERROR
       | Bulk v \<Rightarrow> NGX_DECLINED
       | NilBulk \<Rightarrow> NGX_DECLINED
       | _ \<Rightarrow> NGX_ERROR) True)"
proof (intro conjI impI)
  assume "redis_read_lock rearm e sock [] = Lock_end rc clean \<and> rc \<noteq> NGX_ERROR"
  then show "clean" "\<exists>r rest. concat sock = r @ concat rest \<and> redis_frame 0 r = (NGX_OK, []) \<and>
       rc = (if hd r = PLUS then NGX_OK else NGX_DECLINED) \<and> (hd r = PLUS \<or> hd r = DOLLAR)"
    using lock_result [of rearm e sock "[]" rc clean] by auto
next
  assume a: "reply_ok 0 r \<and> length (reply_wire r) \<le> REDIS_RECV \<and> [] \<notin> set pieces \<and> concat pieces = reply_wire r"
  have "strict_prefix [] (reply_wire r)" by (cases r) simp_all
  then have "redis_read_lock rearm e pieces [] = Lock_end (if hd (reply_wire r) = PLUS then NGX_OK
      else if hd (reply_wire r) = DOLLAR then NGX_DECLINED else NGX_ERROR) True"
    using a lock_any_split [of r pieces "[]" rearm e] by simp
  then show "redis_read_lock rearm e pieces [] = Lock_end (case r of
         Line t l \<Rightarrow> if t = PLUS then NGX_OK else NGX_ERROR
       | Bulk v \<Rightarrow> NGX_DECLINED
       | NilBulk \<Rightarrow> NGX_DECLINED
       | _ \<Rightarrow> NGX_ERROR) True"
    using a by (cases r) auto
qed

theorem redis_lock_answers_witness:
  "redis_read_lock True Sock_open [[DOLLAR, MINUS], [DIGIT1, CR], [LF]] [] = Lock_end NGX_DECLINED True"
  using redis_lock_answers [where r = NilBulk and rearm = True and e = Sock_open and pieces = "[[DOLLAR, MINUS], [DIGIT1, CR], [LF]]"]
  by (simp add: REDIS_RECV_def)

end
