(* ===== verification/Redis_Walk.thy ===== *)
theory Redis_Walk
  imports Redis_Read Restore Vary
begin

text \<open>
  Commands that cover many keys, and the walk over the pages of a SCAN that purges the whole prefix
  (\<^verbatim>\<open>redis.c\<close>: \<open>redis_cmd_many\<close>, \<open>redis_del_many\<close>, \<open>redis_tag_add_impl\<close>, \<open>redis_scan_cmd\<close>,
  \<open>redis_read_scan\<close>). What the walk asks of the world (memory, a launched connection, the clock) is an
  argument per page.
\<close>

subsection \<open>Chunked commands\<close>

definition REDIS_DEL_CHUNK :: nat where "REDIS_DEL_CHUNK = 256"

text \<open>The inner loop: the keys of one command, and those left.\<close>

fun take_keys :: "bool \<Rightarrow> nat \<Rightarrow> bytes list \<Rightarrow> bytes list \<times> bytes list" where
  "take_keys keep 0 ks = ([], ks)"
| "take_keys keep (Suc m) [] = ([], [])"
| "take_keys keep (Suc m) (k # ks) =
    (if keep \<or> k \<noteq> [] then apfst (Cons k) (take_keys keep m ks) else take_keys keep (Suc m) ks)"

lemma take_keys_le: "length (snd (take_keys keep m ks)) \<le> length ks"
  by (induction keep m ks rule: take_keys.induct) auto

lemma take_keys_less: "0 < m \<Longrightarrow> ks \<noteq> [] \<Longrightarrow> length (snd (take_keys keep m ks)) < length ks"
proof (induction keep m ks rule: take_keys.induct)
  case (3 keep m k ks)
  then show ?case using take_keys_le [of keep m ks] take_keys_le [of keep "Suc m" ks] by auto
qed auto

lemma chunk_less: "take_keys keep REDIS_DEL_CHUNK ks = (c, rest) \<Longrightarrow> ks \<noteq> [] \<Longrightarrow> length rest < length ks"
  using take_keys_less [of REDIS_DEL_CHUNK ks keep] by (simp add: REDIS_DEL_CHUNK_def)

function cmd_chunks :: "bool \<Rightarrow> bytes list \<Rightarrow> bytes list list" where
  "cmd_chunks keep ks =
    (if ks = [] then []
     else let (c, rest) = take_keys keep REDIS_DEL_CHUNK ks
     in if c = [] then cmd_chunks keep rest else c # cmd_chunks keep rest)"
  by pat_completeness auto
termination
  by (relation "measure (\<lambda>(keep, ks). length ks)")
    (auto dest: chunk_less [OF sym])

declare cmd_chunks.simps [simp del]


text \<open>
  The command buffer is measured in a first pass and written in a second one. The result: NGX_OK when
  nothing was sent, NGX_DONE with what was sent and the number of replies to expect.
\<close>

datatype cmd_out = Cmd_ok | Cmd_error | Cmd_sent bytes nat

record cmd_env =
  ce_enable :: bool
  ce_alloc :: bool
  ce_send :: bool
  ce_launch :: bool

definition cmd_total :: "bytes list \<Rightarrow> bytes list list \<Rightarrow> nat" where
  "cmd_total lead chunks = sum_list (map (\<lambda>c. redis_encode_len (lead @ c)) chunks)"

definition redis_cmd_many :: "cmd_env \<Rightarrow> bytes list \<Rightarrow> bytes list \<Rightarrow> bool \<Rightarrow> cmd_out" where
  "redis_cmd_many env lead keys keep_empty =
    (if \<not> ce_enable env \<or> keys = [] \<or> lead = [] then Cmd_ok
     else if \<not> ce_alloc env then Cmd_error
     else let chunks = cmd_chunks keep_empty keys; emitted = length chunks
     in if emitted = 0 then Cmd_ok
     else let send = concat (map (\<lambda>c. redis_encode (lead @ c)) chunks)
     in if \<not> ce_send env \<or> \<not> ce_launch env then Cmd_error else Cmd_sent send emitted)"

definition redis_del_many :: "cmd_env \<Rightarrow> bytes list \<Rightarrow> cmd_out" where
  "redis_del_many env keys = redis_cmd_many env [ascii ''UNLINK''] keys False"

definition redis_srem_many :: "cmd_env \<Rightarrow> bytes \<Rightarrow> bytes list \<Rightarrow> cmd_out" where
  "redis_srem_many env setkey members =
    (if setkey = [] then Cmd_error else redis_cmd_many env [ascii ''SREM'', setkey] members True)"

subsection \<open>Keys and the tag index\<close>

definition redis_key :: "bytes \<Rightarrow> bytes \<Rightarrow> bytes" where
  "redis_key pfx key_hash = pfx @ hex_dump key_hash"

definition redis_lockkey :: "bytes \<Rightarrow> bytes \<Rightarrow> bytes" where
  "redis_lockkey pfx key_hash = pfx @ ascii ''lock:'' @ hex_dump key_hash"

definition redis_tagkey :: "bytes \<Rightarrow> bytes \<Rightarrow> bytes" where
  "redis_tagkey pfx name = pfx @ ascii ''tag:'' @ name"

text \<open>The three commands of one tag: the member, a TTL for a set without one, and a TTL that only grows.\<close>

definition tag_cmds :: "bytes \<Rightarrow> bytes \<Rightarrow> bytes \<Rightarrow> bytes list list" where
  "tag_cmds tagkey member ttl =
    [[ascii ''SADD'', tagkey, member],
     [ascii ''EXPIRE'', tagkey, ttl, ascii ''NX''],
     [ascii ''EXPIRE'', tagkey, ttl, ascii ''GT'']]"

definition redis_tag_add_impl :: "cmd_env \<Rightarrow> bytes \<Rightarrow> bytes \<Rightarrow> bytes list \<Rightarrow> time_t \<Rightarrow> cmd_out" where
  "redis_tag_add_impl env pfx key_hash names ttl =
    (if \<not> ce_enable env \<or> ttl \<le> 0 \<or> names = [] then Cmd_ok
     else let names = take MAX_TAGS names
     in if \<not> ce_alloc env then Cmd_error
     else let tagkeys = map (redis_tagkey pfx) (filter (\<lambda>n. n \<noteq> []) names); nqueued = length tagkeys
     in if nqueued = 0 then Cmd_ok
     else let send = concat (map (\<lambda>k. concat (map redis_encode (tag_cmds k (redis_key pfx key_hash) (dec_ui (nat ttl))))) tagkeys)
     in if \<not> ce_send env \<or> \<not> ce_launch env then Cmd_error else Cmd_sent send (nqueued * 3))"

subsection \<open>The SCAN command\<close>

definition glob_meta :: "u8 \<Rightarrow> bool" where
  "glob_meta c \<longleftrightarrow> c = ASTERISK \<or> c = 0x3F \<or> c = 0x5B \<or> c = 0x5D \<or> c = 0x5C"

fun glob_escape :: "bytes \<Rightarrow> bytes" where
  "glob_escape [] = []"
| "glob_escape (c # cs) = (if glob_meta c then 0x5C # c # glob_escape cs else c # glob_escape cs)"

definition redis_scan_cmd :: "bytes \<Rightarrow> bytes \<Rightarrow> bytes" where
  "redis_scan_cmd pfx cursor =
    redis_encode [ascii ''SCAN'', cursor, ascii ''MATCH'', glob_escape pfx @ [ASTERISK], ascii ''COUNT'', ascii ''256'']"

text \<open>The start of the purge: refused without a prefix; the operation, its first page and the request's
  cleanup have to be had, and the connection launched.\<close>

definition redis_scan_del :: "bool \<Rightarrow> bytes \<Rightarrow> bool \<Rightarrow> bool \<Rightarrow> bytes option" where
  "redis_scan_del enable pfx have_mem can_launch =
    (if \<not> enable \<or> pfx = [] \<or> \<not> have_mem \<or> \<not> can_launch then None else Some (redis_scan_cmd pfx [0x30]))"

subsection \<open>The walk over the pages\<close>

text \<open>One page: fill and frame until the whole array is there and nothing behind it.\<close>

datatype page_out = Page_parked | Page_fail | Page_full bytes

function redis_read_page :: "nat \<Rightarrow> (nat \<Rightarrow> bool) \<Rightarrow> bool \<Rightarrow> sock_end \<Rightarrow> bytes \<Rightarrow> nat \<Rightarrow> frame_st \<Rightarrow> bytes list
    \<Rightarrow> page_out option" where
  "redis_read_page reply_max alloc rearm e rbuf rcap s sock =
    (case redis_fill reply_max alloc rearm e rbuf rcap sock of
       (NGX_AGAIN, _) \<Rightarrow> Some Page_parked
     | (NGX_OK, rbuf, rcap, sock) \<Rightarrow>
         (case redis_frame_scan rbuf s of
            None \<Rightarrow> None
          | Some (rc, next, s) \<Rightarrow>
              if rc = NGX_AGAIN then redis_read_page reply_max alloc rearm e rbuf rcap s sock
              else if rc \<noteq> NGX_OK \<or> next \<noteq> [] then Some Page_fail
              else Some (Page_full rbuf))
     | _ \<Rightarrow> Some Page_fail)"
  by pat_completeness auto
termination
  by (relation "measure (\<lambda>(_, _, _, _, _, _, _, sock). unread sock)") (auto dest: fill_less [OF sym])

declare redis_read_page.simps [simp del]

text \<open>The world of one page, and what the walk has done so far.\<close>

record page_env =
  pe_sock :: "bytes list"
  pe_end :: sock_end
  pe_timedout :: bool
  pe_rearm :: bool
  pe_alloc :: "nat \<Rightarrow> bool"
  pe_keys_alloc :: bool
  pe_del :: cmd_env
  pe_late :: bool
  pe_pool :: bool

datatype scan_status = Scan_ok | Scan_error | Scan_abort

record walk_st =
  wo_parked :: bool
  wo_status :: scan_status
  wo_pages :: nat
  wo_deadline :: bool
  wo_deleted :: "bytes option list list"
  wo_cursors :: "bytes list"

definition REDIS_MAX_ITER_REPLY :: nat where "REDIS_MAX_ITER_REPLY = 128 * 1024"
definition REDIS_SCAN_MAX_PAGES :: nat where "REDIS_SCAN_MAX_PAGES = 1024 * 1024"

definition scan_start :: walk_st where
  "scan_start = \<lparr>wo_parked = False, wo_status = Scan_error, wo_pages = 0, wo_deadline = False,
    wo_deleted = [], wo_cursors = [[0x30]]\<rparr>"

text \<open>A nil key is the empty string to the delete.\<close>

definition key_bytes :: "bytes option \<Rightarrow> bytes" where
  "key_bytes k = (case k of None \<Rightarrow> [] | Some v \<Rightarrow> v)"

fun redis_read_scan :: "nat \<Rightarrow> nat \<Rightarrow> walk_st \<Rightarrow> page_env list \<Rightarrow> walk_st option" where
  "redis_read_scan pagesize max_pages w [] = Some (w\<lparr>wo_parked := True\<rparr>)"
| "redis_read_scan pagesize max_pages w (pe # pes) =
    (let rcap = min (pagesize * 4) REDIS_MAX_ITER_REPLY
     in case (if pe_timedout pe then Some Page_fail
         else redis_read_page REDIS_MAX_ITER_REPLY (pe_alloc pe) (pe_rearm pe) (pe_end pe) [] rcap fresh_frame (pe_sock pe)) of
       None \<Rightarrow> None
     | Some Page_parked \<Rightarrow> Some (w\<lparr>wo_parked := True\<rparr>)
     | Some Page_fail \<Rightarrow> Some w
     | Some (Page_full rbuf) \<Rightarrow>
         (case redis_parse_scan (pe_keys_alloc pe) rbuf of
            (NGX_OK, cursor, keys) \<Rightarrow>
              let del = redis_del_many (pe_del pe) (map key_bytes keys);
                  w = w\<lparr>wo_pages := wo_pages w + 1\<rparr>
              in if del = Cmd_error then Some w
              else let w = w\<lparr>wo_deleted := wo_deleted w @ [keys]\<rparr>
              in if cursor = [0x30] then Some (w\<lparr>wo_status := Scan_ok\<rparr>)
              else if wo_pages w \<ge> max_pages then Some (w\<lparr>wo_status := Scan_abort\<rparr>)
              else if pe_late pe then Some (w\<lparr>wo_status := Scan_abort, wo_deadline := True\<rparr>)
              else if \<not> pe_pool pe then Some w
              else redis_read_scan pagesize max_pages (w\<lparr>wo_cursors := wo_cursors w @ [cursor]\<rparr>) pes
          | _ \<Rightarrow> Some w))"


subsection \<open>Every key is in exactly one command\<close>

lemma take_keys_all:
  "take_keys keep m ks = (c, rest) \<Longrightarrow>
    (if keep then ks else filter (\<lambda>k. k \<noteq> []) ks) = c @ (if keep then rest else filter (\<lambda>k. k \<noteq> []) rest) \<and> length c \<le> m"
proof (induction keep m ks arbitrary: c rest rule: take_keys.induct)
  case (3 keep m k ks)
  show ?case
  proof (cases "keep \<or> k \<noteq> []")
    case True
    obtain c' r' where t: "take_keys keep m ks = (c', r')" by force
    then show ?thesis using 3(1) [OF True t] 3(3) True by auto
  next
    case False
    then show ?thesis using 3(2) [OF False] 3(3) by simp
  qed
qed auto

lemma chunks_all:
  "concat (cmd_chunks keep ks) = (if keep then ks else filter (\<lambda>k. k \<noteq> []) ks) \<and>
   (\<forall>c\<in>set (cmd_chunks keep ks). c \<noteq> [] \<and> length c \<le> REDIS_DEL_CHUNK)"
proof (induction keep ks rule: cmd_chunks.induct)
  case (1 keep ks)
  show ?case
  proof (cases "ks = []")
    case False
    obtain c rest where t: "take_keys keep REDIS_DEL_CHUNK ks = (c, rest)" by force
    note all = take_keys_all [OF t]
    show ?thesis
    proof (cases "c = []")
      case True
      then show ?thesis using 1(1) [OF False t [symmetric] refl True] all False
        by (simp add: cmd_chunks.simps [of keep ks] t)
    next
      case c: False
      then show ?thesis using 1(2) [OF False t [symmetric] refl c] all False
        by (simp add: cmd_chunks.simps [of keep ks] t)
    qed
  qed (simp add: cmd_chunks.simps)
qed

lemma many_shape:
  assumes "redis_cmd_many env lead keys keep = Cmd_sent send n"
  shows "send = concat (map (\<lambda>c. redis_encode (lead @ c)) (cmd_chunks keep keys))" and "n = length (cmd_chunks keep keys)"
    and "0 < n"
  using assms by (auto simp: redis_cmd_many_def Let_def split: if_splits)

lemma encode_fits:
  assumes "length argv < 2 ^ 64" and "\<forall>a\<in>set argv. length a < 2 ^ 64"
  shows "length (redis_encode argv) \<le> redis_encode_len argv"
proof -
  have "length (dec_ui (length argv)) \<le> 20" using assms(1) by (intro length_dec_ui) auto
  then show ?thesis using length_encode_args [OF assms(2)]
    by (simp add: redis_encode_def redis_encode_len_def NGX_INT_T_LEN_def)
qed

lemma many_frames:
  assumes "\<forall>c\<in>set cs. length (lead @ c) \<le> REDIS_MAX_MEMBERS \<and> (\<forall>a\<in>set (lead @ c). length a \<le> REDIS_MAX_REPLY)"
  shows "drain_frames (length cs) (concat (map (\<lambda>c. redis_encode (lead @ c)) cs)) False = (NGX_OK, [], False)"
proof -
  have ok: "\<forall>r\<in>set (map (\<lambda>c. Arr (map Bulk (lead @ c))) cs). reply_ok 0 r"
    using assms by (auto simp: REDIS_FRAME_MAX_DEPTH_def)
  have w: "map reply_wire (map (\<lambda>c. Arr (map Bulk (lead @ c))) cs) = map (\<lambda>c. redis_encode (lead @ c)) cs"
    by (simp add: encode_is_reply)
  have "\<not> some_error (map (\<lambda>c. redis_encode (lead @ c)) cs)"
    by (auto simp: some_error_def redis_encode_def)
  then show ?thesis using drain_frames_wires [OF ok, of False] unfolding w by simp
qed

text \<open>
  A command over many keys covers them all, once, in order. What is sent is one command per chunk of
  at most 256 keys behind the fixed words, as many complete RESP commands as replies are expected;
  the chunks together are the given keys (without the empty ones where those are dropped); and the
  first pass measured enough room. When nothing is sent without an error, there was nothing to send.
\<close>

theorem redis_many_covers:
  assumes "\<forall>k\<in>set (lead @ keys). length k \<le> REDIS_MAX_REPLY" and "length lead \<le> 2" and "lead \<noteq> []" and "ce_enable env"
  shows "case redis_cmd_many env lead keys keep of
      Cmd_sent send n \<Rightarrow> (\<exists>chunks. send = concat (map (\<lambda>c. redis_encode (lead @ c)) chunks) \<and> n = length chunks \<and>
        concat chunks = (if keep then keys else filter (\<lambda>k. k \<noteq> []) keys) \<and> (\<forall>c\<in>set chunks. 0 < length c \<and> length c \<le> 256) \<and>
        drain_frames n send False = (NGX_OK, [], False) \<and> length send \<le> cmd_total lead chunks)
    | Cmd_ok \<Rightarrow> (if keep then keys else filter (\<lambda>k. k \<noteq> []) keys) = []
    | Cmd_error \<Rightarrow> \<not> (ce_alloc env \<and> ce_send env \<and> ce_launch env)"
proof (cases "redis_cmd_many env lead keys keep")
  case Cmd_ok
  then have "keys = [] \<or> cmd_chunks keep keys = []" using assms(3,4) by (auto simp: redis_cmd_many_def Let_def split: if_splits)
  then show ?thesis using Cmd_ok chunks_all [of keep keys] by auto
next
  case Cmd_error
  then show ?thesis by (auto simp: redis_cmd_many_def Let_def split: if_splits)
next
  case (Cmd_sent send n)
  let ?cs = "cmd_chunks keep keys"
  note sh = many_shape [OF Cmd_sent]
  note all = chunks_all [of keep keys]
  have mem: "\<forall>c\<in>set ?cs. set c \<subseteq> set keys" using all by (metis filter_is_subset set_concat UN_upper order.trans subset_refl)
  have lim: "\<forall>c\<in>set ?cs. length (lead @ c) \<le> REDIS_MAX_MEMBERS \<and> (\<forall>a\<in>set (lead @ c). length a \<le> REDIS_MAX_REPLY)"
    using all mem assms(1,2) by (fastforce simp: REDIS_DEL_CHUNK_def REDIS_MAX_MEMBERS_def)
  have "length (redis_encode (lead @ c)) \<le> redis_encode_len (lead @ c)" if "c \<in> set ?cs" for c
  proof (rule encode_fits)
    have "REDIS_MAX_MEMBERS < 2 ^ 64" "REDIS_MAX_REPLY < 2 ^ 64" by (simp_all add: redis_limits)
    then show "length (lead @ c) < 2 ^ 64" "\<forall>a\<in>set (lead @ c). length a < 2 ^ 64"
      using lim that le_less_trans by blast+
  qed
  then have "length send \<le> cmd_total lead ?cs"
    unfolding sh(1) cmd_total_def length_concat by (auto intro!: sum_list_mono simp: comp_def)
  moreover have "\<forall>c\<in>set ?cs. 0 < length c \<and> length c \<le> 256" using all by (auto simp: REDIS_DEL_CHUNK_def)
  moreover have "drain_frames n send False = (NGX_OK, [], False)" unfolding sh(1,2) by (rule many_frames [OF lim])
  ultimately show ?thesis
    unfolding Cmd_sent cmd_out.case using sh(1,2) conjunct1 [OF all] by (intro exI [of _ ?cs] conjI)
qed

theorem redis_many_covers_witness:
  "\<exists>send. redis_cmd_many \<lparr>ce_enable = True, ce_alloc = True, ce_send = True, ce_launch = True\<rparr> [ascii ''UNLINK''] [[1], [], [2]] False
     = Cmd_sent send 1 \<and> drain_frames 1 send False = (NGX_OK, [], False)"
proof -
  let ?env = "\<lparr>ce_enable = True, ce_alloc = True, ce_send = True, ce_launch = True\<rparr>"
  have c: "cmd_chunks False [[1], [], [2]] = [[[1], [2 :: u8]]]"
    by (simp add: cmd_chunks.simps [of False "_ # _"] cmd_chunks.simps [of False "[]"] REDIS_DEL_CHUNK_def eval_nat_numeral)
  then obtain send where s: "redis_cmd_many ?env [ascii ''UNLINK''] [[1], [], [2]] False = Cmd_sent send 1"
    by (simp add: redis_cmd_many_def)
  have "drain_frames 1 send False = (NGX_OK, [], False)"
    using redis_many_covers [of "[ascii ''UNLINK'']" "[[1], [], [2]]" ?env False] s by (auto simp: redis_limits)
  with s show ?thesis by blast
qed


text \<open>
  The answers to a tag write always fit the drain's scratch buffer. At most sixteen tags are written,
  with three commands each, and the integer answers of Redis to them, however they arrive, leave the
  connection clean: a tag write never costs the connection it was sent on.
\<close>

theorem tag_add_answers_fit:
  assumes "redis_tag_add_impl env pfx key_hash names ttl = Cmd_sent send n" and "length rs = n"
    and "\<forall>r\<in>set rs. r = Line COLON [0x30] \<or> r = Line COLON [0x31]"
    and "[] \<notin> set pieces" and "concat pieces = concat (map reply_wire rs)"
  shows "0 < n \<and> n \<le> 48 \<and> redis_read_drain n rearm e pieces [] False = Drain_end True False"
proof -
  have n: "0 < n" "n \<le> 3 * length (filter (\<lambda>n. n \<noteq> []) (take MAX_TAGS names))"
    using assms(1) by (auto simp: redis_tag_add_impl_def Let_def split: if_splits)
  have "length (filter (\<lambda>n. n \<noteq> []) (take MAX_TAGS names)) \<le> MAX_TAGS"
    by (rule order.trans [OF length_filter_le]) simp
  with n(2) have n48: "n \<le> 48" by (simp add: MAX_TAGS_def)
  have each: "length (reply_wire r) = 4 \<and> reply_ok 0 r \<and> hd (reply_wire r) \<noteq> MINUS" if "r \<in> set rs" for r
    using assms(3) that by (auto simp: REDIS_FRAME_MAX_DEPTH_def)
  have "length (concat (map reply_wire rs)) = 4 * length rs"
    using each by (induction rs) auto
  then have len: "length (concat (map reply_wire rs)) \<le> REDIS_RECV" using assms(2) n48 by (simp add: REDIS_RECV_def)
  have ne: "reply_wire r \<noteq> []" for r by (cases r) simp_all
  have "strict_prefix [] (concat (map reply_wire rs))"
    using n(1) assms(1,2) ne by (cases rs) (auto simp: strict_prefix_def)
  then have "redis_read_drain n rearm e pieces [] False = Drain_end True (some_error (map reply_wire rs))"
    using each assms(2,4,5) n(1) len by (intro drain_any_split) auto
  then show ?thesis using n(1) n48 each by (auto simp: some_error_def)
qed

theorem tag_add_answers_fit_witness:
  "\<exists>send. redis_tag_add_impl \<lparr>ce_enable = True, ce_alloc = True, ce_send = True, ce_launch = True\<rparr> (ascii ''c:'') (replicate 32 7)
       [ascii ''t'', []] 60 = Cmd_sent send 3 \<and>
     redis_read_drain 3 True Sock_open [[COLON], [DIGIT1, CR, LF, COLON, 0x30, CR, LF], [COLON, DIGIT1, CR, LF]] [] False = Drain_end True False"
proof -
  let ?env = "\<lparr>ce_enable = True, ce_alloc = True, ce_send = True, ce_launch = True\<rparr>"
  obtain send where s: "redis_tag_add_impl ?env (ascii ''c:'') (replicate 32 7) [ascii ''t'', []] 60 = Cmd_sent send 3"
    by (simp add: redis_tag_add_impl_def MAX_TAGS_def ascii_def)
  show ?thesis
    using tag_add_answers_fit [OF s, of "[Line COLON [0x31], Line COLON [0x30], Line COLON [0x31]]"
        "[[COLON], [DIGIT1, CR, LF, COLON, 0x30, CR, LF], [COLON, DIGIT1, CR, LF]]" True Sock_open] s by simp
qed

subsection \<open>The purge stays inside its prefix\<close>

text \<open>What the module relies on of the matcher of Redis: a plain byte matches itself, a byte behind a
  backslash matches itself, and a lone star matches everything.\<close>

definition glob_laws :: "(bytes \<Rightarrow> bytes \<Rightarrow> bool) \<Rightarrow> bool" where
  "glob_laws G \<longleftrightarrow>
    (\<forall>c p k. \<not> glob_meta c \<longrightarrow> G (c # p) k = (\<exists>k'. k = c # k' \<and> G p k')) \<and>
    (\<forall>c p k. G (0x5C # c # p) k = (\<exists>k'. k = c # k' \<and> G p k')) \<and>
    (\<forall>k. G [ASTERISK] k)"

text \<open>
  C26: The pattern of a SCAN selects exactly the keys of the prefix. Whatever bytes the configured prefix
  has, glob characters included, the pattern sent matches a key if and only if the key starts with
  that prefix; and without a prefix nothing is sent at all.
\<close>

theorem scan_pattern_is_prefix:
  assumes "glob_laws G"
  shows "redis_scan_cmd pfx cursor =
      redis_encode [ascii ''SCAN'', cursor, ascii ''MATCH'', glob_escape pfx @ [ASTERISK], ascii ''COUNT'', ascii ''256''] \<and>
    (G (glob_escape pfx @ [ASTERISK]) key \<longleftrightarrow> prefix pfx key) \<and> redis_scan_del enable [] have_mem can_launch = None"
proof -
  have "G (glob_escape p @ [ASTERISK]) k \<longleftrightarrow> prefix p k" for p k
  proof (induction p arbitrary: k)
    case Nil
    then show ?case using assms by (simp add: glob_laws_def)
  next
    case (Cons c p)
    have "G (glob_escape (c # p) @ [ASTERISK]) k = (\<exists>k'. k = c # k' \<and> G (glob_escape p @ [ASTERISK]) k')"
      using assms by (simp add: glob_laws_def)
    then show ?case using Cons by (cases k) auto
  qed
  then show ?thesis by (simp add: redis_scan_cmd_def redis_scan_del_def)
qed

fun demo_glob :: "bytes \<Rightarrow> bytes \<Rightarrow> bool" where
  "demo_glob [] k = (k = [])"
| "demo_glob [c] k = (c = ASTERISK \<or> k = [c])"
| "demo_glob (c # d # p) k =
    (if c = 0x5C then k \<noteq> [] \<and> hd k = d \<and> demo_glob p (tl k) else k \<noteq> [] \<and> hd k = c \<and> demo_glob (d # p) (tl k))"

lemma demo_glob_laws: "glob_laws demo_glob"
  unfolding glob_laws_def
proof (intro conjI allI impI)
  fix c :: u8 and p k :: bytes
  assume "\<not> glob_meta c"
  then show "demo_glob (c # p) k = (\<exists>k'. k = c # k' \<and> demo_glob p k')"
    by (cases p; cases k) (auto simp: glob_meta_def)
next
  fix c :: u8 and p k :: bytes
  show "demo_glob (0x5C # c # p) k = (\<exists>k'. k = c # k' \<and> demo_glob p k')" by (cases k) auto
qed simp

theorem scan_pattern_is_prefix_witness:
  "demo_glob (glob_escape (ascii ''a*'') @ [ASTERISK]) (ascii ''a*:1'') \<and>
   \<not> demo_glob (glob_escape (ascii ''a*'') @ [ASTERISK]) (ascii ''ab:1'')"
proof -
  have "prefix (ascii ''a*'') (ascii ''a*:1'')" "\<not> prefix (ascii ''a*'') (ascii ''ab:1'')" by code_simp+
  then show ?thesis using scan_pattern_is_prefix [OF demo_glob_laws, of "ascii ''a*''"] by blast
qed


subsection \<open>A page, in any pieces\<close>

lemma scan_empty: "redis_frame_scan [] fresh_frame = Some (NGX_AGAIN, [], fresh_frame)"
  by (simp add: scan_fresh)

lemma scan_total: "redis_frame_scan buf fresh_frame = Some (NGX_AGAIN, next, s) \<Longrightarrow>
    \<exists>rc nx s'. redis_frame_scan (buf @ x) s = Some (rc, nx, s') \<and> (rc = NGX_AGAIN \<longrightarrow> redis_frame_scan (buf @ x) fresh_frame = Some (rc, nx, s'))"
  using scan_resumes [of buf "next" s x] scan_agrees [of "buf @ x"] by (auto simp: scan_view_def)

lemma page_any_pieces:
  assumes "[] \<notin> set sock" and "reply_ok 0 (Arr rs)" and "arrays_above 0 (Arr rs)" and "w = reply_wire (Arr rs)"
    and "redis_frame_scan rbuf fresh_frame = Some (NGX_AGAIN, next, s)" and "rbuf @ concat sock = w" and "strict_prefix rbuf w"
    and "length w \<le> m" and "length rbuf \<le> rcap" and "0 < rcap" and "\<forall>n. alloc n"
  shows "redis_read_page m alloc rearm e rbuf rcap s sock = Some (Page_full w)"
  using assms
proof (induction m alloc rearm e rbuf rcap s sock arbitrary: "next" rule: redis_read_page.induct)
  case (1 m alloc rearm e rbuf rcap s sock)
  note w = "1.prems"(4)
  have ne: "sock \<noteq> []" using "1.prems"(6,7) by auto
  have lt: "length rbuf < m" using prefix_length_less [OF "1.prems"(7)] "1.prems"(8) by simp
  obtain d rcap' sock' where f: "redis_fill m alloc rearm e rbuf rcap sock = (NGX_OK, rbuf @ d, rcap', sock')" "d \<noteq> []"
    "concat sock = d @ concat sock'" "[] \<notin> set sock'" "length (rbuf @ d) \<le> rcap'" "0 < rcap'"
    using fill_data [OF ne "1.prems"(1,9) lt "1.prems"(10,11), of rearm e] by blast
  have rest: "(rbuf @ d) @ concat sock' = w" using f(3) "1.prems"(6) by simp
  note same = scan_resumes [OF "1.prems"(5), of d]
  show ?case
  proof (cases "concat sock' = []")
    case True
    have full: "rbuf @ d = w" using rest unfolding True by simp
    have "answer (redis_frame_scan (rbuf @ d) fresh_frame) = Some (NGX_OK, [])"
      using scan_frames [OF "1.prems"(2,3), of "[]"] unfolding full w by simp
    then obtain s' where "redis_frame_scan (rbuf @ d) s = Some (NGX_OK, [], s')"
      using same by (auto simp: answer_def scan_view_def split: if_splits)
    then show ?thesis using f(1) full by (simp add: redis_read_page.simps [of m alloc rearm e rbuf])
  next
    case False
    have sp: "strict_prefix (rbuf @ d) w" by (rule pieces_left [OF False rest])
    then obtain s' where fresh: "redis_frame_scan (rbuf @ d) fresh_frame = Some (NGX_AGAIN, [], s')"
      using scan_short [OF "1.prems"(2,3)] unfolding w by blast
    then have again: "redis_frame_scan (rbuf @ d) s = Some (NGX_AGAIN, [], s')"
      using same by (auto simp: scan_view_def split: if_splits)
    show ?thesis
      using "1.IH" [OF f(1) [symmetric] refl refl refl again refl refl refl f(4) "1.prems"(2,3) w fresh rest sp "1.prems"(8) f(5,6) "1.prems"(11)]
        f(1) again by (simp add: redis_read_page.simps [of m alloc rearm e rbuf])
  qed
qed

text \<open>An index outside the frame stack is never used, whatever the peer sends.\<close>

lemma page_total:
  assumes "redis_frame_scan rbuf fresh_frame = Some (NGX_AGAIN, next, s)"
  shows "redis_read_page m alloc rearm e rbuf rcap s sock \<noteq> None"
  using assms
proof (induction m alloc rearm e rbuf rcap s sock arbitrary: "next" rule: redis_read_page.induct)
  case (1 m alloc rearm e rbuf rcap s sock)
  show ?case
  proof (cases "\<exists>d rcap' sock'. redis_fill m alloc rearm e rbuf rcap sock = (NGX_OK, rbuf @ d, rcap', sock')")
    case True
    then obtain d rcap' sock' where f: "redis_fill m alloc rearm e rbuf rcap sock = (NGX_OK, rbuf @ d, rcap', sock')" by blast
    obtain rc nx s' where r: "redis_frame_scan (rbuf @ d) s = Some (rc, nx, s')"
      "rc = NGX_AGAIN \<longrightarrow> redis_frame_scan (rbuf @ d) fresh_frame = Some (rc, nx, s')" using scan_total [OF "1.prems"] by blast
    show ?thesis
    proof (cases "rc = NGX_AGAIN")
      case True
      then show ?thesis using "1.IH" [OF f [symmetric] refl refl refl r(1) refl refl True] r f
        by (simp add: redis_read_page.simps [of m alloc rearm e rbuf])
    next
      case False
      then show ?thesis using r f by (auto simp: redis_read_page.simps [of m alloc rearm e rbuf])
    qed
  next
    case False
    moreover obtain rc b c k where f: "redis_fill m alloc rearm e rbuf rcap sock = (rc, b, c, k)" by (metis prod_cases4)
    moreover have "\<exists>d. b = rbuf @ d" if "rc = NGX_OK" using f that
      by (auto simp: redis_fill_def Let_def split: if_splits prod.splits recv_res.splits)
    ultimately show ?thesis by (cases rc) (auto simp: redis_read_page.simps [of m alloc rearm e rbuf])
  qed
qed


subsection \<open>The walk ends\<close>

text \<open>What a page gives the walk: the cursor and the keys it sent an UNLINK for.\<close>

definition page_answer :: "nat \<Rightarrow> page_env \<Rightarrow> (bytes \<times> bytes option list) option" where
  "page_answer pagesize pe =
    (if pe_timedout pe then None
     else case redis_read_page REDIS_MAX_ITER_REPLY (pe_alloc pe) (pe_rearm pe) (pe_end pe) [] (min (pagesize * 4) REDIS_MAX_ITER_REPLY)
         fresh_frame (pe_sock pe) of
       Some (Page_full rbuf) \<Rightarrow>
         (case redis_parse_scan (pe_keys_alloc pe) rbuf of
            (NGX_OK, cursor, keys) \<Rightarrow>
              if redis_del_many (pe_del pe) (map key_bytes keys) = Cmd_error then None else Some (cursor, keys)
          | _ \<Rightarrow> None)
     | _ \<Rightarrow> None)"

text \<open>One page of the walk, by what the page gave.\<close>

lemma walk_no_answer:
  assumes "page_answer pagesize pe = None"
  shows "\<exists>w'. redis_read_scan pagesize max_pages w (pe # pes) = Some w' \<and> wo_status w' = wo_status w \<and>
    wo_pages w' \<le> wo_pages w + 1 \<and> wo_deleted w' = wo_deleted w \<and> wo_cursors w' = wo_cursors w"
  using assms page_total [OF scan_empty, of REDIS_MAX_ITER_REPLY "pe_alloc pe" "pe_rearm pe" "pe_end pe"
      "min (pagesize * 4) REDIS_MAX_ITER_REPLY" "pe_sock pe"]
  by (auto simp: page_answer_def Let_def split: if_splits option.splits page_out.splits prod.splits ngx_rc.splits)

lemma walk_answer:
  assumes "page_answer pagesize pe = Some (cursor, keys)"
  shows "redis_read_scan pagesize max_pages w (pe # pes) =
    (let w = w\<lparr>wo_pages := wo_pages w + 1, wo_deleted := wo_deleted w @ [keys]\<rparr>
     in if cursor = [0x30] then Some (w\<lparr>wo_status := Scan_ok\<rparr>)
     else if wo_pages w \<ge> max_pages then Some (w\<lparr>wo_status := Scan_abort\<rparr>)
     else if pe_late pe then Some (w\<lparr>wo_status := Scan_abort, wo_deadline := True\<rparr>)
     else if \<not> pe_pool pe then Some w
     else redis_read_scan pagesize max_pages (w\<lparr>wo_cursors := wo_cursors w @ [cursor]\<rparr>) pes)"
  using assms
  by (auto simp: page_answer_def Let_def split: if_splits option.splits page_out.splits prod.splits ngx_rc.splits)

lemma walk_runs:
  assumes "wo_status w = Scan_error" and "wo_pages w < max_pages"
  shows "\<exists>w'. redis_read_scan pagesize max_pages w pes = Some w' \<and> wo_pages w' \<le> max_pages \<and>
    (wo_status w' = Scan_ok \<longrightarrow> (\<exists>pages. pages \<noteq> [] \<and> map (page_answer pagesize) (take (length pages) pes) = map Some pages \<and>
       fst (last pages) = [0x30] \<and> [0x30] \<notin> set (map fst (butlast pages)) \<and> wo_pages w' = wo_pages w + length pages \<and>
       wo_deleted w' = wo_deleted w @ map snd pages \<and> wo_cursors w' = wo_cursors w @ map fst (butlast pages)))"
  using assms
proof (induction pes arbitrary: w)
  case Nil
  then show ?case by simp
next
  case (Cons pe pes)
  show ?case
  proof (cases "page_answer pagesize pe")
    case None
    then show ?thesis using walk_no_answer [OF None, of max_pages w pes] Cons.prems by fastforce
  next
    case (Some p)
    obtain cursor keys where p: "p = (cursor, keys)" by force
    note step = walk_answer [OF Some [unfolded p], of max_pages w pes]
    show ?thesis
    proof (cases "cursor = [0x30]")
      case True
      then show ?thesis using step Cons.prems Some p by (auto simp: Let_def intro!: exI [of _ "[(cursor, keys)]"])
    next
      case go: False
      show ?thesis
      proof (cases "wo_pages w + 1 \<ge> max_pages \<or> pe_late pe \<or> \<not> pe_pool pe")
        case True
        then show ?thesis using step Cons.prems go by (auto simp: Let_def)
      next
        case False
        let ?w = "w\<lparr>wo_pages := wo_pages w + 1, wo_deleted := wo_deleted w @ [keys], wo_cursors := wo_cursors w @ [cursor]\<rparr>"
        have e: "redis_read_scan pagesize max_pages w (pe # pes) = redis_read_scan pagesize max_pages ?w pes"
          using step go False by (simp add: Let_def)
        obtain w' where w': "redis_read_scan pagesize max_pages ?w pes = Some w'" "wo_pages w' \<le> max_pages"
          and ok: "wo_status w' = Scan_ok \<longrightarrow> (\<exists>pages. pages \<noteq> [] \<and> map (page_answer pagesize) (take (length pages) pes) = map Some pages \<and>
             fst (last pages) = [0x30] \<and> [0x30] \<notin> set (map fst (butlast pages)) \<and> wo_pages w' = wo_pages ?w + length pages \<and>
             wo_deleted w' = wo_deleted ?w @ map snd pages \<and> wo_cursors w' = wo_cursors ?w @ map fst (butlast pages))"
          using Cons.IH [of ?w] Cons.prems False by auto
        have "\<exists>pages. pages \<noteq> [] \<and> map (page_answer pagesize) (take (length pages) (pe # pes)) = map Some pages \<and>
             fst (last pages) = [0x30] \<and> [0x30] \<notin> set (map fst (butlast pages)) \<and> wo_pages w' = wo_pages w + length pages \<and>
             wo_deleted w' = wo_deleted w @ map snd pages \<and> wo_cursors w' = wo_cursors w @ map fst (butlast pages)"
          if good: "wo_status w' = Scan_ok"
        proof -
          obtain pages where "pages \<noteq> []" "map (page_answer pagesize) (take (length pages) pes) = map Some pages"
             "fst (last pages) = [0x30]" "[0x30] \<notin> set (map fst (butlast pages))" "wo_pages w' = wo_pages ?w + length pages"
             "wo_deleted w' = wo_deleted ?w @ map snd pages" "wo_cursors w' = wo_cursors ?w @ map fst (butlast pages)"
            using ok good by blast
          then show ?thesis using go Some p by (intro exI [of _ "(cursor, keys) # pages"]) auto
        qed
        with w' e show ?thesis by auto
      qed
    qed
  qed
qed

text \<open>
  C20: A purge that reports success was complete. Whatever the peer sends, in whatever pieces, the walk over
  the SCAN pages comes to an answer without ever touching an index outside its frame stack, and never
  reads more pages than its limit. It reports success only if the server's cursor came back to 0: then
  every page up to there was read in full, its keys were handed to an UNLINK that was not refused, each
  next page was asked for with the cursor of the page before, and no earlier page had the cursor 0.
\<close>

theorem scan_walk_honest:
  assumes "0 < max_pages"
  shows "\<exists>w. redis_read_scan pagesize max_pages scan_start pes = Some w \<and> wo_pages w \<le> max_pages \<and>
    (wo_status w = Scan_ok \<longrightarrow> (\<exists>pages. pages \<noteq> [] \<and> map (page_answer pagesize) (take (length pages) pes) = map Some pages \<and>
       fst (last pages) = [0x30] \<and> [0x30] \<notin> set (map fst (butlast pages)) \<and> wo_pages w = length pages \<and>
       wo_deleted w = map snd pages \<and> wo_cursors w = [0x30] # map fst (butlast pages)))"
  using walk_runs [of scan_start max_pages pagesize pes] assms by (simp add: scan_start_def)

text \<open>An honest page: all of its bytes within the limit, in any pieces, and nothing fails locally.\<close>

definition honest_page :: "page_env \<Rightarrow> bytes \<times> bytes option list \<Rightarrow> bool" where
  "honest_page pe p \<longleftrightarrow> \<not> pe_timedout pe \<and> [] \<notin> set (pe_sock pe) \<and>
    concat (pe_sock pe) = reply_wire (scan_reply (fst p) (snd p)) \<and> length (concat (pe_sock pe)) \<le> REDIS_MAX_ITER_REPLY \<and>
    (\<forall>n. pe_alloc pe n) \<and> pe_keys_alloc pe \<and> ce_alloc (pe_del pe) \<and> ce_send (pe_del pe) \<and> ce_launch (pe_del pe) \<and>
    \<not> pe_late pe \<and> pe_pool pe"

lemma page_small:
  assumes "length (reply_wire (scan_reply cursor keys)) \<le> REDIS_MAX_ITER_REPLY"
  shows "length cursor \<le> REDIS_MAX_REPLY \<and> length keys \<le> REDIS_MAX_MEMBERS \<and>
    (\<forall>k\<in>set keys. case k of None \<Rightarrow> True | Some v \<Rightarrow> length v \<le> REDIS_MAX_REPLY)"
proof -
  have n: "4 * length keys \<le> length (concat (map (\<lambda>k. reply_wire (key_reply k)) keys))" by (rule keys_wire_long)
  have c: "length cursor + length (concat (map (\<lambda>k. reply_wire (key_reply k)) keys)) \<le> REDIS_MAX_ITER_REPLY"
    using assms unfolding scan_reply_wire by simp
  have m: "length v \<le> length (concat (map (\<lambda>k. reply_wire (key_reply k)) keys))" if "Some v \<in> set keys" for v
  proof -
    have "length (reply_wire (key_reply (Some v))) \<le> length (concat (map (\<lambda>k. reply_wire (key_reply k)) keys))"
      unfolding length_concat by (rule member_le_sum_list, use that in force, simp)
    then show ?thesis by simp
  qed
  have "REDIS_MAX_ITER_REPLY \<le> REDIS_MAX_REPLY" "REDIS_MAX_ITER_REPLY \<le> REDIS_MAX_MEMBERS"
    by (simp_all add: REDIS_MAX_ITER_REPLY_def redis_limits)
  with n c m show ?thesis by (fastforce split: option.split)
qed

lemma honest_answer:
  assumes "honest_page pe p" and "0 < pagesize"
  shows "page_answer pagesize pe = Some p"
proof -
  obtain cursor keys where p: "p = (cursor, keys)" by force
  note h = assms(1) [unfolded honest_page_def p, simplified]
  have len: "length (reply_wire (scan_reply cursor keys)) \<le> REDIS_MAX_ITER_REPLY" using h by metis
  note small = page_small [OF len]
  have arr: "scan_reply cursor keys = Arr [Bulk cursor, Arr (map key_reply keys)]" by (simp add: scan_reply_def)
  have ok: "reply_ok 0 (Arr [Bulk cursor, Arr (map key_reply keys)])" "arrays_above 0 (Arr [Bulk cursor, Arr (map key_reply keys)])"
    using small by (auto simp: REDIS_FRAME_MAX_DEPTH_def REDIS_MAX_MEMBERS_def split: option.split)
  have "0 < REDIS_MAX_ITER_REPLY" by (simp add: REDIS_MAX_ITER_REPLY_def)
  then have page: "redis_read_page REDIS_MAX_ITER_REPLY (pe_alloc pe) (pe_rearm pe) (pe_end pe) []
      (min (pagesize * 4) REDIS_MAX_ITER_REPLY) fresh_frame (pe_sock pe) = Some (Page_full (reply_wire (scan_reply cursor keys)))"
    unfolding arr using h len assms(2) by (intro page_any_pieces [OF _ ok refl scan_empty]) (simp_all add: arr)
  have "redis_parse_scan True (reply_wire (scan_reply cursor keys)) = (NGX_OK, cursor, keys)"
    using scan_page_roundtrip [of cursor keys] small by simp
  moreover have "redis_del_many (pe_del pe) (map key_bytes keys) \<noteq> Cmd_error"
    using h by (auto simp: redis_del_many_def redis_cmd_many_def Let_def)
  ultimately show ?thesis using page h by (simp add: page_answer_def p)
qed

text \<open>
  C21: A purge over an honest server covers what the server listed. However the pages arrive, if none fails
  locally and the cursor comes back to 0 within the limit, the walk succeeds, deletes the keys of every
  page, nil elements included, and asks for each page with the cursor of the one before; beyond the
  limit it stops and says so.
\<close>

theorem scan_walk_complete:
  assumes "list_all2 honest_page pes pages" and "pages \<noteq> []" and "fst (last pages) = [0x30]"
    and "[0x30] \<notin> set (map fst (butlast pages))" and "0 < pagesize" and "0 < max_pages"
  shows "let n = min (length pages) max_pages in
    redis_read_scan pagesize max_pages scan_start pes =
      Some \<lparr>wo_parked = False, wo_status = (if length pages \<le> max_pages then Scan_ok else Scan_abort), wo_pages = n,
        wo_deadline = False, wo_deleted = map snd (take n pages), wo_cursors = [0x30] # map fst (take (n - 1) pages)\<rparr>"
proof -
  have "redis_read_scan pagesize max_pages w pes =
      (let n = min (length pages) (max_pages - wo_pages w)
       in Some (w\<lparr>wo_status := (if length pages \<le> max_pages - wo_pages w then Scan_ok else Scan_abort), wo_pages := wo_pages w + n,
        wo_deleted := wo_deleted w @ map snd (take n pages), wo_cursors := wo_cursors w @ map fst (take (n - 1) pages)\<rparr>))"
    if "wo_pages w < max_pages" for w
    using assms(1-4) that
  proof (induction pes arbitrary: pages w)
    case Nil
    then show ?case by simp
  next
    case (Cons pe pes)
    obtain p ps where pages: "pages = p # ps" and h: "honest_page pe p" and hs: "list_all2 honest_page pes ps"
      using Cons.prems(1) by (auto simp: list_all2_Cons1)
    obtain cursor keys where p: "p = (cursor, keys)" by force
    note step = walk_answer [OF honest_answer [OF h assms(5), unfolded p], of max_pages w pes]
    have late: "\<not> pe_late pe" "pe_pool pe" using h by (auto simp: honest_page_def)
    show ?case
    proof (cases "ps = []")
      case True
      then show ?thesis using step Cons.prems(3,5) pages p by (simp add: Let_def)
    next
      case False
      then have go: "cursor \<noteq> [0x30]" and rest: "fst (last ps) = [0x30]" "[0x30] \<notin> set (map fst (butlast ps))"
        using Cons.prems(3,4) pages p by auto
      show ?thesis
      proof (cases "wo_pages w + 1 \<ge> max_pages")
        case True
        then have "max_pages - wo_pages w = 1" using Cons.prems(5) by simp
        moreover have "1 < length pages" using False pages by (cases ps) auto
        ultimately show ?thesis using step go True pages p by (simp add: Let_def)
      next
        case more: False
        let ?w = "w\<lparr>wo_pages := wo_pages w + 1, wo_deleted := wo_deleted w @ [keys], wo_cursors := wo_cursors w @ [cursor]\<rparr>"
        have n: "min (length pages) (max_pages - wo_pages w) = Suc (min (length ps) (max_pages - (wo_pages w + 1)))"
          "0 < min (length ps) (max_pages - (wo_pages w + 1))"
          using more False pages by auto
        have le: "length pages \<le> max_pages - wo_pages w \<longleftrightarrow> length ps \<le> max_pages - (wo_pages w + 1)" using pages more by auto
        have "redis_read_scan pagesize max_pages w (pe # pes) = redis_read_scan pagesize max_pages ?w pes"
          using step go more late by (simp add: Let_def)
        also have "\<dots> = (let n = min (length ps) (max_pages - wo_pages ?w)
           in Some (?w\<lparr>wo_status := (if length ps \<le> max_pages - wo_pages ?w then Scan_ok else Scan_abort), wo_pages := wo_pages ?w + n,
            wo_deleted := wo_deleted ?w @ map snd (take n ps), wo_cursors := wo_cursors ?w @ map fst (take (n - 1) ps)\<rparr>))"
          using Cons.IH [OF hs False rest, of ?w] more by simp
        finally show ?thesis
          using n(2) unfolding Let_def n(1) le by (simp del: redis_read_scan.simps add: pages p take_Cons')
      qed
    qed
  qed
  from this [of scan_start] show ?thesis using assms(6) by (simp add: scan_start_def Let_def)
qed

definition demo_page :: "bytes \<Rightarrow> bytes option list \<Rightarrow> page_env" where
  "demo_page cursor keys = (let w = reply_wire (scan_reply cursor keys) in
    \<lparr>pe_sock = [take 5 w, drop 5 w], pe_end = Sock_open, pe_timedout = False, pe_rearm = True, pe_alloc = (\<lambda>_. True), pe_keys_alloc = True,
     pe_del = \<lparr>ce_enable = True, ce_alloc = True, ce_send = True, ce_launch = True\<rparr>, pe_late = False, pe_pool = True\<rparr>)"

lemma demo_honest:
  assumes "length (reply_wire (scan_reply cursor keys)) \<le> REDIS_MAX_ITER_REPLY"
  shows "honest_page (demo_page cursor keys) (cursor, keys)"
proof -
  have "5 < length (reply_wire (scan_reply cursor keys))" by (simp add: scan_reply_wire)
  then show ?thesis using assms by (auto simp: honest_page_def demo_page_def Let_def)
qed

theorem scan_walk_complete_witness:
  "redis_read_scan 4096 10 scan_start [demo_page [0x37] [Some [1], None], demo_page [0x30] [Some [2]]] =
    Some \<lparr>wo_parked = False, wo_status = Scan_ok, wo_pages = 2, wo_deadline = False, wo_deleted = [[Some [1], None], [Some [2]]],
      wo_cursors = [[0x30], [0x37]]\<rparr>"
proof -
  have d: "length (dec_ui n) \<le> 1" if "n < 10" for n using length_dec_ui [of n 1] that by simp
  have "honest_page (demo_page [0x37] [Some [1], None]) ([0x37], [Some [1], None])"
    "honest_page (demo_page [0x30] [Some [2]]) ([0x30], [Some [2]])"
    using d [of 1] d [of 2] d [of "Suc (Suc 0)"] by (auto intro!: demo_honest simp: scan_reply_wire REDIS_MAX_ITER_REPLY_def)
  then show ?thesis
    using scan_walk_complete [of "[demo_page [0x37] [Some [1], None], demo_page [0x30] [Some [2]]]"
        "[([0x37], [Some [1], None]), ([0x30], [Some [2]])]" 4096 10] by simp
qed

theorem scan_walk_honest_witness:
  "\<exists>w. redis_read_scan 4096 10 scan_start [(demo_page [0x30] [])\<lparr>pe_timedout := True\<rparr>] = Some w \<and> wo_status w \<noteq> Scan_ok"
proof -
  have "page_answer 4096 ((demo_page [0x30] [])\<lparr>pe_timedout := True\<rparr>) = None" by (simp add: page_answer_def)
  then show ?thesis
    using scan_walk_honest [of 10 4096 "[(demo_page [0x30] [])\<lparr>pe_timedout := True\<rparr>]"]
    by (auto simp: take_Cons' split: if_splits)
qed

end
