(* ===== verification/Memcached.thy ===== *)
theory Memcached
  imports Redis_Walk
begin

text \<open>
  The memcached client (\<^verbatim>\<open>memcached.c\<close>): the commands, the GET parser and the two readers. Its buffer
  fill is the Redis one with a fixed budget; the socket, the allocations and the launch of a connection
  are arguments as in \<open>Redis_Read\<close>. The GET reader is an instance of the locale \<open>get_reader\<close>.
\<close>

subsection \<open>Commands\<close>

definition MC_MAX_VALUE :: nat where "MC_MAX_VALUE = 1024 * 1024"
definition MC_MAX_REPLY :: nat where "MC_MAX_REPLY = MC_MAX_VALUE + 4096"
definition MC_RECV :: nat where "MC_RECV = 128"

lemmas mc_limits = MC_MAX_VALUE_def MC_MAX_REPLY_def MC_RECV_def

text \<open>The expiry that is sent: memcached reads more than thirty days as an absolute time.\<close>

definition mc_exptime :: "time_t \<Rightarrow> time_t \<Rightarrow> time_t" where
  "mc_exptime now retain_ttl = (if retain_ttl > 60 * 60 * 24 * 30 then now + retain_ttl else retain_ttl)"

text \<open>The three commands; None when nothing is sent. \<open>have_mem\<close> is the pool, the key buffer and the command
  buffer, \<open>launched\<close> the connection.\<close>

definition memcached_set :: "bool \<Rightarrow> bool \<Rightarrow> bool \<Rightarrow> time_t \<Rightarrow> bytes \<Rightarrow> bytes \<Rightarrow> bytes \<Rightarrow> time_t \<Rightarrow> bytes option" where
  "memcached_set enable have_mem launched now pfx key_hash blob retain_ttl =
    (if \<not> enable then None
     else if length blob \<ge> MC_MAX_VALUE then None
     else if retain_ttl \<le> 0 then None
     else if \<not> have_mem \<or> \<not> launched then None
     else Some (ascii ''set '' @ redis_key pfx key_hash @ ascii '' 0 '' @ dec_ui (nat (mc_exptime now retain_ttl)) @ [SP]
       @ dec_ui (length blob) @ crlf @ blob @ crlf))"

definition memcached_del_raw_rc :: "bool \<Rightarrow> bool \<Rightarrow> bool \<Rightarrow> bytes \<Rightarrow> ngx_rc \<times> bytes option" where
  "memcached_del_raw_rc enable have_mem launched key =
    (if \<not> enable then (NGX_OK, None)
     else if \<not> have_mem \<or> \<not> launched then (NGX_ERROR, None)
     else (NGX_OK, Some (ascii ''delete '' @ key @ crlf)))"

definition memcached_del :: "bool \<Rightarrow> bool \<Rightarrow> bool \<Rightarrow> bool \<Rightarrow> bytes \<Rightarrow> bytes \<Rightarrow> ngx_rc \<times> bytes option" where
  "memcached_del enable have_key have_mem launched pfx key_hash =
    (if \<not> enable then (NGX_OK, None)
     else if \<not> have_key then (NGX_ERROR, None)
     else memcached_del_raw_rc enable have_mem launched (redis_key pfx key_hash))"

definition memcached_get :: "bool \<Rightarrow> bool \<Rightarrow> bool \<Rightarrow> bytes \<Rightarrow> bytes \<Rightarrow> ngx_rc \<times> bytes option" where
  "memcached_get enable have_mem launched pfx key_hash =
    (if \<not> enable \<or> \<not> have_mem \<or> \<not> launched then (NGX_DECLINED, None)
     else (NGX_AGAIN, Some (ascii ''get '' @ redis_key pfx key_hash @ crlf)))"

subsection \<open>The reply of a GET\<close>

definition mc_trailer :: bytes where "mc_trailer = crlf @ ascii ''END'' @ crlf"

text \<open>Behind the next space of the header line.\<close>

definition mc_skip :: "bytes \<Rightarrow> bytes option" where
  "mc_skip q = (case strlchr q SP of None \<Rightarrow> None | Some i \<Rightarrow> Some (drop (i + 1) q))"

definition mc_upto :: "bytes \<Rightarrow> bytes" where
  "mc_upto q = (case strlchr q SP of None \<Rightarrow> q | Some i \<Rightarrow> take i q)"

text \<open>The result: the code, the value, and how many bytes the reply took.\<close>

definition mc_parse :: "bytes \<Rightarrow> ngx_rc \<times> bytes \<times> nat" where
  "mc_parse buf =
    (if buf = [] then (NGX_AGAIN, [], 0)
     else case strlchr buf CR of
       None \<Rightarrow> (NGX_AGAIN, [], 0)
     | Some i \<Rightarrow>
       if length buf \<le> i + 1 then (NGX_AGAIN, [], 0)
       else if buf ! (i + 1) \<noteq> LF then (NGX_ERROR, [], 0)
       else let line = take i buf; dat = drop (i + 2) buf
       in if line = ascii ''END'' then (NGX_DECLINED, [], i + 2)
       else if \<not> prefix (ascii ''VALUE '') line then (NGX_ERROR, [], 0)
       else case mc_skip (drop 6 line) of
         None \<Rightarrow> (NGX_ERROR, [], 0)
       | Some q \<Rightarrow>
         (case mc_skip q of
            None \<Rightarrow> (NGX_ERROR, [], 0)
          | Some q \<Rightarrow>
              let len = ngx_atoi (mc_upto q)
              in if len < 0 then (NGX_ERROR, [], 0)
              else if len > int MC_MAX_VALUE then (NGX_ERROR, [], 0)
              else if int (length dat) < len + 7 then (NGX_AGAIN, [], 0)
              else if take 7 (drop (nat len) dat) \<noteq> mc_trailer then (NGX_ERROR, [], 0)
              else (NGX_OK, take (nat len) dat, i + 2 + nat len + 7)))"

subsection \<open>The readers\<close>

definition mc_fill :: "(nat \<Rightarrow> bool) \<Rightarrow> bool \<Rightarrow> sock_end \<Rightarrow> bytes \<Rightarrow> nat \<Rightarrow> bytes list \<Rightarrow> ngx_rc \<times> bytes \<times> nat \<times> bytes list" where
  "mc_fill alloc rearm e rbuf rcap sock =
    (let full = (length rbuf = rcap);
         ncap = (if rcap * 2 > MC_MAX_REPLY then MC_MAX_REPLY else rcap * 2)
     in if full \<and> rcap \<ge> MC_MAX_REPLY then (NGX_ERROR, rbuf, rcap, sock)
     else if full \<and> \<not> alloc ncap then (NGX_ERROR, rbuf, rcap, sock)
     else let rcap = (if full then ncap else rcap)
     in case sock_recv (rcap - length rbuf) e sock of
          (R_again, sock) \<Rightarrow> (if rearm then NGX_AGAIN else NGX_ERROR, rbuf, rcap, sock)
        | (R_fail, sock) \<Rightarrow> (NGX_ERROR, rbuf, rcap, sock)
        | (R_data d, sock) \<Rightarrow> (NGX_OK, rbuf @ d, rcap, sock))"

lemma mc_fill_is: "mc_fill alloc rearm e rbuf rcap sock = redis_fill MC_MAX_REPLY alloc rearm e rbuf rcap sock"
  by (simp add: mc_fill_def redis_fill_def)

function mc_read_get :: "(nat \<Rightarrow> bool) \<Rightarrow> bool \<Rightarrow> sock_end \<Rightarrow> bytes \<Rightarrow> nat \<Rightarrow> bytes list \<Rightarrow> get_out" where
  "mc_read_get alloc rearm e rbuf rcap sock =
    (case mc_fill alloc rearm e rbuf rcap sock of
       (NGX_AGAIN, rbuf, rcap, _) \<Rightarrow> Get_parked rbuf rcap
     | (NGX_OK, rbuf, rcap, sock) \<Rightarrow>
         (case mc_parse rbuf of
            (NGX_AGAIN, _) \<Rightarrow> mc_read_get alloc rearm e rbuf rcap sock
          | (NGX_ERROR, _) \<Rightarrow> Get_end NGX_ERROR [] False
          | (NGX_OK, blob, consumed) \<Rightarrow> Get_end NGX_OK blob (consumed = length rbuf)
          | (_, _, consumed) \<Rightarrow> Get_end NGX_DECLINED [] (consumed = length rbuf))
     | _ \<Rightarrow> Get_end NGX_ERROR [] False)"
  by pat_completeness auto
termination
  by (relation "measure (\<lambda>(_, _, _, _, _, sock). unread sock)") (auto simp: mc_fill_is dest: fill_less [OF sym])

declare mc_read_get.simps [simp del]

text \<open>The answer to a SET or a DELETE: the connection may be kept if it is one known line, and nothing else.\<close>

definition mc_ack :: "bytes \<Rightarrow> bool" where
  "mc_ack recv =
    (if hd recv = 0x53 then prefix (ascii ''STORED'') recv
     else if hd recv = 0x44 then prefix (ascii ''DELETED'') recv
     else if hd recv = 0x4E then prefix (ascii ''NOT_FOUND'') recv
     else False)"

datatype mc_drain_out = Mc_parked bytes | Mc_end bool

function mc_read_drain :: "bool \<Rightarrow> sock_end \<Rightarrow> bytes list \<Rightarrow> bytes \<Rightarrow> mc_drain_out" where
  "mc_read_drain rearm e sock recv =
    (if length recv \<ge> MC_RECV then Mc_end False
     else case sock_recv (MC_RECV - length recv) e sock of
       (R_again, _) \<Rightarrow> if rearm then Mc_parked recv else Mc_end False
     | (R_fail, _) \<Rightarrow> Mc_end False
     | (R_data d, sock) \<Rightarrow>
         let recv = recv @ d
         in case strlchr recv LF of
              None \<Rightarrow> mc_read_drain rearm e sock recv
            | Some lf \<Rightarrow>
                if lf = 0 \<or> recv ! (lf - 1) \<noteq> CR then Mc_end False
                else Mc_end (lf + 1 = length recv \<and> mc_ack recv))"
  by pat_completeness auto
termination
  by (relation "measure (\<lambda>(_, _, sock, _). unread sock)") (auto dest: recv_less [OF sym])

declare mc_read_drain.simps [simp del]

text \<open>The end of a GET: a copy that fails is not a miss, a copy that succeeds loses its vetted mark.\<close>

definition mc_get_finish :: "bool \<Rightarrow> ngx_rc \<Rightarrow> bytes \<Rightarrow> (ngx_rc \<times> bytes option) option" where
  "mc_get_finish copy_ok result blob =
    (if result = NGX_OK \<and> length blob > 0
     then (if \<not> copy_ok then Some (NGX_ERROR, None)
           else map_option (\<lambda>b. (result, Some b)) (blob_clear_vetted blob))
     else Some (result, None))"

subsection \<open>What the parser answers\<close>

definition mc_body :: "bytes \<Rightarrow> bytes \<Rightarrow> ngx_rc \<times> bytes \<times> nat" where
  "mc_body line dat =
    (if line = ascii ''END'' then (NGX_DECLINED, [], length line + 2)
     else if \<not> prefix (ascii ''VALUE '') line then (NGX_ERROR, [], 0)
     else case Option.bind (mc_skip (drop 6 line)) mc_skip of
         None \<Rightarrow> (NGX_ERROR, [], 0)
       | Some q \<Rightarrow>
           let len = ngx_atoi (mc_upto q)
           in if len < 0 then (NGX_ERROR, [], 0)
           else if len > int MC_MAX_VALUE then (NGX_ERROR, [], 0)
           else if int (length dat) < len + 7 then (NGX_AGAIN, [], 0)
           else if take 7 (drop (nat len) dat) \<noteq> mc_trailer then (NGX_ERROR, [], 0)
           else (NGX_OK, take (nat len) dat, length line + 2 + nat len + 7))"

lemma mc_parse_line: "CR \<notin> set line \<Longrightarrow> mc_parse (line @ CR # LF # dat) = mc_body line dat"
  by (simp add: mc_parse_def mc_body_def strlchr_first nth_append Let_def split: option.split)

lemma mc_parse_cases:
  obtains (short) "mc_parse buf = (NGX_AGAIN, [], 0)" | (bad) "mc_parse buf = (NGX_ERROR, [], 0)"
    | (line) line dat where "CR \<notin> set line" and "buf = line @ CR # LF # dat"
proof (cases "strlchr buf CR")
  case None
  then show ?thesis using short by (simp add: mc_parse_def)
next
  case (Some i)
  note s = strlchr_Some [OF Some]
  show ?thesis
  proof (cases "length buf \<le> i + 1 \<or> buf ! (i + 1) \<noteq> LF")
    case True
    then have "mc_parse buf = (NGX_AGAIN, [], 0) \<or> mc_parse buf = (NGX_ERROR, [], 0)" using Some by (auto simp: mc_parse_def)
    then show ?thesis using short bad by blast
  next
    case False
    then have "buf = take i buf @ buf ! i # buf ! Suc i # drop (Suc (Suc i)) buf"
      by (metis Cons_nth_drop_Suc Suc_eq_plus1 append_take_drop_id not_le s)
    then show ?thesis using line [of "take i buf" "drop (Suc (Suc i)) buf"] s False by simp
  qed
qed

lemma mc_no_CR: "CR \<notin> set (ascii ''END'')"
  by (simp add: ascii_def)

lemma mc_body_declined: "fst (mc_body line dat) = NGX_DECLINED \<longleftrightarrow> line = ascii ''END''"
  by (auto simp: mc_body_def Let_def split: if_splits option.splits)

lemma mc_parse_declined: "fst (mc_parse buf) = NGX_DECLINED \<longleftrightarrow> prefix (ascii ''END'' @ crlf) buf"
proof
  assume "fst (mc_parse buf) = NGX_DECLINED"
  then show "prefix (ascii ''END'' @ crlf) buf"
    by (cases rule: mc_parse_cases [of buf]) (simp_all add: mc_parse_line mc_body_declined)
next
  assume "prefix (ascii ''END'' @ crlf) buf"
  then obtain dat where "buf = ascii ''END'' @ CR # LF # dat" by (auto simp: prefix_def)
  then show "fst (mc_parse buf) = NGX_DECLINED" by (simp only: mc_parse_line [OF mc_no_CR] mc_body_declined)
qed

lemma mc_trailer_len [simp]: "length mc_trailer = 7"
  by (simp add: mc_trailer_def ascii_def)

lemma mc_body_ok:
  assumes "mc_body line dat = (NGX_OK, v, k)"
  shows "\<exists>q rest. prefix (ascii ''VALUE '') line \<and> Option.bind (mc_skip (drop 6 line)) mc_skip = Some q \<and>
    list_all digit_byte (mc_upto q) \<and> dec_nat (mc_upto q) = length v \<and> length v \<le> MC_MAX_VALUE \<and>
    dat = v @ mc_trailer @ rest \<and> k = length line + 2 + length v + 7"
proof -
  obtain q where q: "prefix (ascii ''VALUE '') line" "Option.bind (mc_skip (drop 6 line)) mc_skip = Some q"
    using assms by (auto simp: mc_body_def Let_def split: if_splits option.splits)
  define n where "n = dec_nat (mc_upto q)"
  have a: "ngx_atoi (mc_upto q) = int n" "list_all digit_byte (mc_upto q)"
    using assms q by (auto simp: mc_body_def Let_def n_def atoi_value split: if_splits)
  then have d: "n \<le> MC_MAX_VALUE" "n + 7 \<le> length dat" "take 7 (drop n dat) = mc_trailer" "v = take n dat" "k = length line + 2 + n + 7"
    using assms q by (auto simp: mc_body_def Let_def split: if_splits)
  have "dat = take n dat @ take 7 (drop n dat) @ drop 7 (drop n dat)" by (metis append_take_drop_id)
  then have "dat = v @ mc_trailer @ drop 7 (drop n dat)" unfolding d(3) d(4) [symmetric] .
  moreover have "length v = n" using d(2,4) by simp
  ultimately show ?thesis using q a(2) d(1,5) by (auto simp: n_def)
qed

text \<open>The reply of a server that has the key: any key and flags field without spaces, and with or without
  the \<open>cas\<close> field.\<close>

definition mc_header :: "bytes \<Rightarrow> bytes \<Rightarrow> nat \<Rightarrow> bytes option \<Rightarrow> bytes" where
  "mc_header key flags n cas = ascii ''VALUE '' @ key @ [SP] @ flags @ [SP] @ dec_ui n @ (case cas of None \<Rightarrow> [] | Some c \<Rightarrow> SP # c)"

definition mc_value :: "bytes \<Rightarrow> bytes \<Rightarrow> bytes option \<Rightarrow> bytes \<Rightarrow> bytes" where
  "mc_value key flags cas v = mc_header key flags (length v) cas @ crlf @ v @ mc_trailer"

definition mc_fields_ok :: "bytes \<Rightarrow> bytes \<Rightarrow> bytes option \<Rightarrow> bool" where
  "mc_fields_ok key flags cas \<longleftrightarrow> SP \<notin> set (key @ flags) \<and> CR \<notin> set (key @ flags) \<and> (\<forall>c. cas = Some c \<longrightarrow> CR \<notin> set c)"

lemma dec_no_SP: "SP \<notin> set (dec_ui n)"
  using dec_ui_digits [of n] by (auto simp: list_all_iff digit_byte_def)

lemma mc_skip_field: "SP \<notin> set f \<Longrightarrow> mc_skip (f @ SP # q) = Some q"
  by (simp add: mc_skip_def strlchr_first)

lemma mc_header_facts:
  assumes "mc_fields_ok key flags cas"
  shows "CR \<notin> set (mc_header key flags n cas)" and "mc_header key flags n cas \<noteq> ascii ''END''"
    and "prefix (ascii ''VALUE '') (mc_header key flags n cas)"
    and "Option.bind (mc_skip (drop 6 (mc_header key flags n cas))) mc_skip = Some (dec_ui n @ (case cas of None \<Rightarrow> [] | Some c \<Rightarrow> SP # c))"
    and "mc_upto (dec_ui n @ (case cas of None \<Rightarrow> [] | Some c \<Rightarrow> SP # c)) = dec_ui n"
proof -
  have v: "CR \<notin> set (ascii ''VALUE '')" "length (ascii ''VALUE '') = 6" by (simp_all add: ascii_def)
  show "CR \<notin> set (mc_header key flags n cas)" using assms v(1) by (auto simp: mc_header_def mc_fields_ok_def split: option.split)
  show "mc_header key flags n cas \<noteq> ascii ''END''" by (simp add: mc_header_def ascii_def)
  show "prefix (ascii ''VALUE '') (mc_header key flags n cas)" by (simp add: mc_header_def)
  have d: "drop 6 (mc_header key flags n cas) = key @ SP # flags @ SP # dec_ui n @ (case cas of None \<Rightarrow> [] | Some c \<Rightarrow> SP # c)"
    by (simp add: mc_header_def v(2))
  show "Option.bind (mc_skip (drop 6 (mc_header key flags n cas))) mc_skip = Some (dec_ui n @ (case cas of None \<Rightarrow> [] | Some c \<Rightarrow> SP # c))"
    using assms unfolding d by (simp add: mc_skip_field mc_fields_ok_def)
  have "strlchr (dec_ui n) SP = None" using dec_no_SP by (simp add: strlchr_None)
  then show "mc_upto (dec_ui n @ (case cas of None \<Rightarrow> [] | Some c \<Rightarrow> SP # c)) = dec_ui n"
    by (auto simp: mc_upto_def strlchr_first dec_no_SP split: option.split)
qed

lemma mc_body_value:
  assumes "mc_fields_ok key flags cas" and "n \<le> MC_MAX_VALUE"
  shows "mc_body (mc_header key flags n cas) dat =
    (if length dat < n + 7 then (NGX_AGAIN, [], 0)
     else if take 7 (drop n dat) \<noteq> mc_trailer then (NGX_ERROR, [], 0)
     else (NGX_OK, take n dat, length (mc_header key flags n cas) + 2 + n + 7))"
proof -
  have "ngx_atoi (dec_ui n) = int n" using assms(2) dec_ui_digits [of n] by (simp add: atoi_value mc_limits NGX_MAX_INT_T_VALUE_def)
  then show ?thesis using mc_header_facts [OF assms(1), of n] assms(2) by (simp add: mc_body_def Let_def)
qed

lemma mc_value_short:
  assumes "mc_fields_ok key flags cas" and "length v \<le> MC_MAX_VALUE" and "strict_prefix p (mc_value key flags cas v)"
  shows "mc_parse p = (NGX_AGAIN, [], 0)"
proof -
  let ?h = "mc_header key flags (length v) cas"
  obtain z where z: "mc_value key flags cas v = p @ z" "z \<noteq> []" using assms(3) by (auto simp: strict_prefix_def prefix_def)
  show ?thesis
  proof (cases "length p < length ?h + 2")
    case True
    show ?thesis
    proof (cases "length p \<le> length ?h")
      case le: True
      have "prefix p ?h"
      proof (rule prefix_length_prefix [of p "mc_value key flags cas v" ?h])
        show "prefix p (mc_value key flags cas v)" unfolding z(1) by simp
        show "prefix ?h (mc_value key flags cas v)" by (simp add: mc_value_def)
      qed (rule le)
      then have "CR \<notin> set p" using mc_header_facts(1) [OF assms(1)] set_mono_prefix by blast
      then have "strlchr p CR = None" by (simp add: strlchr_None)
      then show ?thesis by (simp add: mc_parse_def)
    next
      case False
      then have len: "length p = length ?h + 1" using True by simp
      have "p = take (length p) (mc_value key flags cas v)" unfolding z(1) by simp
      also have "\<dots> = ?h @ [CR]" by (simp add: len mc_value_def)
      finally show ?thesis using mc_header_facts(1) [OF assms(1)] by (simp add: mc_parse_def strlchr_first)
    qed
  next
    case False
    have "prefix (?h @ crlf) p"
    proof (rule prefix_length_prefix [of _ "mc_value key flags cas v"])
      show "prefix p (mc_value key flags cas v)" unfolding z(1) by simp
      show "prefix (?h @ crlf) (mc_value key flags cas v)" by (simp add: mc_value_def)
      show "length (?h @ crlf) \<le> length p" using False by simp
    qed
    then obtain dat where d: "p = ?h @ CR # LF # dat" by (auto simp: prefix_def)
    then have "length dat < length v + 7" using z by (auto simp: mc_value_def dest: arg_cong [of _ _ length])
    then show ?thesis unfolding d mc_parse_line [OF mc_header_facts(1) [OF assms(1)]] mc_body_value [OF assms(1,2)] by simp
  qed
qed

lemma mc_value_full:
  assumes "mc_fields_ok key flags cas" and "length v \<le> MC_MAX_VALUE"
  shows "mc_parse (mc_value key flags cas v @ rest) = (NGX_OK, v, length (mc_value key flags cas v))"
proof -
  have "mc_value key flags cas v @ rest = mc_header key flags (length v) cas @ CR # LF # v @ mc_trailer @ rest"
    by (simp add: mc_value_def)
  then show ?thesis
    unfolding mc_value_def using mc_parse_line [OF mc_header_facts(1) [OF assms(1)]] mc_body_value [OF assms] by simp
qed

lemma mc_end_short: "strict_prefix p (ascii ''END'' @ crlf) \<Longrightarrow> mc_parse p = (NGX_AGAIN, [], 0)"
proof -
  assume "strict_prefix p (ascii ''END'' @ crlf)"
  then consider "p = []" | "p = ascii ''E''" | "p = ascii ''EN''" | "p = ascii ''END''" | "p = ascii ''END'' @ [CR]"
    by (auto simp: ascii_def strict_prefix_def prefix_Cons)
  then show ?thesis by cases (simp_all add: mc_parse_def ascii_def)
qed

lemma mc_end_full: "mc_parse (ascii ''END'' @ crlf) = (NGX_DECLINED, [], 5)"
proof -
  have "mc_parse (ascii ''END'' @ CR # LF # []) = mc_body (ascii ''END'') []" by (rule mc_parse_line [OF mc_no_CR])
  also have "\<dots> = (NGX_DECLINED, [], 5)" by (simp add: mc_body_def)
  finally show ?thesis by simp
qed


subsection \<open>The readers, in any pieces\<close>

definition mc_need :: "bytes \<Rightarrow> get_out option" where
  "mc_need buf = (case mc_parse buf of
     (NGX_AGAIN, _) \<Rightarrow> None
   | (NGX_ERROR, _) \<Rightarrow> Some (Get_end NGX_ERROR [] False)
   | (NGX_OK, blob, consumed) \<Rightarrow> Some (Get_end NGX_OK blob (consumed = length buf))
   | (_, _, consumed) \<Rightarrow> Some (Get_end NGX_DECLINED [] (consumed = length buf)))"

interpretation mc_get: get_reader mc_need MC_MAX_REPLY mc_read_get
proof
  fix alloc rearm e rbuf rcap sock rbuf' rcap' sock'
  assume "redis_fill MC_MAX_REPLY alloc rearm e rbuf rcap sock = (NGX_OK, rbuf', rcap', sock')"
  then show "mc_read_get alloc rearm e rbuf rcap sock =
      (case mc_need rbuf' of None \<Rightarrow> mc_read_get alloc rearm e rbuf' rcap' sock' | Some v \<Rightarrow> v)"
    by (cases "mc_parse rbuf'"; cases "fst (mc_parse rbuf')")
      (simp_all add: mc_read_get.simps [of alloc rearm e rbuf] mc_need_def mc_fill_is)
qed

text \<open>
  C23: The answers of memcached do not blur, however the network splits them. The parser reports a definitive
  miss, the only answer that may record the key as absent, exactly when the reply begins with the bare
  END line; and the reader, whatever pieces a reply arrives in and however small its buffer starts, ends
  with the value of a hit (whatever its key, flags and cas fields) or with that miss, and with the
  connection at a clean boundary.
\<close>

theorem mc_get_any_split:
  assumes "[] \<notin> set sock" and "0 < rcap" and "\<forall>n. alloc n"
    and "concat sock = (case r of None \<Rightarrow> ascii ''END'' @ crlf | Some v \<Rightarrow> mc_value key flags cas v)"
    and "r \<noteq> None \<longrightarrow> mc_fields_ok key flags cas" and "\<forall>v. r = Some v \<longrightarrow> length v \<le> MC_MAX_VALUE"
    and "length (concat sock) \<le> MC_MAX_REPLY"
  shows "mc_read_get alloc rearm e [] rcap sock =
      (case r of None \<Rightarrow> Get_end NGX_DECLINED [] True | Some v \<Rightarrow> Get_end NGX_OK v True) \<and>
    (fst (mc_parse buf) = NGX_DECLINED \<longleftrightarrow> prefix (ascii ''END'' @ crlf) buf)"
proof
  let ?w = "case r of None \<Rightarrow> ascii ''END'' @ crlf | Some v \<Rightarrow> mc_value key flags cas v"
  let ?v = "case r of None \<Rightarrow> Get_end NGX_DECLINED [] True | Some v \<Rightarrow> Get_end NGX_OK v True"
  have ag: "\<forall>p. strict_prefix p ?w \<longrightarrow> mc_need p = None"
    using assms(5,6) mc_end_short mc_value_short [of key flags cas] by (auto simp: mc_need_def split: option.split)
  have v: "mc_need ?w = Some ?v"
    using assms(5,6) mc_end_full mc_value_full [of key flags cas _ "[]"]
    by (auto simp: mc_need_def ascii_def split: option.split)
  have "?w \<noteq> []" by (auto simp: mc_value_def split: option.split)
  then have sp: "strict_prefix [] ?w" by (auto simp: strict_prefix_def)
  show "mc_read_get alloc rearm e [] rcap sock = ?v"
    using mc_get.any_pieces [OF assms(1) ag v _ sp _ _ assms(2,3)] assms(4,7) by simp
qed (rule mc_parse_declined)

theorem mc_get_any_split_witness:
  "mc_read_get (\<lambda>_. True) True Sock_open [] 1 [[0x45], ascii ''ND'', crlf] = Get_end NGX_DECLINED [] True"
  using mc_get_any_split [of "[[0x45], ascii ''ND'', crlf]" 1 "\<lambda>_. True", where r = None and rearm = True and e = Sock_open]
  by (simp add: ascii_def mc_limits)

text \<open>
  An expiry is never misread. For every lifetime that is sent, the server's reading of the expiry field
  (a duration up to thirty days, an absolute time beyond) is the intended point in time; nothing is sent
  for an oversized value or a lifetime that is over, and the frame announces exactly the value's length.
\<close>

theorem mc_set_deadline:
  assumes "memcached_set enable have_mem launched now pfx key_hash blob retain_ttl = Some cmd" and "0 \<le> now"
  shows "let e = mc_exptime now retain_ttl in
      (if e > 60 * 60 * 24 * 30 then e else now + e) = now + retain_ttl \<and> 0 < e \<and> length blob < MC_MAX_VALUE \<and>
      cmd = ascii ''set '' @ redis_key pfx key_hash @ ascii '' 0 '' @ dec_ui (nat e) @ [SP] @ dec_ui (length blob) @ crlf @ blob @ crlf"
  using assms by (auto simp: memcached_set_def mc_exptime_def Let_def split: if_splits)

theorem mc_set_deadline_witness:
  "mc_exptime 1000000 2592001 = 3592001 \<and>
   memcached_set True True True 1000000 (ascii ''c:'') [7] [1, 2] 2592001 \<noteq> None"
proof -
  have s: "memcached_set True True True 1000000 (ascii ''c:'') [7] [1, 2] 2592001 \<noteq> None"
    by (simp add: memcached_set_def mc_limits)
  then obtain cmd where c: "memcached_set True True True 1000000 (ascii ''c:'') [7] [1, 2] 2592001 = Some cmd" by blast
  show ?thesis using mc_set_deadline [OF c] s by (simp add: mc_exptime_def Let_def)
qed

subsection \<open>The ack reader\<close>

lemma mc_drain_step:
  assumes "length recv < MC_RECV" and "sock_recv (MC_RECV - length recv) e sock = (R_data d, sock')"
  shows "mc_read_drain rearm e sock recv =
    (case strlchr (recv @ d) LF of
       None \<Rightarrow> mc_read_drain rearm e sock' (recv @ d)
     | Some lf \<Rightarrow> if lf = 0 \<or> (recv @ d) ! (lf - 1) \<noteq> CR then Mc_end False
         else Mc_end (lf + 1 = length (recv @ d) \<and> mc_ack (recv @ d)))"
  using assms by (simp add: mc_read_drain.simps [of rearm e sock recv] Let_def)

lemma mc_drain_sound:
  assumes "mc_read_drain rearm e sock recv = Mc_end True" and "LF \<notin> set recv" and "[] \<notin> set sock"
  shows "\<exists>line rest. recv @ concat sock = line @ crlf @ rest \<and> LF \<notin> set line \<and> mc_ack (line @ crlf) \<and> length line + 2 \<le> MC_RECV"
  using assms
proof (induction "unread sock" arbitrary: sock recv rule: less_induct)
  case less
  have room: "length recv < MC_RECV"
    using less.prems(1) by (simp add: mc_read_drain.simps [of rearm e sock recv] split: if_splits)
  obtain d sock' where r: "sock_recv (MC_RECV - length recv) e sock = (R_data d, sock')"
    using less.prems(1) room
    by (cases "sock_recv (MC_RECV - length recv) e sock"; cases "fst (sock_recv (MC_RECV - length recv) e sock)")
      (auto simp: mc_read_drain.simps [of rearm e sock recv] split: if_splits)
  note d = recv_data [OF r]
  note step = mc_drain_step [OF room r, of rearm]
  show ?case
  proof (cases "strlchr (recv @ d) LF")
    case None
    then have "LF \<notin> set (recv @ d)" by (simp add: strlchr_None)
    then show ?thesis
      using less.hyps [OF recv_less [OF r], of "recv @ d"] step None less.prems(1,3) d by auto
  next
    case (Some lf)
    note s = strlchr_Some [OF Some]
    have t: "0 < lf" "(recv @ d) ! (lf - 1) = CR" "lf + 1 = length (recv @ d)" "mc_ack (recv @ d)"
      using step Some less.prems(1) by (auto split: if_splits)
    have "recv @ d = take lf (recv @ d) @ [LF]" using s t(3) by (metis Suc_eq_plus1 take_Suc_conv_app_nth take_all order_refl)
    moreover have "take lf (recv @ d) = take (lf - 1) (recv @ d) @ [CR]"
      using t(1,2) s by (metis Suc_diff_1 Suc_lessD less_imp_diff_less take_Suc_conv_app_nth)
    ultimately have w: "recv @ d = take (lf - 1) (recv @ d) @ crlf" by (metis append.assoc append_Cons append_Nil)
    let ?l = "take (lf - 1) (recv @ d)"
    have lf: "LF \<notin> set ?l" using s by (meson diff_le_self in_mono set_take_subset_set_take)
    have all: "recv @ concat sock = ?l @ crlf @ concat sock'" using d w by (metis append.assoc)
    have ack: "mc_ack (?l @ crlf)" using t(4) w by (simp only: )
    have "length (recv @ d) = length (?l @ crlf)" using w by (rule arg_cong)
    moreover have "length d \<le> MC_RECV - length recv" using d by simp
    then have "length (recv @ d) \<le> MC_RECV" using room by simp
    ultimately have "length ?l + 2 \<le> MC_RECV" by (simp only: length_append list.size)
    with lf all ack show ?thesis by blast
  qed
qed

lemma mc_drain_ack:
  assumes "recv @ concat sock = line @ crlf" and "LF \<notin> set line" and "mc_ack (line @ crlf)" and "length line + 2 \<le> MC_RECV"
    and "[] \<notin> set sock" and "strict_prefix recv (line @ crlf)"
  shows "mc_read_drain rearm e sock recv = Mc_end True"
  using assms
proof (induction "unread sock" arbitrary: sock recv rule: less_induct)
  case less
  have room: "length recv < MC_RECV" using prefix_length_less [OF less.prems(6)] less.prems(4) by simp
  have "sock \<noteq> []" using less.prems(1,6) by auto
  then obtain d sock' where r: "sock_recv (MC_RECV - length recv) e sock = (R_data d, sock')"
    using recv_some [of sock "MC_RECV - length recv" e] less.prems(5) room by auto
  note d = recv_data [OF r]
  note step = mc_drain_step [OF room r, of rearm]
  have w: "(recv @ d) @ concat sock' = line @ crlf" using d less.prems(1) by simp
  have at: "strlchr (line @ crlf) LF = Some (length line + 1)"
    using strlchr_first [of LF "line @ [CR]" "[]"] less.prems(2) by simp
  show ?case
  proof (cases "concat sock' = []")
    case True
    have "recv @ d = line @ crlf" using w unfolding True by simp
    then show ?thesis using step at less.prems(3) by (simp add: nth_append)
  next
    case False
    have sp: "strict_prefix (recv @ d) (line @ crlf)" by (rule pieces_left [OF False w])
    moreover have "line @ crlf = (line @ [CR]) @ [LF]" by simp
    ultimately have "prefix (recv @ d) (line @ [CR])" by (metis prefix_snoc strict_prefix_def)
    then have "LF \<notin> set (recv @ d)" using less.prems(2) set_mono_prefix by fastforce
    then have "strlchr (recv @ d) LF = None" by (simp add: strlchr_None)
    then show ?thesis using less.hyps [OF recv_less [OF r] w less.prems(2-4) _ sp] step d less.prems(5) by simp
  qed
qed

text \<open>
  A connection goes back to the pool only behind a known ack. If the reader of a SET or DELETE lets the
  connection be kept, the stream began with one complete line that is a STORED, DELETED or NOT_FOUND;
  and such a line, in any pieces, is always recognised.
\<close>

theorem mc_drain_boundary:
  assumes "[] \<notin> set sock"
  shows "(mc_read_drain rearm e sock [] = Mc_end True \<longrightarrow>
      (\<exists>line rest. concat sock = line @ crlf @ rest \<and> LF \<notin> set line \<and> mc_ack (line @ crlf))) \<and>
    (\<forall>line. concat sock = line @ crlf \<longrightarrow> LF \<notin> set line \<longrightarrow> mc_ack (line @ crlf) \<longrightarrow> length line + 2 \<le> MC_RECV \<longrightarrow>
      mc_read_drain rearm e sock [] = Mc_end True)"
proof (intro conjI impI allI)
  assume "mc_read_drain rearm e sock [] = Mc_end True"
  then show "\<exists>line rest. concat sock = line @ crlf @ rest \<and> LF \<notin> set line \<and> mc_ack (line @ crlf)"
    using mc_drain_sound [of rearm e sock "[]"] assms by auto
next
  fix line
  assume "concat sock = line @ crlf" "LF \<notin> set line" "mc_ack (line @ crlf)" "length line + 2 \<le> MC_RECV"
  then show "mc_read_drain rearm e sock [] = Mc_end True"
    using mc_drain_ack [of "[]" sock line rearm e] assms by (auto simp: strict_prefix_def)
qed

theorem mc_drain_boundary_witness:
  "mc_read_drain True Sock_open [ascii ''STO'', ascii ''RED'', crlf] [] = Mc_end True \<and>
   mc_read_drain True Sock_open [ascii ''ERROR'', crlf] [] \<noteq> Mc_end True"
proof
  show "mc_read_drain True Sock_open [ascii ''STO'', ascii ''RED'', crlf] [] = Mc_end True"
    using mc_drain_boundary [of "[ascii ''STO'', ascii ''RED'', crlf]" True Sock_open]
    by (auto simp: ascii_def mc_ack_def mc_limits dest!: spec [of _ "ascii ''STORED''"])
  have "\<not> mc_ack (line @ crlf)" if "ascii ''ERROR'' @ crlf = line @ crlf @ rest" "LF \<notin> set line" for line rest
    using that by (cases line) (auto simp: ascii_def mc_ack_def)
  then show "mc_read_drain True Sock_open [ascii ''ERROR'', crlf] [] \<noteq> Mc_end True"
    using mc_drain_boundary [of "[ascii ''ERROR'', crlf]" True Sock_open] by (auto simp: ascii_def)
qed

end
