(* ===== verification/Cookie.thy ===== *)
theory Cookie
  imports Cache_Control Normalize
begin

text \<open>
  Cookies (\<^verbatim>\<open>match.c\<close>): the value predicates and the exact-name lookup as they are compiled for the
  fuzzer (\<open>cookie_pred_one\<close> with its three phases, \<open>cookie_value\<close>), which scan the header for every
  question, and the index the module itself builds once per request (\<open>cookie_index\<close>) with the lookup and
  the predicates over it. The theorems say where the two agree and where they do not.

  A header value is the list of its bytes, the request's Cookie headers are a list of them. \<open>alloc\<close> answers
  the request pool's allocations.
\<close>

subsection \<open>One pair of a Cookie header\<close>

text \<open>Phase 1: skip to the next pair, cut it at the next semicolon, trim it.\<close>

definition cookie_pred_one_next_pair :: "bytes \<Rightarrow> bytes option \<times> bytes" where
  "cookie_pred_one_next_pair p =
    (let q = dropWhile (\<lambda>c. c = SP \<or> c = HTAB \<or> c = SEMICOLON) p
     in if q = [] then (None, [])
     else let pair = rtrim_ows (takeWhile (\<lambda>c. c \<noteq> SEMICOLON) q); rest = dropWhile (\<lambda>c. c \<noteq> SEMICOLON) q
     in (if pair = [] then None else Some pair, rest))"

lemma next_pair_less: "cookie_pred_one_next_pair p = (x, rest) \<Longrightarrow> p \<noteq> [] \<Longrightarrow> length rest < length p"
proof -
  assume a: "cookie_pred_one_next_pair p = (x, rest)" and "p \<noteq> []"
  let ?q = "dropWhile (\<lambda>c. c = SP \<or> c = HTAB \<or> c = SEMICOLON) p"
  show ?thesis
  proof (cases "?q")
    case Nil
    then show ?thesis using a \<open>p \<noteq> []\<close> by (simp add: cookie_pred_one_next_pair_def)
  next
    case (Cons c q)
    then have "c \<noteq> SEMICOLON" using hd_dropWhile [of "\<lambda>c. c = SP \<or> c = HTAB \<or> c = SEMICOLON" p] by auto
    then have "rest = dropWhile (\<lambda>c. c \<noteq> SEMICOLON) q" using a Cons by (auto simp: cookie_pred_one_next_pair_def Let_def)
    then have "length rest \<le> length q" by (simp add: length_dropWhile_le)
    moreover have "length (c # q) \<le> length p" unfolding Cons [symmetric] by (rule length_dropWhile_le)
    ultimately show ?thesis by simp
  qed
qed

definition name_has_suffix :: "bytes \<Rightarrow> bytes \<Rightarrow> bool" where
  "name_has_suffix n suffix \<longleftrightarrow>
    (if suffix = [] \<or> length n < length suffix then False
     else c_strncmp_eq (drop (length n - length suffix) n) suffix (length suffix))"

text \<open>A rule: the end of the cookie's name, the comparison, the literal.\<close>

datatype cvop = CVOP_NE | CVOP_EQ | CVOP_NONEMPTY

record cookie_pred =
  cp_suffix :: bytes
  cp_op :: cvop
  cp_value :: "bytes option"

text \<open>Phase 2: NGX_ERROR for another cookie, NGX_DECLINED for a bare name, NGX_OK with the value.\<close>

definition cookie_pred_one_split :: "bytes \<Rightarrow> cookie_pred \<Rightarrow> ngx_rc \<times> bytes" where
  "cookie_pred_one_split pair pr =
    (case strlchr pair EQUALS of
       None \<Rightarrow> if name_has_suffix (rtrim_ows pair) (cp_suffix pr) then (NGX_DECLINED, []) else (NGX_ERROR, [])
     | Some eq \<Rightarrow>
         if \<not> name_has_suffix (rtrim_ows (take eq pair)) (cp_suffix pr) then (NGX_ERROR, [])
         else (NGX_OK, dropWhile is_ows (drop (eq + 1) pair)))"

text \<open>Phase 3: does this value decide for a bypass?\<close>

definition cookie_pred_one_dispatch :: "bytes \<Rightarrow> cookie_pred \<Rightarrow> bool" where
  "cookie_pred_one_dispatch val pr =
    (let same = (case cp_value pr of None \<Rightarrow> False | Some v \<Rightarrow> length val = length v \<and> c_strncmp_eq val v (length v))
     in case cp_op pr of
       CVOP_NONEMPTY \<Rightarrow> 0 < length val
     | CVOP_EQ \<Rightarrow> same
     | CVOP_NE \<Rightarrow> \<not> same)"

function cookie_pred_one :: "bytes \<Rightarrow> cookie_pred \<Rightarrow> bool" where
  "cookie_pred_one p pr =
    (if p = [] then False
     else case cookie_pred_one_next_pair p of
       (None, rest) \<Rightarrow> cookie_pred_one rest pr
     | (Some pair, rest) \<Rightarrow>
         (case cookie_pred_one_split pair pr of
            (NGX_ERROR, _) \<Rightarrow> cookie_pred_one rest pr
          | (NGX_DECLINED, _) \<Rightarrow> True
          | (_, val) \<Rightarrow> if cookie_pred_one_dispatch val pr then True else cookie_pred_one rest pr))"
  by pat_completeness auto
termination
  by (relation "measure (\<lambda>(p, pr). length p)") (auto dest: next_pair_less [OF sym])

declare cookie_pred_one.simps [simp del]

definition cookie_pred_any :: "bytes list \<Rightarrow> cookie_pred list \<Rightarrow> bool" where
  "cookie_pred_any headers preds \<longleftrightarrow> list_ex (\<lambda>pr. list_ex (\<lambda>ck. cookie_pred_one ck pr) headers) preds"

text \<open>The value of one cookie, by its exact name, from one header.\<close>

function cookie_value :: "bytes \<Rightarrow> bytes \<Rightarrow> bytes option" where
  "cookie_value p name =
    (if p = [] then None
     else case cookie_pred_one_next_pair p of
       (None, rest) \<Rightarrow> cookie_value rest name
     | (Some pair, rest) \<Rightarrow>
         (case strlchr pair EQUALS of
            None \<Rightarrow>
              let n = rtrim_ows pair
              in if length n = length name \<and> c_strncmp_eq n name (length name) then Some [] else cookie_value rest name
          | Some eq \<Rightarrow>
              let n = rtrim_ows (take eq pair)
              in if length n \<noteq> length name \<or> \<not> c_strncmp_eq n name (length name) then cookie_value rest name
              else Some (dropWhile is_ows (drop (eq + 1) pair))))"
  by pat_completeness auto
termination
  by (relation "measure (\<lambda>(p, name). length p)") (auto dest: next_pair_less [OF sym])

declare cookie_value.simps [simp del]

subsection \<open>The index of a request\<close>

record cookie_pair =
  ck_name :: bytes
  ck_value :: bytes
  ck_bare :: bool

type_synonym cookie_index = "cookie_pair list \<times> nat"

definition NGX_MAX_SIZE_T_VALUE :: nat where "NGX_MAX_SIZE_T_VALUE = 2 ^ 63 - 1"
definition COOKIE_PAIR_SIZE :: nat where "COOKIE_PAIR_SIZE = 40"

definition cookie_index_add :: "(nat \<Rightarrow> bool) \<Rightarrow> cookie_index \<Rightarrow> bytes \<Rightarrow> bytes \<Rightarrow> bool \<Rightarrow> cookie_index option" where
  "cookie_index_add alloc idx name val bare =
    (let (pairs, cap) = idx
     in if list_ex (\<lambda>p. length (ck_name p) = length name \<and> c_strncmp_eq (ck_name p) name (length name)) pairs then Some idx
     else if length pairs = cap
          \<and> (cap > NGX_MAX_SIZE_T_VALUE div (2 * COOKIE_PAIR_SIZE) \<or> \<not> alloc (cap * 2 * COOKIE_PAIR_SIZE)) then None
     else Some (pairs @ [\<lparr>ck_name = name, ck_value = val, ck_bare = bare\<rparr>], if length pairs = cap then cap * 2 else cap))"

function cookie_index_parse_one :: "(nat \<Rightarrow> bool) \<Rightarrow> cookie_index \<Rightarrow> bytes \<Rightarrow> cookie_index option" where
  "cookie_index_parse_one alloc idx p =
    (if p = [] then Some idx
     else case cookie_pred_one_next_pair p of
       (None, rest) \<Rightarrow> cookie_index_parse_one alloc idx rest
     | (Some pair, rest) \<Rightarrow>
         (case (case strlchr pair EQUALS of
              None \<Rightarrow> cookie_index_add alloc idx (rtrim_ows pair) [] True
            | Some eq \<Rightarrow> cookie_index_add alloc idx (rtrim_ows (take eq pair)) (dropWhile is_ows (drop (eq + 1) pair)) False) of
            None \<Rightarrow> None
          | Some idx \<Rightarrow> cookie_index_parse_one alloc idx rest))"
  by pat_completeness auto
termination
  by (relation "measure (\<lambda>(alloc, idx, p). length p)") (auto dest: next_pair_less [OF sym])

declare cookie_index_parse_one.simps [simp del]

fun cookie_index_parse :: "(nat \<Rightarrow> bool) \<Rightarrow> cookie_index \<Rightarrow> bytes list \<Rightarrow> cookie_index option" where
  "cookie_index_parse alloc idx [] = Some idx"
| "cookie_index_parse alloc idx (ck # cks) =
    (case cookie_index_parse_one alloc idx ck of None \<Rightarrow> None | Some idx \<Rightarrow> cookie_index_parse alloc idx cks)"

text \<open>The index of the request: kept in its context once built; None when there is no context or no memory.\<close>

record match_ctx =
  mx_index :: "cookie_pair list option"

definition cookie_index :: "(nat \<Rightarrow> bool) \<Rightarrow> bytes list \<Rightarrow> match_ctx option \<Rightarrow> cookie_pair list option \<times> match_ctx option" where
  "cookie_index alloc headers ctx =
    (case ctx of
       None \<Rightarrow> (None, None)
     | Some cx \<Rightarrow>
         (case mx_index cx of
            Some pairs \<Rightarrow> (Some pairs, ctx)
          | None \<Rightarrow>
              (case cookie_index_parse alloc ([], 16) headers of
                 None \<Rightarrow> (None, ctx)
               | Some (pairs, cap) \<Rightarrow> (Some pairs, Some (cx\<lparr>mx_index := Some pairs\<rparr>)))))"

definition cookie_index_lookup :: "(nat \<Rightarrow> bool) \<Rightarrow> bytes list \<Rightarrow> match_ctx option \<Rightarrow> bytes \<Rightarrow> bytes option" where
  "cookie_index_lookup alloc headers ctx name =
    (case fst (cookie_index alloc headers ctx) of
       None \<Rightarrow> None
     | Some pairs \<Rightarrow>
         map_option ck_value (find (\<lambda>p. length (ck_name p) = length name \<and> c_strncmp_eq (ck_name p) name (length name)) pairs))"

text \<open>One rule against one pair of the index.\<close>

definition pred_index_fires :: "cookie_pair \<Rightarrow> cookie_pred \<Rightarrow> bool" where
  "pred_index_fires p pr =
    (if cp_suffix pr = [] \<or> length (ck_name p) < length (cp_suffix pr)
        \<or> \<not> c_strncmp_eq (drop (length (ck_name p) - length (cp_suffix pr)) (ck_name p)) (cp_suffix pr) (length (cp_suffix pr))
     then False
     else if ck_bare p then True
     else case cp_op pr of
       CVOP_NONEMPTY \<Rightarrow> 0 < length (ck_value p)
     | CVOP_EQ \<Rightarrow> (case cp_value pr of None \<Rightarrow> False
         | Some v \<Rightarrow> length (ck_value p) = length v \<and> c_strncmp_eq (ck_value p) v (length v))
     | CVOP_NE \<Rightarrow> (case cp_value pr of None \<Rightarrow> True
         | Some v \<Rightarrow> length (ck_value p) \<noteq> length v \<or> \<not> c_strncmp_eq (ck_value p) v (length v)))"

definition cookie_pred_index_match :: "(nat \<Rightarrow> bool) \<Rightarrow> bytes list \<Rightarrow> match_ctx option \<Rightarrow> cookie_pred list \<Rightarrow> bool" where
  "cookie_pred_index_match alloc headers ctx preds =
    (if preds = [] then False
     else case fst (cookie_index alloc headers ctx) of
       None \<Rightarrow> True
     | Some pairs \<Rightarrow> list_ex (\<lambda>p. list_ex (pred_index_fires p) preds) pairs)"

subsection \<open>The pairs of a header\<close>

text \<open>What all of these scans see: the pairs in their order.\<close>

definition pair_of :: "bytes \<Rightarrow> cookie_pair" where
  "pair_of pair = (case strlchr pair EQUALS of
     None \<Rightarrow> \<lparr>ck_name = rtrim_ows pair, ck_value = [], ck_bare = True\<rparr>
   | Some eq \<Rightarrow> \<lparr>ck_name = rtrim_ows (take eq pair), ck_value = dropWhile is_ows (drop (eq + 1) pair), ck_bare = False\<rparr>)"

function cookie_pairs :: "bytes \<Rightarrow> cookie_pair list" where
  "cookie_pairs p =
    (if p = [] then []
     else case cookie_pred_one_next_pair p of
       (None, rest) \<Rightarrow> cookie_pairs rest
     | (Some pair, rest) \<Rightarrow> pair_of pair # cookie_pairs rest)"
  by pat_completeness auto
termination
  by (relation "measure length") (auto dest: next_pair_less [OF sym])

declare cookie_pairs.simps [simp del]

definition same_name :: "bytes \<Rightarrow> cookie_pair \<Rightarrow> bool" where
  "same_name name p \<longleftrightarrow> length (ck_name p) = length name \<and> c_strncmp_eq (ck_name p) name (length name)"

lemma fires_dispatch: "pred_index_fires p pr \<longleftrightarrow> name_has_suffix (ck_name p) (cp_suffix pr) \<and>
    (ck_bare p \<or> cookie_pred_one_dispatch (ck_value p) pr)"
  by (cases "cp_op pr"; cases "cp_value pr") (simp_all add: pred_index_fires_def name_has_suffix_def cookie_pred_one_dispatch_def)

lemma split_fires:
  "(case cookie_pred_one_split pair pr of (NGX_ERROR, _) \<Rightarrow> b | (NGX_DECLINED, _) \<Rightarrow> True
     | (_, val) \<Rightarrow> if cookie_pred_one_dispatch val pr then True else b) \<longleftrightarrow> pred_index_fires (pair_of pair) pr \<or> b"
  by (cases "strlchr pair EQUALS") (simp_all add: cookie_pred_one_split_def fires_dispatch pair_of_def)

lemma pred_one_pairs: "cookie_pred_one p pr = list_ex (\<lambda>q. pred_index_fires q pr) (cookie_pairs p)"
proof (induction p rule: cookie_pairs.induct)
  case (1 p)
  show ?case
  proof (cases "p = []")
    case False
    obtain x rest where n: "cookie_pred_one_next_pair p = (x, rest)" by force
    show ?thesis
    proof (cases x)
      case None
      then show ?thesis using False n 1(1) [OF False n [symmetric]]
        by (simp add: cookie_pred_one.simps [of p] cookie_pairs.simps [of p])
    next
      case (Some pair)
      note IH = 1(2) [OF False n [symmetric] Some]
      show ?thesis using False n Some IH by (simp add: cookie_pred_one.simps [of p] cookie_pairs.simps [of p] split_fires)
    qed
  qed (simp add: cookie_pred_one.simps cookie_pairs.simps)
qed

lemma value_pairs: "cookie_value p name = map_option ck_value (find (same_name name) (cookie_pairs p))"
proof (induction p rule: cookie_pairs.induct)
  case (1 p)
  show ?case
  proof (cases "p = []")
    case False
    obtain x rest where n: "cookie_pred_one_next_pair p = (x, rest)" by force
    show ?thesis
    proof (cases x)
      case None
      then show ?thesis using False n 1(1) [OF False n [symmetric]]
        by (simp add: cookie_value.simps [of p] cookie_pairs.simps [of p])
    next
      case (Some pair)
      note IH = 1(2) [OF False n [symmetric] Some]
      show ?thesis using False n Some IH
        by (auto simp: cookie_value.simps [of p] cookie_pairs.simps [of p] pair_of_def same_name_def Let_def split: option.split)
    qed
  qed (simp add: cookie_value.simps cookie_pairs.simps)
qed

text \<open>Adding the pairs of a header one by one.\<close>

fun index_pairs :: "(nat \<Rightarrow> bool) \<Rightarrow> cookie_index \<Rightarrow> cookie_pair list \<Rightarrow> cookie_index option" where
  "index_pairs alloc idx [] = Some idx"
| "index_pairs alloc idx (p # ps) =
    (case cookie_index_add alloc idx (ck_name p) (ck_value p) (ck_bare p) of None \<Rightarrow> None | Some idx \<Rightarrow> index_pairs alloc idx ps)"

lemma index_pairs_append: "index_pairs alloc idx (ps @ qs) = Option.bind (index_pairs alloc idx ps) (\<lambda>idx. index_pairs alloc idx qs)"
  by (induction ps arbitrary: idx) (auto split: option.split)

lemma parse_one_pairs: "cookie_index_parse_one alloc idx p = index_pairs alloc idx (cookie_pairs p)"
proof (induction p arbitrary: idx rule: cookie_pairs.induct)
  case (1 p)
  show ?case
  proof (cases "p = []")
    case False
    obtain x rest where n: "cookie_pred_one_next_pair p = (x, rest)" by force
    show ?thesis
    proof (cases x)
      case None
      then show ?thesis using False n 1(1) [OF False n [symmetric]]
        by (simp add: cookie_index_parse_one.simps [of alloc idx p] cookie_pairs.simps [of p])
    next
      case (Some pair)
      note IH = 1(2) [OF False n [symmetric] Some]
      show ?thesis using False n Some IH
        by (auto simp: cookie_index_parse_one.simps [of alloc idx p] cookie_pairs.simps [of p] pair_of_def split: option.split)
    qed
  qed (simp add: cookie_index_parse_one.simps cookie_pairs.simps)
qed

lemma parse_pairs: "cookie_index_parse alloc idx headers = index_pairs alloc idx (concat (map cookie_pairs headers))"
  by (induction headers arbitrary: idx) (auto simp: parse_one_pairs index_pairs_append split: option.split bind_split)


subsection \<open>The first pair of each name\<close>

text \<open>Two names of one length are the same to \<open>strncmp\<close> if they agree up to a NUL.\<close>

lemma strncmp_cstr: "length a = length b \<Longrightarrow>
    c_strncmp_eq a b (length b) \<longleftrightarrow> takeWhile (\<lambda>c. c \<noteq> 0) a = takeWhile (\<lambda>c. c \<noteq> 0) b"
  by (induction a b rule: list_induct2) (auto simp: cur_byte_def)

definition name_key :: "bytes \<Rightarrow> nat \<times> bytes" where
  "name_key n = (length n, takeWhile (\<lambda>c. c \<noteq> 0) n)"

lemma same_name_key: "same_name name p \<longleftrightarrow> name_key (ck_name p) = name_key name"
  by (auto simp: same_name_def name_key_def strncmp_cstr)

fun first_pairs :: "cookie_pair list \<Rightarrow> cookie_pair list \<Rightarrow> cookie_pair list" where
  "first_pairs acc [] = acc"
| "first_pairs acc (p # ps) = first_pairs (if \<exists>q\<in>set acc. name_key (ck_name q) = name_key (ck_name p) then acc else acc @ [p]) ps"

lemma index_add_cases:
  assumes "cookie_index_add alloc (pairs, cap) (ck_name p) (ck_value p) (ck_bare p) = Some (pairs', cap')"
  shows "pairs' = first_pairs pairs [p]"
  using assms same_name_key [of "ck_name p"]
  by (cases p) (auto simp: cookie_index_add_def list_ex_iff same_name_def split: if_splits)

lemma index_pairs_firsts: "index_pairs alloc (acc, cap) ps = Some (pairs, cap') \<Longrightarrow> pairs = first_pairs acc ps"
proof (induction ps arbitrary: acc cap)
  case (Cons p ps)
  then obtain acc' c where add: "cookie_index_add alloc (acc, cap) (ck_name p) (ck_value p) (ck_bare p) = Some (acc', c)"
    by (auto split: option.splits)
  then show ?case using Cons index_add_cases [OF add] by simp
qed simp

lemma index_pairs_built:
  assumes "\<forall>n. alloc n" and "length acc + length ps \<le> 2 ^ 50" and "length acc \<le> cap" and "cap \<le> 16 \<or> cap \<le> 2 * length acc" and "0 < cap"
  shows "\<exists>cap'. index_pairs alloc (acc, cap) ps = Some (first_pairs acc ps, cap')"
  using assms
proof (induction ps arbitrary: acc cap)
  case (Cons p ps)
  have small: "\<not> cap > NGX_MAX_SIZE_T_VALUE div (2 * COOKIE_PAIR_SIZE)" if "length acc = cap"
    using that Cons.prems(2) by (simp add: NGX_MAX_SIZE_T_VALUE_def COOKIE_PAIR_SIZE_def)
  then obtain acc' c where add: "cookie_index_add alloc (acc, cap) (ck_name p) (ck_value p) (ck_bare p) = Some (acc', c)"
    and c: "acc' = acc \<and> c = cap \<or> length acc' = Suc (length acc) \<and> c = (if length acc = cap then cap * 2 else cap)"
    using Cons.prems(1) by (cases "cookie_index_add alloc (acc, cap) (ck_name p) (ck_value p) (ck_bare p)")
      (auto simp: cookie_index_add_def split: if_splits)
  have "\<exists>cap'. index_pairs alloc (acc', c) ps = Some (first_pairs acc' ps, cap')"
    using c Cons.prems by (intro Cons.IH) (auto simp: Suc_le_eq split: if_splits)
  then show ?case using add index_add_cases [OF add] by simp
qed simp

lemma find_append: "find P (xs @ ys) = (case find P xs of None \<Rightarrow> find P ys | Some x \<Rightarrow> Some x)"
  by (induction xs) auto

lemma find_none_iff: "find P xs = None \<longleftrightarrow> (\<forall>x\<in>set xs. \<not> P x)"
  by (induction xs) auto

lemma find_firsts: "find (same_name name) (first_pairs acc ps) = find (same_name name) (acc @ ps)"
proof (induction ps arbitrary: acc)
  case (Cons p ps)
  show ?case
  proof (cases "\<exists>q\<in>set acc. name_key (ck_name q) = name_key (ck_name p)")
    case True
    have "find (same_name name) (acc @ ps) = find (same_name name) (acc @ p # ps)"
    proof (cases "same_name name p")
      case True
      then have "find (same_name name) acc \<noteq> None"
        using \<open>\<exists>q\<in>set acc. _\<close> by (auto simp: find_none_iff same_name_key)
      then show ?thesis by (auto simp: find_append)
    next
      case False
      then have "find (same_name name) (p # ps) = find (same_name name) ps" by simp
      then show ?thesis by (simp only: find_append)
    qed
    then show ?thesis using Cons True by simp
  qed (simp add: Cons)
qed simp

lemma first_pairs_subset: "set (first_pairs acc ps) \<subseteq> set acc \<union> set ps"
proof (induction ps arbitrary: acc)
  case (Cons p ps)
  show ?case using Cons [of "acc @ [p]"] Cons [of acc] by auto
qed simp

lemma first_pairs_distinct:
  "distinct (map (\<lambda>p. name_key (ck_name p)) (acc @ ps)) \<Longrightarrow> first_pairs acc ps = acc @ ps"
proof (induction ps arbitrary: acc)
  case (Cons p ps)
  then have "\<not> (\<exists>q\<in>set acc. name_key (ck_name q) = name_key (ck_name p))" by (auto simp: image_iff)
  then show ?case using Cons by simp
qed simp

definition fresh_match :: match_ctx where "fresh_match = \<lparr>mx_index = None\<rparr>"

definition header_pairs :: "bytes list \<Rightarrow> cookie_pair list" where
  "header_pairs headers = concat (map cookie_pairs headers)"

lemma index_built:
  assumes "\<forall>n. alloc n" and "length (header_pairs headers) \<le> 2 ^ 50"
  shows "cookie_index alloc headers (Some fresh_match) =
    (Some (first_pairs [] (header_pairs headers)), Some \<lparr>mx_index = Some (first_pairs [] (header_pairs headers))\<rparr>)"
  using index_pairs_built [OF assms(1), of "[]" "header_pairs headers" 16] assms(2)
  by (auto simp: cookie_index_def fresh_match_def parse_pairs header_pairs_def [symmetric])

subsection \<open>Index and scan\<close>

text \<open>The scan of the other build: the first header that has the cookie.\<close>

definition scan_lookup :: "bytes list \<Rightarrow> bytes \<Rightarrow> bytes option" where
  "scan_lookup headers name = Option.bind (find (\<lambda>ck. cookie_value ck name \<noteq> None) headers) (\<lambda>ck. cookie_value ck name)"

lemma scan_lookup_pairs: "scan_lookup headers name = map_option ck_value (find (same_name name) (header_pairs headers))"
proof (induction headers)
  case Nil
  then show ?case by (simp add: scan_lookup_def header_pairs_def)
next
  case (Cons ck headers)
  then show ?case
    by (cases "find (same_name name) (cookie_pairs ck)")
      (auto simp: scan_lookup_def header_pairs_def value_pairs find_append)
qed

text \<open>
  C18: The cookie a key is made of is the first of its name. The lookup in the index gives, for every name and
  every list of Cookie headers, what scanning the headers in order for the exact name gives, now and
  again from the index kept in the context; a decoy with a longer name, an unnamed pair or a later
  duplicate never changes the answer.
\<close>

theorem cookie_lookup_is_scan:
  assumes "\<forall>n. alloc n" and "length (header_pairs headers) \<le> 2 ^ 50"
  shows "cookie_index_lookup alloc headers (Some fresh_match) name = scan_lookup headers name \<and>
    cookie_index_lookup alloc' headers (snd (cookie_index alloc headers (Some fresh_match))) name = scan_lookup headers name"
proof -
  have "map_option ck_value (find (\<lambda>p. length (ck_name p) = length name \<and> c_strncmp_eq (ck_name p) name (length name))
      (first_pairs [] (header_pairs headers))) = scan_lookup headers name"
    using find_firsts [of name "[]" "header_pairs headers"] by (simp add: scan_lookup_pairs same_name_def [abs_def])
  then show ?thesis unfolding cookie_index_lookup_def index_built [OF assms] by (simp add: cookie_index_def)
qed

lemma index_match_firsts:
  assumes "\<forall>n. alloc n" and "length (header_pairs headers) \<le> 2 ^ 50"
  shows "cookie_pred_index_match alloc headers (Some fresh_match) preds \<longleftrightarrow>
    (\<exists>p\<in>set (first_pairs [] (header_pairs headers)). \<exists>pr\<in>set preds. pred_index_fires p pr)"
  unfolding cookie_pred_index_match_def index_built [OF assms] by (auto simp: list_ex_iff)

lemma pred_any_pairs: "cookie_pred_any headers preds \<longleftrightarrow>
    (\<exists>p\<in>set (header_pairs headers). \<exists>pr\<in>set preds. pred_index_fires p pr)"
  by (auto simp: cookie_pred_any_def list_ex_iff pred_one_pairs header_pairs_def)


text \<open>
  C19: The index sees only the first cookie of each name. Its answer to the value predicates implies the
  answer of the scan, and is the same where no name occurs twice, over all Cookie headers. With the rule
  for phpBB (a name ending in \<open>_u\<close> whose value is not 1), a guest's cookie in front of a member's hides it
  from the index when both have the same name, and does not when the names differ.
\<close>

theorem pred_index_is_scan:
  assumes "\<forall>n. alloc n" and "length (header_pairs headers) \<le> 2 ^ 50"
  defines "rule \<equiv> \<lparr>cp_suffix = ascii ''_u'', cp_op = CVOP_NE, cp_value = Some (ascii ''1'')\<rparr>"
  shows "(cookie_pred_index_match alloc headers (Some fresh_match) preds \<longrightarrow> cookie_pred_any headers preds) \<and>
    (distinct (map (\<lambda>p. name_key (ck_name p)) (header_pairs headers)) \<longrightarrow>
      cookie_pred_index_match alloc headers (Some fresh_match) preds = cookie_pred_any headers preds) \<and>
    cookie_pred_any [ascii ''a_u=1; a_u=42''] [rule] \<and>
    \<not> cookie_pred_index_match alloc [ascii ''a_u=1; a_u=42''] (Some fresh_match) [rule] \<and>
    cookie_pred_index_match alloc [ascii ''a_u=1; b_u=42''] (Some fresh_match) [rule]"
proof (intro conjI impI)
  assume "cookie_pred_index_match alloc headers (Some fresh_match) preds"
  then show "cookie_pred_any headers preds"
    unfolding index_match_firsts [OF assms(1,2)] pred_any_pairs using first_pairs_subset [of "[]" "header_pairs headers"] by auto
next
  assume "distinct (map (\<lambda>p. name_key (ck_name p)) (header_pairs headers))"
  then show "cookie_pred_index_match alloc headers (Some fresh_match) preds = cookie_pred_any headers preds"
    unfolding index_match_firsts [OF assms(1,2)] pred_any_pairs using first_pairs_distinct [of "[]" "header_pairs headers"] by simp
next
  have h: "header_pairs [ascii ''a_u=1; a_u=42''] =
      [\<lparr>ck_name = ascii ''a_u'', ck_value = ascii ''1'', ck_bare = False\<rparr>, \<lparr>ck_name = ascii ''a_u'', ck_value = ascii ''42'', ck_bare = False\<rparr>]"
    "header_pairs [ascii ''a_u=1; b_u=42''] =
      [\<lparr>ck_name = ascii ''a_u'', ck_value = ascii ''1'', ck_bare = False\<rparr>, \<lparr>ck_name = ascii ''b_u'', ck_value = ascii ''42'', ck_bare = False\<rparr>]"
    by code_simp+
  have f: "first_pairs [] [\<lparr>ck_name = ascii ''a_u'', ck_value = ascii ''1'', ck_bare = False\<rparr>, \<lparr>ck_name = ascii ''a_u'', ck_value = ascii ''42'', ck_bare = False\<rparr>] =
      [\<lparr>ck_name = ascii ''a_u'', ck_value = ascii ''1'', ck_bare = False\<rparr>]"
    "first_pairs [] [\<lparr>ck_name = ascii ''a_u'', ck_value = ascii ''1'', ck_bare = False\<rparr>, \<lparr>ck_name = ascii ''b_u'', ck_value = ascii ''42'', ck_bare = False\<rparr>] =
      [\<lparr>ck_name = ascii ''a_u'', ck_value = ascii ''1'', ck_bare = False\<rparr>, \<lparr>ck_name = ascii ''b_u'', ck_value = ascii ''42'', ck_bare = False\<rparr>]"
    by code_simp+
  have fire: "\<not> pred_index_fires \<lparr>ck_name = ascii ''a_u'', ck_value = ascii ''1'', ck_bare = False\<rparr> rule"
    "pred_index_fires \<lparr>ck_name = ascii ''a_u'', ck_value = ascii ''42'', ck_bare = False\<rparr> rule"
    "pred_index_fires \<lparr>ck_name = ascii ''b_u'', ck_value = ascii ''42'', ck_bare = False\<rparr> rule"
    unfolding rule_def by code_simp+
  show "cookie_pred_any [ascii ''a_u=1; a_u=42''] [rule]" using fire by (simp add: pred_any_pairs h)
  show "\<not> cookie_pred_index_match alloc [ascii ''a_u=1; a_u=42''] (Some fresh_match) [rule]"
    using fire by (subst index_match_firsts [OF assms(1)]) (simp_all add: h f del: first_pairs.simps)
  show "cookie_pred_index_match alloc [ascii ''a_u=1; b_u=42''] (Some fresh_match) [rule]"
    using fire by (subst index_match_firsts [OF assms(1)]) (simp_all add: h f del: first_pairs.simps)
qed

theorem pred_index_is_scan_witness:
  "\<not> cookie_pred_index_match (\<lambda>_. True) [ascii ''a_u=1; a_u=42''] (Some fresh_match)
     [\<lparr>cp_suffix = ascii ''_u'', cp_op = CVOP_NE, cp_value = Some (ascii ''1'')\<rparr>]"
  using pred_index_is_scan [of "\<lambda>_. True" "[]" "[]"] by (simp add: header_pairs_def)

theorem cookie_lookup_is_scan_witness:
  "cookie_index_lookup (\<lambda>_. True) [ascii ''NOT-v=9; x'', ascii ''v=2; v=3''] (Some fresh_match) (ascii ''v'') = Some (ascii ''2'')"
proof -
  have "length (header_pairs [ascii ''NOT-v=9; x'', ascii ''v=2; v=3'']) = 4" by code_simp
  moreover have "scan_lookup [ascii ''NOT-v=9; x'', ascii ''v=2; v=3''] (ascii ''v'') = Some (ascii ''2'')" by code_simp
  ultimately show ?thesis
    using cookie_lookup_is_scan [of "\<lambda>_. True" "[ascii ''NOT-v=9; x'', ascii ''v=2; v=3'']" "ascii ''v''"] by simp
qed

end
