(* ===== verification/Cache_Key.thy ===== *)
theory Cache_Key
  imports Cookie Blob
begin

text \<open>
  The cache key (\<^verbatim>\<open>module.c\<close>: \<open>build_key\<close> and its \<open>key_fold_\<close> helpers, \<^verbatim>\<open>match.c\<close>: \<open>key_cookie\<close>): a base,
  behind which every configured cookie the request carries is framed with its name and value. The
  operator's key expression, the digest and the pool are arguments; the cookie lookup is a function of
  the name, which for the module is \<open>cookie_index_lookup\<close>.
\<close>

subsection \<open>The cookies of the key\<close>

text \<open>The iterator over the presets' names: the next one the request carries, and where to go on.\<close>

function key_cookie_from :: "(bytes \<Rightarrow> bytes option) \<Rightarrow> bytes list \<Rightarrow> nat \<Rightarrow> (bytes \<times> bytes) option \<times> nat" where
  "key_cookie_from look names i =
    (if i \<ge> length names then (None, length names)
     else case look (names ! i) of
       Some val \<Rightarrow> (Some (names ! i, val), i + 1)
     | None \<Rightarrow> key_cookie_from look names (i + 1))"
  by pat_completeness auto
termination by (relation "measure (\<lambda>(look, names, i). length names - i)") auto

declare key_cookie_from.simps [simp del]

definition key_cookie :: "(bytes \<Rightarrow> bytes option) \<Rightarrow> bytes list \<Rightarrow> nat \<Rightarrow> (bytes \<times> bytes) option \<times> nat" where
  "key_cookie look names cursor = (if names = [] then (None, 0) else key_cookie_from look names cursor)"

lemma key_cookie_from_less:
  "key_cookie_from look names i = (Some p, j) \<Longrightarrow> i < j \<and> j \<le> length names"
proof (induction look names i rule: key_cookie_from.induct)
  case (1 look names i)
  then show ?case by (fastforce simp: key_cookie_from.simps [of look names i] split: if_splits option.splits)
qed

text \<open>The caller's loop: queue every cookie of the presets. None is a failed push.\<close>

function collect_preset :: "(nat \<Rightarrow> bool) \<Rightarrow> (bytes \<Rightarrow> bytes option) \<Rightarrow> bytes list \<Rightarrow> nat \<Rightarrow> (bytes \<times> bytes) list \<Rightarrow> (bytes \<times> bytes) list option" where
  "collect_preset push look names cursor slots =
    (case key_cookie look names cursor of
       (None, _) \<Rightarrow> Some slots
     | (Some p, cursor) \<Rightarrow> if push (length slots) then collect_preset push look names cursor (slots @ [p]) else None)"
  by pat_completeness auto
termination
  by (relation "measure (\<lambda>(push, look, names, cursor, slots). length names - cursor)")
    (auto simp: key_cookie_def dest: key_cookie_from_less [OF sym] split: if_splits)

declare collect_preset.simps [simp del]

fun collect_names :: "(nat \<Rightarrow> bool) \<Rightarrow> (bytes \<Rightarrow> bytes option) \<Rightarrow> bytes list \<Rightarrow> (bytes \<times> bytes) list \<Rightarrow> (bytes \<times> bytes) list option" where
  "collect_names push look [] slots = Some slots"
| "collect_names push look (nm # nms) slots =
    (case look nm of
       None \<Rightarrow> collect_names push look nms slots
     | Some val \<Rightarrow> if push (length slots) then collect_names push look nms (slots @ [(nm, val)]) else None)"

subsection \<open>The fold\<close>

definition KEY_COOKIE_MAX :: nat where "KEY_COOKIE_MAX = 256"
definition KEY_COOKIE_OVERSIZE :: u32 where "KEY_COOKIE_OVERSIZE = 0xffffffff"

text \<open>The two length fields of a slot, and the room it takes.\<close>

definition key_fold_size :: "bytes \<times> bytes \<Rightarrow> nat \<times> u32 \<times> nat" where
  "key_fold_size s =
    (let (name, val) = s;
         (vlen, vfield) = (if length val > KEY_COOKIE_MAX then (0, KEY_COOKIE_OVERSIZE) else (length val, of_nat (length val)))
     in (vlen, vfield, 1 + 4 + 4 + length name + vlen))"

definition key_fold_append :: "bytes \<Rightarrow> nat \<Rightarrow> u32 \<Rightarrow> bytes \<Rightarrow> bytes" where
  "key_fold_append name vlen vfield val = 0x1F # put_u32 (of_nat (length name)) @ put_u32 vfield @ name @ take vlen val"

definition key_fold_all :: "(nat \<Rightarrow> bool) \<Rightarrow> bytes \<Rightarrow> (bytes \<times> bytes) list \<Rightarrow> bytes option" where
  "key_fold_all alloc key slots =
    (if slots = [] then Some key
     else let klen = length key + sum_list (map (\<lambda>s. snd (snd (key_fold_size s))) slots)
     in if \<not> alloc klen then None
     else Some (key @ concat (map (\<lambda>s. let (vlen, vfield, _) = key_fold_size s in key_fold_append (fst s) vlen vfield (snd s)) slots)))"

text \<open>What the request and the location give: the result of the key expression if one is configured, the
  default's two parts, the names of the presets and of the directive, the pool.\<close>

record key_env =
  ke_expr :: "bytes option option"
  ke_host :: bytes
  ke_uri :: bytes
  ke_presets :: "bytes list"
  ke_names :: "bytes list"
  ke_look :: "bytes \<Rightarrow> bytes option"
  ke_alloc :: "nat \<Rightarrow> bool"
  ke_array :: bool
  ke_push :: "nat \<Rightarrow> bool"
  ke_digest :: "bytes \<Rightarrow> bytes option"

definition key_base :: "key_env \<Rightarrow> bytes option" where
  "key_base env =
    (case ke_expr env of
       Some ev \<Rightarrow> ev
     | None \<Rightarrow>
         let klen = length (ke_host env) + length (ke_uri env)
         in if \<not> ke_alloc env (if klen = 0 then 1 else klen) then None else Some (ke_host env @ ke_uri env))"

definition build_key :: "key_env \<Rightarrow> (bytes \<times> bytes) option" where
  "build_key env =
    (case key_base env of
       None \<Rightarrow> None
     | Some key \<Rightarrow>
         if (ke_presets env \<noteq> [] \<or> ke_names env \<noteq> []) \<and> \<not> ke_array env then None
         else case (if ke_presets env \<noteq> [] then collect_preset (ke_push env) (ke_look env) (ke_presets env) 0 [] else Some []) of
           None \<Rightarrow> None
         | Some slots \<Rightarrow>
             (case collect_names (ke_push env) (ke_look env) (ke_names env) slots of
                None \<Rightarrow> None
              | Some slots \<Rightarrow>
                  (case key_fold_all (ke_alloc env) key slots of
                     None \<Rightarrow> None
                   | Some key \<Rightarrow> map_option (Pair key) (ke_digest env key))))"

subsection \<open>What is collected\<close>

definition carried :: "(bytes \<Rightarrow> bytes option) \<Rightarrow> bytes list \<Rightarrow> (bytes \<times> bytes) list" where
  "carried look names = concat (map (\<lambda>n. case look n of None \<Rightarrow> [] | Some v \<Rightarrow> [(n, v)]) names)"

lemma carried_simps [simp]:
  "carried look [] = []"
  "carried look (n # ns) = (case look n of None \<Rightarrow> carried look ns | Some v \<Rightarrow> (n, v) # carried look ns)"
  "carried look (ms @ ns) = carried look ms @ carried look ns"
  by (auto simp: carried_def split: option.split)

lemma key_cookie_from_carried:
  "case key_cookie_from look names i of
     (None, _) \<Rightarrow> carried look (drop i names) = []
   | (Some p, j) \<Rightarrow> carried look (drop i names) = p # carried look (drop j names)"
proof (induction look names i rule: key_cookie_from.induct)
  case (1 look names i)
  show ?case
  proof (cases "i \<ge> length names")
    case False
    then have "drop i names = names ! i # drop (i + 1) names" by (simp add: Cons_nth_drop_Suc)
    then show ?thesis using 1 False
      by (cases "look (names ! i)"; cases "key_cookie_from look names (Suc i)")
        (auto simp: key_cookie_from.simps [of look names i] split: option.splits)
  qed (simp add: key_cookie_from.simps)
qed

lemma collect_preset_carried:
  "ns \<noteq> [] \<Longrightarrow> collect_preset push look ns i slots = Some r \<Longrightarrow> r = slots @ carried look (drop i ns)"
proof (induction push look ns i slots rule: collect_preset.induct)
  case (1 push look ns i slots)
  obtain x j where k: "key_cookie_from look ns i = (x, j)" by force
  then have kc: "key_cookie look ns i = (x, j)" using "1.prems" by (simp add: key_cookie_def)
  show ?case
  proof (cases x)
    case None
    then show ?thesis
      using "1.prems" kc key_cookie_from_carried [of look i ns] k by (simp add: collect_preset.simps [of push look ns i])
  next
    case (Some p)
    then have run: "push (length slots)" "collect_preset push look ns j (slots @ [p]) = Some r"
      using "1.prems" kc by (auto simp: collect_preset.simps [of push look ns i] split: if_splits)
    show ?thesis
      using "1.IH" [OF kc [symmetric] Some run(1) "1.prems"(1) run(2)] key_cookie_from_carried [of look i ns] k Some by simp
  qed
qed

lemma collect_names_carried: "collect_names push look ns slots = Some r \<Longrightarrow> r = slots @ carried look ns"
proof (induction ns arbitrary: slots)
  case (Cons n ns)
  show ?case
  proof (cases "look n")
    case None
    then show ?thesis using Cons by simp
  next
    case (Some v)
    then have "collect_names push look ns (slots @ [(n, v)]) = Some r" using Cons.prems by (simp split: if_splits)
    then show ?thesis using Cons.IH [of "slots @ [(n, v)]"] Some by simp
  qed
qed simp

definition key_of :: "bytes \<Rightarrow> (bytes \<times> bytes) list \<Rightarrow> bytes" where
  "key_of key slots = key @ concat (map (\<lambda>s. let (vlen, vfield, _) = key_fold_size s in key_fold_append (fst s) vlen vfield (snd s)) slots)"

lemma if_someD: "(if c then None else x) = Some y \<Longrightarrow> x = Some y"
  by (simp split: if_splits)

lemma build_key_shape:
  assumes "build_key env = Some (k, h)"
  shows "\<exists>base. key_base env = Some base \<and> k = key_of base (carried (ke_look env) (ke_presets env @ ke_names env)) \<and>
    ke_digest env k = Some h"
proof -
  let ?pre = "if ke_presets env \<noteq> [] then collect_preset (ke_push env) (ke_look env) (ke_presets env) 0 [] else Some []"
  obtain base where b: "key_base env = Some base" using assms by (cases "key_base env") (simp_all add: build_key_def)
  have run: "(case ?pre of None \<Rightarrow> None | Some slots \<Rightarrow>
      (case collect_names (ke_push env) (ke_look env) (ke_names env) slots of None \<Rightarrow> None
       | Some slots \<Rightarrow> (case key_fold_all (ke_alloc env) base slots of None \<Rightarrow> None
           | Some key \<Rightarrow> map_option (Pair key) (ke_digest env key)))) = Some (k, h)"
    using assms unfolding build_key_def b option.case by (rule if_someD)
  obtain s1 where s1: "?pre = Some s1" using run by (cases ?pre) simp_all
  have p: "s1 = carried (ke_look env) (ke_presets env)"
    using s1 collect_preset_carried [of "ke_presets env" "ke_push env" "ke_look env" 0 "[]" s1] by (auto split: if_splits)
  note run1 = run [unfolded s1 option.case]
  obtain s2 where s2: "collect_names (ke_push env) (ke_look env) (ke_names env) s1 = Some s2"
    using run1 by (cases "collect_names (ke_push env) (ke_look env) (ke_names env) s1") simp_all
  have n: "s2 = carried (ke_look env) (ke_presets env @ ke_names env)" using collect_names_carried [OF s2] p by simp
  note run2 = run1 [unfolded s2 option.case]
  obtain f where f: "key_fold_all (ke_alloc env) base s2 = Some f"
    using run2 by (cases "key_fold_all (ke_alloc env) base s2") simp_all
  have d: "ke_digest env f = Some h" "k = f" using run2 f by auto
  have "f = key_of base s2" using f by (auto simp: key_fold_all_def key_of_def Let_def split: if_splits)
  with b d n show ?thesis by auto
qed

text \<open>The buffer is filled exactly.\<close>

lemma fold_fits: "length (key_of key slots) = length key + sum_list (map (\<lambda>s. snd (snd (key_fold_size s))) slots)"
proof (induction slots)
  case (Cons s slots)
  have "length (let (vlen, vfield, _) = key_fold_size s in key_fold_append (fst s) vlen vfield (snd s)) = snd (snd (key_fold_size s))"
    by (cases s) (simp add: key_fold_size_def key_fold_append_def Let_def put_u32_def)
  then show ?case using Cons by (simp add: key_of_def)
qed (simp add: key_of_def)

subsection \<open>Keys tell cookies apart\<close>

text \<open>What a key keeps of a value: all of it, or that it was too long.\<close>

definition key_bucket :: "bytes \<Rightarrow> bytes option" where
  "key_bucket v = (if length v > KEY_COOKIE_MAX then None else Some v)"

definition slot_wire :: "bytes \<times> bytes \<Rightarrow> bytes" where
  "slot_wire s = (let (vlen, vfield, _) = key_fold_size s in key_fold_append (fst s) vlen vfield (snd s))"

lemma key_of_wire: "key_of key slots = key @ concat (map slot_wire slots)"
  by (simp add: key_of_def slot_wire_def [abs_def])

lemma slot_wire_cases: "slot_wire (n, v) = 0x1F # put_u32 (of_nat (length n)) @
    (case key_bucket v of None \<Rightarrow> put_u32 KEY_COOKIE_OVERSIZE @ n | Some v \<Rightarrow> put_u32 (of_nat (length v)) @ n @ v)"
  by (simp add: slot_wire_def key_fold_size_def key_fold_append_def key_bucket_def)

lemma put_u32_cancel: "put_u32 x @ p = put_u32 y @ q \<Longrightarrow> x = y \<and> p = q"
proof -
  assume a: "put_u32 x @ p = put_u32 y @ q"
  have "length (put_u32 x) = length (put_u32 y)" by (simp add: put_u32_def)
  then have "put_u32 x = put_u32 y" "p = q" using a by (auto dest: append_eq_append_conv [THEN iffD1])
  then show ?thesis using u32.get_put [of x "[]"] u32.get_put [of y "[]"] by simp
qed

lemma of_nat_u32:
  assumes "m < 2 ^ 32" and "n < 2 ^ 32" and "(of_nat m :: u32) = of_nat n"
  shows "m = n"
proof -
  have "unat (of_nat k :: u32) = k" if "k < 2 ^ 32" for k
    using that by (simp add: unsigned_of_nat take_bit_nat_eq_self)
  then show ?thesis using assms by metis
qed

lemma slot_wire_cancel:
  assumes "slot_wire (n1, v1) @ p = slot_wire (n2, v2) @ q" and "length n1 < 2 ^ 32" and "length n2 < 2 ^ 32"
  shows "n1 = n2 \<and> key_bucket v1 = key_bucket v2 \<and> p = q"
proof -
  have nl: "length n1 = length n2" and rest: "(case key_bucket v1 of None \<Rightarrow> put_u32 KEY_COOKIE_OVERSIZE @ n1 | Some v \<Rightarrow> put_u32 (of_nat (length v)) @ n1 @ v) @ p =
      (case key_bucket v2 of None \<Rightarrow> put_u32 KEY_COOKIE_OVERSIZE @ n2 | Some v \<Rightarrow> put_u32 (of_nat (length v)) @ n2 @ v) @ q"
    using put_u32_cancel [of "of_nat (length n1)"] of_nat_u32 [OF assms(2,3)] assms(1)
    unfolding slot_wire_cases by auto
  have small: "length v < 2 ^ 32 \<and> (of_nat (length v) :: u32) \<noteq> KEY_COOKIE_OVERSIZE" if "key_bucket w = Some v" for v w
  proof -
    have v: "length v \<le> 256" using that by (auto simp: key_bucket_def KEY_COOKIE_MAX_def split: if_splits)
    then have "(of_nat (length v) :: u32) \<noteq> of_nat 0xffffffff" using of_nat_u32 [of "length v" "0xffffffff"] by auto
    then show ?thesis using v by (simp add: KEY_COOKIE_OVERSIZE_def)
  qed
  show ?thesis
  proof (cases "key_bucket v1"; cases "key_bucket v2")
    fix w1 w2
    assume "key_bucket v1 = Some w1" "key_bucket v2 = Some w2"
    then have "put_u32 (of_nat (length w1)) @ n1 @ w1 @ p = put_u32 (of_nat (length w2)) @ n2 @ w2 @ q"
      and "length w1 < 2 ^ 32" "length w2 < 2 ^ 32" using rest small by auto
    then have "length w1 = length w2" "n1 @ w1 @ p = n2 @ w2 @ q" using put_u32_cancel of_nat_u32 by blast+
    then show ?thesis using nl \<open>key_bucket v1 = _\<close> \<open>key_bucket v2 = _\<close> by auto
  next
    fix w1
    assume "key_bucket v1 = Some w1" "key_bucket v2 = None"
    then have "put_u32 (of_nat (length w1)) @ n1 @ w1 @ p = put_u32 KEY_COOKIE_OVERSIZE @ n2 @ q" using rest by simp
    then show ?thesis using put_u32_cancel small \<open>key_bucket v1 = _\<close> by blast
  next
    fix w2
    assume "key_bucket v1 = None" "key_bucket v2 = Some w2"
    then have "put_u32 KEY_COOKIE_OVERSIZE @ n1 @ p = put_u32 (of_nat (length w2)) @ n2 @ w2 @ q" using rest by simp
    then show ?thesis using put_u32_cancel small \<open>key_bucket v2 = _\<close> by metis
  next
    assume "key_bucket v1 = None" "key_bucket v2 = None"
    then have "put_u32 KEY_COOKIE_OVERSIZE @ n1 @ p = put_u32 KEY_COOKIE_OVERSIZE @ n2 @ q" using rest by simp
    then have "n1 @ p = n2 @ q" using put_u32_cancel by blast
    then show ?thesis using nl \<open>key_bucket v1 = _\<close> \<open>key_bucket v2 = _\<close> by simp
  qed
qed


definition nul_free :: "bytes \<Rightarrow> bool" where
  "nul_free b \<longleftrightarrow> 0 \<notin> set b"

lemma slot_head:
  assumes "n \<noteq> []" and "length n < 256"
  shows "\<exists>p. slot_wire (n, v) = 0x1F # of_nat (length n) # 0 # p \<and> (of_nat (length n) :: u8) \<noteq> 0"
proof -
  let ?w = "of_nat (length n) :: u32"
  have u: "unat ?w = length n" using assms(2) by (simp add: unsigned_of_nat take_bit_nat_eq_self)
  have b: "ucast (?w AND 0xff) = (of_nat (length n) :: u8)" "ucast (drop_bit 8 ?w AND 0xff) = (0 :: u8)"
  proof -
    show "ucast (?w AND 0xff) = (of_nat (length n) :: u8)"
      using assms(2) by (simp add: ff_mask take_bit_eq_mask [symmetric] unsigned_take_bit_eq unsigned_of_nat take_bit_nat_eq_self
          take_bit_word_beyond_length_eq)
    have "unat (drop_bit 8 ?w) = drop_bit 8 (length n)" by (simp only: unat_drop_bit_eq u)
    also have "\<dots> = 0" using assms(2) by (simp add: drop_bit_eq_div)
    finally have "drop_bit 8 ?w = 0" by (simp only: unsigned_eq_0_iff)
    then show "ucast (drop_bit 8 ?w AND 0xff) = (0 :: u8)" by (simp only: and_zero_eq zero_and_eq unsigned_0)
  qed
  have "(of_nat (length n) :: u8) \<noteq> 0"
  proof
    assume "(of_nat (length n) :: u8) = 0"
    then have "unat (of_nat (length n) :: u8) = 0" by simp
    then show False using assms by (simp add: unsigned_of_nat take_bit_nat_eq_self)
  qed
  then show ?thesis using b by (simp add: slot_wire_cases put_u32_def)
qed

lemma key_of_cancel:
  assumes "key_of b1 s1 = key_of b2 s2" and "nul_free b1" and "nul_free b2"
    and "\<forall>s\<in>set (s1 @ s2). fst s \<noteq> [] \<and> length (fst s) < 256"
  shows "b1 = b2 \<and> map (apsnd key_bucket) s1 = map (apsnd key_bucket) s2"
proof -
  let ?tw = "takeWhile (\<lambda>c. c \<noteq> (0 :: u8))"
  have cut: "?tw (key_of b s) = (case s of [] \<Rightarrow> b | (n, v) # _ \<Rightarrow> b @ [0x1F, of_nat (length n)])"
    and zero: "0 \<in> set (key_of b s) \<longleftrightarrow> s \<noteq> []"
    if prem: "nul_free b" "\<forall>s\<in>set s. fst s \<noteq> [] \<and> length (fst s) < 256" for b s
  proof -
    have "?tw (key_of b s) = (case s of [] \<Rightarrow> b | (n, v) # _ \<Rightarrow> b @ [0x1F, of_nat (length n)]) \<and> (0 \<in> set (key_of b s) \<longleftrightarrow> s \<noteq> [])"
    proof (cases s)
      case Nil
      then show ?thesis using prem(1) by (auto simp: key_of_wire nul_free_def takeWhile_eq_all_conv)
    next
      case (Cons x xs)
      obtain n v where x: "x = (n, v)" by force
      obtain p where "slot_wire (n, v) = 0x1F # of_nat (length n) # 0 # p" "(of_nat (length n) :: u8) \<noteq> 0"
        using slot_head [of n v] prem(2) Cons x by auto
      moreover have "c \<noteq> 0" if "c \<in> set b" for c using that prem(1) by (auto simp: nul_free_def)
      ultimately show ?thesis using Cons x by (simp add: key_of_wire takeWhile_append2)
    qed
    then show "?tw (key_of b s) = (case s of [] \<Rightarrow> b | (n, v) # _ \<Rightarrow> b @ [0x1F, of_nat (length n)])"
      and "0 \<in> set (key_of b s) \<longleftrightarrow> s \<noteq> []" by auto
  qed
  have l: "\<forall>s\<in>set s1. fst s \<noteq> [] \<and> length (fst s) < 256" "\<forall>s\<in>set s2. fst s \<noteq> [] \<and> length (fst s) < 256" using assms(4) by auto
  have empty: "s1 = [] \<longleftrightarrow> s2 = []" using zero [OF assms(2) l(1)] zero [OF assms(3) l(2)] assms(1) by simp
  have b: "b1 = b2"
  proof (cases s1)
    case Nil
    then show ?thesis using empty assms(1) by (simp add: key_of_wire)
  next
    case (Cons x xs)
    then obtain y ys where "s2 = y # ys" using empty by (cases s2) auto
    then have "b1 @ [0x1F, of_nat (length (fst x))] = b2 @ [0x1F, of_nat (length (fst y))]"
      using cut [OF assms(2) l(1)] cut [OF assms(3) l(2)] assms(1) Cons by (cases x; cases y) simp
    then show ?thesis by simp
  qed
  have "concat (map slot_wire s1) = concat (map slot_wire s2)" using assms(1) b by (simp add: key_of_wire)
  then have "map (apsnd key_bucket) s1 = map (apsnd key_bucket) s2"
    using l
  proof (induction s1 arbitrary: s2)
    case Nil
    have "slot_wire s \<noteq> []" for s by (cases s) (simp add: slot_wire_cases)
    then show ?case using Nil.prems(1) by (cases s2) auto
  next
    case (Cons x s1)
    obtain n v where x: "x = (n, v)" by force
    obtain y s2' where s2: "s2 = y # s2'" using Cons.prems slot_head [of n v] x by (cases s2) auto
    obtain n' v' where y: "y = (n', v')" by force
    have "slot_wire (n, v) @ concat (map slot_wire s1) = slot_wire (n', v') @ concat (map slot_wire s2')"
      using Cons.prems(1) x y s2 by simp
    then have "n = n' \<and> key_bucket v = key_bucket v' \<and> concat (map slot_wire s1) = concat (map slot_wire s2')"
      using Cons.prems(2,3) x y s2 by (intro slot_wire_cancel) auto
    then show ?case using Cons.IH [of s2'] Cons.prems(2,3) x y s2 by auto
  qed
  with b show ?thesis by blast
qed

lemma carried_buckets:
  assumes "map (apsnd key_bucket) (carried look1 names) = map (apsnd key_bucket) (carried look2 names)" and "n \<in> set names"
  shows "map_option key_bucket (look1 n) = map_option key_bucket (look2 n)"
proof -
  have mem: "(n, v) \<in> set (carried look names) \<longleftrightarrow> look n = Some v" if "n \<in> set names" for look v names n
    using that by (auto simp: carried_def split: option.splits)

  have "map_option key_bucket (look1 n) = Some b \<longleftrightarrow> map_option key_bucket (look2 n) = Some b" for b
  proof -
    have "map_option key_bucket (look n) = Some b \<longleftrightarrow> (n, b) \<in> set (map (apsnd key_bucket) (carried look names))" for look
      using mem [OF assms(2), where look = look] assms(2) by (force simp: carried_def split: option.splits)
    then show ?thesis using assms(1) by metis
  qed
  then show ?thesis by (metis option.exhaust)
qed



definition demo_env :: "bytes \<Rightarrow> bytes \<Rightarrow> key_env" where
  "demo_env base cookie = \<lparr>ke_expr = Some (Some base), ke_host = [], ke_uri = [], ke_presets = [ascii ''v''], ke_names = [],
    ke_look = (\<lambda>n. if n = ascii ''v'' then Some cookie else None), ke_alloc = (\<lambda>_. True), ke_array = True, ke_push = (\<lambda>_. True),
    ke_digest = (\<lambda>k. Some (take 32 (k @ replicate 32 0)))\<rparr>"

lemma demo_key: "fst (the (build_key (demo_env base cookie))) = key_of base [(ascii ''v'', cookie)] \<and> build_key (demo_env base cookie) \<noteq> None"
proof -
  define look where "look = ke_look (demo_env base cookie)"
  have look: "look (ascii ''v'') = Some cookie" by (simp add: look_def demo_env_def)
  have k: "key_cookie look [ascii ''v''] 0 = (Some (ascii ''v'', cookie), 1)" "key_cookie look [ascii ''v''] 1 = (None, 1)"
    using look by (simp_all add: key_cookie_def key_cookie_from.simps [of look _ 0] key_cookie_from.simps [of look _ "Suc 0"])
  have c: "collect_preset (\<lambda>_. True) look [ascii ''v''] 0 [] = Some [(ascii ''v'', cookie)]"
    by (subst collect_preset.simps, simp only: k prod.case option.case, subst collect_preset.simps) (simp add: k(2) [unfolded One_nat_def])
  have e: "ke_push (demo_env base cookie) = (\<lambda>_. True)" "ke_presets (demo_env base cookie) = [ascii ''v'']" "ke_names (demo_env base cookie) = []"
    "ke_look (demo_env base cookie) = look" "key_base (demo_env base cookie) = Some base" "ke_array (demo_env base cookie)"
    "ke_alloc (demo_env base cookie) = (\<lambda>_. True)" "ke_digest (demo_env base cookie) = (\<lambda>k. Some (take 32 (k @ replicate 32 0)))"
    by (simp_all add: demo_env_def key_base_def look_def)
  show ?thesis unfolding build_key_def e(1-5,7-8) using e(6) by (simp add: c key_fold_all_def key_of_def Let_def)
qed


lemma index_no_memory:
  assumes "distinct (map (\<lambda>p. name_key (ck_name p)) (acc @ ps))" and "length acc \<le> 16" and "16 < length acc + length ps"
  shows "index_pairs (\<lambda>_. False) (acc, 16) ps = None"
  using assms
proof (induction ps arbitrary: acc)
  case (Cons p ps)
  have new: "\<not> list_ex (\<lambda>q. length (ck_name q) = length (ck_name p) \<and> c_strncmp_eq (ck_name q) (ck_name p) (length (ck_name p))) acc"
    using Cons.prems(1) same_name_key [of "ck_name p"] by (auto simp: list_ex_iff same_name_def image_iff)
  show ?case
  proof (cases "length acc = 16")
    case True
    then show ?thesis using new by (simp add: cookie_index_add_def)
  next
    case False
    then have "cookie_index_add (\<lambda>_. False) (acc, 16) (ck_name p) (ck_value p) (ck_bare p) = Some (acc @ [p], 16)"
      using new by (simp add: cookie_index_add_def)
    then show ?thesis using Cons.IH [of "acc @ [p]"] Cons.prems False by simp
  qed
qed simp



end
