(* ===== verification/Cookie_Ac.thy ===== *)
theory Cookie_Ac
  imports Cookie "HOL-Library.Sublist" "HOL-Library.Monad_Syntax"
begin

text \<open>
  The cookie substring matcher (\<^verbatim>\<open>match.c\<close>). The module compiles the names of all active presets into
  one automaton over a node array (\<open>cookie_ac_prepare\<close>, \<open>cookie_ac_insert\<close>, \<open>cookie_ac_finish\<close>) and runs every
  Cookie header through it once (\<open>cookie_ac_match\<close>); the build for the fuzzer searches each name in each
  header (\<open>cookie_contains\<close>, \<open>cookie_has\<close>). Every access to the node array and to the queue of the
  construction is checked: outside of them the function is \<open>None\<close>, which no branch of the code returns.
\<close>

subsection \<open>The automaton\<close>

text \<open>A transition is a node, or -1.\<close>

record ac_node =
  ac_next :: "u8 \<Rightarrow> int"
  ac_fail :: int
  ac_match :: bool

record cookie_ac =
  ac_nodes :: "ac_node list"
  ac_nnodes :: nat
  ac_cap :: nat

definition ac_blank :: ac_node where
  "ac_blank = \<lparr>ac_next = (\<lambda>_. - 1), ac_fail = 0, ac_match = False\<rparr>"

definition ac_null :: cookie_ac where
  "ac_null = \<lparr>ac_nodes = [], ac_nnodes = 0, ac_cap = 0\<rparr>"

definition node_at :: "ac_node list \<Rightarrow> int \<Rightarrow> ac_node option" where
  "node_at ns i = (if 0 \<le> i \<and> nat i < length ns then Some (ns ! nat i) else None)"

definition node_set :: "ac_node list \<Rightarrow> int \<Rightarrow> ac_node \<Rightarrow> ac_node list option" where
  "node_set ns i nd = (if 0 \<le> i \<and> nat i < length ns then Some (ns[nat i := nd]) else None)"

text \<open>The size of a node: 256 transitions, the failure link and the flag.\<close>

definition AC_NODE_SIZE :: nat where "AC_NODE_SIZE = 256 * 8 + 8 + 8"

definition cookie_ac_prepare :: "(nat \<Rightarrow> bool) \<Rightarrow> nat \<Rightarrow> cookie_ac option" where
  "cookie_ac_prepare alloc max_nodes =
    (if max_nodes = 0 then Some ac_null
     else if max_nodes > NGX_MAX_SIZE_T_VALUE div AC_NODE_SIZE then None
     else if \<not> alloc (max_nodes * AC_NODE_SIZE) then None
     else Some \<lparr>ac_nodes = replicate max_nodes ac_blank, ac_nnodes = 1, ac_cap = max_nodes\<rparr>)"

text \<open>The walk of an insertion: the state reached, with the nodes that were missing added.\<close>

fun ac_insert_loop :: "cookie_ac \<Rightarrow> int \<Rightarrow> bytes \<Rightarrow> (ngx_rc \<times> int \<times> cookie_ac) option" where
  "ac_insert_loop ac st [] = Some (NGX_OK, st, ac)"
| "ac_insert_loop ac st (c # cs) = do {
     nd \<leftarrow> node_at (ac_nodes ac) st;
     if ac_next nd c < 0
     then if ac_nnodes ac = ac_cap ac then Some (NGX_ERROR, st, ac)
       else do {
         let new = int (ac_nnodes ac);
         ns \<leftarrow> node_set (ac_nodes ac) st (nd\<lparr>ac_next := (ac_next nd)(c := new)\<rparr>);
         ac_insert_loop (ac\<lparr>ac_nodes := ns, ac_nnodes := ac_nnodes ac + 1\<rparr>) new cs }
     else ac_insert_loop ac (ac_next nd c) cs }"

definition cookie_ac_insert :: "cookie_ac \<Rightarrow> bytes \<Rightarrow> (ngx_rc \<times> cookie_ac) option" where
  "cookie_ac_insert ac name =
    (if ac_nodes ac = [] \<or> ac_nnodes ac = 0 then Some (NGX_ERROR, ac)
     else if name = [] then do {
       nd \<leftarrow> node_at (ac_nodes ac) 0;
       ns \<leftarrow> node_set (ac_nodes ac) 0 (nd\<lparr>ac_match := True\<rparr>);
       Some (NGX_OK, ac\<lparr>ac_nodes := ns\<rparr>) }
     else do {
       (rc, st, ac) \<leftarrow> ac_insert_loop ac 0 name;
       if rc \<noteq> NGX_OK then Some (rc, ac)
       else do {
         nd \<leftarrow> node_at (ac_nodes ac) st;
         ns \<leftarrow> node_set (ac_nodes ac) st (nd\<lparr>ac_match := True\<rparr>);
         Some (NGX_OK, ac\<lparr>ac_nodes := ns\<rparr>) } })"

subsection \<open>The failure links\<close>

definition all_bytes :: bytes where "all_bytes = map of_nat [0..<256]"

definition queue_push :: "nat \<Rightarrow> int list \<Rightarrow> int \<Rightarrow> int list option" where
  "queue_push qcap queue st = (if length queue < qcap then Some (queue @ [st]) else None)"

text \<open>The first loop: the transitions of the root.\<close>

fun ac_root_loop :: "nat \<Rightarrow> ac_node list \<Rightarrow> int list \<Rightarrow> bytes \<Rightarrow> (ac_node list \<times> int list) option" where
  "ac_root_loop qcap ns queue [] = Some (ns, queue)"
| "ac_root_loop qcap ns queue (c # cs) = do {
     root \<leftarrow> node_at ns 0;
     if ac_next root c < 0
     then do {
       ns \<leftarrow> node_set ns 0 (root\<lparr>ac_next := (ac_next root)(c := 0)\<rparr>);
       ac_root_loop qcap ns queue cs }
     else do {
       let child = ac_next root c;
       nd \<leftarrow> node_at ns child;
       ns \<leftarrow> node_set ns child (nd\<lparr>ac_fail := 0\<rparr>);
       queue \<leftarrow> queue_push qcap queue child;
       ac_root_loop qcap ns queue cs } }"

text \<open>The inner loop of the second one: the transitions of one state.\<close>

fun ac_state_loop :: "nat \<Rightarrow> int \<Rightarrow> ac_node list \<Rightarrow> int list \<Rightarrow> bytes \<Rightarrow> (ac_node list \<times> int list) option" where
  "ac_state_loop qcap st ns queue [] = Some (ns, queue)"
| "ac_state_loop qcap st ns queue (c # cs) = do {
     nd \<leftarrow> node_at ns st;
     fnd \<leftarrow> node_at ns (ac_fail nd);
     if ac_next nd c < 0
     then do {
       ns \<leftarrow> node_set ns st (nd\<lparr>ac_next := (ac_next nd)(c := ac_next fnd c)\<rparr>);
       ac_state_loop qcap st ns queue cs }
     else do {
       let child = ac_next nd c;
       let fail = ac_next fnd c;
       cnd \<leftarrow> node_at ns child;
       ns \<leftarrow> node_set ns child (cnd\<lparr>ac_fail := fail\<rparr>);
       ffnd \<leftarrow> node_at ns fail;
       cnd \<leftarrow> node_at ns child;
       ns \<leftarrow> (if ac_match ffnd then node_set ns child (cnd\<lparr>ac_match := True\<rparr>) else Some ns);
       queue \<leftarrow> queue_push qcap queue child;
       ac_state_loop qcap st ns queue cs } }"

function ac_bfs :: "nat \<Rightarrow> ac_node list \<Rightarrow> int list \<Rightarrow> nat \<Rightarrow> ac_node list option" where
  "ac_bfs qcap ns queue head =
    (if head \<ge> length queue then Some ns
     else if head \<ge> qcap then None
     else case ac_state_loop qcap (queue ! head) ns queue all_bytes of
       None \<Rightarrow> None
     | Some (ns, queue) \<Rightarrow> ac_bfs qcap ns queue (head + 1))"
  by pat_completeness auto
termination by (relation "measure (\<lambda>(qcap, ns, queue, head). qcap - head)") auto

declare ac_bfs.simps [simp del]

definition cookie_ac_finish :: "(nat \<Rightarrow> bool) \<Rightarrow> cookie_ac \<Rightarrow> (ngx_rc \<times> cookie_ac) option" where
  "cookie_ac_finish alloc ac =
    (if ac_nodes ac = [] \<or> ac_nnodes ac = 0 then Some (NGX_OK, ac)
     else if ac_nnodes ac > NGX_MAX_SIZE_T_VALUE div 8 \<or> \<not> alloc (ac_nnodes ac * 8) then Some (NGX_ERROR, ac)
     else do {
       (ns, queue) \<leftarrow> ac_root_loop (ac_nnodes ac) (ac_nodes ac) [] all_bytes;
       ns \<leftarrow> ac_bfs (ac_nnodes ac) ns queue 0;
       Some (NGX_OK, ac\<lparr>ac_nodes := ns\<rparr>) })"

text \<open>The names of the active presets, in order: first their total length, then one insertion each.\<close>

fun cookie_ac_insert_all :: "cookie_ac \<Rightarrow> bytes list \<Rightarrow> (ngx_rc \<times> cookie_ac) option" where
  "cookie_ac_insert_all ac [] = Some (NGX_OK, ac)"
| "cookie_ac_insert_all ac (nm # nms) = do {
     (rc, ac) \<leftarrow> cookie_ac_insert ac nm;
     if rc \<noteq> NGX_OK then Some (NGX_ERROR, ac) else cookie_ac_insert_all ac nms }"

fun cookie_ac_size :: "nat \<Rightarrow> bytes list \<Rightarrow> nat option" where
  "cookie_ac_size m [] = Some m"
| "cookie_ac_size m (nm # nms) =
    (if length nm > 2 ^ 64 - 1 - m then None else cookie_ac_size (m + length nm) nms)"

definition cookie_ac_compile :: "(nat \<Rightarrow> bool) \<Rightarrow> bytes list \<Rightarrow> (ngx_rc \<times> cookie_ac) option" where
  "cookie_ac_compile alloc nms =
    (case cookie_ac_size 1 nms of
       None \<Rightarrow> Some (NGX_ERROR, ac_null)
     | Some m \<Rightarrow> (case cookie_ac_prepare alloc m of
         None \<Rightarrow> Some (NGX_ERROR, ac_null)
       | Some ac \<Rightarrow> do {
           (rc, ac) \<leftarrow> cookie_ac_insert_all ac nms;
           if rc \<noteq> NGX_OK then Some (NGX_ERROR, ac) else cookie_ac_finish alloc ac }))"

subsection \<open>Matching\<close>

fun ac_scan :: "ac_node list \<Rightarrow> int \<Rightarrow> bytes \<Rightarrow> bool option" where
  "ac_scan ns st [] = Some False"
| "ac_scan ns st (c # cs) =
    (if c = 0 then Some False
     else do {
       nd \<leftarrow> node_at ns st;
       let st = ac_next nd c;
       nd \<leftarrow> node_at ns st;
       if ac_match nd then Some True else ac_scan ns st cs })"

definition cookie_ac_scan_one :: "cookie_ac \<Rightarrow> bytes \<Rightarrow> bool option" where
  "cookie_ac_scan_one ac dat =
    (if ac_nodes ac = [] \<or> ac_nnodes ac = 0 \<or> dat = [] then Some False
     else do {
       root \<leftarrow> node_at (ac_nodes ac) 0;
       if ac_match root then Some True else ac_scan (ac_nodes ac) 0 dat })"

fun ac_any :: "cookie_ac \<Rightarrow> bytes list \<Rightarrow> bool option" where
  "ac_any ac [] = Some False"
| "ac_any ac (ck # cks) =
    (if ck = [] then ac_any ac cks
     else do {
       hit \<leftarrow> cookie_ac_scan_one ac ck;
       if hit then Some True else ac_any ac cks })"

definition cookie_ac_match :: "cookie_ac \<Rightarrow> bytes list \<Rightarrow> bool option" where
  "cookie_ac_match ac headers =
    (if ac_nodes ac = [] \<or> ac_nnodes ac = 0 then Some False else ac_any ac headers)"

subsection \<open>The search of the other build\<close>

definition COOKIE_BYTES_MAX :: nat where "COOKIE_BYTES_MAX = 8192"

text \<open>The bytes of all headers; None when there are too many.\<close>

fun cookie_byteset_build :: "bytes list \<Rightarrow> nat \<Rightarrow> u8 set \<Rightarrow> u8 set option" where
  "cookie_byteset_build [] used seen = Some seen"
| "cookie_byteset_build (ck # cks) used seen =
    (if ck = [] then cookie_byteset_build cks used seen
     else if length ck > COOKIE_BYTES_MAX - used then None
     else cookie_byteset_build cks (used + length ck) (seen \<union> set ck))"

text \<open>The comparison at one offset: None for a NUL in the value, which ends the search.\<close>

fun contains_at :: "bytes \<Rightarrow> bytes \<Rightarrow> bool option" where
  "contains_at dat [] = Some True"
| "contains_at [] (n # ns) = Some False"
| "contains_at (d # ds) (n # ns) = (if d = 0 then None else if d \<noteq> n then Some False else contains_at ds ns)"

fun contains_from :: "bytes \<Rightarrow> bytes \<Rightarrow> bool" where
  "contains_from [] needle = (needle = [])"
| "contains_from (d # ds) needle =
    (if length (d # ds) < length needle then False
     else case contains_at (d # ds) needle of
       None \<Rightarrow> False
     | Some hit \<Rightarrow> if hit then True else contains_from ds needle)"

definition cookie_contains :: "bytes \<Rightarrow> bytes \<Rightarrow> bool" where
  "cookie_contains dat needle = (if needle = [] \<or> length dat < length needle then False else contains_from dat needle)"

fun cookie_has :: "bytes list \<Rightarrow> bytes list \<Rightarrow> u8 set \<Rightarrow> bool" where
  "cookie_has headers [] seen = False"
| "cookie_has headers (n # ns) seen =
    (if n = [] then True
     else if hd n \<notin> seen then cookie_has headers ns seen
     else if list_ex (\<lambda>ck. ck \<noteq> [] \<and> cookie_contains ck n) headers then True
     else cookie_has headers ns seen)"


subsection \<open>Longest suffixes in a set of words\<close>

fun lps :: "bytes set \<Rightarrow> bytes \<Rightarrow> bytes" where
  "lps L [] = []"
| "lps L (a # w) = (if a # w \<in> L then a # w else lps L w)"

lemma lps_suffix: "suffix (lps L w) w"
  by (induction w) (auto simp: suffix_Cons)

lemma lps_in: "[] \<in> L \<Longrightarrow> lps L w \<in> L"
  by (induction w) auto

lemma lps_longest: "u \<in> L \<Longrightarrow> suffix u w \<Longrightarrow> suffix u (lps L w)"
  by (induction w) (auto simp: suffix_Cons)

lemma lps_self: "w \<in> L \<Longrightarrow> lps L w = w"
  by (cases w) auto

lemma lps_eqI:
  assumes "v \<in> L" and "suffix v w" and "\<And>u. u \<in> L \<Longrightarrow> suffix u w \<Longrightarrow> suffix u v" and "[] \<in> L"
  shows "lps L w = v"
  using lps_longest [OF assms(1,2)] assms(3) [OF lps_in [OF assms(4)] lps_suffix] by (auto intro: suffix_order.antisym)

lemma lps_snoc:
  assumes "[] \<in> L" and "\<And>w c. w @ [c] \<in> L \<Longrightarrow> w \<in> L"
  shows "lps L (w @ [c]) = lps L (lps L w @ [c])"
proof (rule lps_eqI [OF lps_in [OF assms(1)] _ _ assms(1)])
  show "suffix (lps L (lps L w @ [c])) (w @ [c])"
    using lps_suffix [of L "lps L w @ [c]"] lps_suffix [of L w] by (meson suffix_order.trans same_suffix_suffix suffix_snoc)
  fix u
  assume u: "u \<in> L" "suffix u (w @ [c])"
  show "suffix u (lps L (lps L w @ [c]))"
  proof (cases u rule: rev_cases)
    case (snoc v d)
    then have "v \<in> L" "suffix v w" "d = c" using u assms(2) by auto
    then have "suffix u (lps L w @ [c])" using lps_longest snoc by auto
    then show ?thesis using lps_longest [OF u(1)] by blast
  qed simp
qed

lemma lps_tl: "w \<notin> L \<Longrightarrow> lps L w = lps L (tl w)"
  by (cases w) auto

subsection \<open>States and words\<close>

text \<open>Each state stands for the word that leads to it.\<close>

definition labelled :: "nat \<Rightarrow> (nat \<Rightarrow> bytes) \<Rightarrow> bool" where
  "labelled n label \<longleftrightarrow> 0 < n \<and> label 0 = [] \<and> inj_on label {..<n} \<and>
    (\<forall>s<n. \<forall>w c. label s = w @ [c] \<longrightarrow> w \<in> label ` {..<n})"

definition delta :: "nat \<Rightarrow> (nat \<Rightarrow> bytes) \<Rightarrow> bytes \<Rightarrow> nat" where
  "delta n label w = inv_into {..<n} label (lps (label ` {..<n}) w)"

lemma labelled_facts:
  assumes "labelled n label"
  shows "[] \<in> label ` {..<n}" and "w @ [c] \<in> label ` {..<n} \<Longrightarrow> w \<in> label ` {..<n}"
    and "delta n label w < n" and "label (delta n label w) = lps (label ` {..<n}) w"
    and "s < n \<Longrightarrow> delta n label (label s) = s" and "delta n label [] = 0"
    and "delta n label (w @ [c]) = delta n label (label (delta n label w) @ [c])"
    and "s < n \<Longrightarrow> t < n \<Longrightarrow> label s = label t \<Longrightarrow> s = t"
proof -
  show nil: "[] \<in> label ` {..<n}" using assms by (force simp: labelled_def)
  have closed: "w \<in> label ` {..<n}" if "w @ [c] \<in> label ` {..<n}" for w c
  proof -
    from that obtain u where "u < n" "label u = w @ [c]" by (metis imageE lessThan_iff)
    then show ?thesis using assms unfolding labelled_def by blast
  qed
  then show "w @ [c] \<in> label ` {..<n} \<Longrightarrow> w \<in> label ` {..<n}" .
  have mem: "lps (label ` {..<n}) w \<in> label ` {..<n}" for w by (rule lps_in [OF nil])
  show "delta n label w < n" using inv_into_into [OF mem] unfolding delta_def by blast
  show lab: "label (delta n label w) = lps (label ` {..<n}) w" for w unfolding delta_def by (rule f_inv_into_f [OF mem])
  show self: "delta n label (label s) = s" if "s < n" for s
    using that assms by (simp add: delta_def lps_self labelled_def inv_into_f_f)
  show "delta n label [] = 0" using self [of 0] assms by (simp add: labelled_def)
  show "delta n label (w @ [c]) = delta n label (label (delta n label w) @ [c])"
  proof -
    have "lps (label ` {..<n}) (w @ [c]) = lps (label ` {..<n}) (lps (label ` {..<n}) w @ [c])"
      by (rule lps_snoc [OF nil]) (rule closed)
    then show ?thesis by (simp only: lab delta_def [of n label "_ @ [_]"])
  qed
  show "s < n \<Longrightarrow> t < n \<Longrightarrow> label s = label t \<Longrightarrow> s = t" using self by metis
qed

subsection \<open>The trie\<close>

definition orig_next :: "nat \<Rightarrow> (nat \<Rightarrow> bytes) \<Rightarrow> nat \<Rightarrow> u8 \<Rightarrow> int \<Rightarrow> bool" where
  "orig_next n label s c x \<longleftrightarrow>
    (\<exists>t<n. label t = label s @ [c] \<and> x = int t) \<or> label s @ [c] \<notin> label ` {..<n} \<and> x = - 1"

definition trie :: "ac_node list \<Rightarrow> nat \<Rightarrow> (nat \<Rightarrow> bytes) \<Rightarrow> bytes set \<Rightarrow> bool" where
  "trie ns n label N \<longleftrightarrow> labelled n label \<and> n \<le> length ns \<and> N \<subseteq> label ` {..<n} \<and>
    (\<forall>s<n. (ac_match (ns ! s) \<longleftrightarrow> label s \<in> N) \<and> (\<forall>c. orig_next n label s c (ac_next (ns ! s) c))) \<and>
    (\<forall>s. n \<le> s \<and> s < length ns \<longrightarrow> ns ! s = ac_blank)"

lemma node_at_nat [simp]: "s < length ns \<Longrightarrow> node_at ns (int s) = Some (ns ! s)"
  by (simp add: node_at_def)

lemma node_set_nat [simp]: "s < length ns \<Longrightarrow> node_set ns (int s) nd = Some (ns[s := nd])"
  by (simp add: node_set_def)

lemma node_zero [simp]: "ns \<noteq> [] \<Longrightarrow> node_at ns 0 = Some (ns ! 0)" "ns \<noteq> [] \<Longrightarrow> node_set ns 0 nd = Some (ns[0 := nd])"
  by (simp_all add: node_at_def node_set_def)

lemma trie_prepared: "0 < m \<Longrightarrow> trie (replicate m ac_blank) 1 (\<lambda>_. []) {}"
  by (auto simp: trie_def labelled_def orig_next_def ac_blank_def lessThan_Suc)

text \<open>One missing node.\<close>

lemma trie_add:
  assumes t: "trie ns n label N" and s: "s < n" and n: "n < length ns" and new: "ac_next (ns ! s) c < 0"
  shows "trie (ns[s := (ns ! s)\<lparr>ac_next := (ac_next (ns ! s))(c := int n)\<rparr>]) (Suc n) (label(n := label s @ [c])) N \<and>
    (label(n := label s @ [c])) ` {..<Suc n} = insert (label s @ [c]) (label ` {..<n})"
proof -
  let ?l = "label(n := label s @ [c])" and ?ns = "ns[s := (ns ! s)\<lparr>ac_next := (ac_next (ns ! s))(c := int n)\<rparr>]"
  have lab: "labelled n label" and N: "N \<subseteq> label ` {..<n}" and
    st: "\<And>u. u < n \<Longrightarrow> (ac_match (ns ! u) \<longleftrightarrow> label u \<in> N) \<and> (\<forall>d. orig_next n label u d (ac_next (ns ! u) d))"
    and rest: "\<And>u. n \<le> u \<Longrightarrow> u < length ns \<Longrightarrow> ns ! u = ac_blank"
    using t by (auto simp: trie_def)
  have "orig_next n label s c (ac_next (ns ! s) c)" using st [OF s] by blast
  then have fresh: "label s @ [c] \<notin> label ` {..<n}" using new by (auto simp: orig_next_def)
  have old: "?l u = label u" if "u < n" for u using that by simp
  have img: "?l ` {..<Suc n} = insert (label s @ [c]) (label ` {..<n})"
    by (auto simp: lessThan_Suc image_iff)
  have "inj_on ?l {..<Suc n}"
  proof -
    have "inj_on ?l {..<n}" using lab by (auto simp: labelled_def inj_on_def)
    then show ?thesis using fresh by (auto simp: lessThan_Suc image_iff)
  qed
  moreover have "w \<in> ?l ` {..<Suc n}" if "u < Suc n" "?l u = w @ [d]" for u w d
  proof (cases "u = n")
    case True
    then show ?thesis unfolding img using that s by auto
  next
    case False
    then have "u < n" "label u = w @ [d]" using that by auto
    then have "w \<in> label ` {..<n}" using lab unfolding labelled_def by blast
    then show ?thesis unfolding img by blast
  qed
  ultimately have lab': "labelled (Suc n) ?l" using lab by (auto simp: labelled_def)
  have nodes: "(ac_match (?ns ! u) \<longleftrightarrow> ?l u \<in> N) \<and> (\<forall>d. orig_next (Suc n) ?l u d (ac_next (?ns ! u) d))" if u: "u < Suc n" for u
  proof (cases "u = n")
    case True
    have "ns ! n = ac_blank" by (rule rest) (use n in auto)
    moreover have "orig_next (Suc n) ?l n d (- 1)" for d
    proof -
      have "(label s @ [c]) @ [d] \<notin> label ` {..<n}" using labelled_facts(2) [OF lab] fresh by blast
      then have "?l n @ [d] \<notin> ?l ` {..<Suc n}" unfolding img by simp
      then show ?thesis unfolding orig_next_def by blast
    qed
    ultimately show ?thesis using True s fresh N n by (auto simp: ac_blank_def)
  next
    case False
    then have u: "u < n" using u by simp
    have m: "ac_match (?ns ! u) \<longleftrightarrow> ?l u \<in> N" using st [OF u] u n s by (auto simp: nth_list_update)
    have "orig_next (Suc n) ?l u d (ac_next (?ns ! u) d)" for d
    proof (cases "u = s \<and> d = c")
      case True
      then show ?thesis using u n by (auto simp: orig_next_def nth_list_update)
    next
      case other: False
      then have e: "ac_next (?ns ! u) d = ac_next (ns ! u) d" using u n s by (cases "u = s") auto
      have ne: "label u @ [d] \<noteq> label s @ [c]" using other labelled_facts(8) [OF lab u s] by auto
      have "orig_next n label u d (ac_next (ns ! u) d)" using st [OF u] by blast
      then show ?thesis unfolding e orig_next_def old [OF u] img using ne by (metis fun_upd_other insert_iff less_Suc_eq less_irrefl)
    qed
    with m show ?thesis by blast
  qed
  have "?ns ! u = ac_blank" if "Suc n \<le> u" "u < length ?ns" for u using rest [of u] that s by (auto simp: nth_list_update)
  then have "trie ?ns (Suc n) ?l N" using lab' nodes n N unfolding trie_def img by auto
  with img show ?thesis by blast
qed


definition ac_trie :: "cookie_ac \<Rightarrow> (nat \<Rightarrow> bytes) \<Rightarrow> bytes set \<Rightarrow> bool" where
  "ac_trie ac label N \<longleftrightarrow> trie (ac_nodes ac) (ac_nnodes ac) label N \<and> ac_cap ac = length (ac_nodes ac)"

lemma ac_trie_facts:
  assumes "ac_trie ac label N"
  shows "0 < ac_nnodes ac" and "ac_nnodes ac \<le> length (ac_nodes ac)" and "ac_nodes ac \<noteq> []"
    and "labelled (ac_nnodes ac) label" and "label 0 = []"
  using assms by (auto simp: ac_trie_def trie_def labelled_def)

lemma trie_insert_loop:
  "\<lbrakk>ac_trie ac label N; s < ac_nnodes ac; ac_nnodes ac + length cs \<le> ac_cap ac\<rbrakk> \<Longrightarrow>
    \<exists>ac' label' s'. ac_insert_loop ac (int s) cs = Some (NGX_OK, int s', ac') \<and> ac_trie ac' label' N \<and>
      s' < ac_nnodes ac' \<and> label' s' = label s @ cs \<and> ac_cap ac' = ac_cap ac \<and>
      ac_nnodes ac' \<le> ac_nnodes ac + length cs"
proof (induction cs arbitrary: ac label s)
  case Nil
  then show ?case by (intro exI [of _ ac] exI [of _ label] exI [of _ s]) auto
next
  case (Cons c cs)
  let ?ns = "ac_nodes ac" and ?n = "ac_nnodes ac"
  have t: "trie ?ns ?n label N" and cap: "ac_cap ac = length ?ns" using Cons.prems(1) by (auto simp: ac_trie_def)
  have n: "?n < length ?ns" and sl: "s < length ?ns" using Cons.prems cap by auto
  have orig: "orig_next ?n label s c (ac_next (?ns ! s) c)" using t Cons.prems(2) by (simp add: trie_def)
  show ?case
  proof (cases "ac_next (?ns ! s) c < 0")
    case True
    let ?nd = "(?ns ! s)\<lparr>ac_next := (ac_next (?ns ! s))(c := int ?n)\<rparr>"
    let ?ac = "ac\<lparr>ac_nodes := ?ns[s := ?nd], ac_nnodes := ?n + 1\<rparr>" and ?l = "label(?n := label s @ [c])"
    have "trie (?ns[s := ?nd]) (Suc ?n) ?l N" using trie_add [OF t Cons.prems(2) n True] by blast
    then have "ac_trie ?ac ?l N" using cap by (simp add: ac_trie_def)
    from Cons.IH [OF this, of ?n] Cons.prems(3)
    obtain ac' label' s' where r: "ac_insert_loop ?ac (int ?n) cs = Some (NGX_OK, int s', ac')" "ac_trie ac' label' N"
      "s' < ac_nnodes ac'" "label' s' = label s @ c # cs" "ac_cap ac' = ac_cap ac" "ac_nnodes ac' \<le> ?n + length (c # cs)"
      by auto
    have "ac_insert_loop ac (int s) (c # cs) = ac_insert_loop ?ac (int ?n) cs" using True sl n cap by (simp add: Let_def)
    with r show ?thesis by metis
  next
    case False
    then obtain t' where t': "t' < ?n" "label t' = label s @ [c]" "ac_next (?ns ! s) c = int t'"
      using orig by (auto simp: orig_next_def)
    from Cons.IH [OF Cons.prems(1) t'(1)] Cons.prems(3)
    obtain ac' label' s' where r: "ac_insert_loop ac (int t') cs = Some (NGX_OK, int s', ac')" "ac_trie ac' label' N"
      "s' < ac_nnodes ac'" "label' s' = label s @ c # cs" "ac_cap ac' = ac_cap ac" "ac_nnodes ac' \<le> ?n + length (c # cs)"
      using t'(2) by fastforce
    have "ac_insert_loop ac (int s) (c # cs) = ac_insert_loop ac (int t') cs" using sl t'(3) by simp
    with r show ?thesis by metis
  qed
qed

text \<open>Setting the flag of the state reached adds the word.\<close>

lemma trie_flag:
  assumes "ac_trie ac label N" and "s < ac_nnodes ac"
  shows "ac_trie (ac\<lparr>ac_nodes := (ac_nodes ac)[s := (ac_nodes ac ! s)\<lparr>ac_match := True\<rparr>]\<rparr>) label (insert (label s) N)"
proof -
  let ?ns = "ac_nodes ac" and ?n = "ac_nnodes ac"
  have "?n \<le> length ?ns" "\<And>u. u < ?n \<Longrightarrow> label u = label s \<Longrightarrow> u = s"
    using assms labelled_facts(8) [OF ac_trie_facts(4) [OF assms(1)]] ac_trie_facts(2) [OF assms(1)] by auto
  then show ?thesis using assms unfolding ac_trie_def trie_def by (auto simp: nth_list_update)
qed

lemma trie_insert:
  assumes t: "ac_trie ac label N" and cap: "ac_nnodes ac + length nm \<le> ac_cap ac"
  shows "\<exists>ac' label'. cookie_ac_insert ac nm = Some (NGX_OK, ac') \<and> ac_trie ac' label' (insert nm N) \<and>
    ac_cap ac' = ac_cap ac \<and> ac_nnodes ac' \<le> ac_nnodes ac + length nm"
proof (cases "nm = []")
  case True
  have "insert (label 0) N = insert nm N" using True ac_trie_facts(5) [OF t] by simp
  then show ?thesis using True trie_flag [OF t ac_trie_facts(1) [OF t]] ac_trie_facts [OF t]
    by (intro exI [of _ "ac\<lparr>ac_nodes := (ac_nodes ac)[0 := (ac_nodes ac ! 0)\<lparr>ac_match := True\<rparr>]\<rparr>"] exI [of _ label])
       (simp add: cookie_ac_insert_def)
next
  case False
  obtain ac' label' s' where r: "ac_insert_loop ac 0 nm = Some (NGX_OK, int s', ac')" "ac_trie ac' label' N"
    "s' < ac_nnodes ac'" "label' s' = nm" "ac_cap ac' = ac_cap ac" "ac_nnodes ac' \<le> ac_nnodes ac + length nm"
    using trie_insert_loop [OF t ac_trie_facts(1) [OF t] cap] ac_trie_facts(5) [OF t] by auto
  have "s' < length (ac_nodes ac')" using r(3) ac_trie_facts(2) [OF r(2)] by simp
  then show ?thesis using False r trie_flag [OF r(2,3)] ac_trie_facts [OF t]
    by (intro exI [of _ "ac'\<lparr>ac_nodes := (ac_nodes ac')[s' := (ac_nodes ac' ! s')\<lparr>ac_match := True\<rparr>]\<rparr>"] exI [of _ label'])
       (simp add: cookie_ac_insert_def)
qed

lemma trie_insert_all:
  "\<lbrakk>ac_trie ac label N; ac_nnodes ac + sum_list (map length nms) \<le> ac_cap ac\<rbrakk> \<Longrightarrow>
    \<exists>ac' label'. cookie_ac_insert_all ac nms = Some (NGX_OK, ac') \<and> ac_trie ac' label' (N \<union> set nms) \<and>
      ac_cap ac' = ac_cap ac"
proof (induction nms arbitrary: ac label N)
  case (Cons nm nms)
  obtain ac1 label1 where r: "cookie_ac_insert ac nm = Some (NGX_OK, ac1)" "ac_trie ac1 label1 (insert nm N)"
    "ac_cap ac1 = ac_cap ac" "ac_nnodes ac1 \<le> ac_nnodes ac + length nm"
    using trie_insert [OF Cons.prems(1), of nm] Cons.prems(2) by auto
  obtain ac' label' where "cookie_ac_insert_all ac1 nms = Some (NGX_OK, ac')" "ac_trie ac' label' (insert nm N \<union> set nms)"
    "ac_cap ac' = ac_cap ac"
    using Cons.IH [OF r(2)] r(3,4) Cons.prems(2) by auto
  then show ?case using r(1) by (intro exI [of _ ac'] exI [of _ label']) (simp add: Un_commute)
qed auto


subsection \<open>The construction\<close>

text \<open>
  \<open>D\<close> holds the transitions the construction has passed: those are the automaton's, the others still the trie's.
  The queue holds the states a passed transition of the trie leads to, with their failure links.
\<close>

definition hit :: "bytes set \<Rightarrow> bytes \<Rightarrow> bool" where
  "hit N w \<longleftrightarrow> (\<exists>m\<in>N. suffix m w)"

definition ac_inv :: "nat \<Rightarrow> (nat \<Rightarrow> bytes) \<Rightarrow> bytes set \<Rightarrow> ac_node list \<Rightarrow> nat list \<Rightarrow> (nat \<times> u8) set \<Rightarrow> bool" where
  "ac_inv n label N ns q D \<longleftrightarrow> n \<le> length ns \<and> distinct q \<and>
    set q = {t. t < n \<and> (\<exists>p<n. \<exists>c. label t = label p @ [c] \<and> (p, c) \<in> D)} \<and>
    (\<forall>u<n. (\<forall>c. if (u, c) \<in> D then ac_next (ns ! u) c = int (delta n label (label u @ [c]))
                else orig_next n label u c (ac_next (ns ! u) c)) \<and>
      (if u \<in> set q then ac_fail (ns ! u) = int (delta n label (tl (label u))) \<and> ac_match (ns ! u) = hit N (label u)
       else ac_match (ns ! u) = (label u \<in> N)))"

lemma ac_invD:
  assumes "ac_inv n label N ns q D"
  shows "n \<le> length ns" and "distinct q"
    and "t \<in> set q \<longleftrightarrow> t < n \<and> (\<exists>p<n. \<exists>c. label t = label p @ [c] \<and> (p, c) \<in> D)"
    and "u < n \<Longrightarrow> (u, c) \<in> D \<Longrightarrow> ac_next (ns ! u) c = int (delta n label (label u @ [c]))"
    and "u < n \<Longrightarrow> (u, c) \<notin> D \<Longrightarrow> orig_next n label u c (ac_next (ns ! u) c)"
    and "u \<in> set q \<Longrightarrow> ac_fail (ns ! u) = int (delta n label (tl (label u)))"
    and "u \<in> set q \<Longrightarrow> ac_match (ns ! u) = hit N (label u)"
    and "u < n \<Longrightarrow> u \<notin> set q \<Longrightarrow> ac_match (ns ! u) = (label u \<in> N)"
  using assms unfolding ac_inv_def by auto

lemma ac_inv_trie: "trie ns n label N \<Longrightarrow> ac_inv n label N ns [] {}"
  by (simp add: trie_def ac_inv_def)

lemma ac_inv_child:
  assumes lab: "labelled n label" and i: "ac_inv n label N ns q D"
    and s: "s < n" "(s, c) \<notin> D" and t: "t < n" "label t = label s @ [c]"
  shows "t \<notin> set q" and "t \<noteq> 0" and "t \<noteq> s" and "length q < n"
    and "ac_inv n label N (ns[t := (ns ! t)\<lparr>ac_fail := int (delta n label (tl (label t))), ac_match := hit N (label t)\<rparr>])
      (q @ [t]) (insert (s, c) D)"
proof -
  note uniq = labelled_facts(8) [OF lab]
  show new: "t \<notin> set q"
  proof
    assume "t \<in> set q"
    then obtain p d where "p < n" "label t = label p @ [d]" "(p, d) \<in> D" using ac_invD(3) [OF i] by blast
    then show False using t s uniq by auto
  qed
  have "label 0 = []" using lab by (simp add: labelled_def)
  then show zero: "t \<noteq> 0" using t(2) by (metis append_is_Nil_conv not_Cons_self2)
  show ts: "t \<noteq> s" using t by auto
  have "u \<noteq> 0" if "u \<in> set q" for u
    using that ac_invD(3) [OF i, of u] \<open>label 0 = []\<close> by (metis append_is_Nil_conv not_Cons_self2)
  then have "set (t # q) \<subseteq> {1..<n}" using ac_invD(3) [OF i] t zero by (force simp: Suc_le_eq)
  then have "card (set (t # q)) \<le> n - 1" using card_mono [of "{1..<n}"] by fastforce
  then show "length q < n" using distinct_card [of "t # q"] new ac_invD(2) [OF i] t(1) by simp
  let ?ns = "ns[t := (ns ! t)\<lparr>ac_fail := int (delta n label (tl (label t))), ac_match := hit N (label t)\<rparr>]"
  have len: "t < length ns" using t(1) ac_invD(1) [OF i] by simp
  have nx: "ac_next (?ns ! u) = ac_next (ns ! u)" for u using len by (simp add: nth_list_update)
  have sc: "ac_next (ns ! s) c = int (delta n label (label s @ [c]))"
  proof -
    have "orig_next n label s c (ac_next (ns ! s) c)" using ac_invD(5) [OF i s] .
    moreover have "label s @ [c] \<in> label ` {..<n}" using t by (metis imageI lessThan_iff)
    ultimately obtain t' where "t' < n" "label t' = label s @ [c]" "ac_next (ns ! s) c = int t'"
      by (auto simp: orig_next_def)
    then show ?thesis using labelled_facts(5) [OF lab] by metis
  qed
  have "set (q @ [t]) = {t. t < n \<and> (\<exists>p<n. \<exists>d. label t = label p @ [d] \<and> (p, d) \<in> insert (s, c) D)}"
  proof -
    have "u \<in> set (q @ [t]) \<longleftrightarrow> u < n \<and> (\<exists>p<n. \<exists>d. label u = label p @ [d] \<and> (p, d) \<in> insert (s, c) D)" for u
    proof -
      have a: "(\<exists>p<n. \<exists>d. label u = label p @ [d] \<and> (p, d) \<in> insert (s, c) D) \<longleftrightarrow>
        label u = label s @ [c] \<or> (\<exists>p<n. \<exists>d. label u = label p @ [d] \<and> (p, d) \<in> D)" using s(1) by blast
      have b: "u = t \<longleftrightarrow> u < n \<and> label u = label s @ [c]" using t uniq by metis
      have "u \<in> set (q @ [t]) \<longleftrightarrow> u = t \<or> u \<in> set q" by auto
      then show ?thesis unfolding a b ac_invD(3) [OF i, of u] by blast
    qed
    then show ?thesis by blast
  qed
  moreover have "(\<forall>d. if (u, d) \<in> insert (s, c) D then ac_next (?ns ! u) d = int (delta n label (label u @ [d]))
      else orig_next n label u d (ac_next (?ns ! u) d)) \<and>
    (if u \<in> set (q @ [t]) then ac_fail (?ns ! u) = int (delta n label (tl (label u))) \<and> ac_match (?ns ! u) = hit N (label u)
     else ac_match (?ns ! u) = (label u \<in> N))" if "u < n" for u
    unfolding nx using that sc len ac_invD(4-8) [OF i] by (auto simp: nth_list_update)
  ultimately show "ac_inv n label N ?ns (q @ [t]) (insert (s, c) D)"
    using ac_invD(1,2) [OF i] new unfolding ac_inv_def by auto
qed

lemma ac_inv_missing:
  assumes lab: "labelled n label" and i: "ac_inv n label N ns q D"
    and s: "s < n" and no: "label s @ [c] \<notin> label ` {..<n}"
  shows "ac_inv n label N (ns[s := (ns ! s)\<lparr>ac_next := (ac_next (ns ! s))(c := int (delta n label (label s @ [c])))\<rparr>])
    q (insert (s, c) D)"
proof -
  let ?ns = "ns[s := (ns ! s)\<lparr>ac_next := (ac_next (ns ! s))(c := int (delta n label (label s @ [c])))\<rparr>]"
  have len: "s < length ns" using s ac_invD(1) [OF i] by simp
  have same: "ac_fail (?ns ! u) = ac_fail (ns ! u)" "ac_match (?ns ! u) = ac_match (ns ! u)" for u
    using len by (simp_all add: nth_list_update)
  have "t \<in> set q \<longleftrightarrow> t < n \<and> (\<exists>p<n. \<exists>d. label t = label p @ [d] \<and> (p, d) \<in> insert (s, c) D)" for t
  proof -
    have "label t \<noteq> label s @ [c]" if "t < n" using that no by (metis imageI lessThan_iff)
    then show ?thesis using ac_invD(3) [OF i] by auto
  qed
  moreover have "if (u, d) \<in> insert (s, c) D then ac_next (?ns ! u) d = int (delta n label (label u @ [d]))
      else orig_next n label u d (ac_next (?ns ! u) d)" if "u < n" for u d
    using that len ac_invD(4,5) [OF i] by (auto simp: nth_list_update)
  ultimately show ?thesis
    using ac_invD(1,2) [OF i] ac_invD(6-8) [OF i] unfolding ac_inv_def same by auto
qed


text \<open>The words a state's failure link stands for.\<close>

lemma hit_lps: "N \<subseteq> L \<Longrightarrow> [] \<in> L \<Longrightarrow> hit N (lps L w) \<longleftrightarrow> hit N w"
  unfolding hit_def using lps_longest lps_suffix by (meson subsetD suffix_order.trans)

lemma hit_Cons: "hit N (a # w) \<longleftrightarrow> a # w \<in> N \<or> hit N w"
  by (auto simp: hit_def suffix_Cons)

lemma delta_tl:
  assumes "labelled n label" and "w @ [c] \<notin> label ` {..<n}" and "w \<noteq> []"
  shows "delta n label (w @ [c]) = delta n label (label (delta n label (tl w)) @ [c])"
proof -
  have "delta n label (w @ [c]) = delta n label (tl w @ [c])"
    using lps_tl [OF assms(2)] assms(3) by (simp add: delta_def)
  then show ?thesis using labelled_facts(7) [OF assms(1)] by metis
qed

lemma trie_child:
  assumes "labelled n label" and "orig_next n label s c x" and "s < n"
  shows "x < 0 \<longleftrightarrow> label s @ [c] \<notin> label ` {..<n}"
    and "\<not> x < 0 \<Longrightarrow> \<exists>t<n. label t = label s @ [c] \<and> x = int t"
  using assms unfolding orig_next_def by (auto simp: image_iff) (metis lessThan_iff)

lemma ac_root_loop_ok:
  assumes lab: "labelled n label" and NL: "[] \<notin> N"
  shows "\<lbrakk>ac_inv n label N ns q D; D \<subseteq> {0} \<times> UNIV; \<forall>c\<in>set cs. (0, c) \<notin> D; distinct cs\<rbrakk> \<Longrightarrow>
    \<exists>ns' q'. ac_root_loop n ns (map int q) cs = Some (ns', map int q') \<and>
      ac_inv n label N ns' q' (D \<union> {0} \<times> set cs) \<and> length ns' = length ns"
proof (induction cs arbitrary: ns q D)
  case Nil
  then show ?case by auto
next
  case (Cons c cs)
  have n: "0 < n" and l0: "label 0 = []" using lab by (auto simp: labelled_def)
  have ne: "ns \<noteq> []" using ac_invD(1) [OF Cons.prems(1)] n by auto
  have c: "(0, c) \<notin> D" using Cons.prems(3) by simp
  have D: "insert (0, c) D \<subseteq> {0} \<times> UNIV" "\<forall>d\<in>set cs. (0, d) \<notin> insert (0, c) D" "distinct cs"
    "D \<union> {0} \<times> set (c # cs) = insert (0, c) D \<union> {0} \<times> set cs" using Cons.prems by auto
  note orig = ac_invD(5) [OF Cons.prems(1) n c]
  show ?case
  proof (cases "ac_next (ns ! 0) c < 0")
    case True
    then have no: "label 0 @ [c] \<notin> label ` {..<n}" using trie_child(1) [OF lab orig n] by blast
    then have "delta n label (label 0 @ [c]) = 0"
      using lps_tl [OF no] labelled_facts(6) [OF lab] by (simp add: delta_def l0)
    then have "ac_inv n label N (ns[0 := (ns ! 0)\<lparr>ac_next := (ac_next (ns ! 0))(c := 0)\<rparr>]) q (insert (0, c) D)"
      using ac_inv_missing [OF lab Cons.prems(1) n no] by simp
    from Cons.IH [OF this D(1-3)] show ?thesis using True ne D(4) by simp
  next
    case False
    then obtain t where t: "t < n" "label t = label 0 @ [c]" "ac_next (ns ! 0) c = int t"
      using trie_child(2) [OF lab orig n] by blast
    note ch = ac_inv_child [OF lab Cons.prems(1) n c t(1,2)]
    have tl: "t < length ns" using t(1) ac_invD(1) [OF Cons.prems(1)] by simp
    have "delta n label (tl (label t)) = 0" using t(2) l0 labelled_facts(6) [OF lab] by simp
    moreover have "hit N (label t) = ac_match (ns ! t)"
      using ac_invD(8) [OF Cons.prems(1) t(1) ch(1)] t(2) l0 NL by (auto simp: hit_def suffix_Cons)
    ultimately have e: "ns[t := (ns ! t)\<lparr>ac_fail := int (delta n label (tl (label t))), ac_match := hit N (label t)\<rparr>] =
      ns[t := (ns ! t)\<lparr>ac_fail := 0\<rparr>]" by simp
    from Cons.IH [OF ch(5) [unfolded e] D(1-3)] show ?thesis
      using False t(3) tl ne D(4) ch(4) by (simp add: queue_push_def)
  qed
qed


lemma ac_state_loop_ok:
  assumes lab: "labelled n label" and NL: "N \<subseteq> label ` {..<n}" and nN: "[] \<notin> N"
    and s: "s < n" "label s \<noteq> []" and P: "\<And>u. u < n \<Longrightarrow> length (label u) < length (label s) \<Longrightarrow> u \<in> P"
  shows "\<lbrakk>ac_inv n label N ns q D; s \<in> set q; P \<times> UNIV \<subseteq> D; \<forall>c\<in>set cs. (s, c) \<notin> D; distinct cs\<rbrakk> \<Longrightarrow>
    \<exists>ns' r. ac_state_loop n (int s) ns (map int q) cs = Some (ns', map int (q @ r)) \<and>
      ac_inv n label N ns' (q @ r) (D \<union> {s} \<times> set cs) \<and> length ns' = length ns \<and>
      (\<forall>u\<in>set r. length (label u) = Suc (length (label s)))"
proof (induction cs arbitrary: ns q D)
  case Nil
  then show ?case by (intro exI [of _ ns] exI [of _ "[]"]) auto
next
  case (Cons c cs)
  note i = Cons.prems(1) and nil = labelled_facts(1) [OF lab]
  define f where "f = delta n label (tl (label s))"
  define g where "g = delta n label (label f @ [c])"
  have len: "n \<le> length ns" "s < length ns" using ac_invD(1) [OF i] s by auto
  have fl: "f < n" "ac_fail (ns ! s) = int f"
    using labelled_facts(3) [OF lab] ac_invD(6) [OF i Cons.prems(2)] by (simp_all add: f_def)
  have "length (label f) < length (label s)"
    using s(2) lps_suffix [of "label ` {..<n}" "tl (label s)", THEN suffix_length_le]
    by (simp add: f_def labelled_facts(4) [OF lab]) (metis One_nat_def diff_less le_less_trans length_greater_0_conv zero_less_one)
  then have fP: "ac_next (ns ! f) c = int g"
    using ac_invD(4) [OF i fl(1)] P [OF fl(1)] Cons.prems(3) by (auto simp: g_def)
  have c: "(s, c) \<notin> D" using Cons.prems(4) by simp
  have D: "P \<times> UNIV \<subseteq> insert (s, c) D" "\<forall>d\<in>set cs. (s, d) \<notin> insert (s, c) D" "distinct cs"
    "D \<union> {s} \<times> set (c # cs) = insert (s, c) D \<union> {s} \<times> set cs" using Cons.prems by auto
  note orig = ac_invD(5) [OF i s(1) c]
  have gs: "g = delta n label (tl (label s) @ [c])" using labelled_facts(7) [OF lab] by (simp add: g_def f_def)
  show ?case
  proof (cases "ac_next (ns ! s) c < 0")
    case True
    then have no: "label s @ [c] \<notin> label ` {..<n}" using trie_child(1) [OF lab orig s(1)] by blast
    have "delta n label (label s @ [c]) = g" using delta_tl [OF lab no s(2)] by (simp add: g_def f_def)
    then have "ac_inv n label N (ns[s := (ns ! s)\<lparr>ac_next := (ac_next (ns ! s))(c := int g)\<rparr>]) q (insert (s, c) D)"
      using ac_inv_missing [OF lab i s(1) no] by simp
    from Cons.IH [OF this Cons.prems(2) D(1-3)] show ?thesis
      using True len fl fP D(4) by simp
  next
    case False
    then obtain t where t: "t < n" "label t = label s @ [c]" "ac_next (ns ! s) c = int t"
      using trie_child(2) [OF lab orig s(1)] by blast
    note ch = ac_inv_child [OF lab i s(1) c t(1,2)]
    have gt: "g = delta n label (tl (label t))" using gs t(2) s(2) by simp
    have gn: "g < n" and lg: "label g = lps (label ` {..<n}) (tl (label t))"
      using labelled_facts(3,4) [OF lab] by (simp_all add: gt)
    have "ac_match (ns ! g) = hit N (label g)"
    proof (cases "g \<in> set q")
      case True
      then show ?thesis by (rule ac_invD(7) [OF i])
    next
      case notin: False
      have "label g = []"
      proof (cases "label g" rule: rev_cases)
        case (snoc w d)
        then obtain p where p: "p < n" "label p = w" using labelled_facts(2) [OF lab, of w d] gn by (metis imageE imageI lessThan_iff)
        have "length (label g) \<le> length (label s)"
          using lps_suffix [of "label ` {..<n}" "tl (label t)", THEN suffix_length_le] t(2) lg by simp
        then have "(p, d) \<in> D" using P [OF p(1)] p(2) snoc Cons.prems(3) by auto
        then show ?thesis using notin ac_invD(3) [OF i, of g] gn p snoc by metis
      qed
      then show ?thesis using ac_invD(8) [OF i gn notin] nN by (simp add: hit_def)
    qed
    then have "ac_match (ns ! g) = hit N (tl (label t))" using hit_lps [OF NL nil] lg by simp
    moreover have "hit N (label t) \<longleftrightarrow> label t \<in> N \<or> hit N (tl (label t))"
      using t(2) s(2) by (cases "label s") (simp_all add: hit_Cons)
    ultimately have m: "hit N (label t) \<longleftrightarrow> ac_match (ns ! t) \<or> ac_match (ns ! g)"
      using ac_invD(8) [OF i t(1) ch(1)] by auto
    have tl: "t < length ns" "g < length ns" using t(1) gn len by auto
    let ?ns = "ns[t := (ns ! t)\<lparr>ac_fail := int (delta n label (tl (label t))), ac_match := hit N (label t)\<rparr>]"
    have e: "(ns ! t)\<lparr>ac_fail := int (delta n label (tl (label t))), ac_match := hit N (label t)\<rparr> =
      (if ac_match (ns ! g) then (ns ! t)\<lparr>ac_fail := int g, ac_match := True\<rparr> else (ns ! t)\<lparr>ac_fail := int g\<rparr>)"
      unfolding m gt [symmetric] by (cases "ns ! t") auto
    have "ac_state_loop n (int s) ns (map int q) (c # cs) = ac_state_loop n (int s) ?ns (map int (q @ [t])) cs"
      unfolding e using False t(3) tl len fl fP ch(3,4) by (auto simp: queue_push_def nth_list_update Let_def)
    moreover have "s \<in> set (q @ [t])" using Cons.prems(2) by simp
    from Cons.IH [OF ch(5) this D(1-3)] obtain ns' r where
      "ac_state_loop n (int s) ?ns (map int (q @ [t])) cs = Some (ns', map int ((q @ [t]) @ r))"
      "ac_inv n label N ns' ((q @ [t]) @ r) (insert (s, c) D \<union> {s} \<times> set cs)" "length ns' = length ?ns"
      "\<forall>u\<in>set r. length (label u) = Suc (length (label s))" by blast
    ultimately show ?thesis using t(2) D(4) by (intro exI [of _ ns'] exI [of _ "t # r"]) simp
  qed
qed


text \<open>The breadth first walk: states leave the queue in the order of their depth.\<close>

definition ac_ordered :: "nat \<Rightarrow> (nat \<Rightarrow> bytes) \<Rightarrow> nat list \<Rightarrow> nat \<Rightarrow> bool" where
  "ac_ordered n label q h \<longleftrightarrow> h \<le> length q \<and> sorted (map (\<lambda>u. length (label u)) q) \<and>
    (\<forall>u\<in>set q. h < length q \<longrightarrow> length (label u) \<le> Suc (length (label (q ! h))))"

lemma ac_shallow:
  assumes lab: "labelled n label" and i: "ac_inv n label N ns q (insert 0 (set (take h q)) \<times> UNIV)"
    and o: "ac_ordered n label q h" and h: "h < length q"
  shows "\<lbrakk>u < n; length (label u) < length (label (q ! h))\<rbrakk> \<Longrightarrow> u \<in> insert 0 (set (take h q))"
proof (induction "length (label u)" arbitrary: u rule: less_induct)
  case less
  show ?case
  proof (cases "label u" rule: rev_cases)
    case Nil
    then show ?thesis using labelled_facts(8) [OF lab less.prems(1), of 0] lab by (auto simp: labelled_def)
  next
    case (snoc w c)
    then obtain p where p: "p < n" "label p = w" using labelled_facts(2) [OF lab, of w c] less.prems(1) by (metis imageE imageI lessThan_iff)
    have "p \<in> insert 0 (set (take h q))" using less.hyps [of p] p snoc less.prems(2) by simp
    then have "u \<in> set q" using ac_invD(3) [OF i, of u] less.prems(1) p snoc by blast
    then obtain j where j: "j < length q" "q ! j = u" by (auto simp: in_set_conv_nth)
    have "j < h"
    proof (rule ccontr)
      assume "\<not> j < h"
      then have "length (label (q ! h)) \<le> length (label (q ! j))"
        using o j(1) h sorted_nth_mono [of "map (\<lambda>u. length (label u)) q" h j] by (simp add: ac_ordered_def)
      then show False using less.prems(2) j(2) by simp
    qed
    then have "u = take h q ! j" "j < length (take h q)" using j h by auto
    then show ?thesis by (metis insertI2 nth_mem)
  qed
qed

lemma ac_complete:
  assumes lab: "labelled n label" and i: "ac_inv n label N ns q (insert 0 (set q) \<times> UNIV)"
  shows "u < n \<Longrightarrow> u \<in> insert 0 (set q)"
proof (induction "length (label u)" arbitrary: u rule: less_induct)
  case less
  show ?case
  proof (cases "label u" rule: rev_cases)
    case Nil
    then show ?thesis using labelled_facts(8) [OF lab less.prems, of 0] lab by (auto simp: labelled_def)
  next
    case (snoc w c)
    then obtain p where p: "p < n" "label p = w" using labelled_facts(2) [OF lab, of w c] less.prems by (metis imageE imageI lessThan_iff)
    then have "p \<in> insert 0 (set q)" using less.hyps [of p] snoc by simp
    then show ?thesis using ac_invD(3) [OF i, of u] less.prems p snoc by blast
  qed
qed

lemma set_all_bytes: "set all_bytes = UNIV" and distinct_all_bytes: "distinct all_bytes"
proof -
  show "set all_bytes = UNIV"
  proof -
    have "c \<in> set all_bytes" for c :: u8
      using unsigned_less [of c] by (auto simp: all_bytes_def intro!: image_eqI [of _ _ "unat c"])
    then show ?thesis by blast
  qed
  show "distinct all_bytes"
  proof -
    have "a = b" if "a < 256" "b < 256" "(of_nat a :: u8) = of_nat b" for a b :: nat
      using arg_cong [OF that(3), of unat] that(1,2) by (simp add: unat_of_nat)
    then show ?thesis by (auto simp: all_bytes_def distinct_map inj_on_def)
  qed
qed

definition ac_built :: "nat \<Rightarrow> (nat \<Rightarrow> bytes) \<Rightarrow> bytes set \<Rightarrow> ac_node list \<Rightarrow> bool" where
  "ac_built n label N ns \<longleftrightarrow> n \<le> length ns \<and>
    (\<forall>u<n. ac_match (ns ! u) = hit N (label u) \<and> (\<forall>c. ac_next (ns ! u) c = int (delta n label (label u @ [c]))))"

lemma ac_bfs_ok:
  assumes lab: "labelled n label" and NL: "N \<subseteq> label ` {..<n}" and nN: "[] \<notin> N"
  shows "\<lbrakk>ac_inv n label N ns q (insert 0 (set (take h q)) \<times> UNIV); ac_ordered n label q h\<rbrakk> \<Longrightarrow>
    \<exists>ns'. ac_bfs n ns (map int q) h = Some ns' \<and> length ns' = length ns \<and> ac_built n label N ns'"
proof (induction "n - h" arbitrary: ns q h rule: less_induct)
  case less
  note i = less.prems(1) and o = less.prems(2)
  have "set q \<subseteq> {..<n}" using ac_invD(3) [OF i] by auto
  then have qn: "length q \<le> n" using ac_invD(2) [OF i] by (metis card_lessThan card_mono distinct_card finite_lessThan)
  show ?case
  proof (cases "h < length q")
    case False
    then have "take h q = q" by simp
    then have i': "ac_inv n label N ns q (insert 0 (set q) \<times> UNIV)" using i by simp
    have "ac_match (ns ! u) = hit N (label u)" if "u < n" for u
    proof (cases "u \<in> set q")
      case notin: False
      then have "label u = []" using ac_complete [OF lab i' that] lab by (auto simp: labelled_def)
      then show ?thesis using ac_invD(8) [OF i' that notin] nN by (simp add: hit_def)
    qed (rule ac_invD(7) [OF i'])
    moreover have "ac_next (ns ! u) c = int (delta n label (label u @ [c]))" if "u < n" for u c
      using ac_invD(4) [OF i' that] ac_complete [OF lab i' that] by blast
    ultimately have "ac_built n label N ns" using ac_invD(1) [OF i] by (simp add: ac_built_def)
    then show ?thesis using False by (simp add: ac_bfs.simps [of n ns "map int q" h])
  next
    case True
    let ?s = "q ! h" and ?P = "insert 0 (set (take h q))"
    have sq: "?s \<in> set q" using True by simp
    then obtain p c where s: "?s < n" "label ?s = label p @ [c]" using ac_invD(3) [OF i] by blast
    have "?s \<noteq> 0" using s(2) lab by (metis append_is_Nil_conv labelled_def not_Cons_self2)
    moreover have "?s \<notin> set (take h q)" using ac_invD(2) [OF i] True
      by (metis in_set_conv_nth length_take less_irrefl min_less_iff_conj nth_eq_iff_index_eq nth_take)
    ultimately have fresh: "\<forall>d\<in>set all_bytes. (?s, d) \<notin> ?P \<times> UNIV" by simp
    obtain ns' r where r: "ac_state_loop n (int ?s) ns (map int q) all_bytes = Some (ns', map int (q @ r))"
      "ac_inv n label N ns' (q @ r) (?P \<times> UNIV \<union> {?s} \<times> set all_bytes)" "length ns' = length ns"
      "\<forall>u\<in>set r. length (label u) = Suc (length (label ?s))"
      using ac_state_loop_ok [OF lab NL nN s(1) _ ac_shallow [OF lab i o True] i sq subset_refl fresh distinct_all_bytes] s(2)
      by auto
    have D: "?P \<times> UNIV \<union> {?s} \<times> set all_bytes = insert 0 (set (take (h + 1) (q @ r))) \<times> UNIV"
      using True by (auto simp: set_all_bytes take_Suc_conv_app_nth)
    have "ac_ordered n label (q @ r) (h + 1)"
    proof -
      have "sorted (map (\<lambda>u. length (label u)) (q @ r))"
        using o r(4) True by (auto simp: ac_ordered_def sorted_append intro: sorted_wrt_iff_nth_less [THEN iffD2])
      moreover have "length (label u) \<le> Suc (length (label ?s))" if "u \<in> set (q @ r)" for u
        using that o r(4) True by (auto simp: ac_ordered_def)
      moreover have "length (label ?s) \<le> length (label ((q @ r) ! (h + 1)))" if "h + 1 < length (q @ r)"
      proof -
        let ?f = "\<lambda>u. length (label u)"
        have "map ?f (q @ r) ! h \<le> map ?f (q @ r) ! (h + 1)"
          by (rule sorted_nth_mono) (use \<open>sorted (map ?f (q @ r))\<close> that in auto)
        moreover have "map ?f (q @ r) ! h = ?f ((q @ r) ! h)" "map ?f (q @ r) ! (h + 1) = ?f ((q @ r) ! (h + 1))"
          using that True by (auto intro!: nth_map simp del: map_append)
        ultimately show ?thesis using True by (simp add: nth_append)
      qed
      ultimately show ?thesis using True unfolding ac_ordered_def by fastforce
    qed
    moreover have "n - (h + 1) < n - h" using True qn by simp
    ultimately obtain ns'' where "ac_bfs n ns' (map int (q @ r)) (h + 1) = Some ns''" "length ns'' = length ns'" "ac_built n label N ns''"
      using less.hyps [of "h + 1" ns' "q @ r"] r(2) unfolding D by blast
    then show ?thesis using True qn r(1,3) by (simp add: ac_bfs.simps [of n ns "map int q" h])
  qed
qed


lemma ac_finish_ok:
  assumes t: "ac_trie ac label N" and nN: "[] \<notin> N" and mem: "ac_nnodes ac \<le> NGX_MAX_SIZE_T_VALUE div 8" "alloc (ac_nnodes ac * 8)"
  shows "\<exists>ac'. cookie_ac_finish alloc ac = Some (NGX_OK, ac') \<and> ac_nnodes ac' = ac_nnodes ac \<and>
    ac_nodes ac' \<noteq> [] \<and> ac_built (ac_nnodes ac) label N (ac_nodes ac')"
proof -
  let ?n = "ac_nnodes ac" and ?ns = "ac_nodes ac"
  have tr: "trie ?ns ?n label N" using t by (simp add: ac_trie_def)
  have lab: "labelled ?n label" and NL: "N \<subseteq> label ` {..<?n}" using tr by (auto simp: trie_def)
  obtain ns q where r: "ac_root_loop ?n ?ns (map int []) all_bytes = Some (ns, map int q)"
    "ac_inv ?n label N ns q ({} \<union> {0} \<times> set all_bytes)" "length ns = length ?ns"
    using ac_root_loop_ok [OF lab nN ac_inv_trie [OF tr], of all_bytes] distinct_all_bytes by auto
  have i: "ac_inv ?n label N ns q (insert 0 (set (take 0 q)) \<times> UNIV)" using r(2) by (simp add: set_all_bytes)
  have one: "length (label u) = 1" if "u \<in> set q" for u
  proof -
    from \<open>u \<in> set q\<close> obtain p c where p: "label u = label p @ [c]" "(p, c) \<in> insert 0 (set (take 0 q)) \<times> UNIV"
      using ac_invD(3) [OF i, of u] by blast
    then have "p = 0" by simp
    then show ?thesis using p(1) ac_trie_facts(5) [OF t] by simp
  qed
  have "map (\<lambda>u. length (label u)) q = map (\<lambda>_. 1) q" by (rule map_cong [OF refl]) (rule one)
  then have "ac_ordered ?n label q 0"
    unfolding ac_ordered_def using one [OF nth_mem [of 0 q]] one by (simp add: map_replicate_const)
  from ac_bfs_ok [OF lab NL nN i this] obtain ns' where
    "ac_bfs ?n ns (map int q) 0 = Some ns'" "length ns' = length ns" "ac_built ?n label N ns'" by blast
  then show ?thesis using r mem ac_trie_facts(1,3) [OF t]
    by (intro exI [of _ "ac\<lparr>ac_nodes := ns'\<rparr>"]) (auto simp: cookie_ac_finish_def)
qed

subsection \<open>Both builds search\<close>

definition until_nul :: "bytes \<Rightarrow> bytes" where
  "until_nul dat = takeWhile (\<lambda>c. c \<noteq> 0) dat"

lemma until_nul_simps [simp]:
  "until_nul [] = []" "until_nul (c # cs) = (if c = 0 then [] else c # until_nul cs)"
  by (simp_all add: until_nul_def)

lemma hit_sublist: "[] \<notin> N \<Longrightarrow> (\<exists>p. prefix p w \<and> p \<noteq> [] \<and> hit N p) \<longleftrightarrow> (\<exists>m\<in>N. sublist m w)"
  unfolding hit_def sublist_altdef by (metis suffix_bot.extremum_uniqueI)

lemma ac_scan_ok:
  assumes lab: "labelled n label" and b: "ac_built n label N ns" and NL: "N \<subseteq> label ` {..<n}"
  shows "ac_scan ns (int (delta n label w)) cs = Some (\<exists>p. prefix p (until_nul cs) \<and> p \<noteq> [] \<and> hit N (w @ p))"
proof (induction cs arbitrary: w)
  case (Cons c cs)
  have d: "delta n label v < n" "delta n label v < length ns" for v
    using labelled_facts(3) [OF lab] b by (auto simp: ac_built_def intro: less_le_trans)
  have nx: "ac_next (ns ! delta n label w) c = int (delta n label (w @ [c]))"
    using b d(1) by (simp add: ac_built_def labelled_facts(7) [OF lab, symmetric])
  have m: "ac_match (ns ! delta n label (w @ [c])) = hit N (w @ [c])"
    using b d(1) hit_lps [OF NL labelled_facts(1) [OF lab]] by (simp add: ac_built_def labelled_facts(4) [OF lab])
  have split: "(\<exists>p. prefix p (c # v) \<and> p \<noteq> [] \<and> hit N (w @ p)) \<longleftrightarrow>
    hit N (w @ [c]) \<or> (\<exists>p. prefix p v \<and> p \<noteq> [] \<and> hit N ((w @ [c]) @ p))" for v
  proof -
    have "(\<exists>p. prefix p (c # v) \<and> p \<noteq> [] \<and> hit N (w @ p)) \<longleftrightarrow> (\<exists>p. prefix p v \<and> hit N (w @ c # p))"
      by (auto simp: prefix_Cons)
    also have "\<dots> \<longleftrightarrow> hit N (w @ [c]) \<or> (\<exists>p. prefix p v \<and> p \<noteq> [] \<and> hit N (w @ c # p))"
      by (metis Nil_prefix)
    finally show ?thesis by simp
  qed
  show ?case
    using Cons.IH [of "w @ [c]"] d nx m by (simp add: split [of "until_nul cs"])
qed auto

lemma ac_match_ok:
  assumes lab: "labelled n label" and b: "ac_built n label N (ac_nodes ac)" and NL: "N \<subseteq> label ` {..<n}"
    and nN: "[] \<notin> N" and ne: "ac_nodes ac \<noteq> []" "ac_nnodes ac = n"
  shows "cookie_ac_match ac hs = Some (\<exists>ck\<in>set hs. \<exists>m\<in>N. sublist m (until_nul ck))"
proof -
  have n: "0 < n" "label 0 = []" using lab by (auto simp: labelled_def)
  have "\<not> ac_match (ac_nodes ac ! 0)" using b n nN by (simp add: ac_built_def hit_def)
  then have one: "cookie_ac_scan_one ac ck = Some (\<exists>m\<in>N. sublist m (until_nul ck))" for ck
    using ac_scan_ok [OF lab b NL, of "[]" ck] hit_sublist [OF nN, of "until_nul ck"] n(1) ne nN
    by (cases ck) (auto simp: cookie_ac_scan_one_def labelled_facts(6) [OF lab])
  have "ac_any ac hs = Some (\<exists>ck\<in>set hs. \<exists>m\<in>N. sublist m (until_nul ck))"
    by (induction hs) (use nN in \<open>auto simp: one\<close>)
  then show ?thesis using ne n(1) by (simp add: cookie_ac_match_def)
qed


lemma contains_at_ok:
  "0 \<notin> set needle \<Longrightarrow> (case contains_at dat needle of
     None \<Rightarrow> length (until_nul dat) < length needle
   | Some b \<Rightarrow> b \<longleftrightarrow> prefix needle (until_nul dat))"
  by (induction dat needle rule: contains_at.induct) (auto split: option.splits)

lemma until_nul_le: "length (until_nul dat) \<le> length dat"
  by (simp add: until_nul_def length_takeWhile_le)

lemma contains_from_ok: "0 \<notin> set needle \<Longrightarrow> needle \<noteq> [] \<Longrightarrow> contains_from dat needle \<longleftrightarrow> sublist needle (until_nul dat)"
proof (induction dat needle rule: contains_from.induct)
  case (2 d ds needle)
  note short = sublist_length_le [of needle "until_nul (d # ds)"]
  note at = contains_at_ok [OF 2(2), of "d # ds"]
  show ?case
  proof (cases "length (d # ds) < length needle")
    case True
    then show ?thesis using short until_nul_le [of "d # ds"] by auto
  next
    case False
    show ?thesis
    proof (cases "contains_at (d # ds) needle")
      case None
      then show ?thesis using at short by auto
    next
      case (Some b)
      have d: "d \<noteq> 0" using Some 2(3) by (cases needle) auto
      have "sublist needle (until_nul (d # ds)) \<longleftrightarrow> b \<or> sublist needle (until_nul ds)"
        using at Some d by (simp add: sublist_Cons_right)
      then show ?thesis using 2(1) [OF False Some] 2(2,3) False Some by simp
    qed
  qed
qed simp

lemma cookie_contains_ok: "0 \<notin> set needle \<Longrightarrow> needle \<noteq> [] \<Longrightarrow> cookie_contains dat needle \<longleftrightarrow> sublist needle (until_nul dat)"
  using contains_from_ok [of needle dat] sublist_length_le [of needle "until_nul dat"] until_nul_le [of dat]
  by (auto simp: cookie_contains_def)

lemma byteset_ok: "cookie_byteset_build cks used seen = Some s \<Longrightarrow> s = seen \<union> \<Union> (set ` set cks)"
  by (induction cks used seen rule: cookie_byteset_build.induct) (auto split: if_splits)

lemma cookie_has_ok:
  assumes "\<forall>n\<in>set nms. n \<noteq> [] \<and> 0 \<notin> set n"
  shows "cookie_has hs nms (\<Union> (set ` set hs)) \<longleftrightarrow> (\<exists>ck\<in>set hs. \<exists>m\<in>set nms. sublist m (until_nul ck))"
  using assms
proof (induction nms)
  case (Cons n nms)
  have n: "n \<noteq> []" "0 \<notin> set n" using Cons.prems by auto
  have sub: "hd n \<in> set ck" "ck \<noteq> []" if "sublist n (until_nul ck)" for ck
  proof -
    have "set n \<subseteq> set ck" using set_mono_sublist [OF that] by (auto simp: until_nul_def dest: set_takeWhileD)
    then show "hd n \<in> set ck" "ck \<noteq> []" using n(1) by auto
  qed
  show ?case
  proof (cases "\<exists>ck\<in>set hs. sublist n (until_nul ck)")
    case True
    then obtain ck where "ck \<in> set hs" "sublist n (until_nul ck)" by blast
    then show ?thesis using sub cookie_contains_ok [OF n(2,1)] n(1) by (auto simp: list_ex_iff)
  next
    case False
    then show ?thesis using Cons cookie_contains_ok [OF n(2,1)] n(1) by (auto simp: list_ex_iff)
  qed
qed simp

lemma cookie_ac_size_ok: "m \<le> 2 ^ 64 - 1 \<Longrightarrow> cookie_ac_size m nms =
    (if m + sum_list (map length nms) \<le> 2 ^ 64 - 1 then Some (m + sum_list (map length nms)) else None)"
  by (induction nms arbitrary: m) auto

lemma compile_ok:
  assumes ok: "\<forall>nm\<in>set nms. nm \<noteq> [] \<and> 0 \<notin> set nm"
  shows "\<exists>rc ac. cookie_ac_compile alloc nms = Some (rc, ac) \<and> rc \<in> {NGX_OK, NGX_ERROR} \<and>
    ((\<forall>k. alloc k) \<and> 1 + sum_list (map length nms) \<le> NGX_MAX_SIZE_T_VALUE div AC_NODE_SIZE \<longrightarrow> rc = NGX_OK) \<and>
    (rc = NGX_OK \<longrightarrow> (\<forall>hs. cookie_ac_match ac hs = Some (\<exists>ck\<in>set hs. \<exists>m\<in>set nms. sublist m (until_nul ck))))"
proof -
  define m where "m = 1 + sum_list (map length nms)"
  have c8: "8 \<le> AC_NODE_SIZE" by (simp add: AC_NODE_SIZE_def)
  have m0: "m \<noteq> 0" by (simp add: m_def)
  have le: "m \<le> NGX_MAX_SIZE_T_VALUE div AC_NODE_SIZE \<Longrightarrow> m \<le> 2 ^ 64 - 1"
    by (simp add: NGX_MAX_SIZE_T_VALUE_def AC_NODE_SIZE_def)
  have "cookie_ac_size 1 nms = (if m \<le> 2 ^ 64 - 1 then Some m else None)"
    unfolding m_def by (rule cookie_ac_size_ok) simp
  note compile = cookie_ac_compile_def [of alloc nms, unfolded this]
  show ?thesis
  proof (cases "m \<le> NGX_MAX_SIZE_T_VALUE div AC_NODE_SIZE \<and> alloc (m * AC_NODE_SIZE)")
    case False
    then have "cookie_ac_compile alloc nms = Some (NGX_ERROR, ac_null)"
      using m0 by (auto simp: compile cookie_ac_prepare_def)
    then show ?thesis using False by (auto simp: m_def)
  next
    case True
    let ?ac = "\<lparr>ac_nodes = replicate m ac_blank, ac_nnodes = 1, ac_cap = m\<rparr>"
    have prep: "cookie_ac_prepare alloc m = Some ?ac" using True m0 by (simp add: cookie_ac_prepare_def)
    have "ac_trie ?ac (\<lambda>_. []) {}" using trie_prepared [of m] m0 by (simp add: ac_trie_def)
    from trie_insert_all [OF this, of nms] obtain ac' label where ins: "cookie_ac_insert_all ?ac nms = Some (NGX_OK, ac')"
      "ac_trie ac' label (set nms)" "ac_cap ac' = m" by (auto simp: m_def)
    have eq: "cookie_ac_compile alloc nms = cookie_ac_finish alloc ac'"
      using True le prep ins(1) by (simp add: compile)
    have nN: "[] \<notin> set nms" using ok by auto
    have lab: "labelled (ac_nnodes ac') label" "set nms \<subseteq> label ` {..<ac_nnodes ac'}"
      using ins(2) by (auto simp: ac_trie_def trie_def)
    have "ac_nnodes ac' \<le> m" using ac_trie_facts(2) [OF ins(2)] ins(2,3) by (simp add: ac_trie_def)
    moreover have "NGX_MAX_SIZE_T_VALUE div AC_NODE_SIZE \<le> NGX_MAX_SIZE_T_VALUE div 8" by (rule div_le_mono2) (use c8 in auto)
    ultimately have n8: "ac_nnodes ac' \<le> NGX_MAX_SIZE_T_VALUE div 8" using True by linarith
    show ?thesis
    proof (cases "alloc (ac_nnodes ac' * 8)")
      case False
      then show ?thesis using n8 ac_trie_facts(1,3) [OF ins(2)] by (auto simp: eq cookie_ac_finish_def)
    next
      case True
      obtain ac'' where fin: "cookie_ac_finish alloc ac' = Some (NGX_OK, ac'')" "ac_nnodes ac'' = ac_nnodes ac'"
        "ac_nodes ac'' \<noteq> []" "ac_built (ac_nnodes ac') label (set nms) (ac_nodes ac'')"
        using ac_finish_ok [OF ins(2) nN n8, of alloc] True by blast
      then show ?thesis using ac_match_ok [OF lab(1) fin(4) lab(2) nN fin(3,2)] by (auto simp: eq)
    qed
  qed
qed


subsection \<open>Properties\<close>

text \<open>
  C17: For preset names without NUL the compilation ends, in NGX_OK when the memory is there, and never leaves the
  node array or its queue. The automaton then matches exactly when some name occurs in some Cookie value before
  its first NUL, whatever the names share, and answers as the search of the other build does wherever that build
  does not give up on the size of the headers.
\<close>

theorem cookie_ac_is_search:
  assumes "\<forall>nm\<in>set nms. nm \<noteq> [] \<and> 0 \<notin> set nm"
  shows "\<exists>rc ac. cookie_ac_compile alloc nms = Some (rc, ac) \<and> rc \<in> {NGX_OK, NGX_ERROR} \<and>
    ((\<forall>k. alloc k) \<and> 1 + sum_list (map length nms) \<le> NGX_MAX_SIZE_T_VALUE div AC_NODE_SIZE \<longrightarrow> rc = NGX_OK) \<and>
    (rc = NGX_OK \<longrightarrow> (\<forall>hs. cookie_ac_match ac hs = Some (\<exists>ck\<in>set hs. \<exists>m\<in>set nms. sublist m (until_nul ck)) \<and>
      (\<forall>seen. cookie_byteset_build hs 0 {} = Some seen \<longrightarrow> cookie_ac_match ac hs = Some (cookie_has hs nms seen))))"
proof -
  obtain rc ac where c: "cookie_ac_compile alloc nms = Some (rc, ac)" "rc \<in> {NGX_OK, NGX_ERROR}"
    "(\<forall>k. alloc k) \<and> 1 + sum_list (map length nms) \<le> NGX_MAX_SIZE_T_VALUE div AC_NODE_SIZE \<longrightarrow> rc = NGX_OK"
    "rc = NGX_OK \<longrightarrow> (\<forall>hs. cookie_ac_match ac hs = Some (\<exists>ck\<in>set hs. \<exists>m\<in>set nms. sublist m (until_nul ck)))"
    using compile_ok [OF assms, of alloc] by blast
  have "cookie_has hs nms seen = (\<exists>ck\<in>set hs. \<exists>m\<in>set nms. sublist m (until_nul ck))"
    if "cookie_byteset_build hs 0 {} = Some seen" for hs seen
    using cookie_has_ok [OF assms, of hs] byteset_ok [OF that] by simp
  then show ?thesis using c by (intro exI [of _ rc] exI [of _ ac]) simp
qed

theorem cookie_ac_is_search_witness:
  "\<exists>ac. cookie_ac_compile (\<lambda>_. True) [ascii ''wp_'', ascii ''p_x''] = Some (NGX_OK, ac) \<and>
      cookie_ac_match ac [ascii ''a=1; wp_=2''] = Some True \<and> cookie_ac_match ac [ascii ''wpp_y=1'', []] = Some False"
proof -
  let ?nms = "[ascii ''wp_'', ascii ''p_x'']"
  have ok: "\<forall>nm\<in>set ?nms. nm \<noteq> [] \<and> 0 \<notin> set nm" by code_simp
  have "1 + sum_list (map length ?nms) \<le> NGX_MAX_SIZE_T_VALUE div AC_NODE_SIZE"
    by (simp add: ascii_def NGX_MAX_SIZE_T_VALUE_def AC_NODE_SIZE_def)
  then obtain ac where ac: "cookie_ac_compile (\<lambda>_. True) ?nms = Some (NGX_OK, ac)"
    "\<And>hs. cookie_ac_match ac hs = Some (\<exists>ck\<in>set hs. \<exists>m\<in>set ?nms. sublist m (until_nul ck))"
    using cookie_ac_is_search [OF ok, of "\<lambda>_. True"] by auto
  have "(\<exists>ck\<in>set [ascii ''a=1; wp_=2'']. \<exists>m\<in>set ?nms. sublist m (until_nul ck))"
    "\<not> (\<exists>ck\<in>set [ascii ''wpp_y=1'', []]. \<exists>m\<in>set ?nms. sublist m (until_nul ck))" by code_simp+
  then have "cookie_ac_match ac [ascii ''a=1; wp_=2''] = Some True" "cookie_ac_match ac [ascii ''wpp_y=1'', []] = Some False"
    unfolding ac(2) by simp_all
  with ac(1) show ?thesis by blast
qed

end
