(* ===== verification/Spec2Isabelle.thy ===== *)
theory Spec2Isabelle
  imports Autotune Breaker_Steps Zone_Evict Zone_Store Zone_Miss Zone_Queue Zone_Readers Serve Freshness Access_L1 Redis_Walk Memcached Cache_Key Cookie_Ac
begin

text \<open>
  A verification development for the nginx module \<open>cache-turbo\<close>
  (\<^verbatim>\<open>src/ngx_http_cache_turbo_*.c\<close>): a page cache in shared memory (L1) in front of Redis or
  memcached (L2), with stale-while-revalidate, single-flight regeneration, a circuit breaker and
  an admission policy.

  \<^bold>\<open>How the program hangs together.\<close> All workers map one zone. Its nodes are found through a
  red-black tree keyed by a SHA-256 digest, sit on one of two LRU queues and own a
  reference-counted body. A request looks its key up, serves the body without copying it (it holds
  a reference meanwhile), rolls dice about refreshing it early, or resolves a miss: count it, claim
  the lease, fetch, store. Stores allocate from a fixed slab and evict until they can. The breaker
  is a few atomic words in the same zone that every request consults before going to the origin.
  What is stored is one blob: a fixed header, the admissible response headers, the body. The same
  bytes go to L2, and what comes back from there is validated and no longer trusted. A response that
  varies is stored under a variant key, and a marker under the plain key says how to compute it.

  \<^bold>\<open>Theories.\<close>

  \<^item> \<open>Prelude\<close>: C integer types, return codes, list and word facts, and the locales \<open>stateful\<close> and
    \<open>monotone_stateful\<close>: a step function over events with an invariant every permitted event keeps;
    runs are treated there once. Each stateful component is an interpretation.
  \<^item> \<open>Swr\<close> (\<^verbatim>\<open>swr.c\<close>): stale windows, TTL clamping, the early-refresh dice.
  \<^item> \<open>Autotune\<close> (\<^verbatim>\<open>autotune.c\<close>): the cost verdict and its throttled publication.
  \<^item> \<open>Rbtree\<close> (\<^verbatim>\<open>shm.c\<close>: \<open>key64\<close>, \<open>rbtree_insert_value\<close>, \<open>shm_lookup\<close>): the index. The locale
    \<open>key_index\<close> states what the zone relies on; its interpretation proves it for the code's tree.
  \<^item> \<open>Sketch\<close> (\<^verbatim>\<open>shm.c\<close>: \<open>sketch_*\<close>): the count-min sketch with 4-bit counters and stripe-wise ageing.
  \<^item> \<open>Breaker\<close> (\<^verbatim>\<open>shm.c\<close>: \<open>breaker_state\<close>, \<open>breaker_record\<close>): the packed words and both entry points as
    sequential functions; \<open>Breaker_Steps\<close> cuts them into single atomic accesses that any number of
    workers interleave, proves the cut faithful, and proves safety over all interleavings.
  \<^item> \<open>Zone\<close>, \<open>Zone_Ops\<close> (\<^verbatim>\<open>shm.c\<close>, the L1 backend): the zone record and every operation on it.
  \<^item> \<open>Zone_Inv\<close>, \<open>Zone_Safe\<close>: the zone invariant \<open>zinv\<close> and its preservation by the building blocks
    and by every operation.
  \<^item> \<open>Zone_Events\<close>: the operations as one event machine (interpretation \<open>zone\<close> of \<open>stateful\<close>), and a
    concrete slab for the witnesses; \<open>Zone_Runs\<close>: what holds after every run.
  \<^item> \<open>Zone_Evict\<close>, \<open>Zone_Store\<close>, \<open>Zone_Miss\<close>, \<open>Zone_Queue\<close>, \<open>Zone_Readers\<close>: the functional behaviour of
    eviction and allocation, stores, cold misses, flushes and promotion, and the safety of
    zero-copy readers.
  \<^item> \<open>Headers\<close> (\<^verbatim>\<open>module.c\<close>, \<^verbatim>\<open>filters.c\<close>): which headers may enter or leave the cache. \<open>Blob\<close> (\<^verbatim>\<open>blob.c\<close>):
    the wire format with checked accesses, behind the locale \<open>byte_codec\<close>. \<open>Blob_Store\<close> (\<^verbatim>\<open>filters.c\<close>): from a
    finished response to its blob; \<open>Blob_Roundtrip\<close>: what is written is read back.
  \<^item> \<open>Encoding\<close> (\<^verbatim>\<open>vary.c\<close>): content codings. \<open>Restore\<close>, \<open>Restore_Safe\<close>, \<open>Serve\<close> (\<^verbatim>\<open>module.c\<close>): from a blob to
    a response, what such a response can contain, and the guards and references of a serve.
  \<^item> \<open>Cache_Control\<close>, \<open>Freshness\<close> (\<^verbatim>\<open>module.c\<close>): both sides of Cache-Control and the response policy.
  \<^item> \<open>Normalize\<close>, \<open>Decimal\<close>, \<open>Vary\<close> (\<^verbatim>\<open>vary.c\<close>, \<^verbatim>\<open>module.c\<close>, \<^verbatim>\<open>match.c\<close>): normalised arguments and request axes,
    printed numbers, variant and marker keys, and the classification of a Vary response.
  \<^item> \<open>Access_L1\<close> (\<^verbatim>\<open>access.c\<close>): the L1 phase of a request over the zone.
  \<^item> \<open>Resp\<close> (\<^verbatim>\<open>redis.c\<close>): the encoder and the parsers of the Redis protocol. \<open>Redis_Scan\<close>: the resumable
    framer against the plain one. \<open>Redis_Read\<close>: the readers over a socket that hands the stream out in
    any pieces (locale \<open>get_reader\<close>: what a parser owes its reader). \<open>Redis_Walk\<close>: commands over many keys, the tag
    index, and the SCAN walk of a purge.
  \<^item> \<open>Memcached\<close> (\<^verbatim>\<open>memcached.c\<close>): commands, GET parser, readers; the second interpretation of \<open>get_reader\<close>.
  \<^item> \<open>Cookie\<close> (\<^verbatim>\<open>match.c\<close>): the pairs of the Cookie headers, value predicates, the index built once per request.
    \<open>Cache_Key\<close> (\<^verbatim>\<open>module.c\<close>, \<^verbatim>\<open>match.c\<close>): the cache key with the cookies folded into it. \<open>Cookie_Ac\<close> (\<^verbatim>\<open>match.c\<close>): the
    automaton that finds any of the presets' cookie names in one pass, against the search it stands for.

  \<^bold>\<open>State correspondence.\<close> A slab address is a number; the node map and the body map of the zone
  record stand for the structs at those addresses. A body pointer is the address of its
  \<open>blobref\<close> header. A queue is the list of its nodes, head first. An operation that the code runs
  under the zone mutex from start to end is one function; what runs without the mutex (breaker,
  body release) is atomic per access. Clock, random numbers and the slab's answers are arguments.

  \<^bold>\<open>Parameters.\<close> nginx's slab allocator and the rotations of its red-black tree are the record
  \<open>ngx_core\<close>; \<open>core_ok\<close> says that a granted chunk is not in use, that a free returns exactly one
  chunk, and that tree surgery keeps the in-order sequence. \<open>demo_core\<close> satisfies it. Further
  arguments are the answers of pool allocations and cleanups, nginx's parsing and printing of HTTP dates,
  the digests (SHA-256, CRC-32), the pieces and the end of a socket's stream, the launch of a
  connection, and, for the SCAN pattern, what Redis's glob matcher promises (\<open>glob_laws\<close>).

  \<^bold>\<open>Termination.\<close> No fuel is used: the eviction loop is bounded by the queue lengths, the flush
  loop by the number of nodes at its start, the sketch's rounding loop by the zone size, every scan by the
  bytes left, a reader by what the socket still holds, the SCAN walk by its pages.

  \<^bold>\<open>Not modelled.\<close> Configuration parsing and merging, the preset tables, the admin and purge handlers, the
  probe upstream; of the request matching the URI trie and the query arguments; of the access phase the L2 wait, the cold lock and the breaker
  gate; of both L2 clients connecting, TLS, the keepalive pool, the back-off table, the suspended SSCAN
  walk and the parking of requests: these are nginx event plumbing around the modelled code. \<open>shm_stats\<close>
  (a read-only copy of counters), fault injection (\<open>TEST_FAULTS\<close>) and logging are left out. Counters
  that count single events from 0 are natural numbers: their wrap needs \<open>2 ^ 64\<close> events.
\<close>

end
